(* ===== verification/Rust_Prelude.thy ===== *)
theory Rust_Prelude
  imports Main "HOL-Library.Word" "HOL-Library.Multiset"
begin

unbundle bit_operations_syntax

text \<open>
  The vocabulary every component theory shares: machine integers, results, the crate's
  error type, the checked and saturating operations of \<open>usize\<close>, little- and big-endian
  byte conversions, byte readers that return the unread input, and the contract of a
  byte codec. \<open>f64\<close> values that the code only stores, copies or compares by their bits
  are their 64-bit patterns.
\<close>

section \<open>Machine types\<close>

type_synonym u8 = "8 word"
type_synonym u16 = "16 word"
type_synonym u32 = "32 word"
type_synonym u64 = "64 word"
type_synonym i32 = "32 word"
type_synonym i64 = "64 word"
type_synonym f32 = "32 word"
type_synonym f64 = "64 word"
type_synonym bytes = "u8 list"

text \<open>
  \<open>usize\<close> on a 64-bit target. Sizes and indices are naturals; where the code guards
  against overflow (\<open>checked_*\<close>, \<open>saturating_*\<close>) the guard is written out against
  \<open>usize_max\<close>.
\<close>

type_synonym usize = nat

definition usize_max :: usize where
  "usize_max = 2 ^ 64 - 1"

definition checked_add :: "usize \<Rightarrow> usize \<Rightarrow> usize option" where
  "checked_add a b = (if a + b \<le> usize_max then Some (a + b) else None)"

definition checked_mul :: "usize \<Rightarrow> usize \<Rightarrow> usize option" where
  "checked_mul a b = (if a * b \<le> usize_max then Some (a * b) else None)"

definition saturating_add :: "usize \<Rightarrow> usize \<Rightarrow> usize" where
  "saturating_add a b = min (a + b) usize_max"

definition saturating_mul :: "usize \<Rightarrow> usize \<Rightarrow> usize" where
  "saturating_mul a b = min (a * b) usize_max"

text \<open>
  Unsigned subtraction without a guard. Rust panics (or wraps, in a release build) below
  zero; the model makes that case \<open>None\<close>, and the theorems show it does not occur.
\<close>

definition sub_usize :: "usize \<Rightarrow> usize \<Rightarrow> usize option" where
  "sub_usize a b = (if b \<le> a then Some (a - b) else None)"

named_theorems usize_defs
lemmas usize_ops_defs [usize_defs] =
  checked_add_def checked_mul_def saturating_add_def saturating_mul_def sub_usize_def

lemma checked_add_Some [simp]: "checked_add a b = Some c \<longleftrightarrow> c = a + b \<and> a + b \<le> usize_max"
  by (auto simp: checked_add_def)

lemma checked_mul_Some [simp]: "checked_mul a b = Some c \<longleftrightarrow> c = a * b \<and> a * b \<le> usize_max"
  by (auto simp: checked_mul_def)

lemma sub_usize_Some [simp]: "sub_usize a b = Some c \<longleftrightarrow> b \<le> a \<and> c = a - b"
  by (auto simp: sub_usize_def)

section \<open>Results\<close>

text \<open>\<open>Result\<close> is a sum, the error on the left.\<close>

abbreviation Ok :: "'a \<Rightarrow> 'e + 'a" where "Ok \<equiv> Inr"
abbreviation Err :: "'e \<Rightarrow> 'e + 'a" where "Err \<equiv> Inl"

text \<open>The \<open>?\<close> operator.\<close>

fun bind_res :: "'e + 'a \<Rightarrow> ('a \<Rightarrow> 'e + 'b) \<Rightarrow> 'e + 'b" where
  "bind_res (Inl e) f = Inl e"
| "bind_res (Inr x) f = f x"

lemma bind_res_Ok [simp]: "bind_res r f = Ok y \<longleftrightarrow> (\<exists>x. r = Ok x \<and> f x = Ok y)"
  by (cases r) auto

lemma bind_res_Err [simp]: "bind_res r f = Err e \<longleftrightarrow> r = Err e \<or> (\<exists>x. r = Ok x \<and> f x = Err e)"
  by (cases r) auto

fun ok_or :: "'a option \<Rightarrow> 'e \<Rightarrow> 'e + 'a" where
  "ok_or None e = Err e"
| "ok_or (Some x) e = Ok x"

lemma ok_or_Ok [simp]: "ok_or o1 e = Ok x \<longleftrightarrow> o1 = Some x"
  by (cases o1) auto

text \<open>A loop whose body may panic.\<close>

fun fold_opt :: "('a \<Rightarrow> 's \<Rightarrow> 's option) \<Rightarrow> 'a list \<Rightarrow> 's \<Rightarrow> 's option" where
  "fold_opt f [] s = Some s"
| "fold_opt f (x # xs) s = Option.bind (f x s) (fold_opt f xs)"

lemma fold_opt_map: "fold_opt (\<lambda>i. f (g i)) xs s = fold_opt f (map g xs) s"
proof (induction xs arbitrary: s)
  case (Cons a as)
  then show ?case by (cases "f (g a) s") simp_all
qed simp

lemma fold_opt_append: "fold_opt f (xs @ ys) s = Option.bind (fold_opt f xs s) (fold_opt f ys)"
proof (induction xs arbitrary: s)
  case (Cons a as)
  then show ?case by (cases "f a s") simp_all
qed simp

text \<open>
  The crate's error type (\<open>error.rs\<close>), with the variants the modelled code raises. A
  formatted message keeps its text; the values it interpolates are left out.
\<close>

datatype io_kind = UnexpectedEof | InvalidData | InvalidInput | OtherIo

datatype rh3_error =
    StreamFailed string
  | IoError io_kind string
  | InvalidMetadata string
  | InvalidParameter string
  | TransformFailures u64

section \<open>Words as numbers\<close>

lemma unat_and_mask: "unat (x AND mask n) = unat (x :: 'a::len word) mod 2 ^ n"
  by (metis take_bit_eq_mask take_bit_eq_mod unsigned_take_bit_eq)

lemma unat_and_15: "unat (x AND 15) = unat (x :: 'a::len word) mod 16"
  using unat_and_mask [of x 4] by (simp add: mask_eq_exp_minus_1)

lemma unat_and_127: "unat (x AND 127) = unat (x :: 'a::len word) mod 128"
  using unat_and_mask [of x 7] by (simp add: mask_eq_exp_minus_1)

lemma unat_drop_bit: "unat (drop_bit n x) = unat (x :: 'a::len word) div 2 ^ n"
  unfolding unat_drop_bit_eq by (rule drop_bit_eq_div)

lemma unat_ucast_mod: "unat (ucast (x :: 'a::len word) :: 'b::len word) = unat x mod 2 ^ LENGTH('b)"
proof -
  have "unat (ucast x :: 'b word) = take_bit LENGTH('b) (unat x)" by (rule unsigned_ucast_eq)
  then show ?thesis by (simp only: take_bit_eq_mod)
qed

lemma unat_word_of_nat_id: "n < 2 ^ LENGTH('a) \<Longrightarrow> unat (word_of_nat n :: 'a::len word) = n"
  by (rule of_nat_inverse [OF refl])

lemma word_of_nat_inj:
  "m < 2 ^ LENGTH('a) \<Longrightarrow> n < 2 ^ LENGTH('a) \<Longrightarrow>
   word_of_nat m = (word_of_nat n :: 'a::len word) \<longleftrightarrow> m = n"
  by (metis unat_word_of_nat_id)

lemma word_of_nat_unat [simp]: "word_of_nat (unat x) = (x :: 'a::len word)"
  by simp

lemma unat_eq_iff_word_of_nat:
  "n < 2 ^ LENGTH('a) \<Longrightarrow> unat (x :: 'a::len word) = n \<longleftrightarrow> x = word_of_nat n"
  using unat_word_of_nat_id [where ?'a = 'a, of n] by auto

declare unat_eq_0 [simp] unat_gt_0 [simp]

lemma unat_u64_less: "unat (x :: 64 word) < 2 ^ 64"
proof -
  have "unat x < 2 ^ LENGTH(64)" by (rule unsigned_less)
  then show ?thesis by simp
qed

lemma unat_u32_less: "unat (x :: 32 word) < 2 ^ 32"
proof -
  have "unat x < 2 ^ LENGTH(32)" by (rule unsigned_less)
  then show ?thesis by simp
qed

lemma unat_u8_less: "unat (x :: 8 word) < 256"
proof -
  have "unat x < 2 ^ LENGTH(8)" by (rule unsigned_less)
  then show ?thesis by simp
qed

section \<open>Lists\<close>

lemma take_add_drop: "take n xs @ take m (drop n xs) = take (n + m) xs"
  by (simp add: take_add)

lemma list_all_nth_conv: "list_all P xs \<longleftrightarrow> (\<forall>i<length xs. P (xs ! i))"
  by (simp add: list_all_length)

lemma sum_list_map_append [simp]: "sum_list (map f (xs @ ys)) = sum_list (map f xs) + sum_list (map f ys)"
  by simp

lemma upt_split: "i \<le> j \<Longrightarrow> j \<le> k \<Longrightarrow> [i..<k] = [i..<j] @ [j..<k]"
  using upt_add_eq_append [of i j "k - j"] by simp

lemma sum_list_map_update:
  fixes f :: "'a \<Rightarrow> nat"
  shows "i < length xs \<Longrightarrow>
     sum_list (map f (xs[i := x])) + f (xs ! i) = sum_list (map f xs) + f x"
  by (induction xs arbitrary: i) (auto split: nat.splits simp: nth_Cons')

lemma member_le_sum_list_map:
  fixes f :: "'a \<Rightarrow> nat"
  shows "i < length xs \<Longrightarrow> f (xs ! i) \<le> sum_list (map f xs)"
  by (simp add: member_le_sum_list)

lemma concat_map_length_const:
  "(\<And>x. x \<in> set xs \<Longrightarrow> length (f x) = k) \<Longrightarrow> length (concat (map f xs)) = k * length xs"
  by (induction xs) auto

end
