(* ===== verification/Float64.thy ===== *)
theory Float64
  imports Rust_Prelude
begin

text \<open>
  IEEE 754 binary arithmetic on bit patterns, for the code's \<open>f64\<close> and \<open>f32\<close>: a pattern is
  unpacked to a sign, an integer significand and an exponent, the operation is exact on those,
  and the result is rounded to nearest, ties to even. Every NaN result is the one quiet NaN.
\<close>

section \<open>Unpacked values\<close>

datatype fval = FNan | FInf bool | FFin bool nat int

text \<open>\<open>FFin s m e\<close> stands for \<open>(-1)^s * m * 2^e\<close>. The formats are given by the number of fraction bits and the exponent bias.\<close>

definition unpack_gen :: "nat \<Rightarrow> nat \<Rightarrow> bool \<Rightarrow> nat \<Rightarrow> fval" where
  "unpack_gen fb bias s n =
     (let ex = n div 2 ^ fb; fr = n mod 2 ^ fb
      in if ex = 2 * bias + 1 then (if fr = 0 then FInf s else FNan)
         else if ex = 0 then FFin s fr (1 - int bias - int fb)
         else FFin s (2 ^ fb + fr) (int ex - int bias - int fb))"

definition unpack :: "f64 \<Rightarrow> fval" where
  "unpack x = unpack_gen 52 1023 (unat x div 2 ^ 63 = 1) (unat x mod 2 ^ 63)"

definition unpack32 :: "f32 \<Rightarrow> fval" where
  "unpack32 x = unpack_gen 23 127 (unat x div 2 ^ 31 = 1) (unat x mod 2 ^ 31)"

fun bitlen :: "nat \<Rightarrow> nat" where
  "bitlen n = (if n = 0 then 0 else Suc (bitlen (n div 2)))"

declare bitlen.simps [simp del]

text \<open>The pattern, without the sign, of the value nearest to \<open>n / d\<close>.\<close>

definition round_gen :: "nat \<Rightarrow> nat \<Rightarrow> nat \<Rightarrow> nat \<Rightarrow> nat" where
  "round_gen fb bias n d =
     (if n = 0 then 0
      else (let emin = 1 - int bias - int fb;
                e0 = int (bitlen n) - int (bitlen d) - int fb - 1;
                scaled = (\<lambda>e. (n * 2 ^ nat (- e), d * 2 ^ nat e));
                e1 = (case scaled e0 of (a, b) \<Rightarrow> if a div b \<ge> 2 ^ (fb + 1) then e0 + 1 else e0);
                e = max e1 emin;
                (a, b) = scaled e;
                q = a div b; r = a mod b;
                q' = (if 2 * r > b \<or> (2 * r = b \<and> odd q) then q + 1 else q);
                (q'', e') = (if q' \<ge> 2 ^ (fb + 1) then (q' div 2, e + 1) else (q', e))
            in if q'' < 2 ^ fb then q''
               else if e' + int bias + int fb \<ge> 2 * int bias + 1 then (2 * bias + 1) * 2 ^ fb
               else nat (e' + int bias + int fb) * 2 ^ fb + (q'' - 2 ^ fb)))"

definition round_rat :: "bool \<Rightarrow> nat \<Rightarrow> nat \<Rightarrow> f64" where
  "round_rat s n d = word_of_nat ((if s then 2 ^ 63 else 0) + round_gen 52 1023 n d)"

definition round_rat32 :: "bool \<Rightarrow> nat \<Rightarrow> nat \<Rightarrow> f32" where
  "round_rat32 s n d = word_of_nat ((if s then 2 ^ 31 else 0) + round_gen 23 127 n d)"

definition f64_half :: f64 where "f64_half = 0x3FE0000000000000"
definition f64_one :: f64 where "f64_one = 0x3FF0000000000000"
definition f64_two :: f64 where "f64_two = 0x4000000000000000"
definition f64_nan :: f64 where "f64_nan = 0x7FF8000000000000"
definition f64_inf :: f64 where "f64_inf = 0x7FF0000000000000"
definition f64_neg_inf :: f64 where "f64_neg_inf = 0xFFF0000000000000"

definition inf_of :: "bool \<Rightarrow> f64" where
  "inf_of s = (if s then f64_neg_inf else f64_inf)"

definition zero_of :: "bool \<Rightarrow> f64" where
  "zero_of s = (if s then 0x8000000000000000 else 0)"

definition round_scaled :: "bool \<Rightarrow> nat \<Rightarrow> int \<Rightarrow> f64" where
  "round_scaled s m e = round_rat s (m * 2 ^ nat e) (2 ^ nat (- e))"

section \<open>Classification and sign\<close>

definition f64_is_nan :: "f64 \<Rightarrow> bool" where
  "f64_is_nan x = (unpack x = FNan)"

definition f64_is_finite :: "f64 \<Rightarrow> bool" where
  "f64_is_finite x = (case unpack x of FFin _ _ _ \<Rightarrow> True | _ \<Rightarrow> False)"

definition f64_abs :: "f64 \<Rightarrow> f64" where
  "f64_abs x = x AND 0x7FFFFFFFFFFFFFFF"

definition f64_neg :: "f64 \<Rightarrow> f64" where
  "f64_neg x = x XOR 0x8000000000000000"

section \<open>Comparison\<close>

definition signed_sig :: "bool \<Rightarrow> nat \<Rightarrow> int" where
  "signed_sig s m = (if s then - int m else int m)"

text \<open>The two values over a common exponent.\<close>

definition aligned :: "bool \<Rightarrow> nat \<Rightarrow> int \<Rightarrow> bool \<Rightarrow> nat \<Rightarrow> int \<Rightarrow> int \<times> int" where
  "aligned s m e s' m' e' =
     (signed_sig s m * 2 ^ nat (e - min e e'), signed_sig s' m' * 2 ^ nat (e' - min e e'))"

fun fval_lt :: "fval \<Rightarrow> fval \<Rightarrow> bool" where
  "fval_lt FNan _ = False"
| "fval_lt _ FNan = False"
| "fval_lt (FInf s) (FInf s') = (s \<and> \<not> s')"
| "fval_lt (FInf s) (FFin _ _ _) = s"
| "fval_lt (FFin _ _ _) (FInf s') = (\<not> s')"
| "fval_lt (FFin s m e) (FFin s' m' e') = (case aligned s m e s' m' e' of (a, b) \<Rightarrow> a < b)"

fun fval_eq :: "fval \<Rightarrow> fval \<Rightarrow> bool" where
  "fval_eq (FInf s) (FInf s') = (s = s')"
| "fval_eq (FFin s m e) (FFin s' m' e') = (case aligned s m e s' m' e' of (a, b) \<Rightarrow> a = b)"
| "fval_eq _ _ = False"

definition f64_lt :: "f64 \<Rightarrow> f64 \<Rightarrow> bool" where
  "f64_lt x y = fval_lt (unpack x) (unpack y)"

definition f64_eq :: "f64 \<Rightarrow> f64 \<Rightarrow> bool" where
  "f64_eq x y = fval_eq (unpack x) (unpack y)"

definition f64_le :: "f64 \<Rightarrow> f64 \<Rightarrow> bool" where
  "f64_le x y = (f64_lt x y \<or> f64_eq x y)"

text \<open>\<open>f64::min\<close> and \<open>f64::max\<close> return the other operand when one is NaN.\<close>

definition f64_min :: "f64 \<Rightarrow> f64 \<Rightarrow> f64" where
  "f64_min x y = (if f64_is_nan x then y else if f64_is_nan y then x else if f64_lt y x then y else x)"

definition f64_max :: "f64 \<Rightarrow> f64 \<Rightarrow> f64" where
  "f64_max x y = (if f64_is_nan x then y else if f64_is_nan y then x else if f64_lt x y then y else x)"

section \<open>Arithmetic\<close>

fun fval_add :: "fval \<Rightarrow> fval \<Rightarrow> f64" where
  "fval_add FNan _ = f64_nan"
| "fval_add _ FNan = f64_nan"
| "fval_add (FInf s) (FInf s') = (if s = s' then inf_of s else f64_nan)"
| "fval_add (FInf s) (FFin _ _ _) = inf_of s"
| "fval_add (FFin _ _ _) (FInf s') = inf_of s'"
| "fval_add (FFin s m e) (FFin s' m' e') =
     (case aligned s m e s' m' e' of (a, b) \<Rightarrow>
        if a + b = 0 then zero_of (s \<and> s')
        else round_scaled (a + b < 0) (nat \<bar>a + b\<bar>) (min e e'))"

definition f64_add :: "f64 \<Rightarrow> f64 \<Rightarrow> f64" where
  "f64_add x y = fval_add (unpack x) (unpack y)"

definition f64_sub :: "f64 \<Rightarrow> f64 \<Rightarrow> f64" where
  "f64_sub x y = f64_add x (f64_neg y)"

fun fval_mul :: "fval \<Rightarrow> fval \<Rightarrow> f64" where
  "fval_mul FNan _ = f64_nan"
| "fval_mul _ FNan = f64_nan"
| "fval_mul (FInf s) (FInf s') = inf_of (s \<noteq> s')"
| "fval_mul (FInf s) (FFin s' m _) = (if m = 0 then f64_nan else inf_of (s \<noteq> s'))"
| "fval_mul (FFin s m _) (FInf s') = (if m = 0 then f64_nan else inf_of (s \<noteq> s'))"
| "fval_mul (FFin s m e) (FFin s' m' e') = round_scaled (s \<noteq> s') (m * m') (e + e')"

definition f64_mul :: "f64 \<Rightarrow> f64 \<Rightarrow> f64" where
  "f64_mul x y = fval_mul (unpack x) (unpack y)"

fun fval_div :: "fval \<Rightarrow> fval \<Rightarrow> f64" where
  "fval_div FNan _ = f64_nan"
| "fval_div _ FNan = f64_nan"
| "fval_div (FInf _) (FInf _) = f64_nan"
| "fval_div (FInf s) (FFin s' _ _) = inf_of (s \<noteq> s')"
| "fval_div (FFin s _ _) (FInf s') = zero_of (s \<noteq> s')"
| "fval_div (FFin s m e) (FFin s' m' e') =
     (if m' = 0 then (if m = 0 then f64_nan else inf_of (s \<noteq> s'))
      else round_rat (s \<noteq> s') (m * 2 ^ nat (e - e')) (m' * 2 ^ nat (e' - e)))"

definition f64_div :: "f64 \<Rightarrow> f64 \<Rightarrow> f64" where
  "f64_div x y = fval_div (unpack x) (unpack y)"

text \<open>The remainder \<open>%\<close> is exact and has the sign of the dividend.\<close>

fun fval_rem :: "f64 \<Rightarrow> fval \<Rightarrow> fval \<Rightarrow> f64" where
  "fval_rem x (FFin s m e) (FFin s' m' e') =
     (if m' = 0 then f64_nan
      else (case aligned False m e False m' e' of (a, b) \<Rightarrow>
              if a mod b = 0 then zero_of s else round_scaled s (nat (a mod b)) (min e e')))"
| "fval_rem x (FFin _ _ _) (FInf _) = x"
| "fval_rem x _ _ = f64_nan"

definition f64_rem :: "f64 \<Rightarrow> f64 \<Rightarrow> f64" where
  "f64_rem x y = fval_rem x (unpack x) (unpack y)"

definition f64_rem_euclid :: "f64 \<Rightarrow> f64 \<Rightarrow> f64" where
  "f64_rem_euclid x y = (let r = f64_rem x y in if f64_lt r 0 then f64_add r (f64_abs y) else r)"

section \<open>Conversions\<close>

definition f64_of_int :: "int \<Rightarrow> f64" where
  "f64_of_int i = round_rat (i < 0) (nat \<bar>i\<bar>) 1"

text \<open>Rounding to an integral value, given the rounding of the magnitude \<open>m / 2^k\<close>.\<close>

definition f64_integral :: "(bool \<Rightarrow> nat \<Rightarrow> nat \<Rightarrow> nat) \<Rightarrow> f64 \<Rightarrow> f64" where
  "f64_integral h x =
     (case unpack x of
        FFin s m e \<Rightarrow>
          (if e \<ge> 0 then x
           else (let n = h s m (2 ^ nat (- e)) in if n = 0 then zero_of s else round_rat s n 1))
      | _ \<Rightarrow> x)"

definition f64_trunc :: "f64 \<Rightarrow> f64" where
  "f64_trunc = f64_integral (\<lambda>s m d. m div d)"

definition f64_floor :: "f64 \<Rightarrow> f64" where
  "f64_floor = f64_integral (\<lambda>s m d. if s then (m + d - 1) div d else m div d)"

definition f64_ceil :: "f64 \<Rightarrow> f64" where
  "f64_ceil = f64_integral (\<lambda>s m d. if s then m div d else (m + d - 1) div d)"

text \<open>\<open>f64::round\<close>: halves go away from zero.\<close>

definition f64_round :: "f64 \<Rightarrow> f64" where
  "f64_round = f64_integral (\<lambda>s m d. (2 * m + d) div (2 * d))"

text \<open>\<open>as\<close> an integer type with the range \<open>lo..hi\<close>: toward zero, saturating, NaN to zero.\<close>

definition f64_to_int :: "int \<Rightarrow> int \<Rightarrow> f64 \<Rightarrow> int" where
  "f64_to_int lo hi x =
     (case unpack x of
        FNan \<Rightarrow> 0
      | FInf s \<Rightarrow> (if s then lo else hi)
      | FFin s m e \<Rightarrow> max lo (min hi (signed_sig s (m * 2 ^ nat e div 2 ^ nat (- e)))))"

definition f64_to_i32 :: "f64 \<Rightarrow> i32" where
  "f64_to_i32 x = word_of_int (f64_to_int (- (2 ^ 31)) (2 ^ 31 - 1) x)"

definition f64_to_i64 :: "f64 \<Rightarrow> i64" where
  "f64_to_i64 x = word_of_int (f64_to_int (- (2 ^ 63)) (2 ^ 63 - 1) x)"

definition f64_to_usize :: "f64 \<Rightarrow> usize" where
  "f64_to_usize x = nat (f64_to_int 0 (2 ^ 64 - 1) x)"

definition f64_of_f32 :: "f32 \<Rightarrow> f64" where
  "f64_of_f32 x =
     (case unpack32 x of FNan \<Rightarrow> f64_nan | FInf s \<Rightarrow> inf_of s | FFin s m e \<Rightarrow> if m = 0 then zero_of s else round_scaled s m e)"

definition f32_of_f64 :: "f64 \<Rightarrow> f32" where
  "f32_of_f64 x =
     (case unpack x of
        FNan \<Rightarrow> 0x7FC00000
      | FInf s \<Rightarrow> (if s then 0xFF800000 else 0x7F800000)
      | FFin s m e \<Rightarrow> round_rat32 s (m * 2 ^ nat e) (2 ^ nat (- e)))"

section \<open>Order facts\<close>

lemma fval_lt_irrefl [simp]: "\<not> fval_lt x x"
  by (cases x) (auto simp: aligned_def)

lemma f64_lt_irrefl [simp]: "\<not> f64_lt x x"
  by (simp add: f64_lt_def)

lemma fval_lt_asym: "fval_lt x y \<Longrightarrow> \<not> fval_lt y x"
  by (cases x; cases y) (auto simp: aligned_def min.commute)

lemma fval_total: "x \<noteq> FNan \<Longrightarrow> y \<noteq> FNan \<Longrightarrow> fval_lt x y \<or> fval_eq x y \<or> fval_lt y x"
  by (cases x; cases y) (auto simp: aligned_def min.commute)

lemma fval_eq_sym: "fval_eq x y \<longleftrightarrow> fval_eq y x"
  by (cases x; cases y) (auto simp: aligned_def min.commute)

lemma f64_total: "\<not> f64_is_nan x \<Longrightarrow> \<not> f64_is_nan y \<Longrightarrow> f64_le x y \<or> f64_lt y x"
  using fval_total [of "unpack x" "unpack y"] by (auto simp: f64_is_nan_def f64_le_def f64_lt_def f64_eq_def)

section \<open>Evaluation\<close>

text \<open>The rules by which \<open>simp\<close> computes an operation on concrete patterns.\<close>

lemma bitlen_0: "bitlen 0 = 0"
  by (subst bitlen.simps) simp

lemma bitlen_Suc: "0 < n \<Longrightarrow> bitlen n = Suc (bitlen (n div 2))"
  by (subst bitlen.simps) simp

lemma round_gen_0: "round_gen fb bias 0 d = 0"
  by (simp add: round_gen_def)

lemma round_gen_steps:
  assumes "n \<noteq> 0" "int (bitlen n) - int (bitlen d) - int fb - 1 = e0"
    and "n * 2 ^ nat (- e0) = a0" "d * 2 ^ nat e0 = b0"
    and "(if a0 div b0 \<ge> 2 ^ (fb + 1) then e0 + 1 else e0) = e1"
    and "max e1 (1 - int bias - int fb) = e" "n * 2 ^ nat (- e) = a" "d * 2 ^ nat e = b"
    and "a div b = q" "a mod b = r" "(if 2 * r > b \<or> (2 * r = b \<and> odd q) then q + 1 else q) = q'"
    and "(if q' \<ge> 2 ^ (fb + 1) then (q' div 2, e + 1) else (q', e)) = qe"
  shows "round_gen fb bias n d =
    (if fst qe < 2 ^ fb then fst qe
     else if snd qe + int bias + int fb \<ge> 2 * int bias + 1 then (2 * bias + 1) * 2 ^ fb
     else nat (snd qe + int bias + int fb) * 2 ^ fb + (fst qe - 2 ^ fb))"
  unfolding round_gen_def Let_def by (simp only: assms case_prod_beta fst_conv snd_conv if_False)

lemmas f64_eval =
  f64_lt_def f64_le_def f64_eq_def f64_is_nan_def f64_min_def f64_max_def f64_sub_def f64_add_def f64_mul_def
  f64_div_def f64_neg_def unpack_def unpack_gen_def Let_def aligned_def signed_sig_def round_scaled_def
  round_rat_def round_gen_0 round_gen_steps zero_of_def bitlen_0 bitlen_Suc

end
