(* ===== verification/Float_Order.thy ===== *)
theory Float_Order
  imports Float64
begin

text \<open>
  The order of \<open>f64\<close> values that are not NaN is the order of integer keys read off their patterns,
  so that transitivity, totality and the agreement with \<open>total_cmp\<close> are facts about integers; and
  rounding a value that is a pattern already gives that pattern back.
\<close>

section \<open>Magnitudes\<close>

definition f64_mag :: "f64 \<Rightarrow> nat" where
  "f64_mag x = unat x mod 2 ^ 63"

definition f64_sign :: "f64 \<Rightarrow> bool" where
  "f64_sign x \<longleftrightarrow> unat x div 2 ^ 63 = 1"

definition inf_mag :: nat where
  "inf_mag = 2047 * 2 ^ 52"

text \<open>A finite magnitude as a multiple of the smallest subnormal.\<close>

definition mag_value :: "nat \<Rightarrow> nat" where
  "mag_value n = (if n div 2 ^ 52 = 0 then n mod 2 ^ 52 else (2 ^ 52 + n mod 2 ^ 52) * 2 ^ (n div 2 ^ 52 - 1))"

lemma unpack_mag: "unpack x = unpack_gen 52 1023 (f64_sign x) (f64_mag x)"
  by (simp add: unpack_def f64_sign_def f64_mag_def)

lemma f64_mag_less: "f64_mag x < 2 ^ 63"
  by (simp add: f64_mag_def)

lemma div_1_split: "a div p = 1 \<Longrightarrow> a = p + a mod (p :: nat)"
  by (metis div_mult_mod_eq mult_1)

lemma div_0_split: "a div p = 0 \<Longrightarrow> a = a mod (p :: nat)"
  by (metis add_0 div_mult_mod_eq mult_0)

lemma f64_pattern: "unat x = (if f64_sign x then 2 ^ 63 else 0) + f64_mag x"
proof -
  have "unat x < 2 ^ 63 * 2" using unat_u64_less [of x] by simp
  then have "unat x div 2 ^ 63 < 2" by (simp add: less_mult_imp_div_less)
  then have "unat x div 2 ^ 63 = 0 \<or> unat x div 2 ^ 63 = 1" by linarith
  then show ?thesis
  proof
    assume z: "unat x div 2 ^ 63 = 0"
    show ?thesis unfolding f64_sign_def f64_mag_def z using div_0_split [OF z] by (simp only: if_False add_0 zero_neq_one)
  next
    assume o: "unat x div 2 ^ 63 = 1"
    show ?thesis unfolding f64_sign_def f64_mag_def o using div_1_split [OF o] by (simp only: if_True refl)
  qed
qed

lemma exp_step:
  fixes p n :: nat
  assumes "0 < p"
  shows "(if n div p = 0 then n mod p else (p + n mod p) * 2 ^ (n div p - 1))
    < (if Suc n div p = 0 then Suc n mod p else (p + Suc n mod p) * 2 ^ (Suc n div p - 1))"
proof (cases "Suc (n mod p) = p")
  case True
  then have d: "Suc n div p = Suc (n div p)" "Suc n mod p = 0"
    by (simp_all add: div_Suc mod_Suc)
  have m: "n mod p < p" using assms by simp
  show ?thesis
  proof (cases "n div p")
    case (Suc k)
    have "(p + n mod p) * 2 ^ k < (2 * p) * 2 ^ k" using m by simp
    then show ?thesis unfolding d Suc by (simp add: algebra_simps)
  qed (use m d in simp)
next
  case False
  then have "Suc n div p = n div p" "Suc n mod p = Suc (n mod p)"
    by (simp_all add: div_Suc mod_Suc)
  then show ?thesis by simp
qed

lemma mag_value_step: "mag_value n < mag_value (Suc n)"
  unfolding mag_value_def by (rule exp_step) simp

lemma mag_value_strict_mono: "strict_mono mag_value"
  using mag_value_step by (simp add: strict_mono_Suc_iff)

lemma mag_value_less: "mag_value m < mag_value n \<longleftrightarrow> m < n"
  using mag_value_strict_mono by (rule strict_mono_less)

lemma mag_value_eq: "mag_value m = mag_value n \<longleftrightarrow> m = n"
  using mag_value_strict_mono by (rule strict_mono_eq)

lemma mag_value_0 [simp]: "mag_value 0 = 0"
  by (simp add: mag_value_def)

section \<open>Keys\<close>

definition f64_key :: "f64 \<Rightarrow> int" where
  "f64_key x = (if f64_sign x then - int (f64_mag x) else int (f64_mag x))"

lemma unpack_cases:
  shows "f64_mag x < inf_mag \<Longrightarrow> \<exists>m e. unpack x = FFin (f64_sign x) m e \<and> -1074 \<le> e \<and> mag_value (f64_mag x) = m * 2 ^ nat (e + 1074)"
    and "f64_mag x = inf_mag \<Longrightarrow> unpack x = FInf (f64_sign x)"
    and "f64_mag x > inf_mag \<Longrightarrow> unpack x = FNan"
proof -
  let ?n = "f64_mag x" and ?p = "2 ^ 52 :: nat"
  have le: "?n div ?p \<le> 2047" using f64_mag_less [of x] by (simp add: less_mult_imp_div_less less_Suc_eq_le [symmetric])
  show "\<exists>m e. unpack x = FFin (f64_sign x) m e \<and> -1074 \<le> e \<and> mag_value ?n = m * 2 ^ nat (e + 1074)" if "?n < inf_mag"
  proof -
    have lt: "?n div ?p < 2047" using that by (simp add: inf_mag_def less_mult_imp_div_less)
    show ?thesis
    proof (cases "?n div ?p = 0")
      case True
      then show ?thesis by (simp add: unpack_mag unpack_gen_def Let_def mag_value_def)
    next
      case False
      have "nat (int (?n div ?p) - 1023 - 52 + 1074) = ?n div ?p - 1" using False by linarith
      then show ?thesis using lt False by (simp add: unpack_mag unpack_gen_def Let_def mag_value_def)
    qed
  qed
  show "unpack x = FInf (f64_sign x)" if "?n = inf_mag"
    using that by (simp add: unpack_mag unpack_gen_def Let_def inf_mag_def)
  show "unpack x = FNan" if "?n > inf_mag"
  proof -
    have "2047 \<le> ?n div ?p" using that div_le_mono [of "2047 * ?p" ?n ?p] by (simp add: inf_mag_def)
    then have d: "?n div ?p = 2047" using le by simp
    have "?n mod ?p \<noteq> 0"
      using that div_mult_mod_eq [of ?n ?p] unfolding d by (simp add: inf_mag_def)
    then show ?thesis using d by (simp add: unpack_mag unpack_gen_def Let_def)
  qed
qed

lemma not_nan_iff: "\<not> f64_is_nan x \<longleftrightarrow> f64_mag x \<le> inf_mag"
proof -
  consider "f64_mag x < inf_mag" | "f64_mag x = inf_mag" | "f64_mag x > inf_mag" by linarith
  then show ?thesis
    using unpack_cases [of x] by cases (auto simp: f64_is_nan_def)
qed

lemma key_signed: "f64_key x = signed_sig (f64_sign x) (f64_mag x)"
  by (simp add: f64_key_def signed_sig_def)

lemma mag_value_pos: "0 < mag_value n \<longleftrightarrow> 0 < n"
  using mag_value_less [of 0 n] by simp

lemma signed_mag_less:
  "signed_sig s (mag_value m) < signed_sig s' (mag_value n) \<longleftrightarrow> signed_sig s m < signed_sig s' n"
  by (cases s; cases s') (use mag_value_less [of m n] mag_value_less [of n m] mag_value_pos [of m] mag_value_pos [of n]
    in \<open>auto simp: signed_sig_def\<close>)

text \<open>Aligned significands are the scaled values over a common power of two.\<close>

lemma aligned_scaled:
  assumes "-1074 \<le> e" "-1074 \<le> e'"
  defines "k \<equiv> 2 ^ nat (min e e' + 1074) :: int"
  shows "fst (aligned s m e s' m' e') * k = signed_sig s (m * 2 ^ nat (e + 1074))"
    and "snd (aligned s m e s' m' e') * k = signed_sig s' (m' * 2 ^ nat (e' + 1074))"
proof -
  have p: "(2 :: int) ^ nat (e - min e e') * k = 2 ^ nat (e + 1074)"
    "(2 :: int) ^ nat (e' - min e e') * k = 2 ^ nat (e' + 1074)"
    using assms(1,2) unfolding k_def power_add [symmetric]
    by (simp_all add: nat_add_distrib [symmetric] min_def)
  have "fst (aligned s m e s' m' e') * k = signed_sig s m * (2 ^ nat (e - min e e') * k)"
    by (simp add: aligned_def)
  then show "fst (aligned s m e s' m' e') * k = signed_sig s (m * 2 ^ nat (e + 1074))"
    unfolding p by (simp add: signed_sig_def)
  have "snd (aligned s m e s' m' e') * k = signed_sig s' m' * (2 ^ nat (e' - min e e') * k)"
    by (simp add: aligned_def)
  then show "snd (aligned s m e s' m' e') * k = signed_sig s' (m' * 2 ^ nat (e' + 1074))"
    unfolding p by (simp add: signed_sig_def)
qed

lemma fval_lt_scaled:
  assumes "-1074 \<le> e" "-1074 \<le> e'"
  shows "fval_lt (FFin s m e) (FFin s' m' e') \<longleftrightarrow>
    signed_sig s (m * 2 ^ nat (e + 1074)) < signed_sig s' (m' * 2 ^ nat (e' + 1074))"
proof -
  let ?k = "2 ^ nat (min e e' + 1074) :: int" and ?p = "aligned s m e s' m' e'"
  have "fst ?p < snd ?p \<longleftrightarrow> fst ?p * ?k < snd ?p * ?k" by simp
  then show ?thesis
    by (simp only: aligned_scaled [OF assms] fval_lt.simps case_prod_beta)
qed

lemma mag_key_bounds:
  "f64_mag x < inf_mag \<Longrightarrow> \<bar>f64_key x\<bar> < int inf_mag"
  "f64_mag x = inf_mag \<Longrightarrow> f64_key x = (if f64_sign x then - int inf_mag else int inf_mag)"
  by (auto simp: f64_key_def)

lemma f64_lt_key:
  assumes "\<not> f64_is_nan x" "\<not> f64_is_nan y"
  shows "f64_lt x y \<longleftrightarrow> f64_key x < f64_key y"
proof -
  have i0: "0 < inf_mag" by (simp add: inf_mag_def)
  consider (fin) "f64_mag x < inf_mag" "f64_mag y < inf_mag" | (xi) "f64_mag x = inf_mag" "f64_mag y < inf_mag"
    | (yi) "f64_mag x < inf_mag" "f64_mag y = inf_mag" | (inf) "f64_mag x = inf_mag" "f64_mag y = inf_mag"
    using assms by (fastforce simp: not_nan_iff)
  then show ?thesis
  proof cases
    case fin
    obtain m e m' e' where u: "unpack x = FFin (f64_sign x) m e" "-1074 \<le> e" "mag_value (f64_mag x) = m * 2 ^ nat (e + 1074)"
        "unpack y = FFin (f64_sign y) m' e'" "-1074 \<le> e'" "mag_value (f64_mag y) = m' * 2 ^ nat (e' + 1074)"
      using unpack_cases(1) [OF fin(1)] unpack_cases(1) [OF fin(2)] by blast
    show ?thesis
      using signed_mag_less [of "f64_sign x" "f64_mag x" "f64_sign y" "f64_mag y"]
      unfolding f64_lt_def u fval_lt_scaled [OF u(2,5)] key_signed by simp
  next
    case xi
    obtain m e where "unpack y = FFin (f64_sign y) m e" using unpack_cases(1) [OF xi(2)] by blast
    then show ?thesis
      using unpack_cases(2) [OF xi(1)] mag_key_bounds(1) [OF xi(2)] mag_key_bounds(2) [OF xi(1)] i0
      by (auto simp: f64_lt_def)
  next
    case yi
    obtain m e where "unpack x = FFin (f64_sign x) m e" using unpack_cases(1) [OF yi(1)] by blast
    then show ?thesis
      using unpack_cases(2) [OF yi(2)] mag_key_bounds(1) [OF yi(1)] mag_key_bounds(2) [OF yi(2)] i0
      by (auto simp: f64_lt_def)
  next
    case inf
    then show ?thesis
      using unpack_cases(2) [OF inf(1)] unpack_cases(2) [OF inf(2)] mag_key_bounds(2) [OF inf(1)] mag_key_bounds(2) [OF inf(2)] i0
      by (auto simp: f64_lt_def)
  qed
qed

lemma f64_lt_nan: "f64_is_nan x \<or> f64_is_nan y \<Longrightarrow> \<not> f64_lt x y"
  by (cases "unpack x"; cases "unpack y") (auto simp: f64_is_nan_def f64_lt_def)

lemma f64_eq_nan: "f64_is_nan x \<or> f64_is_nan y \<Longrightarrow> \<not> f64_eq x y"
  by (cases "unpack x"; cases "unpack y") (auto simp: f64_is_nan_def f64_eq_def)

lemma fval_lt_eq_excl: "fval_eq a b \<Longrightarrow> \<not> fval_lt a b"
  by (cases a; cases b) auto

lemma f64_eq_key:
  assumes "\<not> f64_is_nan x" "\<not> f64_is_nan y"
  shows "f64_eq x y \<longleftrightarrow> f64_key x = f64_key y"
proof -
  have "f64_eq x y \<longleftrightarrow> \<not> f64_lt x y \<and> \<not> f64_lt y x"
    using fval_total [of "unpack x" "unpack y"] fval_lt_eq_excl fval_eq_sym assms
    by (auto simp: f64_eq_def f64_lt_def f64_is_nan_def)
  then show ?thesis using f64_lt_key assms by auto
qed

lemma f64_le_key:
  "\<not> f64_is_nan x \<Longrightarrow> \<not> f64_is_nan y \<Longrightarrow> f64_le x y \<longleftrightarrow> f64_key x \<le> f64_key y"
  by (auto simp: f64_le_def f64_lt_key f64_eq_key)

lemma f64_lt_not_nan: "f64_lt x y \<Longrightarrow> \<not> f64_is_nan x \<and> \<not> f64_is_nan y"
  using f64_lt_nan by blast

lemma f64_le_not_nan: "f64_le x y \<Longrightarrow> \<not> f64_is_nan x \<and> \<not> f64_is_nan y"
  using f64_lt_nan f64_eq_nan by (auto simp: f64_le_def)

lemma f64_lt_trans: "f64_lt x y \<Longrightarrow> f64_lt y z \<Longrightarrow> f64_lt x z"
  using f64_lt_not_nan f64_lt_key by (metis order.strict_trans)

lemma f64_lt_le_trans: "f64_lt x y \<Longrightarrow> f64_le y z \<Longrightarrow> f64_lt x z"
  using f64_lt_not_nan f64_le_not_nan f64_lt_key f64_le_key by (metis order.strict_trans2)

lemma f64_le_trans: "f64_le x y \<Longrightarrow> f64_le y z \<Longrightarrow> f64_le x z"
  using f64_le_not_nan f64_le_key by (metis order.trans)

lemma f64_not_lt: "\<not> f64_is_nan x \<Longrightarrow> \<not> f64_is_nan y \<Longrightarrow> \<not> f64_lt x y \<longleftrightarrow> f64_le y x"
  by (auto simp: f64_lt_key f64_le_key)

section \<open>total_cmp\<close>

text \<open>\<open>total_cmp\<close> flips the magnitude bits of a negative pattern and compares as \<open>i64\<close>.\<close>

definition total_key :: "f64 \<Rightarrow> int" where
  "total_key x = (if f64_sign x then - 1 - int (f64_mag x) else int (f64_mag x))"

definition total_le :: "f64 \<Rightarrow> f64 \<Rightarrow> bool" where
  "total_le x y \<longleftrightarrow> total_key x \<le> total_key y"

lemma total_le_key: "total_le x y \<Longrightarrow> f64_key x \<le> f64_key y"
  by (auto simp: total_le_def total_key_def f64_key_def split: if_splits)

lemma total_le_le: "total_le x y \<Longrightarrow> \<not> f64_is_nan x \<Longrightarrow> \<not> f64_is_nan y \<Longrightarrow> f64_le x y"
  by (simp add: f64_le_key total_le_key)

section \<open>Rounding a representable value\<close>

lemma bitlen_pow_mult: "0 < m \<Longrightarrow> bitlen (m * 2 ^ k) = bitlen m + k"
proof (induction k)
  case (Suc k)
  then have "bitlen (m * 2 ^ Suc k) = Suc (bitlen (m * 2 ^ Suc k div 2))" by (intro bitlen_Suc) simp
  also have "m * 2 ^ Suc k div 2 = m * 2 ^ k" by simp
  finally show ?case using Suc by simp
qed simp

lemma bitlen_range: "2 ^ k \<le> m \<Longrightarrow> m < 2 ^ Suc k \<Longrightarrow> bitlen m = Suc k"
proof (induction k arbitrary: m)
  case 0
  then have "m = 1" by simp
  then show ?case using bitlen_Suc [of 1] bitlen_0 by simp
next
  case (Suc k)
  have "bitlen m = Suc (bitlen (m div 2))" using Suc.prems(1) by (intro bitlen_Suc) (simp add: order.strict_trans2 [of 0 "2 ^ Suc k"])
  moreover have "bitlen (m div 2) = Suc k"
    by (rule Suc.IH) (use Suc.prems in \<open>auto simp: less_mult_imp_div_less le_div_geq intro: div_le_mono [of "2 * 2 ^ k" m 2, simplified]\<close>)
  ultimately show ?case by simp
qed

lemma bitlen_less: "m < 2 ^ k \<Longrightarrow> bitlen m \<le> k"
proof (induction k arbitrary: m)
  case 0
  then show ?case by (simp add: bitlen_0)
next
  case (Suc k)
  show ?case
  proof (cases "m = 0")
    case False
    have "bitlen (m div 2) \<le> k" by (rule Suc.IH) (use Suc.prems in \<open>simp add: less_mult_imp_div_less\<close>)
    then show ?thesis using bitlen_Suc [of m] False by simp
  qed (simp add: bitlen_0)
qed

lemma pow_div: "j \<le> i \<Longrightarrow> (m * 2 ^ i) div 2 ^ j = m * 2 ^ (i - j :: nat)" for m :: nat
proof -
  assume "j \<le> i"
  then have "2 ^ i = 2 ^ (i - j) * (2 ^ j :: nat)" by (simp add: power_add [symmetric])
  then have "m * 2 ^ i = (m * 2 ^ (i - j)) * 2 ^ j" by (simp only: mult.assoc)
  then show ?thesis by (simp only:) simp
qed

lemma pow_mod: "j \<le> i \<Longrightarrow> (m * 2 ^ i) mod 2 ^ j = (0 :: nat)"
  by (simp add: le_imp_power_dvd)

lemma round_normal:
  fixes m k fb bias :: nat
  assumes m: "2 ^ fb \<le> m" "m < 2 ^ Suc fb" and k: "k < 2 * bias" and b: "1 \<le> bias + fb"
  shows "round_gen fb bias (m * 2 ^ k) (2 ^ (bias + fb - 1)) = (k + 1) * 2 ^ fb + (m - 2 ^ fb)"
proof -
  define D where "D = bias + fb - 1"
  define e where "e = int k - int D"
  have m0: "0 < m" using m(1) by (simp add: order.strict_trans2 [of 0 "2 ^ fb"])
  have bl: "bitlen (m * 2 ^ k) = Suc fb + k" "bitlen (2 ^ D) = Suc D"
    using bitlen_pow_mult [OF m0, of k] bitlen_range [OF m] bitlen_pow_mult [of 1 D] bitlen_Suc [of 1] bitlen_0 by simp_all
  have e0: "int (bitlen (m * 2 ^ k)) - int (bitlen (2 ^ D)) - int fb - 1 = e - 1"
    unfolding bl e_def by simp
  have q0: "(m * 2 ^ k * 2 ^ nat (- (e - 1))) div (2 ^ D * 2 ^ nat (e - 1)) = 2 * m"
  proof -
    have "k + nat (- (e - 1)) = Suc (D + nat (e - 1))" by (auto simp: e_def)
    then have "k + nat (- (e - 1)) - (D + nat (e - 1)) = 1" "D + nat (e - 1) \<le> k + nat (- (e - 1))" by simp_all
    then show ?thesis
      using pow_div [of "D + nat (e - 1)" "k + nat (- (e - 1))" m] by (simp add: power_add mult.assoc mult.commute)
  qed
  have kd: "k + nat (- e) = D + nat e" by (auto simp: e_def)
  have q: "(m * 2 ^ k * 2 ^ nat (- e)) div (2 ^ D * 2 ^ nat e) = m"
    using pow_div [of "D + nat e" "k + nat (- e)" m] unfolding power_add [symmetric] mult.assoc kd by simp
  have r: "(m * 2 ^ k * 2 ^ nat (- e)) mod (2 ^ D * 2 ^ nat e) = 0"
    using pow_mod [of "D + nat e" "k + nat (- e)" m] unfolding power_add [symmetric] mult.assoc kd by simp
  have emax: "max e (1 - int bias - int fb) = e" using b by (simp add: e_def D_def of_nat_diff)
  have e1: "(if (m * 2 ^ k * 2 ^ nat (- (e - 1))) div (2 ^ D * 2 ^ nat (e - 1)) \<ge> 2 ^ (fb + 1) then e - 1 + 1 else e - 1) = e"
    unfolding q0 using m(1) by simp
  have q': "(if 2 * (0 :: nat) > 2 ^ D * 2 ^ nat e \<or> (2 * 0 = (2 :: nat) ^ D * 2 ^ nat e \<and> odd m) then m + 1 else m) = m"
    by simp
  have qe: "(if m \<ge> 2 ^ (fb + 1) then (m div 2, e + 1) else (m, e)) = (m, e)" using m(2) by simp
  have "round_gen fb bias (m * 2 ^ k) (2 ^ D) =
    (if m < 2 ^ fb then m
     else if e + int bias + int fb \<ge> 2 * int bias + 1 then (2 * bias + 1) * 2 ^ fb
     else nat (e + int bias + int fb) * 2 ^ fb + (m - 2 ^ fb))"
    using round_gen_steps [OF _ e0 refl refl e1 emax refl refl q r q' qe] m0 by simp
  moreover have "e + int bias + int fb = int k + 1" using b by (simp add: e_def D_def of_nat_diff)
  moreover have "nat (int k + 1) = k + 1" by simp
  ultimately show ?thesis using m k unfolding D_def [symmetric] by simp
qed

lemma round_subnormal:
  fixes m fb bias :: nat
  assumes m: "m < 2 ^ fb" and b: "1 \<le> bias + fb"
  shows "round_gen fb bias m (2 ^ (bias + fb - 1)) = m"
proof (cases "m = 0")
  case False
  define D where "D = bias + fb - 1"
  define e0 where "e0 = int (bitlen m) - int (bitlen (2 ^ D)) - int fb - 1"
  define e1 where "e1 = (if (m * 2 ^ nat (- e0)) div (2 ^ D * 2 ^ nat e0) \<ge> 2 ^ (fb + 1) then e0 + 1 else e0)"
  have "bitlen (2 ^ D) = Suc D" using bitlen_pow_mult [of 1 D] bitlen_Suc [of 1] bitlen_0 by simp
  then have "e1 \<le> - int D" using bitlen_less [OF m] by (simp add: e1_def e0_def)
  then have emax: "max e1 (1 - int bias - int fb) = - int D" using b by (simp add: D_def of_nat_diff)
  have q: "(m * 2 ^ nat (- (- int D))) div (2 ^ D * 2 ^ nat (- int D)) = m"
    and r: "(m * 2 ^ nat (- (- int D))) mod (2 ^ D * 2 ^ nat (- int D)) = 0" by simp_all
  have q': "(if 2 * (0 :: nat) > 2 ^ D * 2 ^ nat (- int D) \<or> (2 * 0 = (2 :: nat) ^ D * 2 ^ nat (- int D) \<and> odd m) then m + 1 else m) = m"
    by simp
  have qe: "(if m \<ge> 2 ^ (fb + 1) then (m div 2, - int D + 1) else (m, - int D)) = (m, - int D)" using m by simp
  have "round_gen fb bias m (2 ^ D) = m"
    using round_gen_steps [OF False e0_def [symmetric] refl refl e1_def [symmetric] emax refl refl q r q' qe] m by simp
  then show ?thesis by (simp add: D_def)
qed (simp add: round_gen_0)

lemma round_mag_value:
  assumes "n < inf_mag"
  shows "round_gen 52 1023 (mag_value n) (2 ^ 1074) = n"
proof (cases "n div 2 ^ 52 = 0")
  case True
  then have "mag_value n = n mod 2 ^ 52" "n = n mod 2 ^ 52"
    using div_0_split [OF True] by (simp_all only: mag_value_def True refl if_True)
  then show ?thesis using round_subnormal [of "n mod 2 ^ 52" 52 1023] by simp
next
  case False
  define k where "k = n div 2 ^ 52 - 1"
  define m where "m = 2 ^ 52 + n mod 2 ^ 52"
  have "n div 2 ^ 52 < 2047" using assms by (simp add: inf_mag_def less_mult_imp_div_less)
  then have k: "k < 2 * 1023" using False by (simp add: k_def)
  have m: "2 ^ 52 \<le> m" "m < 2 ^ Suc 52" unfolding m_def by simp_all
  have "mag_value n = m * 2 ^ k" using False by (simp only: mag_value_def if_False m_def k_def)
  moreover have "(k + 1) * 2 ^ 52 + (m - 2 ^ 52) = n"
    using False div_mult_mod_eq [of n "2 ^ 52"] by (simp only: k_def m_def) simp
  ultimately show ?thesis using round_normal [OF m k] by simp
qed

lemma word_of_mag: "word_of_nat ((if f64_sign x then 2 ^ 63 else 0) + f64_mag x) = x"
  unfolding f64_pattern [symmetric] by simp

lemma unpack_0: "unpack 0 = FFin False 0 (- 1074)"
  by (simp add: unpack_def unpack_gen_def)

lemma f64_sign_0 [simp]: "\<not> f64_sign 0" and f64_mag_0 [simp]: "f64_mag 0 = 0"
  by (simp_all add: f64_sign_def f64_mag_def)

lemma f64_key_0 [simp]: "f64_key 0 = 0"
  by (simp add: f64_key_def)

lemma f64_is_nan_0 [simp]: "\<not> f64_is_nan 0"
  by (simp add: f64_is_nan_def unpack_0)

text \<open>Adding a positive value to zero gives that value.\<close>

lemma f64_add_0_pos:
  assumes "f64_lt 0 w"
  shows "f64_add 0 w = w"
proof -
  have nan: "\<not> f64_is_nan w" using f64_lt_not_nan [OF assms] by simp
  have "0 < f64_key w" using assms f64_lt_key [OF f64_is_nan_0 nan] by simp
  then have s: "\<not> f64_sign w" "0 < f64_mag w" by (auto simp: f64_key_def split: if_splits)
  consider "f64_mag w < inf_mag" | "f64_mag w = inf_mag" using nan by (fastforce simp: not_nan_iff)
  then show ?thesis
  proof cases
    case 1
    obtain m e where u: "unpack w = FFin False m e" "-1074 \<le> e" "mag_value (f64_mag w) = m * 2 ^ nat (e + 1074)"
      using unpack_cases(1) [OF 1] s by auto
    have "0 < mag_value (f64_mag w)" using s(2) by (simp add: mag_value_pos)
    then have m0: "0 < m" unfolding u(3) by simp
    have "f64_add 0 w = round_scaled False (mag_value (f64_mag w)) (- 1074)"
      using u(2) m0 unfolding f64_add_def unpack_0 u(1) u(3)
      by (simp add: aligned_def signed_sig_def min_def nat_mult_distrib nat_power_eq mult_less_0_iff)
    also have "\<dots> = word_of_nat (f64_mag w)"
      using round_mag_value [OF 1] by (simp add: round_scaled_def round_rat_def)
    also have "\<dots> = w" using word_of_mag [of w] s(1) by simp
    finally show ?thesis .
  next
    case 2
    have "unpack w = FInf False" using unpack_cases(2) [OF 2] s by simp
    moreover have "w = f64_inf"
      using word_of_mag [of w] s(1) 2 by (simp add: f64_inf_def inf_mag_def)
    ultimately show ?thesis by (simp add: f64_add_def unpack_0 inf_of_def)
  qed
qed

section \<open>Results are numbers\<close>

lemma bitlen_upper: "n < 2 ^ bitlen n"
proof (induction n rule: bitlen.induct)
  case (1 n)
  show ?case
  proof (cases "n = 0")
    case False
    then have "n div 2 < 2 ^ bitlen (n div 2)" using 1 by blast
    then show ?thesis using bitlen_Suc [of n] False by simp
  qed (simp add: bitlen_0)
qed

lemma bitlen_lower: "0 < n \<Longrightarrow> 2 ^ (bitlen n - 1) \<le> n"
proof (induction n rule: bitlen.induct)
  case (1 n)
  show ?case
  proof (cases "n div 2 = 0")
    case True
    then show ?thesis using bitlen_Suc [of n] 1 bitlen_0 by simp
  next
    case False
    then have "2 ^ (bitlen (n div 2) - 1) \<le> n div 2" using 1 by simp
    then have "2 * 2 ^ (bitlen (n div 2) - 1) \<le> n" by linarith
    moreover have "bitlen (n div 2) = Suc (bitlen (n div 2) - 1)" using False bitlen_Suc [of "n div 2"] by simp
    ultimately show ?thesis using bitlen_Suc [of n] "1.prems" by (metis diff_Suc_1 power_Suc)
  qed
qed

lemma scaled_bound:
  assumes "0 < n" "0 < d" "int (bitlen n) - int (bitlen d) - int fb \<le> e"
  shows "n * 2 ^ nat (- e) div (d * 2 ^ nat e) < 2 ^ (fb + 1)"
proof -
  have bd: "1 \<le> bitlen d" using bitlen_Suc [OF assms(2)] by simp
  have "n * 2 ^ nat (- e) < 2 ^ bitlen n * 2 ^ nat (- e)" using bitlen_upper [of n] by simp
  also have "\<dots> = 2 ^ (bitlen n + nat (- e))" by (simp add: power_add)
  also have "\<dots> \<le> 2 ^ (fb + 1 + (bitlen d - 1) + nat e)"
    by (rule power_increasing) (use assms(3) bd in linarith, simp)
  also have "\<dots> = 2 ^ (fb + 1) * (2 ^ (bitlen d - 1) * 2 ^ nat e)" by (simp add: power_add)
  also have "\<dots> \<le> 2 ^ (fb + 1) * (d * 2 ^ nat e)" using bitlen_lower [OF assms(2)] by simp
  finally show ?thesis by (simp add: less_mult_imp_div_less)
qed

lemma round_gen_bound:
  assumes "0 < d"
  shows "round_gen fb bias n d \<le> (2 * bias + 1) * 2 ^ fb"
proof (cases "n = 0")
  case False
  define e0 where "e0 = int (bitlen n) - int (bitlen d) - int fb - 1"
  define e1 where "e1 = (if (n * 2 ^ nat (- e0)) div (d * 2 ^ nat e0) \<ge> 2 ^ (fb + 1) then e0 + 1 else e0)"
  define e where "e = max e1 (1 - int bias - int fb)"
  define q where "q = (n * 2 ^ nat (- e)) div (d * 2 ^ nat e)"
  define r where "r = (n * 2 ^ nat (- e)) mod (d * 2 ^ nat e)"
  define q' where "q' = (if 2 * r > d * 2 ^ nat e \<or> (2 * r = d * 2 ^ nat e \<and> odd q) then q + 1 else q)"
  define qe where "qe = (if q' \<ge> 2 ^ (fb + 1) then (q' div 2, e + 1) else (q', e))"
  have q: "q < 2 ^ (fb + 1)"
  proof (cases "e = e0")
    case True
    then have "e1 = e0" using e_def e1_def by (auto split: if_splits)
    then show ?thesis using True by (auto simp: q_def e1_def split: if_splits)
  next
    case False
    then have "e0 + 1 \<le> e" by (auto simp: e_def e1_def split: if_splits)
    then show ?thesis unfolding q_def using \<open>n \<noteq> 0\<close> assms by (intro scaled_bound) (auto simp: e0_def)
  qed
  have "q' \<le> 2 ^ (fb + 1)" using q by (auto simp: q'_def)
  then have qe: "fst qe < 2 ^ (fb + 1)" by (auto simp: qe_def)
  define x where "x = snd qe + int bias + int fb"
  have b: "fst qe - 2 ^ fb \<le> 2 ^ fb" using qe by simp
  have "round_gen fb bias n d =
    (if fst qe < 2 ^ fb then fst qe
     else if snd qe + int bias + int fb \<ge> 2 * int bias + 1 then (2 * bias + 1) * 2 ^ fb
     else nat (snd qe + int bias + int fb) * 2 ^ fb + (fst qe - 2 ^ fb))"
    by (rule round_gen_steps [OF False e0_def [symmetric] refl refl e1_def [symmetric] e_def [symmetric] refl refl
          q_def [symmetric] r_def [symmetric] q'_def [symmetric] qe_def [symmetric]])
  also have "\<dots> \<le> (2 * bias + 1) * 2 ^ fb"
  proof -
    have "nat x * 2 ^ fb + (fst qe - 2 ^ fb) \<le> (2 * bias + 1) * 2 ^ fb" if "x < 2 * int bias + 1"
    proof -
      have "nat x \<le> 2 * bias" using that by linarith
      then have "nat x * 2 ^ fb \<le> 2 * bias * 2 ^ fb" by (rule mult_right_mono) simp
      moreover have "(2 * bias + 1) * 2 ^ fb = 2 * bias * 2 ^ fb + 2 ^ fb" by (simp add: algebra_simps)
      ultimately show ?thesis using b by linarith
    qed
    moreover have "(2 ^ fb :: nat) \<le> (2 * bias + 1) * 2 ^ fb" by simp
    ultimately show ?thesis unfolding x_def by auto
  qed
  finally show ?thesis .
qed (simp add: round_gen_0)

lemma round_rat_mag:
  assumes "0 < d"
  shows "f64_mag (round_rat s n d) \<le> inf_mag" "f64_sign (round_rat s n d) = s"
proof -
  define g where "g = round_gen 52 1023 n d"
  have g: "g \<le> inf_mag" using round_gen_bound [OF assms, of 52 1023 n] by (simp add: g_def inf_mag_def)
  then have "g < 2 ^ 63" by (simp add: inf_mag_def)
  have u: "unat (round_rat s n d) = (if s then 2 ^ 63 else 0) + g"
    unfolding round_rat_def g_def [symmetric] by (rule unat_word_of_nat_id) (use \<open>g < 2 ^ 63\<close> in \<open>cases s; simp\<close>)
  show "f64_mag (round_rat s n d) \<le> inf_mag" "f64_sign (round_rat s n d) = s"
    using g \<open>g < 2 ^ 63\<close> unfolding f64_mag_def f64_sign_def u by (cases s; simp)+
qed

lemma round_rat_not_nan: "0 < d \<Longrightarrow> \<not> f64_is_nan (round_rat s n d)"
  by (simp add: not_nan_iff round_rat_mag)

lemma round_scaled_not_nan: "\<not> f64_is_nan (round_scaled s m e)"
  unfolding round_scaled_def by (rule round_rat_not_nan) simp

lemma round_scaled_key: "0 \<le> f64_key (round_scaled False m e)"
  unfolding round_scaled_def by (simp add: f64_key_def round_rat_mag)

lemma f64_le_0: "f64_le 0 x \<longleftrightarrow> \<not> f64_is_nan x \<and> 0 \<le> f64_key x"
  using f64_le_not_nan f64_le_key [OF f64_is_nan_0] by auto

lemma special_not_nan [simp]: "\<not> f64_is_nan (inf_of s)" "\<not> f64_is_nan (zero_of s)"
  by (cases s; simp add: f64_is_nan_def inf_of_def zero_of_def f64_inf_def f64_neg_inf_def unpack_def unpack_gen_def)+

lemma special_key [simp]: "0 \<le> f64_key (inf_of False)" "f64_key (zero_of s) = 0"
  by (cases s; simp add: f64_key_def f64_sign_def f64_mag_def inf_of_def zero_of_def f64_inf_def)+

lemma nonneg_unpack:
  assumes "f64_le 0 x"
  shows "unpack x = FInf False \<or> (\<exists>s m e. unpack x = FFin s m e \<and> (s \<longrightarrow> m = 0))"
proof -
  have nan: "\<not> f64_is_nan x" and key: "0 \<le> f64_key x" using assms by (simp_all add: f64_le_0)
  consider "f64_mag x < inf_mag" | "f64_mag x = inf_mag" using nan by (fastforce simp: not_nan_iff)
  then show ?thesis
  proof cases
    case 1
    obtain m e where u: "unpack x = FFin (f64_sign x) m e" "mag_value (f64_mag x) = m * 2 ^ nat (e + 1074)"
      using unpack_cases(1) [OF 1] by blast
    have "f64_sign x \<longrightarrow> f64_mag x = 0" using key by (auto simp: f64_key_def)
    then show ?thesis using u by auto
  next
    case 2
    then have "\<not> f64_sign x" using key by (auto simp: f64_key_def inf_mag_def)
    then show ?thesis using unpack_cases(2) [OF 2] by simp
  qed
qed

text \<open>Sums of values that are not negative are again such values; no NaN arises.\<close>

lemma f64_add_nonneg:
  assumes "f64_le 0 x" "f64_le 0 y"
  shows "f64_le 0 (f64_add x y)"
  using nonneg_unpack [OF assms(1)] nonneg_unpack [OF assms(2)]
proof (elim disjE exE conjE)
  fix s m e s' m' e'
  assume u: "unpack x = FFin s m e" "s \<longrightarrow> m = 0" "unpack y = FFin s' m' e'" "s' \<longrightarrow> m' = 0"
  define p where "p = aligned s m e s' m' e'"
  have "0 \<le> fst p" "0 \<le> snd p" using u(2,4) by (auto simp: p_def aligned_def signed_sig_def)
  then have n: "\<not> fst p + snd p < 0" by simp
  have "f64_add x y = (if fst p + snd p = 0 then zero_of (s \<and> s')
      else round_scaled (fst p + snd p < 0) (nat \<bar>fst p + snd p\<bar>) (min e e'))"
    by (simp add: f64_add_def u(1,3) p_def case_prod_beta)
  then show ?thesis using n by (simp add: f64_le_0 round_scaled_not_nan round_scaled_key)
qed (simp_all add: f64_add_def f64_le_0 inf_of_def [of False, symmetric] del: inf_of_def)

lemma pos_unpack:
  assumes "f64_lt 0 x"
  shows "unpack x = FInf False \<or> (\<exists>m e. unpack x = FFin False m e \<and> 0 < m)"
proof -
  have "f64_le 0 x" using assms by (simp add: f64_le_def)
  from nonneg_unpack [OF this] show ?thesis
    using assms by (auto simp: f64_lt_def unpack_0 aligned_def signed_sig_def zero_less_mult_iff split: if_splits)
qed

lemma f64_mul_pos_not_nan:
  assumes "f64_lt 0 x" "f64_lt 0 y"
  shows "\<not> f64_is_nan (f64_mul x y)"
  using pos_unpack [OF assms(1)] pos_unpack [OF assms(2)]
  by (auto simp: f64_mul_def round_scaled_not_nan)

lemma nan_is_nan: "f64_is_nan f64_nan"
  by (simp add: f64_is_nan_def f64_nan_def unpack_def unpack_gen_def)

section \<open>Sums of positive values are positive\<close>

lemma scaled_ge:
  assumes "0 < n" "0 < d" "e \<le> int (bitlen n) - int (bitlen d) - 1"
  shows "d * 2 ^ nat e \<le> n * 2 ^ nat (- e)"
proof -
  have bn: "1 \<le> bitlen n" using bitlen_Suc [OF assms(1)] by simp
  have "d * 2 ^ nat e \<le> 2 ^ bitlen d * 2 ^ nat e" using bitlen_upper [of d] by simp
  also have "\<dots> = 2 ^ (bitlen d + nat e)" by (simp add: power_add)
  also have "\<dots> \<le> 2 ^ (bitlen n - 1 + nat (- e))"
    by (rule power_increasing) (use assms(3) bn in linarith, simp)
  also have "\<dots> = 2 ^ (bitlen n - 1) * 2 ^ nat (- e)" by (simp add: power_add)
  also have "\<dots> \<le> n * 2 ^ nat (- e)" using bitlen_lower [OF assms(1)] by simp
  finally show ?thesis .
qed

lemma round_gen_pos:
  assumes "0 < d" "d \<le> n * 2 ^ (bias + fb - 1)" "1 \<le> fb"
  shows "0 < round_gen fb bias n d"
proof -
  have n: "n \<noteq> 0" using assms(1,2) by (cases "n = 0") auto
  define e0 where "e0 = int (bitlen n) - int (bitlen d) - int fb - 1"
  define e1 where "e1 = (if (n * 2 ^ nat (- e0)) div (d * 2 ^ nat e0) \<ge> 2 ^ (fb + 1) then e0 + 1 else e0)"
  define e where "e = max e1 (1 - int bias - int fb)"
  define q where "q = (n * 2 ^ nat (- e)) div (d * 2 ^ nat e)"
  define r where "r = (n * 2 ^ nat (- e)) mod (d * 2 ^ nat e)"
  define q' where "q' = (if 2 * r > d * 2 ^ nat e \<or> (2 * r = d * 2 ^ nat e \<and> odd q) then q + 1 else q)"
  define qe where "qe = (if q' \<ge> 2 ^ (fb + 1) then (q' div 2, e + 1) else (q', e))"
  have "d * 2 ^ nat e \<le> n * 2 ^ nat (- e)"
  proof (cases "e = 1 - int bias - int fb")
    case True
    then have "nat (- e) = bias + fb - 1" "nat e = 0" using assms(3) by simp_all
    then show ?thesis using assms(2) by simp
  next
    case False
    then have "e = e1" by (simp add: e_def max_def split: if_splits)
    then have "e \<le> int (bitlen n) - int (bitlen d) - 1" using assms(3) by (simp add: e1_def e0_def)
    then show ?thesis using n assms(1) by (intro scaled_ge) simp_all
  qed
  then have "0 < q" using assms(1) by (simp add: q_def div_greater_zero_iff)
  then have "0 < q'" by (simp add: q'_def)
  moreover have "0 < q' div 2" if "2 ^ (fb + 1) \<le> q'"
  proof -
    have "(2 :: nat) \<le> 2 ^ (fb + 1)" by simp
    then have "2 \<le> q'" using that by (rule order_trans)
    then show ?thesis by simp
  qed
  ultimately have fst0: "0 < fst qe" unfolding qe_def by (cases "2 ^ (fb + 1) \<le> q'") simp_all
  have "1 \<le> e + int bias + int fb" by (simp add: e_def)
  then have "0 < nat (snd qe + int bias + int fb)" by (auto simp: qe_def)
  then have third: "0 < nat (snd qe + int bias + int fb) * 2 ^ fb + (fst qe - 2 ^ fb)"
    by (intro add_pos_nonneg mult_pos_pos) simp_all
  have second: "0 < (2 * bias + 1) * 2 ^ fb" by simp
  have "round_gen fb bias n d =
    (if fst qe < 2 ^ fb then fst qe
     else if snd qe + int bias + int fb \<ge> 2 * int bias + 1 then (2 * bias + 1) * 2 ^ fb
     else nat (snd qe + int bias + int fb) * 2 ^ fb + (fst qe - 2 ^ fb))"
    by (rule round_gen_steps [OF n e0_def [symmetric] refl refl e1_def [symmetric] e_def [symmetric] refl refl
          q_def [symmetric] r_def [symmetric] q'_def [symmetric] qe_def [symmetric]])
  then show ?thesis using fst0 second third by presburger
qed

lemma f64_lt_0: "f64_lt 0 x \<longleftrightarrow> \<not> f64_is_nan x \<and> 0 < f64_key x"
  using f64_lt_not_nan f64_lt_key [OF f64_is_nan_0] by auto

lemma round_scaled_pos:
  assumes "0 < n" "- 1074 \<le> e"
  shows "f64_lt 0 (round_scaled False n e)"
proof -
  define m where "m = n * 2 ^ nat e"
  have "(2 :: nat) ^ nat (- e) \<le> 2 ^ 1074" by (rule power_increasing) (use assms(2) in simp_all)
  also have "\<dots> = 1 * 2 ^ 1074" by (simp only: mult_1)
  also have "\<dots> \<le> m * 2 ^ 1074" by (rule mult_right_mono) (use assms(1) in \<open>simp_all add: m_def Suc_le_eq\<close>)
  finally have g: "0 < round_gen 52 1023 m (2 ^ nat (- e))" by (intro round_gen_pos) simp_all
  have b: "round_gen 52 1023 m (2 ^ nat (- e)) \<le> inf_mag"
    using round_gen_bound [of "2 ^ nat (- e)" 52 1023 m] by (simp add: inf_mag_def)
  have u: "unat (round_scaled False n e) = round_gen 52 1023 m (2 ^ nat (- e))"
    unfolding round_scaled_def round_rat_def m_def [symmetric] if_False add_0
    by (rule unat_word_of_nat_id) (use b in \<open>simp add: inf_mag_def\<close>)
  have "0 < f64_mag (round_scaled False n e)" unfolding f64_mag_def u using g b by (simp add: inf_mag_def)
  moreover have "\<not> f64_sign (round_scaled False n e)" unfolding round_scaled_def by (simp add: round_rat_mag)
  ultimately show ?thesis by (simp add: f64_lt_0 round_scaled_not_nan f64_key_def)
qed

lemma pos_unpack_range:
  assumes "f64_lt 0 x"
  shows "unpack x = FInf False \<or> (\<exists>m e. unpack x = FFin False m e \<and> 0 < m \<and> - 1074 \<le> e)"
proof (cases "f64_mag x < inf_mag")
  case True
  then obtain m e where "unpack x = FFin (f64_sign x) m e" "- 1074 \<le> e" using unpack_cases(1) by blast
  then show ?thesis using pos_unpack [OF assms] by auto
next
  case False
  then show ?thesis using pos_unpack [OF assms] unpack_cases(2,3) [of x] by (cases "f64_mag x = inf_mag") auto
qed

lemma inf_pos: "f64_lt 0 (inf_of False)"
  unfolding f64_lt_0 by (simp add: f64_key_def f64_sign_def f64_mag_def) (simp add: inf_of_def f64_inf_def)

lemma f64_add_pos:
  assumes "f64_lt 0 x" "f64_lt 0 y"
  shows "f64_lt 0 (f64_add x y)"
  using pos_unpack_range [OF assms(1)] pos_unpack_range [OF assms(2)]
proof (elim disjE exE conjE)
  fix m e m' e'
  assume u: "unpack x = FFin False m e" "0 < m" "- 1074 \<le> e" "unpack y = FFin False m' e'" "0 < m'" "- 1074 \<le> e'"
  define p where "p = aligned False m e False m' e'"
  have "0 < fst p" "0 < snd p" using u(2,5) by (auto simp: p_def aligned_def signed_sig_def)
  then have n: "\<not> fst p + snd p < 0" "fst p + snd p \<noteq> 0" "0 < nat \<bar>fst p + snd p\<bar>" by simp_all
  have "f64_add x y = (if fst p + snd p = 0 then zero_of (False \<and> False)
      else round_scaled (fst p + snd p < 0) (nat \<bar>fst p + snd p\<bar>) (min e e'))"
    by (simp add: f64_add_def u(1,4) p_def case_prod_beta)
  then show ?thesis using n u(3,6) round_scaled_pos by simp
qed (simp_all add: f64_add_def inf_pos)

end
