(* ===== verification/Quantile.thy ===== *)
theory Quantile
  imports Float_Order "HOL-Library.AList"
begin

text \<open>
  The DDSketch quantile sketch (\<open>aggregator/quantiles.rs\<close>). A hash map is the list of its entries in
  iteration order, with one entry per key. The exponential function comes from the platform's
  mathematics library and is the parameter \<open>f64_exp\<close>.
\<close>

section \<open>Constants\<close>

definition QUANTILE_ALPHA :: f64 where "QUANTILE_ALPHA = 0x3F847AE147AE147B"
definition ZERO_THRESHOLD :: f64 where "ZERO_THRESHOLD = 0x3E7AD7F29ABCAF48"
definition f64_1e_12 :: f64 where "f64_1e_12 = 0x3D719799812DEA11"

definition GAMMA :: f64 where
  "GAMMA = f64_div (f64_add f64_one QUANTILE_ALPHA) (f64_sub f64_one QUANTILE_ALPHA)"

definition LN_GAMMA :: f64 where "LN_GAMMA = 0x3F947B0E05B09499"
definition LOG_GAMMA_INV :: f64 where "LOG_GAMMA_INV = f64_div f64_one LN_GAMMA"
definition LN_2_DIV_LN_GAMMA :: f64 where "LN_2_DIV_LN_GAMMA = f64_mul 0x3FE62E42FEFA39EF LOG_GAMMA_INV"
definition TWO_LOG_GAMMA_INV :: f64 where "TWO_LOG_GAMMA_INV = f64_mul f64_two LOG_GAMMA_INV"
definition SQRT_2 :: f64 where "SQRT_2 = 0x3FF6A09E667F3BCD"
definition C_P1 :: f64 where "C_P1 = f64_div TWO_LOG_GAMMA_INV 0x4008000000000000"
definition C_P2 :: f64 where "C_P2 = f64_div TWO_LOG_GAMMA_INV 0x4014000000000000"
definition C_P3 :: f64 where "C_P3 = f64_div TWO_LOG_GAMMA_INV 0x401C000000000000"
definition C_P4 :: f64 where "C_P4 = f64_div TWO_LOG_GAMMA_INV 0x4022000000000000"
definition C_P5 :: f64 where "C_P5 = f64_div TWO_LOG_GAMMA_INV 0x4026000000000000"

section \<open>The sketch\<close>

type_synonym bins = "(i32 \<times> f64) list"

record quantile_sketch =
  qs_zero_count :: f64
  qs_pos_bins :: bins
  qs_neg_bins :: bins
  qs_total_count :: f64

definition sketch_new :: quantile_sketch where
  "sketch_new = \<lparr> qs_zero_count = 0, qs_pos_bins = [], qs_neg_bins = [], qs_total_count = 0 \<rparr>"

text \<open>\<open>self\<close> is given for the capacities it keeps, which the model does not have.\<close>

definition sketch_clear :: "quantile_sketch \<Rightarrow> quantile_sketch" where
  "sketch_clear sk = sk\<lparr> qs_zero_count := 0, qs_pos_bins := [], qs_neg_bins := [], qs_total_count := 0 \<rparr>"

definition key_for_positive :: "f64 \<Rightarrow> i32" where
  "key_for_positive val =
     (let raw_exp = int (unat (drop_bit 52 val AND 0x7FF));
          m = (val AND 0x000FFFFFFFFFFFFF) OR 0x3FF0000000000000;
          (m, raw_exp) = (if f64_lt SQRT_2 m then (f64_mul m f64_half, raw_exp + 1) else (m, raw_exp));
          exponent = f64_of_int (raw_exp - 1023);
          z = f64_div (f64_sub m f64_one) (f64_add m f64_one);
          z2 = f64_mul z z;
          poly = f64_add TWO_LOG_GAMMA_INV (f64_mul z2 (f64_add C_P1 (f64_mul z2 (f64_add C_P2 (f64_mul z2
                   (f64_add C_P3 (f64_mul z2 (f64_add C_P4 (f64_mul z2 C_P5)))))))));
          log_gamma_m = f64_mul z poly;
          log_gamma_val = f64_add (f64_mul exponent LN_2_DIV_LN_GAMMA) log_gamma_m
      in f64_to_i32 (f64_floor log_gamma_val))"

definition lower_bound :: "(f64 \<Rightarrow> f64) \<Rightarrow> i32 \<Rightarrow> f64" where
  "lower_bound f64_exp key = f64_exp (f64_mul (f64_of_int (sint key)) LN_GAMMA)"

text \<open>\<open>*bins.entry(key).or_insert(0.0) += w\<close>\<close>

definition bin_add :: "i32 \<Rightarrow> f64 \<Rightarrow> bins \<Rightarrow> bins" where
  "bin_add key w bins =
     AList.update key (f64_add (case map_of bins key of None \<Rightarrow> 0 | Some c \<Rightarrow> c) w) bins"

definition sketch_update :: "f64 \<Rightarrow> f64 \<Rightarrow> quantile_sketch \<Rightarrow> quantile_sketch" where
  "sketch_update val weight sk =
     (if f64_le weight 0 \<or> \<not> f64_is_finite val then sk
      else
        let sk = sk\<lparr> qs_total_count := f64_add (qs_total_count sk) weight \<rparr>
        in if f64_le (f64_abs val) ZERO_THRESHOLD
           then sk\<lparr> qs_zero_count := f64_add (qs_zero_count sk) weight \<rparr>
           else if f64_lt 0 val
           then sk\<lparr> qs_pos_bins := bin_add (key_for_positive val) weight (qs_pos_bins sk) \<rparr>
           else sk\<lparr> qs_neg_bins := bin_add (key_for_positive (f64_neg val)) weight (qs_neg_bins sk) \<rparr>)"

definition insert_weighted :: "f64 \<Rightarrow> f64 \<Rightarrow> quantile_sketch \<Rightarrow> quantile_sketch" where
  "insert_weighted val weight sk = sketch_update val weight sk"

definition sketch_insert :: "f64 \<Rightarrow> quantile_sketch \<Rightarrow> quantile_sketch" where
  "sketch_insert val sk = sketch_update val f64_one sk"

definition bins_merge :: "bins \<Rightarrow> bins \<Rightarrow> bins" where
  "bins_merge bins other = fold (\<lambda>(k, w). bin_add k w) other bins"

definition sketch_merge :: "quantile_sketch \<Rightarrow> quantile_sketch \<Rightarrow> quantile_sketch" where
  "sketch_merge sk other =
     (if f64_eq (qs_total_count other) 0 then sk
      else if f64_eq (qs_total_count sk) 0
      then sk\<lparr> qs_zero_count := qs_zero_count other, qs_pos_bins := qs_pos_bins other,
               qs_neg_bins := qs_neg_bins other, qs_total_count := qs_total_count other \<rparr>
      else sk\<lparr> qs_zero_count := f64_add (qs_zero_count sk) (qs_zero_count other),
               qs_total_count := f64_add (qs_total_count sk) (qs_total_count other),
               qs_pos_bins := bins_merge (qs_pos_bins sk) (qs_pos_bins other),
               qs_neg_bins := bins_merge (qs_neg_bins sk) (qs_neg_bins other) \<rparr>)"

section \<open>Queries\<close>

text \<open>\<open>f64::clamp\<close> panics unless \<open>lo <= hi\<close>.\<close>

definition f64_clamp :: "f64 \<Rightarrow> f64 \<Rightarrow> f64 \<Rightarrow> f64 option" where
  "f64_clamp x lo hi =
     (if \<not> f64_le lo hi then None else Some (if f64_lt x lo then lo else if f64_lt hi x then hi else x))"

definition fraction :: "f64 \<Rightarrow> f64 \<Rightarrow> f64 \<Rightarrow> f64" where
  "fraction rank prior cnt =
     (if f64_lt 0 cnt then the (f64_clamp (f64_div (f64_sub rank prior) cnt) 0 f64_one) else f64_half)"

definition neg_value :: "(f64 \<Rightarrow> f64) \<Rightarrow> i32 \<Rightarrow> f64 \<Rightarrow> f64" where
  "neg_value f64_exp key f =
     f64_mul (f64_neg (lower_bound f64_exp key)) (f64_sub GAMMA (f64_mul f (f64_sub GAMMA f64_one)))"

definition pos_value :: "(f64 \<Rightarrow> f64) \<Rightarrow> i32 \<Rightarrow> f64 \<Rightarrow> f64" where
  "pos_value f64_exp key f =
     f64_mul (lower_bound f64_exp key) (f64_add f64_one (f64_mul f (f64_sub GAMMA f64_one)))"

definition neg_keys :: "quantile_sketch \<Rightarrow> i32 list" where
  "neg_keys sk = rev (sort_key sint (map fst (qs_neg_bins sk)))"

definition pos_keys :: "quantile_sketch \<Rightarrow> i32 list" where
  "pos_keys sk = sort_key sint (map fst (qs_pos_bins sk))"

text \<open>One loop over bins: \<open>Inl\<close> the estimate when the rank is reached, \<open>Inr\<close> the accumulated count otherwise.\<close>

fun scan_bins :: "(i32 \<Rightarrow> f64 \<Rightarrow> f64) \<Rightarrow> bins \<Rightarrow> f64 \<Rightarrow> i32 list \<Rightarrow> f64 \<Rightarrow> f64 + f64" where
  "scan_bins value bins target_rank [] cum = Inr cum"
| "scan_bins value bins target_rank (key # keys) cum =
     (let cnt = the (map_of bins key); prior = cum; cum = f64_add cum cnt
      in if f64_le target_rank cum then Inl (value key (fraction target_rank prior cnt))
         else scan_bins value bins target_rank keys cum)"

definition quantile_sweep :: "(f64 \<Rightarrow> f64) \<Rightarrow> quantile_sketch \<Rightarrow> f64 \<Rightarrow> f64 \<Rightarrow> f64 \<Rightarrow> f64 option" where
  "quantile_sweep f64_exp sk target_rank mn mx =
     (case scan_bins (neg_value f64_exp) (qs_neg_bins sk) target_rank (neg_keys sk) 0 of
        Inl v \<Rightarrow> f64_clamp v mn mx
      | Inr cum \<Rightarrow>
          (let in_zero = f64_lt 0 (qs_zero_count sk);
               cum = (if in_zero then f64_add cum (qs_zero_count sk) else cum)
           in if in_zero \<and> f64_le target_rank cum then f64_clamp 0 mn mx
              else case scan_bins (pos_value f64_exp) (qs_pos_bins sk) target_rank (pos_keys sk) cum of
                     Inl v \<Rightarrow> f64_clamp v mn mx
                   | Inr _ \<Rightarrow> Some mx))"

definition quantile :: "(f64 \<Rightarrow> f64) \<Rightarrow> quantile_sketch \<Rightarrow> f64 \<Rightarrow> f64 \<Rightarrow> f64 \<Rightarrow> f64 option" where
  "quantile f64_exp sk q mn mx =
     (if f64_le (qs_total_count sk) 0 \<or> f64_is_nan q then Some f64_nan
      else if f64_le q 0 then Some mn
      else if f64_le f64_one q then Some mx
      else if f64_lt (f64_abs (f64_sub mn mx)) f64_1e_12 then Some mn
      else quantile_sweep f64_exp sk (f64_mul q (qs_total_count sk)) mn mx)"

text \<open>
  The batch query. Its sort is unstable; ranks that \<open>total_cmp\<close> finds equal are the same pattern and get
  the same estimate, and the model takes the stable order. The pending targets are the slice from \<open>next\<close> on, each a rank and the index of
  its result.
\<close>

fun settle_targets :: "f64 \<Rightarrow> (f64 \<Rightarrow> f64 option) \<Rightarrow> (f64 \<times> nat) list \<Rightarrow> f64 list \<Rightarrow> ((f64 \<times> nat) list \<times> f64 list) option" where
  "settle_targets cum value_at [] results = Some ([], results)"
| "settle_targets cum value_at ((rank, idx) # pending) results =
     (if f64_lt cum rank then Some ((rank, idx) # pending, results)
      else case value_at rank of
             None \<Rightarrow> None
           | Some v \<Rightarrow> settle_targets cum value_at pending (results[idx := v]))"

text \<open>
  The batch loop over bins stops when nothing is pending. Its state is the accumulated count, the
  pending targets and the results.
\<close>

type_synonym sweep_state = "f64 \<times> (f64 \<times> nat) list \<times> f64 list"

fun batch_bins ::
  "(i32 \<Rightarrow> f64 \<Rightarrow> f64) \<Rightarrow> bins \<Rightarrow> f64 \<Rightarrow> f64 \<Rightarrow> i32 list \<Rightarrow> sweep_state \<Rightarrow> sweep_state option" where
  "batch_bins value bins mn mx [] st = Some st"
| "batch_bins value bins mn mx (key # keys) (cum, pending, results) =
     (let cnt = the (map_of bins key); prior = cum; cum = f64_add cum cnt
      in case settle_targets cum (\<lambda>rank. f64_clamp (value key (fraction rank prior cnt)) mn mx) pending results of
           None \<Rightarrow> None
         | Some (pending, results) \<Rightarrow>
             if pending = [] then Some (cum, [], results)
             else batch_bins value bins mn mx keys (cum, pending, results))"

definition batch_zero :: "f64 \<Rightarrow> f64 \<Rightarrow> f64 \<Rightarrow> sweep_state \<Rightarrow> sweep_state option" where
  "batch_zero zero_count mn mx st =
     (case st of (cum, pending, results) \<Rightarrow>
        if f64_lt 0 zero_count
        then let cum = f64_add cum zero_count
             in map_option (\<lambda>(pending, results). (cum, pending, results))
                  (settle_targets cum (\<lambda>_. f64_clamp 0 mn mx) pending results)
        else Some (cum, pending, results))"

text \<open>Returning early once nothing is pending.\<close>

definition unless_done :: "(sweep_state \<Rightarrow> sweep_state option) \<Rightarrow> sweep_state \<Rightarrow> sweep_state option" where
  "unless_done f st = (case st of (cum, pending, results) \<Rightarrow> if pending = [] then Some st else f st)"

definition batch_sweep ::
  "(f64 \<Rightarrow> f64) \<Rightarrow> quantile_sketch \<Rightarrow> f64 \<Rightarrow> f64 \<Rightarrow> (f64 \<times> nat) list \<Rightarrow> f64 list \<Rightarrow> f64 list option" where
  "batch_sweep f64_exp sk mn mx pending results =
     Option.bind (batch_bins (neg_value f64_exp) (qs_neg_bins sk) mn mx (neg_keys sk) (0, pending, results)) (\<lambda>st.
     Option.bind (unless_done (batch_zero (qs_zero_count sk) mn mx) st) (\<lambda>st.
     Option.bind (unless_done (batch_bins (pos_value f64_exp) (qs_pos_bins sk) mn mx (pos_keys sk)) st)
       (\<lambda>(_, pending, results). Some (fold (\<lambda>(_, idx) results. results[idx := mx]) pending results))))"

definition fixed_quantile :: "f64 \<Rightarrow> f64 \<Rightarrow> f64 \<Rightarrow> f64 option" where
  "fixed_quantile mn mx q =
     (if f64_is_nan q then Some f64_nan
      else if f64_le q 0 then Some mn
      else if f64_le f64_one q then Some mx
      else if f64_lt (f64_abs (f64_sub mn mx)) f64_1e_12 then Some mn
      else None)"

definition split_targets :: "f64 \<Rightarrow> f64 \<Rightarrow> f64 \<Rightarrow> f64 list \<Rightarrow> (f64 \<times> nat) list \<times> f64 list" where
  "split_targets tc mn mx targets =
     fold (\<lambda>i (pending, results).
        case fixed_quantile mn mx (targets ! i) of
          Some v \<Rightarrow> (pending, results[i := v])
        | None \<Rightarrow> (pending @ [(f64_mul (targets ! i) tc, i)], results))
       [0..<length targets] ([], replicate (length targets) f64_nan)"

definition quantiles_batch :: "(f64 \<Rightarrow> f64) \<Rightarrow> quantile_sketch \<Rightarrow> f64 list \<Rightarrow> f64 \<Rightarrow> f64 \<Rightarrow> f64 list option" where
  "quantiles_batch f64_exp sk targets mn mx =
     (if f64_le (qs_total_count sk) 0 then Some (replicate (length targets) f64_nan)
      else case split_targets (qs_total_count sk) mn mx targets of
             (pending, results) \<Rightarrow>
               if pending = [] then Some results
               else batch_sweep f64_exp sk mn mx (sort_key (\<lambda>p. total_key (fst p)) pending) results)"

section \<open>Both queries as a search over buckets\<close>

text \<open>
  A bucket is a count and the estimate for a rank in it, given the count before it. A rank is
  estimated in the first bucket whose accumulated count reaches it.
\<close>

type_synonym bucket = "f64 \<times> (f64 \<Rightarrow> f64 \<Rightarrow> f64 option)"

fun locate :: "f64 \<Rightarrow> bucket list \<Rightarrow> f64 \<Rightarrow> f64 \<Rightarrow> f64 option" where
  "locate mx [] cum rank = Some mx"
| "locate mx ((cnt, val) # bs) cum rank =
     (if f64_le rank (f64_add cum cnt) then val cum rank else locate mx bs (f64_add cum cnt) rank)"

definition bin_bucket :: "(i32 \<Rightarrow> f64 \<Rightarrow> f64) \<Rightarrow> bins \<Rightarrow> f64 \<Rightarrow> f64 \<Rightarrow> i32 \<Rightarrow> bucket" where
  "bin_bucket value bins mn mx key =
     (let cnt = the (map_of bins key)
      in (cnt, \<lambda>prior rank. f64_clamp (value key (fraction rank prior cnt)) mn mx))"

definition buckets :: "(f64 \<Rightarrow> f64) \<Rightarrow> quantile_sketch \<Rightarrow> f64 \<Rightarrow> f64 \<Rightarrow> bucket list" where
  "buckets f64_exp sk mn mx =
     map (bin_bucket (neg_value f64_exp) (qs_neg_bins sk) mn mx) (neg_keys sk) @
     (if f64_lt 0 (qs_zero_count sk) then [(qs_zero_count sk, \<lambda>_ _. f64_clamp 0 mn mx)] else []) @
     map (bin_bucket (pos_value f64_exp) (qs_pos_bins sk) mn mx) (pos_keys sk)"

lemma scan_locate:
  "(case scan_bins value bins rank keys cum of Inl v \<Rightarrow> f64_clamp v mn mx | Inr c \<Rightarrow> locate mx bs c rank) =
     locate mx (map (bin_bucket value bins mn mx) keys @ bs) cum rank"
  by (induction keys arbitrary: cum) (auto simp: Let_def bin_bucket_def)

lemma scan_locate_end:
  "(case scan_bins value bins rank keys cum of Inl v \<Rightarrow> f64_clamp v mn mx | Inr c \<Rightarrow> Some mx) =
     locate mx (map (bin_bucket value bins mn mx) keys) cum rank"
  by (rule scan_locate [where bs = "[]", unfolded locate.simps append_Nil2])

lemma quantile_sweep_locate:
  "quantile_sweep f64_exp sk rank mn mx = locate mx (buckets f64_exp sk mn mx) 0 rank"
  unfolding quantile_sweep_def buckets_def scan_locate [symmetric] scan_locate_end
  by (auto simp: Let_def split: sum.splits)

text \<open>The batch over buckets.\<close>

definition assign_all :: "f64 \<Rightarrow> (f64 \<times> nat) list \<Rightarrow> f64 list \<Rightarrow> f64 list" where
  "assign_all v pending results = fold (\<lambda>(_, idx) results. results[idx := v]) pending results"

fun run_buckets :: "f64 \<Rightarrow> bucket list \<Rightarrow> sweep_state \<Rightarrow> f64 list option" where
  "run_buckets mx [] (cum, pending, results) = Some (assign_all mx pending results)"
| "run_buckets mx ((cnt, val) # bs) (cum, pending, results) =
     (case settle_targets (f64_add cum cnt) (val cum) pending results of
        None \<Rightarrow> None
      | Some (pending, results) \<Rightarrow>
          if pending = [] then Some results else run_buckets mx bs (f64_add cum cnt, pending, results))"

lemma batch_bins_run:
  assumes "\<And>c p r. p \<noteq> [] \<Longrightarrow> k (c, p, r) = run_buckets mx bs (c, p, r)" and "\<And>c r. k (c, [], r) = Some r"
  shows "p \<noteq> [] \<Longrightarrow> Option.bind (batch_bins value bins mn mx keys (cum, p, r)) k =
    run_buckets mx (map (bin_bucket value bins mn mx) keys @ bs) (cum, p, r)"
proof (induction keys arbitrary: cum p r)
  case (Cons key keys)
  then show ?case by (auto simp: Let_def bin_bucket_def assms split: option.splits)
qed (simp add: assms)

lemma batch_sweep_run:
  assumes "pending \<noteq> []"
  shows "batch_sweep f64_exp sk mn mx pending results = run_buckets mx (buckets f64_exp sk mn mx) (0, pending, results)"
proof -
  define k3 where "k3 = (\<lambda>(_ :: f64, pending, results). Some (assign_all mx pending results))"
  define k2 where "k2 = (\<lambda>st. Option.bind (unless_done (batch_bins (pos_value f64_exp) (qs_pos_bins sk) mn mx (pos_keys sk)) st) k3)"
  define k1 where "k1 = (\<lambda>st. Option.bind (unless_done (batch_zero (qs_zero_count sk) mn mx) st) k2)"
  define pos where "pos = map (bin_bucket (pos_value f64_exp) (qs_pos_bins sk) mn mx) (pos_keys sk)"
  define zero where "zero = (if f64_lt 0 (qs_zero_count sk) then [(qs_zero_count sk, \<lambda>_ _. f64_clamp 0 mn mx)] else [] :: bucket list)"
  have k3: "k3 (c, p, r) = run_buckets mx [] (c, p, r)" for c p r by (simp add: k3_def)
  have k3e: "k3 (c, [], r) = Some r" for c r by (simp add: k3_def assign_all_def)
  have k2: "k2 (c, p, r) = run_buckets mx pos (c, p, r)" if "p \<noteq> []" for c p r
    using batch_bins_run [of k3 mx "[]" p "pos_value f64_exp" "qs_pos_bins sk" mn "pos_keys sk" c r] that k3 k3e
    by (simp add: k2_def unless_done_def pos_def)
  have k2e: "k2 (c, [], r) = Some r" for c r by (simp add: k2_def unless_done_def k3e)
  have k1: "k1 (c, p, r) = run_buckets mx (zero @ pos) (c, p, r)" if "p \<noteq> []" for c p r
    using that k2 k2e by (auto simp: k1_def unless_done_def batch_zero_def zero_def Let_def split: option.splits)
  have k1e: "k1 (c, [], r) = Some r" for c r by (simp add: k1_def unless_done_def k2e)
  have "batch_sweep f64_exp sk mn mx pending results =
      Option.bind (batch_bins (neg_value f64_exp) (qs_neg_bins sk) mn mx (neg_keys sk) (0, pending, results)) k1"
    unfolding batch_sweep_def k1_def k2_def k3_def assign_all_def by simp
  also have "\<dots> = run_buckets mx (buckets f64_exp sk mn mx) (0, pending, results)"
    using batch_bins_run [of k1 mx "zero @ pos" pending "neg_value f64_exp" "qs_neg_bins sk" mn "neg_keys sk" 0 results]
      k1 k1e assms by (simp add: buckets_def zero_def pos_def)
  finally show ?thesis .
qed

section \<open>The batch assigns to each target its own search\<close>

definition assign :: "(f64 \<Rightarrow> f64 option) \<Rightarrow> f64 \<times> nat \<Rightarrow> f64 list \<Rightarrow> f64 list option" where
  "assign value_at p results = map_option (\<lambda>v. results[snd p := v]) (value_at (fst p))"

definition ranks_ok :: "(f64 \<times> nat) list \<Rightarrow> bool" where
  "ranks_ok pending \<longleftrightarrow> sorted_wrt (\<lambda>p q. f64_le (fst p) (fst q)) pending \<and> (\<forall>p\<in>set pending. \<not> f64_is_nan (fst p))"

lemma ranks_ok_append: "ranks_ok (xs @ ys) \<Longrightarrow> ranks_ok xs \<and> ranks_ok ys"
  by (auto simp: ranks_ok_def sorted_wrt_append)

lemma settle_targets_split:
  assumes "ranks_ok pending" "\<not> f64_is_nan cum"
  shows "\<exists>xs ys. pending = xs @ ys \<and> (\<forall>p\<in>set xs. f64_le (fst p) cum) \<and> (\<forall>p\<in>set ys. f64_lt cum (fst p)) \<and>
    (\<forall>results. settle_targets cum value_at pending results = map_option (\<lambda>r. (ys, r)) (fold_opt (assign value_at) xs results))"
  using assms
proof (induction pending)
  case Nil
  then show ?case by (intro exI [of _ "[]"]) simp
next
  case (Cons p pending)
  have nan: "\<not> f64_is_nan (fst p)" and ok: "ranks_ok pending" and le: "\<forall>q\<in>set pending. f64_le (fst p) (fst q)"
    using Cons.prems(1) by (auto simp: ranks_ok_def)
  show ?case
  proof (cases "f64_lt cum (fst p)")
    case True
    then have "\<forall>q\<in>set (p # pending). f64_lt cum (fst q)" using le f64_lt_le_trans by auto
    then show ?thesis using True by (intro exI [of _ "[]"] exI [of _ "p # pending"]) (cases p; simp)
  next
    case False
    obtain xs ys where IH: "pending = xs @ ys" "\<forall>p\<in>set xs. f64_le (fst p) cum" "\<forall>p\<in>set ys. f64_lt cum (fst p)"
        "\<And>results. settle_targets cum value_at pending results = map_option (\<lambda>r. (ys, r)) (fold_opt (assign value_at) xs results)"
      using Cons.IH [OF ok Cons.prems(2)] by blast
    have "f64_le (fst p) cum" using False f64_not_lt [OF Cons.prems(2) nan] by simp
    moreover have "settle_targets cum value_at (p # pending) results = map_option (\<lambda>r. (ys, r)) (fold_opt (assign value_at) (p # xs) results)" for results
      using IH(4) False by (cases p; cases "value_at (fst p)") (simp_all add: assign_def)
    ultimately show ?thesis
      using IH(1-3) by (intro exI [of _ "p # xs"] exI [of _ ys]) simp
  qed
qed

definition counts_ok :: "bucket list \<Rightarrow> bool" where
  "counts_ok bs \<longleftrightarrow> (\<forall>b\<in>set bs. f64_le 0 (fst b))"

lemma fold_opt_cong: "(\<And>x s. x \<in> set xs \<Longrightarrow> f x s = g x s) \<Longrightarrow> fold_opt f xs s = fold_opt g xs s"
proof (induction xs arbitrary: s)
  case (Cons x xs)
  then show ?case by (cases "g x s") auto
qed simp

lemma assign_all_fold: "Some (assign_all v pending results) = fold_opt (assign (\<lambda>_. Some v)) pending results"
  by (induction pending arbitrary: results) (auto simp: assign_all_def assign_def)

lemma run_locate:
  assumes "counts_ok bs" "f64_le 0 cum" "ranks_ok pending"
  shows "run_buckets mx bs (cum, pending, results) = fold_opt (assign (locate mx bs cum)) pending results"
  using assms
proof (induction bs arbitrary: cum pending results)
  case Nil
  then show ?case by (simp add: assign_all_fold assign_def [abs_def])
next
  case (Cons b bs)
  obtain cnt val where b: "b = (cnt, val)" by (cases b)
  define cum' where "cum' = f64_add cum cnt"
  have cum': "f64_le 0 cum'" "counts_ok bs" using Cons.prems f64_add_nonneg by (auto simp: cum'_def counts_ok_def b)
  then have "\<not> f64_is_nan cum'" using f64_le_not_nan by blast
  then obtain xs ys where sp: "pending = xs @ ys" "\<forall>p\<in>set xs. f64_le (fst p) cum'" "\<forall>p\<in>set ys. f64_lt cum' (fst p)"
      "settle_targets cum' (val cum) pending results = map_option (\<lambda>r. (ys, r)) (fold_opt (assign (val cum)) xs results)"
    using settle_targets_split [OF Cons.prems(3)] by blast
  define L where "L = locate mx (b # bs) cum"
  have xs: "fold_opt (assign L) xs r = fold_opt (assign (val cum)) xs r" for r
    by (rule fold_opt_cong) (use sp(2) in \<open>auto simp: assign_def L_def b cum'_def\<close>)
  have ys: "fold_opt (assign L) ys r = fold_opt (assign (locate mx bs cum')) ys r" for r
  proof (rule fold_opt_cong)
    fix p s assume "p \<in> set ys"
    then have lt: "f64_lt cum' (fst p)" using sp(3) by blast
    have "\<not> f64_le (fst p) cum'"
      using f64_lt_not_nan [OF lt] f64_not_lt [of cum' "fst p"] lt by blast
    then show "assign L p s = assign (locate mx bs cum') p s"
      by (simp add: assign_def L_def b cum'_def)
  qed
  have IH: "run_buckets mx bs (cum', ys, r) = fold_opt (assign (locate mx bs cum')) ys r" for r
    using Cons.IH [OF cum'(2,1)] ranks_ok_append Cons.prems(3) sp(1) by blast
  have "run_buckets mx (b # bs) (cum, pending, results) = fold_opt (assign L) pending results"
  proof (cases "fold_opt (assign (val cum)) xs results")
    case None
    then show ?thesis using sp(4) by (simp add: sp(1) fold_opt_append xs b cum'_def [symmetric])
  next
    case (Some r)
    then show ?thesis
      using sp(4) IH ys by (cases "ys = []") (simp_all add: sp(1) fold_opt_append xs b cum'_def [symmetric])
  qed
  then show ?case by (simp add: L_def)
qed

section \<open>Targets and results\<close>

lemma split_targets_eq:
  "split_targets tc mn mx targets =
     (map (\<lambda>i. (f64_mul (targets ! i) tc, i)) (filter (\<lambda>i. fixed_quantile mn mx (targets ! i) = None) [0..<length targets]),
      map (\<lambda>i. case fixed_quantile mn mx (targets ! i) of Some v \<Rightarrow> v | None \<Rightarrow> f64_nan) [0..<length targets])"
proof -
  define n where "n = length targets"
  define fx where "fx = (\<lambda>i. fixed_quantile mn mx (targets ! i))"
  have "fold (\<lambda>i (pending, results).
        case fx i of
          Some v \<Rightarrow> (pending, results[i := v])
        | None \<Rightarrow> (pending @ [(f64_mul (targets ! i) tc, i)], results)) [0..<m] ([], replicate n f64_nan) =
      (map (\<lambda>i. (f64_mul (targets ! i) tc, i)) (filter (\<lambda>i. fx i = None) [0..<m]),
       map (\<lambda>i. if i < m then (case fx i of Some v \<Rightarrow> v | None \<Rightarrow> f64_nan) else f64_nan) [0..<n])" if "m \<le> n" for m
    using that
  proof (induction m)
    case 0
    then show ?case by (simp add: map_replicate_const)
  next
    case (Suc m)
    have "(map (\<lambda>i. if i < m then (case fx i of Some v \<Rightarrow> v | None \<Rightarrow> f64_nan) else f64_nan) [0..<n])[m := v] =
        map (\<lambda>i. if i < Suc m then (case fx i of Some v \<Rightarrow> v | None \<Rightarrow> f64_nan) else f64_nan) [0..<n]" if "fx m = Some v" for v
      using that Suc.prems by (intro nth_equalityI) (auto simp: nth_list_update less_Suc_eq)
    moreover have "map (\<lambda>i. if i < m then (case fx i of Some v \<Rightarrow> v | None \<Rightarrow> f64_nan) else f64_nan) [0..<n] =
        map (\<lambda>i. if i < Suc m then (case fx i of Some v \<Rightarrow> v | None \<Rightarrow> f64_nan) else f64_nan) [0..<n]" if "fx m = None"
      using that by (auto simp: less_Suc_eq)
    ultimately show ?case using Suc by (cases "fx m") simp_all
  qed
  from this [of n] have "split_targets tc mn mx targets =
      (map (\<lambda>i. (f64_mul (targets ! i) tc, i)) (filter (\<lambda>i. fx i = None) [0..<n]),
       map (\<lambda>i. if i < n then (case fx i of Some v \<Rightarrow> v | None \<Rightarrow> f64_nan) else f64_nan) [0..<n])"
    by (simp add: split_targets_def n_def fx_def)
  also have "map (\<lambda>i. if i < n then (case fx i of Some v \<Rightarrow> v | None \<Rightarrow> f64_nan) else f64_nan) [0..<n] =
      map (\<lambda>i. case fx i of Some v \<Rightarrow> v | None \<Rightarrow> f64_nan) [0..<n]" by simp
  finally show ?thesis by (simp only: fx_def n_def)
qed

lemma fold_assign_None:
  "\<exists>p\<in>set ps. value_at (fst p) = None \<Longrightarrow> fold_opt (assign value_at) ps results = None"
proof (induction ps arbitrary: results)
  case (Cons p ps)
  then show ?case by (cases "value_at (fst p)") (auto simp: assign_def)
qed simp

lemma fold_assign_Some:
  "\<forall>p\<in>set ps. value_at (fst p) \<noteq> None \<Longrightarrow> distinct (map snd ps) \<Longrightarrow> \<forall>p\<in>set ps. snd p < length results \<Longrightarrow>
    \<exists>results'. fold_opt (assign value_at) ps results = Some results' \<and> length results' = length results \<and>
      (\<forall>p\<in>set ps. results' ! snd p = the (value_at (fst p))) \<and>
      (\<forall>i. i \<notin> snd ` set ps \<longrightarrow> results' ! i = results ! i)"
proof (induction ps arbitrary: results)
  case (Cons p ps)
  obtain v where v: "value_at (fst p) = Some v" using Cons.prems(1) by auto
  obtain r where r: "fold_opt (assign value_at) ps (results[snd p := v]) = Some r" "length r = length results"
      "\<forall>q\<in>set ps. r ! snd q = the (value_at (fst q))" "\<forall>i. i \<notin> snd ` set ps \<longrightarrow> r ! i = results[snd p := v] ! i"
    using Cons.IH [of "results[snd p := v]"] Cons.prems by auto
  have "assign value_at p results = Some (results[snd p := v])" using v by (simp add: assign_def)
  then have fold: "fold_opt (assign value_at) (p # ps) results = Some r" using r(1) by simp
  have "r ! snd p = v" using r(4) Cons.prems(2,3) by auto
  then have "\<forall>q\<in>set (p # ps). r ! snd q = the (value_at (fst q))" using r(3) v by simp
  moreover have "\<forall>i. i \<notin> snd ` set (p # ps) \<longrightarrow> r ! i = results ! i" using r(4) by auto
  ultimately show ?case using fold r(2) by blast
qed simp

lemma those_map:
  "those (map f xs) = (if \<forall>x\<in>set xs. f x \<noteq> None then Some (map (\<lambda>x. the (f x)) xs) else None)"
  by (induction xs) (auto split: option.splits)

section \<open>Sketches\<close>

text \<open>Counts are not negative and the total is a number, as long as weights are.\<close>

definition bins_ok :: "bins \<Rightarrow> bool" where
  "bins_ok bins \<longleftrightarrow> distinct (map fst bins) \<and> (\<forall>c\<in>set (map snd bins). f64_le 0 c)"

definition sketch_ok :: "quantile_sketch \<Rightarrow> bool" where
  "sketch_ok sk \<longleftrightarrow> bins_ok (qs_neg_bins sk) \<and> bins_ok (qs_pos_bins sk) \<and>
     f64_le 0 (qs_zero_count sk) \<and> f64_le 0 (qs_total_count sk)"

lemma map_of_the: "k \<in> fst ` set bins \<Longrightarrow> \<exists>c. map_of bins k = Some c \<and> (k, c) \<in> set bins"
  by (metis map_of_SomeD map_of_eq_None_iff not_None_eq)

lemma buckets_counts_ok: "sketch_ok sk \<Longrightarrow> counts_ok (buckets f64_exp sk mn mx)"
  unfolding counts_ok_def buckets_def bin_bucket_def Let_def neg_keys_def pos_keys_def sketch_ok_def bins_ok_def
  by (force dest: map_of_the)

lemma bins_ok_add: "bins_ok bins \<Longrightarrow> f64_le 0 w \<Longrightarrow> bins_ok (bin_add k w bins)"
proof -
  assume b: "bins_ok bins" and w: "f64_le 0 w"
  have "f64_le 0 (case map_of bins k of None \<Rightarrow> 0 | Some c \<Rightarrow> c)"
    using b by (auto simp: bins_ok_def f64_le_0 dest!: map_of_SomeD split: option.splits)
  then have "f64_le 0 (f64_add (case map_of bins k of None \<Rightarrow> 0 | Some c \<Rightarrow> c) w)"
    using w by (rule f64_add_nonneg)
  moreover have "set (AList.update k v bins) \<subseteq> insert (k, v) (set bins)" for v
    by (induction bins) auto
  ultimately show ?thesis using b by (force simp: bins_ok_def bin_add_def distinct_update)
qed

lemma bins_ok_merge: "bins_ok bins \<Longrightarrow> bins_ok other \<Longrightarrow> bins_ok (bins_merge bins other)"
proof -
  assume b: "bins_ok bins" and o: "bins_ok other"
  have "bins_ok bins \<Longrightarrow> \<forall>c\<in>set (map snd ys). f64_le 0 c \<Longrightarrow> bins_ok (fold (\<lambda>(k, w). bin_add k w) ys bins)" for ys
    by (induction ys arbitrary: bins) (auto simp: bins_ok_add)
  moreover have "\<forall>c\<in>set (map snd other). f64_le 0 c" using o unfolding bins_ok_def by blast
  ultimately show ?thesis unfolding bins_merge_def using b by blast
qed

lemma sketch_ok_new: "sketch_ok sketch_new"
  by (simp add: sketch_ok_def sketch_new_def bins_ok_def f64_le_0)

text \<open>
  Adding a value with a weight that is a number keeps a sketch well formed: one entry per bin key,
  no negative or NaN count, a total that is a number; a weight that is not positive and a value that
  is not finite leave it as it was.
\<close>

lemma sketch_ok_update:
  assumes "sketch_ok sk" "\<not> f64_is_nan weight"
  shows "sketch_ok (sketch_update val weight sk)"
proof (cases "f64_le weight 0 \<or> \<not> f64_is_finite val")
  case False
  then have "f64_le 0 weight" using assms(2) by (auto simp: f64_le_key f64_le_0)
  then show ?thesis
    using assms(1) by (auto simp: sketch_update_def sketch_ok_def Let_def bins_ok_add f64_add_nonneg)
qed (use assms in \<open>simp add: sketch_update_def\<close>)

lemma sketch_ok_merge: "sketch_ok sk \<Longrightarrow> sketch_ok other \<Longrightarrow> sketch_ok (sketch_merge sk other)"
  by (simp add: sketch_merge_def sketch_ok_def bins_ok_merge f64_add_nonneg)

lemma sort_key_ranks:
  assumes "\<forall>p\<in>set ps. \<not> f64_is_nan (fst p)"
  shows "ranks_ok (sort_key (\<lambda>p. total_key (fst p)) ps)"
proof -
  have "sorted_wrt (\<lambda>p q. total_key (fst p) \<le> total_key (fst q)) (sort_key (\<lambda>p. total_key (fst p)) ps)"
    using sorted_sort_key [of "\<lambda>p. total_key (fst p)" ps] by (simp add: sorted_map)
  then have "sorted_wrt (\<lambda>p q. f64_le (fst p) (fst q)) (sort_key (\<lambda>p. total_key (fst p)) ps)"
    by (rule sorted_wrt_mono_rel [rotated]) (use assms in \<open>auto intro: total_le_le simp: total_le_def\<close>)
  then show ?thesis using assms by (simp add: ranks_ok_def)
qed

section \<open>The batch agrees with the single query\<close>

lemma quantile_eq:
  assumes "\<not> f64_le (qs_total_count sk) 0"
  shows "quantile f64_exp sk q mn mx =
    (case fixed_quantile mn mx q of
       Some v \<Rightarrow> Some v
     | None \<Rightarrow> locate mx (buckets f64_exp sk mn mx) 0 (f64_mul q (qs_total_count sk)))"
  using assms by (simp add: quantile_def fixed_quantile_def quantile_sweep_locate)

lemma fixed_None_pos: "fixed_quantile mn mx q = None \<Longrightarrow> f64_lt 0 q"
  using f64_not_lt [of 0 q] by (auto simp: fixed_quantile_def split: if_splits)

lemma total_pos: "sketch_ok sk \<Longrightarrow> \<not> f64_le (qs_total_count sk) 0 \<Longrightarrow> f64_lt 0 (qs_total_count sk)"
  using f64_not_lt [of 0 "qs_total_count sk"] by (auto simp: sketch_ok_def f64_le_0)

lemma batch_equiv:
  assumes "sketch_ok sk"
  shows "quantiles_batch f64_exp sk targets mn mx = those (map (\<lambda>q. quantile f64_exp sk q mn mx) targets)"
proof (cases "f64_le (qs_total_count sk) 0")
  case True
  then have "those (map (\<lambda>q. quantile f64_exp sk q mn mx) targets) = Some (map (\<lambda>_. f64_nan) targets)"
    by (simp add: quantile_def those_map)
  then show ?thesis using True by (simp add: quantiles_batch_def map_replicate_const)
next
  case False
  define tc where "tc = qs_total_count sk"
  define n where "n = length targets"
  define fx where "fx = (\<lambda>i. fixed_quantile mn mx (targets ! i))"
  define L where "L = locate mx (buckets f64_exp sk mn mx) 0"
  define Q where "Q = (\<lambda>i. case fx i of Some v \<Rightarrow> Some v | None \<Rightarrow> L (f64_mul (targets ! i) tc))"
  define ps where "ps = map (\<lambda>i. (f64_mul (targets ! i) tc, i)) (filter (\<lambda>i. fx i = None) [0..<n])"
  define rs where "rs = map (\<lambda>i. case fx i of Some v \<Rightarrow> v | None \<Rightarrow> f64_nan) [0..<n]"
  define P where "P = sort_key (\<lambda>p. total_key (fst p)) ps"
  have sp: "split_targets tc mn mx targets = (ps, rs)" by (simp add: split_targets_eq ps_def rs_def fx_def n_def)
  have "f64_lt 0 tc" using total_pos [OF assms False] by (simp add: tc_def)
  then have "\<forall>p\<in>set ps. \<not> f64_is_nan (fst p)"
    using f64_mul_pos_not_nan fixed_None_pos by (auto simp: ps_def fx_def)
  then have ranks: "ranks_ok P" unfolding P_def by (rule sort_key_ranks)
  have setP: "set P = (\<lambda>i. (f64_mul (targets ! i) tc, i)) ` {i. i < n \<and> fx i = None}" by (auto simp: P_def ps_def)
  have "distinct (map snd ps)" by (simp add: ps_def comp_def)
  then have dist: "distinct (map snd P)"
    by (metis P_def mset_map mset_sort mset_eq_imp_distinct_iff)
  have batch: "quantiles_batch f64_exp sk targets mn mx = fold_opt (assign L) P rs"
  proof (cases "ps = []")
    case True
    then show ?thesis using False sp by (simp add: quantiles_batch_def tc_def P_def)
  next
    case F: False
    then have "P \<noteq> []" by (metis P_def mset_sort mset_zero_iff)
    moreover have "f64_le 0 0" by (simp add: f64_le_0)
    ultimately have "batch_sweep f64_exp sk mn mx P rs = fold_opt (assign L) P rs"
      using run_locate [OF buckets_counts_ok [OF assms] _ ranks] by (simp add: batch_sweep_run L_def)
    then show ?thesis using False F sp by (simp add: quantiles_batch_def tc_def P_def)
  qed
  have "map (\<lambda>q. quantile f64_exp sk q mn mx) targets = map Q [0..<n]"
    by (intro nth_equalityI) (auto simp: quantile_eq [OF False] Q_def fx_def L_def tc_def n_def split: option.splits)
  then have single: "those (map (\<lambda>q. quantile f64_exp sk q mn mx) targets) =
      (if \<forall>i<n. Q i \<noteq> None then Some (map (\<lambda>i. the (Q i)) [0..<n]) else None)"
    by (simp add: those_map)
  show ?thesis
  proof (cases "\<forall>i<n. Q i \<noteq> None")
    case True
    then have ok: "\<forall>p\<in>set P. L (fst p) \<noteq> None" by (auto simp: setP Q_def)
    have "\<forall>p\<in>set P. snd p < length rs" by (auto simp: setP rs_def)
    then obtain r where r: "fold_opt (assign L) P rs = Some r" "length r = length rs"
        "\<forall>p\<in>set P. r ! snd p = the (L (fst p))" "\<forall>i. i \<notin> snd ` set P \<longrightarrow> r ! i = rs ! i"
      using fold_assign_Some [OF ok dist] by blast
    have "r ! i = the (Q i)" if "i < n" for i
    proof (cases "fx i")
      case None
      then have "(f64_mul (targets ! i) tc, i) \<in> set P" using that by (simp add: setP)
      then show ?thesis using r(3) None by (fastforce simp: Q_def)
    next
      case (Some v)
      then have "i \<notin> snd ` set P" by (auto simp: setP)
      then show ?thesis using r(4) Some that by (simp add: rs_def Q_def)
    qed
    then have "r = map (\<lambda>i. the (Q i)) [0..<n]" using r(2) by (intro nth_equalityI) (simp_all add: rs_def)
    then show ?thesis using batch single True r(1) by simp
  next
    case F: False
    then obtain i where i: "i < n" "Q i = None" by auto
    then have "fx i = None" "L (f64_mul (targets ! i) tc) = None" by (auto simp: Q_def split: option.splits)
    then have "\<exists>p\<in>set P. L (fst p) = None" using i(1) by (force simp: setP)
    then show ?thesis using batch single F fold_assign_None by simp
  qed
qed

text \<open>
  C11. The single sorted sweep that answers many quantiles at once gives, for every target, what a
  query of that quantile alone gives, in the order of the targets and whatever their order, repeats
  or NaNs; and it panics exactly when one of the single queries does.
\<close>

theorem quantiles_batch_equiv:
  assumes "sketch_ok sk"
  shows "quantiles_batch f64_exp sk targets mn mx = those (map (\<lambda>q. quantile f64_exp sk q mn mx) targets)"
  using assms by (rule batch_equiv)

lemma clamp_range:
  "f64_le lo hi \<Longrightarrow> \<exists>v. f64_clamp x lo hi = Some v \<and> (f64_is_nan v \<or> f64_le lo v \<and> f64_le v hi)"
proof -
  assume le: "f64_le lo hi"
  then have n: "\<not> f64_is_nan lo" "\<not> f64_is_nan hi" using f64_le_not_nan by blast+
  then have "f64_le lo lo" "f64_le hi hi" by (simp_all add: f64_le_key)
  moreover have "\<not> f64_is_nan x \<Longrightarrow> \<not> f64_lt x lo \<Longrightarrow> \<not> f64_lt hi x \<Longrightarrow> f64_le lo x \<and> f64_le x hi"
    using f64_not_lt n by blast
  ultimately show ?thesis using le by (auto simp: f64_clamp_def)
qed

lemma locate_range:
  assumes "f64_le mn mx" "\<forall>b\<in>set bs. \<forall>c. \<exists>x. snd b c rank = f64_clamp x mn mx"
  shows "\<exists>v. locate mx bs cum rank = Some v \<and> (f64_is_nan v \<or> f64_le mn v \<and> f64_le v mx)"
  using assms(2)
proof (induction bs arbitrary: cum)
  case Nil
  have "f64_le mx mx" using f64_le_not_nan [OF assms(1)] by (simp add: f64_le_key)
  then show ?case using assms(1) by simp
next
  case (Cons b bs)
  obtain cnt val where b: "b = (cnt, val)" by (cases b)
  then obtain x where "val cum rank = f64_clamp x mn mx" using Cons.prems by (metis list.set_intros(1) snd_conv)
  then show ?case using b clamp_range [OF assms(1)] Cons by simp
qed

lemma quantile_range:
  assumes "f64_le mn mx"
  shows "\<exists>v. quantile f64_exp sk q mn mx = Some v \<and> (f64_is_nan v \<or> f64_le mn v \<and> f64_le v mx)"
proof (cases "f64_le (qs_total_count sk) 0")
  case True
  then show ?thesis by (simp add: quantile_def nan_is_nan)
next
  case False
  have refl: "f64_le mn mn" "f64_le mx mx" using f64_le_not_nan [OF assms] by (simp_all add: f64_le_key)
  show ?thesis
  proof (cases "fixed_quantile mn mx q")
    case None
    have "\<forall>b\<in>set (buckets f64_exp sk mn mx). \<forall>c. \<exists>x. snd b c rank = f64_clamp x mn mx" for rank
      by (auto simp: buckets_def bin_bucket_def Let_def)
    then show ?thesis using locate_range [OF assms] None by (simp add: quantile_eq [OF False])
  next
    case (Some v)
    then have "v = f64_nan \<or> v = mn \<or> v = mx" by (auto simp: fixed_quantile_def split: if_splits)
    then show ?thesis using Some refl assms by (auto simp: quantile_eq [OF False] nan_is_nan)
  qed
qed

text \<open>
  With \<open>min <= max\<close> a quantile query never panics, and what it answers is NaN or lies between the
  two, whatever the sketch holds and whatever the exponential function returns.
\<close>

theorem quantile_in_range:
  assumes "f64_le mn mx"
  shows "\<exists>v. quantile f64_exp sk q mn mx = Some v \<and> (f64_is_nan v \<or> f64_le mn v \<and> f64_le v mx)"
  using assms by (rule quantile_range)

section \<open>A concrete sketch\<close>

definition sample_sketch :: quantile_sketch where
  "sample_sketch = \<lparr> qs_zero_count = f64_one, qs_pos_bins = [(7, f64_two), (3, f64_one)], qs_neg_bins = [(5, f64_half)],
     qs_total_count = f64_add (f64_add (f64_add f64_one f64_two) f64_one) f64_half \<rparr>"

lemma consts_nonneg: "f64_le 0 f64_half" "f64_le 0 f64_one" "f64_le 0 f64_two"
  by (simp_all add: f64_half_def f64_one_def f64_two_def f64_eval)

lemma sample_sketch_ok: "sketch_ok sample_sketch"
  by (simp add: sample_sketch_def sketch_ok_def bins_ok_def consts_nonneg f64_add_nonneg)

theorem quantiles_batch_equiv_witness:
  "sketch_ok sample_sketch \<and>
   quantiles_batch (\<lambda>_. f64_two) sample_sketch [f64_half, f64_nan, 0] 0 f64_two =
     those (map (\<lambda>q. quantile (\<lambda>_. f64_two) sample_sketch q 0 f64_two) [f64_half, f64_nan, 0])"
  using quantiles_batch_equiv [OF sample_sketch_ok, of "\<lambda>_. f64_two" "[f64_half, f64_nan, 0]" 0 f64_two]
    sample_sketch_ok by simp

theorem quantile_in_range_witness:
  "f64_le 0 f64_two \<and>
   (\<exists>v. quantile (\<lambda>_. f64_two) sample_sketch f64_half 0 f64_two = Some v \<and>
     (f64_is_nan v \<or> f64_le 0 v \<and> f64_le v f64_two))"
  using quantile_in_range [OF consts_nonneg(3)] consts_nonneg(3) by blast

theorem sketch_ok_update_witness:
  "sketch_ok (sketch_update f64_two f64_one sketch_new) \<and> \<not> f64_is_nan f64_one"
proof -
  have "\<not> f64_is_nan f64_one" using f64_le_not_nan [OF consts_nonneg(2)] by simp
  then show ?thesis using sketch_ok_update [OF sketch_ok_new] by blast
qed

text \<open>
  A weight that is NaN passes the guard \<open>weight <= 0.0\<close>, and from then on the two queries differ: the
  single one answers the maximum, the batch one an estimate from the first bucket.
\<close>

definition nan_sketch :: quantile_sketch where
  "nan_sketch = sketch_new\<lparr> qs_total_count := f64_nan, qs_pos_bins := [(0, f64_nan)] \<rparr>"

lemma nan_cmp: "\<not> f64_le f64_nan x" "\<not> f64_le x f64_nan" "\<not> f64_lt f64_nan x" "\<not> f64_lt x f64_nan"
  using f64_le_not_nan f64_lt_not_nan nan_is_nan by blast+

lemma nan_unpack: "unpack f64_nan = FNan"
  by (simp add: f64_nan_def unpack_def unpack_gen_def)

lemma nan_add: "f64_add x f64_nan = f64_nan"
  by (cases "unpack x") (simp_all add: f64_add_def nan_unpack)

lemma nan_mul: "f64_mul x f64_nan = f64_nan"
  by (cases "unpack x") (simp_all add: f64_mul_def nan_unpack)

lemma f64_sort_single: "sort_key f [x] = [x]"
  by simp

lemma half_two_cmp:
  "\<not> f64_is_nan f64_half" "\<not> f64_le f64_half 0" "\<not> f64_le f64_one f64_half"
  "\<not> f64_lt (f64_abs (f64_sub f64_one f64_two)) f64_1e_12"
  by (simp_all add: f64_half_def f64_one_def f64_two_def f64_1e_12_def f64_abs_def f64_eval)

lemma batch_differs_on_nan_weight:
  "quantile f64_exp nan_sketch f64_half f64_one f64_two = Some f64_two \<and>
   quantiles_batch f64_exp nan_sketch [f64_half] f64_one f64_two =
     map_option (\<lambda>v. [v]) (f64_clamp (pos_value f64_exp 0 f64_half) f64_one f64_two)"
proof
  have z: "\<not> f64_lt 0 (0 :: f64)" using f64_lt_not_nan f64_lt_key by blast
  show "quantile f64_exp nan_sketch f64_half f64_one f64_two = Some f64_two"
    by (simp add: quantile_def nan_sketch_def sketch_new_def nan_cmp half_two_cmp nan_mul quantile_sweep_def
      neg_keys_def pos_keys_def nan_add z Let_def)
  show "quantiles_batch f64_exp nan_sketch [f64_half] f64_one f64_two =
     map_option (\<lambda>v. [v]) (f64_clamp (pos_value f64_exp 0 f64_half) f64_one f64_two)"
    by (cases "f64_clamp (pos_value f64_exp 0 f64_half) f64_one f64_two")
      (simp_all add: quantiles_batch_def nan_sketch_def sketch_new_def nan_cmp half_two_cmp nan_mul split_targets_def
        fixed_quantile_def batch_sweep_def neg_keys_def pos_keys_def nan_add z Let_def unless_done_def batch_zero_def fraction_def)
qed

end
