(* ===== verification/Accumulator.thy ===== *)
theory Accumulator
  imports Quantile
begin

text \<open>
  The running statistics of a cell (\<open>aggregator/accumulator.rs\<close>): Welford's update, the two-pass
  update of a slice, the pairwise merge, and the estimates read from them.
\<close>

section \<open>Square root\<close>

text \<open>\<open>f64::sqrt\<close> is the square root rounded to nearest: an integer root with 64 extra bits and a sticky bit.\<close>

fun isqrt :: "nat \<Rightarrow> nat" where
  "isqrt n = (if n = 0 then 0 else let r = 2 * isqrt (n div 4) in if (r + 1) * (r + 1) \<le> n then r + 1 else r)"

declare isqrt.simps [simp del]

definition f64_sqrt :: "f64 \<Rightarrow> f64" where
  "f64_sqrt x =
     (case unpack x of
        FNan \<Rightarrow> f64_nan
      | FInf s \<Rightarrow> if s then f64_nan else f64_inf
      | FFin s m e \<Rightarrow>
          if m = 0 then x else if s then f64_nan
          else (let (m, e) = (if even e then (m, e) else (2 * m, e - 1));
                    n = m * 2 ^ 128; r = isqrt n
                in round_scaled False (2 * r + (if r * r = n then 0 else 1)) (e div 2 - 65)))"

section \<open>The accumulator\<close>

record h3_accumulator =
  acc_sum :: f64
  acc_count :: f64
  acc_min :: f64
  acc_max :: f64
  acc_m2 :: f64
  acc_sum_w2 :: f64
  acc_quantiles :: "quantile_sketch option"

definition acc_default :: h3_accumulator where
  "acc_default = \<lparr> acc_sum = 0, acc_count = 0, acc_min = f64_inf, acc_max = f64_neg_inf, acc_m2 = 0, acc_sum_w2 = 0,
                   acc_quantiles = None \<rparr>"

definition acc_new :: "f64 \<Rightarrow> h3_accumulator" where
  "acc_new val = \<lparr> acc_sum = val, acc_count = f64_one, acc_min = val, acc_max = val, acc_m2 = 0, acc_sum_w2 = f64_one,
                   acc_quantiles = None \<rparr>"

definition acc_new_weighted :: "f64 \<Rightarrow> f64 \<Rightarrow> h3_accumulator" where
  "acc_new_weighted val weight =
     \<lparr> acc_sum = f64_mul val weight, acc_count = weight, acc_min = val, acc_max = val, acc_m2 = 0,
       acc_sum_w2 = f64_mul weight weight, acc_quantiles = None \<rparr>"

definition from_weighted_stats :: "f64 \<Rightarrow> f64 \<Rightarrow> f64 \<Rightarrow> f64 \<Rightarrow> f64 \<Rightarrow> f64 \<Rightarrow> h3_accumulator" where
  "from_weighted_stats sm cnt sum_w2 mn mx m2 =
     \<lparr> acc_sum = sm, acc_count = cnt, acc_min = mn, acc_max = mx, acc_m2 = m2, acc_sum_w2 = sum_w2, acc_quantiles = None \<rparr>"

definition from_stats :: "f64 \<Rightarrow> f64 \<Rightarrow> f64 \<Rightarrow> f64 \<Rightarrow> f64 \<Rightarrow> h3_accumulator" where
  "from_stats sm cnt mn mx m2 = from_weighted_stats sm cnt cnt mn mx m2"

definition with_quantiles :: h3_accumulator where
  "with_quantiles = acc_default\<lparr> acc_quantiles := Some sketch_new \<rparr>"

definition apply_affine :: "f64 \<Rightarrow> f64 \<Rightarrow> h3_accumulator \<Rightarrow> h3_accumulator" where
  "apply_affine scale offset acc =
     (if f64_eq (acc_count acc) 0 then acc
      else
        let sm = f64_add (f64_mul (acc_sum acc) scale) (f64_mul offset (acc_count acc));
            m2 = f64_mul (acc_m2 acc) (f64_mul scale scale);
            lo = f64_add (f64_mul (acc_min acc) scale) offset;
            hi = f64_add (f64_mul (acc_max acc) scale) offset;
            (mn, mx) = (if f64_lt scale 0 then (hi, lo) else (lo, hi))
        in acc\<lparr> acc_sum := sm, acc_m2 := m2, acc_min := mn, acc_max := mx \<rparr>)"

definition acc_clear :: "h3_accumulator \<Rightarrow> h3_accumulator" where
  "acc_clear acc =
     \<lparr> acc_sum = 0, acc_count = 0, acc_min = f64_inf, acc_max = f64_neg_inf, acc_m2 = 0, acc_sum_w2 = 0,
       acc_quantiles = map_option sketch_clear (acc_quantiles acc) \<rparr>"

definition acc_update :: "f64 \<Rightarrow> h3_accumulator \<Rightarrow> h3_accumulator" where
  "acc_update val acc =
     (if \<not> f64_is_finite val then acc
      else
        let acc = acc\<lparr> acc_quantiles := map_option (sketch_update val f64_one) (acc_quantiles acc) \<rparr>
        in if f64_eq (acc_count acc) 0
           then acc\<lparr> acc_sum := val, acc_count := f64_one, acc_min := val, acc_max := val, acc_m2 := 0, acc_sum_w2 := f64_one \<rparr>
           else
             let delta = f64_sub val (f64_div (acc_sum acc) (acc_count acc));
                 sm = f64_add (acc_sum acc) val;
                 cnt = f64_add (acc_count acc) f64_one;
                 delta2 = f64_sub val (f64_div sm cnt)
             in acc\<lparr> acc_sum := sm, acc_count := cnt, acc_sum_w2 := f64_add (acc_sum_w2 acc) f64_one,
                     acc_m2 := f64_add (acc_m2 acc) (f64_mul delta delta2),
                     acc_min := f64_min (acc_min acc) val, acc_max := f64_max (acc_max acc) val \<rparr>)"

definition acc_update_weighted :: "f64 \<Rightarrow> f64 \<Rightarrow> h3_accumulator \<Rightarrow> h3_accumulator" where
  "acc_update_weighted val weight acc =
     (if \<not> (f64_is_finite weight \<and> f64_lt 0 weight) \<or> \<not> f64_is_finite val then acc
      else
        let acc = acc\<lparr> acc_quantiles := map_option (sketch_update val weight) (acc_quantiles acc) \<rparr>
        in if f64_eq (acc_count acc) 0
           then acc\<lparr> acc_sum := f64_mul val weight, acc_count := weight, acc_min := val, acc_max := val, acc_m2 := 0,
                     acc_sum_w2 := f64_mul weight weight \<rparr>
           else
             let old_mean = f64_div (acc_sum acc) (acc_count acc);
                 sm = f64_add (acc_sum acc) (f64_mul val weight);
                 cnt = f64_add (acc_count acc) weight;
                 new_mean = f64_div sm cnt
             in acc\<lparr> acc_sum := sm, acc_count := cnt, acc_sum_w2 := f64_add (acc_sum_w2 acc) (f64_mul weight weight),
                     acc_m2 := f64_add (acc_m2 acc) (f64_mul (f64_mul weight (f64_sub val old_mean)) (f64_sub val new_mean)),
                     acc_min := f64_min (acc_min acc) val, acc_max := f64_max (acc_max acc) val \<rparr>)"

definition acc_merge :: "h3_accumulator \<Rightarrow> h3_accumulator \<Rightarrow> h3_accumulator" where
  "acc_merge acc other =
     (if f64_eq (acc_count other) 0 then acc
      else if f64_eq (acc_count acc) 0
      then \<lparr> acc_sum = acc_sum other, acc_count = acc_count other, acc_min = acc_min other, acc_max = acc_max other,
             acc_m2 = acc_m2 other, acc_sum_w2 = acc_sum_w2 other,
             acc_quantiles =
               (case acc_quantiles other of
                  None \<Rightarrow> acc_quantiles acc
                | Some q_other \<Rightarrow>
                    (case acc_quantiles acc of
                       Some q_self \<Rightarrow> Some (sketch_merge q_self q_other)
                     | None \<Rightarrow> Some q_other)) \<rparr>
      else
        let n1 = acc_count acc; n2 = acc_count other;
            mean1 = f64_div (acc_sum acc) n1; mean2 = f64_div (acc_sum other) n2;
            delta = f64_sub mean2 mean1
        in \<lparr> acc_sum = f64_add (acc_sum acc) (acc_sum other), acc_count = f64_add n1 n2,
             acc_min = f64_min (acc_min acc) (acc_min other), acc_max = f64_max (acc_max acc) (acc_max other),
             acc_m2 = f64_add (acc_m2 acc) (f64_add (acc_m2 other)
                        (f64_mul (f64_mul delta delta) (f64_div (f64_mul n1 n2) (f64_add n1 n2)))),
             acc_sum_w2 = f64_add (acc_sum_w2 acc) (acc_sum_w2 other),
             acc_quantiles =
               (case (acc_quantiles acc, acc_quantiles other) of
                  (Some q_self, Some q_other) \<Rightarrow> Some (sketch_merge q_self q_other)
                | _ \<Rightarrow> acc_quantiles acc) \<rparr>)"

text \<open>The first pass over a slice: sum, minimum, maximum and count of its finite values.\<close>

definition slice_stats :: "f64 list \<Rightarrow> f64 \<times> f64 \<times> f64 \<times> f64" where
  "slice_stats vals =
     fold (\<lambda>v (sm, mn, mx, cnt).
             if f64_is_finite v then (f64_add sm v, f64_min mn v, f64_max mx v, f64_add cnt f64_one) else (sm, mn, mx, cnt))
       vals (0, f64_inf, f64_neg_inf, 0)"

definition slice_m2 :: "f64 \<Rightarrow> f64 list \<Rightarrow> f64" where
  "slice_m2 mean vals =
     fold (\<lambda>v m2. if f64_is_finite v then let d = f64_sub v mean in f64_add m2 (f64_mul d d) else m2) vals 0"

definition update_slice :: "f64 list \<Rightarrow> h3_accumulator \<Rightarrow> h3_accumulator" where
  "update_slice vals acc =
     (if vals = [] then acc
      else
        let acc = acc\<lparr> acc_quantiles :=
              map_option (fold (\<lambda>v q. if f64_is_finite v then sketch_update v f64_one q else q) vals) (acc_quantiles acc) \<rparr>
        in case slice_stats vals of (sm, mn, mx, cnt) \<Rightarrow>
             if f64_eq cnt 0 then acc
             else acc_merge acc (from_stats sm cnt mn mx (slice_m2 (f64_div sm cnt) vals)))"

section \<open>Estimates\<close>

definition acc_mean :: "h3_accumulator \<Rightarrow> f64" where
  "acc_mean acc = (if f64_lt 0 (acc_count acc) then f64_div (acc_sum acc) (acc_count acc) else f64_nan)"

definition acc_variance :: "h3_accumulator \<Rightarrow> f64" where
  "acc_variance acc =
     (if f64_le (acc_count acc) 0 then f64_nan
      else
        let denom = f64_sub (acc_count acc) (f64_div (acc_sum_w2 acc) (acc_count acc))
        in if f64_lt (f64_mul (acc_count acc) f64_1e_12) denom \<and> f64_lt 0 (acc_m2 acc)
           then f64_div (acc_m2 acc) denom else 0)"

definition acc_stddev :: "h3_accumulator \<Rightarrow> f64" where
  "acc_stddev acc =
     (let var = acc_variance acc in if f64_is_nan var then f64_nan else f64_sqrt (f64_max var 0))"

definition acc_quantile :: "(f64 \<Rightarrow> f64) \<Rightarrow> f64 \<Rightarrow> h3_accumulator \<Rightarrow> f64 option" where
  "acc_quantile f64_exp q acc =
     (case acc_quantiles acc of
        Some sketch \<Rightarrow> quantile f64_exp sketch q (acc_min acc) (acc_max acc)
      | None \<Rightarrow> Some f64_nan)"

definition f64_quarter :: f64 where "f64_quarter = 0x3FD0000000000000"
definition f64_three_quarters :: f64 where "f64_three_quarters = 0x3FE8000000000000"

definition acc_iqr :: "(f64 \<Rightarrow> f64) \<Rightarrow> h3_accumulator \<Rightarrow> f64 option" where
  "acc_iqr f64_exp acc =
     (case acc_quantiles acc of
        Some sketch \<Rightarrow>
          map_option (\<lambda>q. f64_max (f64_sub (q ! 1) (q ! 0)) 0)
            (quantiles_batch f64_exp sketch [f64_quarter, f64_three_quarters] (acc_min acc) (acc_max acc))
      | None \<Rightarrow> Some f64_nan)"

section \<open>Runs of pixels\<close>

record fast_run_accumulator =
  run_sum :: f64
  run_sum_sq :: f64
  run_count :: f64
  run_min :: f64
  run_max :: f64

definition run_default :: fast_run_accumulator where
  "run_default = \<lparr> run_sum = 0, run_sum_sq = 0, run_count = 0, run_min = f64_inf, run_max = f64_neg_inf \<rparr>"

definition into_h3 :: "fast_run_accumulator \<Rightarrow> h3_accumulator" where
  "into_h3 fr =
     (let m2 = (if f64_lt f64_one (run_count fr)
                then f64_sub (run_sum_sq fr) (f64_div (f64_mul (run_sum fr) (run_sum fr)) (run_count fr)) else 0)
      in \<lparr> acc_sum = run_sum fr, acc_count = run_count fr, acc_min = run_min fr, acc_max = run_max fr,
           acc_m2 = f64_max m2 0, acc_sum_w2 = run_count fr, acc_quantiles = None \<rparr>)"

section \<open>Invariant\<close>

text \<open>
  An accumulator is empty, or has a positive count and a minimum that is not above its maximum; its
  sketch is well formed.
\<close>

definition acc_ok :: "h3_accumulator \<Rightarrow> bool" where
  "acc_ok acc \<longleftrightarrow>
     (f64_eq (acc_count acc) 0 \<or> f64_lt 0 (acc_count acc) \<and> f64_le (acc_min acc) (acc_max acc)) \<and>
     (case acc_quantiles acc of None \<Rightarrow> True | Some sk \<Rightarrow> sketch_ok sk)"

lemma finite_not_nan: "f64_is_finite v \<Longrightarrow> \<not> f64_is_nan v"
  by (auto simp: f64_is_finite_def f64_is_nan_def)

lemma f64_le_refl: "\<not> f64_is_nan v \<Longrightarrow> f64_le v v"
  by (simp add: f64_le_key)

lemma min_le_right: "\<not> f64_is_nan v \<Longrightarrow> f64_le (f64_min a v) v"
  using f64_not_lt [of v a] by (auto simp: f64_min_def f64_le_refl)

lemma max_ge_right: "\<not> f64_is_nan v \<Longrightarrow> f64_le v (f64_max b v)"
  using f64_not_lt [of b v] by (auto simp: f64_max_def f64_le_refl)

lemma min_le_max: "\<not> f64_is_nan v \<Longrightarrow> f64_le (f64_min a v) (f64_max b v)"
  using f64_le_trans min_le_right max_ge_right by blast

lemma min_le_max2:
  assumes "f64_le c d"
  shows "f64_le (f64_min a c) (f64_max b d)"
proof -
  have "\<not> f64_is_nan c" "\<not> f64_is_nan d" using f64_le_not_nan [OF assms] by simp_all
  then show ?thesis using assms f64_le_trans min_le_right max_ge_right by meson
qed

lemma one_pos: "f64_lt 0 f64_one"
  by (simp add: f64_one_def f64_eval)

lemma one_not_nan: "\<not> f64_is_nan f64_one"
  using f64_lt_not_nan [OF one_pos] by simp

lemma zero_eq: "f64_eq 0 0"
  by (simp add: f64_eq_key)

lemma pos_not_zero: "f64_lt 0 c \<Longrightarrow> \<not> f64_eq c 0"
  by (metis f64_eq_key f64_is_nan_0 f64_lt_key f64_lt_not_nan less_irrefl)

lemma acc_ok_empty: "acc_ok acc_default" "acc_ok with_quantiles"
  by (simp_all add: acc_ok_def with_quantiles_def acc_default_def zero_eq sketch_ok_new)

lemma sketch_ok_clear: "sketch_ok (sketch_clear sk)"
  by (simp add: sketch_ok_def sketch_clear_def bins_ok_def f64_le_0)

lemma acc_ok_clear: "acc_ok (acc_clear acc)"
  by (cases "acc_quantiles acc") (simp_all add: acc_ok_def acc_clear_def zero_eq sketch_ok_clear)

lemma acc_ok_update:
  assumes "acc_ok acc"
  shows "acc_ok (acc_update val acc)"
proof (cases "f64_is_finite val")
  case True
  note nan = finite_not_nan [OF True]
  have q: "case map_option (sketch_update val f64_one) (acc_quantiles acc) of None \<Rightarrow> True | Some sk \<Rightarrow> sketch_ok sk"
    using assms sketch_ok_update [OF _ one_not_nan] by (auto simp: acc_ok_def split: option.splits)
  show ?thesis
    using assms q True nan one_pos
    by (auto simp: acc_ok_def acc_update_def Let_def f64_le_refl min_le_max f64_add_pos)
qed (use assms in \<open>simp add: acc_update_def\<close>)

lemma acc_ok_update_weighted:
  assumes "acc_ok acc"
  shows "acc_ok (acc_update_weighted val weight acc)"
proof (cases "f64_is_finite weight \<and> f64_lt 0 weight \<and> f64_is_finite val")
  case True
  then have nan: "\<not> f64_is_nan val" "\<not> f64_is_nan weight" using finite_not_nan by blast+
  have q: "case map_option (sketch_update val weight) (acc_quantiles acc) of None \<Rightarrow> True | Some sk \<Rightarrow> sketch_ok sk"
    using assms sketch_ok_update [OF _ nan(2)] by (auto simp: acc_ok_def split: option.splits)
  show ?thesis
    using assms q True nan
    by (auto simp: acc_ok_def acc_update_weighted_def Let_def f64_le_refl min_le_max f64_add_pos)
qed (use assms in \<open>auto simp: acc_update_weighted_def\<close>)

lemma acc_ok_merge:
  assumes "acc_ok acc" "acc_ok other"
  shows "acc_ok (acc_merge acc other)"
  using assms by (auto simp: acc_ok_def acc_merge_def Let_def min_le_max2 f64_add_pos sketch_ok_merge split: option.splits)

lemma slice_stats_ok:
  assumes "slice_stats vals = (sm, mn, mx, cnt)"
  shows "f64_eq cnt 0 \<or> f64_lt 0 cnt \<and> f64_le mn mx"
proof -
  define P where "P = (\<lambda>(sm :: f64, mn, mx, cnt). cnt = 0 \<or> f64_lt 0 cnt \<and> f64_le mn mx)"
  have "P (slice_stats vals)"
    unfolding slice_stats_def
  proof (rule fold_invariant [where Q = "\<lambda>_. True"])
    fix v and st :: "f64 \<times> f64 \<times> f64 \<times> f64"
    obtain sm mn mx cnt where st: "st = (sm, mn, mx, cnt)" by (cases st)
    assume "P st"
    then have "f64_lt 0 (f64_add cnt f64_one)" using one_pos by (auto simp: st P_def f64_add_pos f64_add_0_pos)
    then show "P (case st of (sm, mn, mx, cnt) \<Rightarrow>
        if f64_is_finite v then (f64_add sm v, f64_min mn v, f64_max mx v, f64_add cnt f64_one) else (sm, mn, mx, cnt))"
      using \<open>P st\<close> finite_not_nan [of v] by (simp add: st P_def min_le_max)
  qed (simp_all add: P_def)
  then have "cnt = 0 \<or> f64_lt 0 cnt \<and> f64_le mn mx" by (simp add: assms P_def)
  then show ?thesis using zero_eq by auto
qed

lemma acc_ok_update_slice:
  assumes "acc_ok acc"
  shows "acc_ok (update_slice vals acc)"
proof -
  have sk: "sketch_ok sk \<Longrightarrow> sketch_ok (fold (\<lambda>v q. if f64_is_finite v then sketch_update v f64_one q else q) vals sk)" for sk
    by (induction vals arbitrary: sk) (simp_all add: sketch_ok_update one_not_nan)
  define acc' where "acc' = acc\<lparr> acc_quantiles :=
      map_option (fold (\<lambda>v q. if f64_is_finite v then sketch_update v f64_one q else q) vals) (acc_quantiles acc) \<rparr>"
  have ok: "acc_ok acc'" using assms sk by (auto simp: acc_ok_def acc'_def split: option.splits)
  obtain sm mn mx cnt where st: "slice_stats vals = (sm, mn, mx, cnt)" by (cases "slice_stats vals")
  have "acc_ok (from_stats sm cnt mn mx m2)" for m2
    using slice_stats_ok [OF st] by (simp add: acc_ok_def from_stats_def from_weighted_stats_def)
  then show ?thesis
    using assms ok by (simp add: update_slice_def Let_def acc'_def [symmetric] st acc_ok_merge)
qed


text \<open>
  The quantile query of an accumulator that is not empty never panics in the clamp to its minimum
  and maximum, and answers NaN or a value between them; the interquartile range never panics either.
\<close>

theorem accumulator_quantile:
  assumes "acc_ok acc" "\<not> f64_eq (acc_count acc) 0"
  shows "(\<exists>v. acc_quantile f64_exp q acc = Some v \<and>
      (f64_is_nan v \<or> f64_le (acc_min acc) v \<and> f64_le v (acc_max acc))) \<and>
    acc_iqr f64_exp acc \<noteq> None"
proof (cases "acc_quantiles acc")
  case None
  then show ?thesis by (simp add: acc_quantile_def acc_iqr_def nan_is_nan)
next
  case (Some sk)
  have le: "f64_le (acc_min acc) (acc_max acc)" and sk: "sketch_ok sk"
    using assms Some by (auto simp: acc_ok_def)
  have range: "\<exists>v. quantile f64_exp sk q (acc_min acc) (acc_max acc) = Some v \<and>
      (f64_is_nan v \<or> f64_le (acc_min acc) v \<and> f64_le v (acc_max acc))" for q
    by (rule quantile_range [OF le])
  then obtain a b where "quantile f64_exp sk f64_quarter (acc_min acc) (acc_max acc) = Some a"
      "quantile f64_exp sk f64_three_quarters (acc_min acc) (acc_max acc) = Some b" by blast
  then show ?thesis
    using range [of q] by (simp add: acc_quantile_def acc_iqr_def Some batch_equiv [OF sk])
qed

section \<open>Concrete accumulators\<close>


theorem accumulator_quantile_witness:
  "acc_iqr (\<lambda>_. f64_two) (acc_update f64_two with_quantiles) \<noteq> None"
proof -
  have "f64_is_finite f64_two" by (simp add: f64_is_finite_def f64_two_def unpack_def unpack_gen_def)
  then have "acc_count (acc_update f64_two with_quantiles) = f64_one"
    by (simp add: acc_update_def with_quantiles_def acc_default_def Let_def zero_eq)
  then have "\<not> f64_eq (acc_count (acc_update f64_two with_quantiles)) 0" using pos_not_zero [OF one_pos] by simp
  from accumulator_quantile [OF acc_ok_update [OF acc_ok_empty(2)] this] show ?thesis by blast
qed

end
