(* ===== verification/Categorical.thy ===== *)
theory Categorical
  imports Float_Order Rust_Str "HOL-Library.AList"
begin

text \<open>
  Class frequencies of a cell (\<open>aggregator/categorical.rs\<close>): sixteen inline slots that spill to a
  hash map, the majority class, the histogram text, and the test that a span of pixels is uniform. A
  hash map is the list of its entries in iteration order, with one entry per key.
\<close>

section \<open>The accumulator\<close>

definition INLINE_CAPACITY :: usize where "INLINE_CAPACITY = 16"

type_synonym class_counts = "(i64 \<times> f64) list"

record categorical_acc =
  ca_inline_entries :: class_counts
  ca_inline_len :: u8
  ca_heap_counts :: "class_counts option"
  ca_total_count :: f64

definition cat_new :: categorical_acc where
  "cat_new = \<lparr> ca_inline_entries = replicate INLINE_CAPACITY (0, 0), ca_inline_len = 0,
               ca_heap_counts = None, ca_total_count = 0 \<rparr>"

text \<open>The pairs \<open>for_each_class\<close> visits, in its order.\<close>

definition cat_classes :: "categorical_acc \<Rightarrow> class_counts" where
  "cat_classes acc =
     (case ca_heap_counts acc of
        Some heap \<Rightarrow> heap
      | None \<Rightarrow> map (\<lambda>i. ca_inline_entries acc ! i) [0..<unat (ca_inline_len acc)])"

definition inline_slot :: "categorical_acc \<Rightarrow> i64 \<Rightarrow> usize option" where
  "inline_slot acc category =
     find (\<lambda>i. fst (ca_inline_entries acc ! i) = category) [0..<unat (ca_inline_len acc)]"

definition get_class_count :: "categorical_acc \<Rightarrow> i64 \<Rightarrow> f64" where
  "get_class_count acc category =
     (case ca_heap_counts acc of
        Some heap \<Rightarrow> (case map_of heap category of None \<Rightarrow> 0 | Some n \<Rightarrow> n)
      | None \<Rightarrow> (case inline_slot acc category of None \<Rightarrow> 0 | Some i \<Rightarrow> snd (ca_inline_entries acc ! i)))"

definition unique_classes :: "categorical_acc \<Rightarrow> usize" where
  "unique_classes acc =
     (case ca_heap_counts acc of Some heap \<Rightarrow> length heap | None \<Rightarrow> unat (ca_inline_len acc))"

definition spill_to_heap :: "class_counts \<Rightarrow> i64 \<Rightarrow> f64 \<Rightarrow> class_counts" where
  "spill_to_heap entries category weight =
     AList.update category weight
       (fold (\<lambda>i. AList.update (fst (entries ! i)) (snd (entries ! i))) [0..<INLINE_CAPACITY] [])"

definition cat_update_weighted :: "i64 \<Rightarrow> f64 \<Rightarrow> categorical_acc \<Rightarrow> categorical_acc" where
  "cat_update_weighted category weight acc =
     (if f64_le weight 0 then acc
      else
        let acc = acc\<lparr> ca_total_count := f64_add (ca_total_count acc) weight \<rparr>
        in case ca_heap_counts acc of
             Some heap \<Rightarrow>
               acc\<lparr> ca_heap_counts :=
                 Some (AList.update category
                   (f64_add (case map_of heap category of None \<Rightarrow> 0 | Some n \<Rightarrow> n) weight) heap) \<rparr>
           | None \<Rightarrow>
               let len = unat (ca_inline_len acc); es = ca_inline_entries acc
               in case inline_slot acc category of
                    Some i \<Rightarrow> acc\<lparr> ca_inline_entries := es[i := (fst (es ! i), f64_add (snd (es ! i)) weight)] \<rparr>
                  | None \<Rightarrow>
                      if len < INLINE_CAPACITY
                      then acc\<lparr> ca_inline_entries := es[len := (category, weight)], ca_inline_len := ca_inline_len acc + 1 \<rparr>
                      else acc\<lparr> ca_heap_counts := Some (spill_to_heap es category weight) \<rparr>)"

definition cat_update :: "i64 \<Rightarrow> categorical_acc \<Rightarrow> categorical_acc" where
  "cat_update category = cat_update_weighted category f64_one"

definition cat_merge :: "categorical_acc \<Rightarrow> categorical_acc \<Rightarrow> categorical_acc" where
  "cat_merge acc other =
     (if f64_eq (ca_total_count other) 0 then acc
      else fold (\<lambda>(cat, cnt). cat_update_weighted cat cnt) (cat_classes other) acc)"

section \<open>Majority, entropy and histogram\<close>

definition f64_1e_9 :: f64 where "f64_1e_9 = 0x3E112E0BE826D695"

definition is_tie :: "f64 \<Rightarrow> f64 \<Rightarrow> f64 \<Rightarrow> bool" where
  "is_tie tie_eps cnt max_count \<longleftrightarrow> f64_le (f64_abs (f64_sub cnt max_count)) tie_eps"

text \<open>The scan's state: the class and count of the leader and whether there is one.\<close>

definition majority_step :: "f64 \<Rightarrow> i64 \<times> f64 \<Rightarrow> i64 \<times> f64 \<times> bool \<Rightarrow> i64 \<times> f64 \<times> bool" where
  "majority_step tie_eps p st =
     (case (p, st) of ((cat, cnt), (max_cat, max_count, seen_any)) \<Rightarrow>
        if \<not> seen_any \<or> f64_lt max_count cnt \<and> \<not> is_tie tie_eps cnt max_count \<or>
           is_tie tie_eps cnt max_count \<and> cat <s max_cat
        then (cat, cnt, True)
        else st)"

definition majority :: "categorical_acc \<Rightarrow> i64 \<times> f64 \<times> f64" where
  "majority acc =
     (if f64_eq (ca_total_count acc) 0 then (0, 0, 0)
      else
        let tie_eps = f64_mul (f64_abs (ca_total_count acc)) f64_1e_9
        in case fold (majority_step tie_eps) (cat_classes acc) (0, f64_neg f64_one, False) of
             (max_cat, max_count, _) \<Rightarrow>
               (max_cat, max_count,
                if f64_lt 0 (ca_total_count acc) \<and> f64_lt 0 max_count
                then f64_div max_count (ca_total_count acc) else 0))"

definition shannon_entropy :: "(f64 \<Rightarrow> f64) \<Rightarrow> categorical_acc \<Rightarrow> f64" where
  "shannon_entropy f64_ln acc =
     (if f64_le (ca_total_count acc) 0 \<or> unique_classes acc \<le> 1 then 0
      else fold (\<lambda>(_, cnt) entropy.
             if f64_lt 0 cnt
             then let p = f64_div cnt (ca_total_count acc) in f64_sub entropy (f64_mul p (f64_ln p))
             else entropy) (cat_classes acc) 0)"

fun digits_of :: "nat \<Rightarrow> rstr" where
  "digits_of n = (if n < 10 then [48 + n] else digits_of (n div 10) @ [48 + n mod 10])"

declare digits_of.simps [simp del]

definition display_int :: "int \<Rightarrow> rstr" where
  "display_int i = (if i < 0 then lit ''-'' else []) @ digits_of (nat \<bar>i\<bar>)"

text \<open>\<open>{:04}\<close>\<close>

definition display_04 :: "nat \<Rightarrow> rstr" where
  "display_04 n = (let s = digits_of n in replicate (4 - length s) 48 @ s)"

definition f64_10000 :: f64 where "f64_10000 = 0x40C3880000000000"

definition class_fraction :: "f64 \<Rightarrow> f64 \<Rightarrow> f64" where
  "class_fraction tc cnt =
     (if f64_lt 0 tc
      then let x = f64_div cnt tc in if f64_lt x 0 then 0 else if f64_lt f64_one x then f64_one else x
      else 0)"

definition histogram_entry :: "f64 \<Rightarrow> i64 \<times> f64 \<Rightarrow> rstr" where
  "histogram_entry tc p =
     (let frac_i = nat (f64_to_int 0 (2 ^ 32 - 1) (f64_add (f64_mul (class_fraction tc (snd p)) f64_10000) f64_half))
      in [34] @ display_int (sint (fst p)) @ [34] @ lit '': '' @ digits_of (frac_i div 10000) @ lit ''.''
         @ display_04 (frac_i mod 10000))"

text \<open>The entries are sorted on the stack or on the heap, the same way.\<close>

definition histogram_entries :: "categorical_acc \<Rightarrow> class_counts" where
  "histogram_entries acc = sort_key (\<lambda>p. sint (fst p)) (cat_classes acc)"

definition histogram_json :: "categorical_acc \<Rightarrow> rstr" where
  "histogram_json acc =
     (if unique_classes acc = 0 then lit ''{}''
      else lit ''{'' @
           concat (map (\<lambda>i. (if i > 0 then lit '', '' else []) @
                             histogram_entry (ca_total_count acc) (histogram_entries acc ! i))
             [0..<length (histogram_entries acc)]) @
           lit ''}'')"

section \<open>Uniform spans\<close>

text \<open>\<open>as_chunks::<N>()\<close>: the full chunks of \<open>n\<close> elements, and the rest.\<close>

definition as_chunks :: "nat \<Rightarrow> 'a list \<Rightarrow> 'a list list \<times> 'a list" where
  "as_chunks n xs =
     (map (\<lambda>k. take n (drop (k * n) xs)) [0..<length xs div n], drop (length xs div n * n) xs)"

definition diff_bits :: "('a \<Rightarrow> 'b::len word) \<Rightarrow> 'a \<Rightarrow> 'a list \<Rightarrow> 'b word" where
  "diff_bits bits x chunk = fold (\<lambda>v diff. diff OR (bits v XOR bits x)) chunk 0"

definition is_uniform_word :: "nat \<Rightarrow> 'b::len word list \<Rightarrow> bool" where
  "is_uniform_word n xs =
     (case xs of
        [] \<Rightarrow> True
      | x # rest \<Rightarrow>
          (case as_chunks n rest of
             (chunks, rem) \<Rightarrow> list_all (\<lambda>c. diff_bits id x c = 0) chunks \<and> list_all (\<lambda>v. v = x) rem))"

definition is_uniform_u8 :: "u8 list \<Rightarrow> bool" where "is_uniform_u8 = is_uniform_word 32"
definition is_uniform_u16 :: "u16 list \<Rightarrow> bool" where "is_uniform_u16 = is_uniform_word 16"
definition is_uniform_u32 :: "u32 list \<Rightarrow> bool" where "is_uniform_u32 = is_uniform_word 8"
definition is_uniform_u64 :: "u64 list \<Rightarrow> bool" where "is_uniform_u64 = is_uniform_word 8"

text \<open>Signed pixels are reinterpreted as unsigned ones.\<close>

definition is_uniform_i8 :: "8 word list \<Rightarrow> bool" where "is_uniform_i8 = is_uniform_u8"
definition is_uniform_i16 :: "16 word list \<Rightarrow> bool" where "is_uniform_i16 = is_uniform_u16"
definition is_uniform_i32 :: "32 word list \<Rightarrow> bool" where "is_uniform_i32 = is_uniform_u32"
definition is_uniform_i64 :: "64 word list \<Rightarrow> bool" where "is_uniform_i64 = is_uniform_u64"

text \<open>Comparing two \<open>f32\<close> values is comparing them as \<open>f64\<close>, which holds them exactly.\<close>

definition is_uniform_f32 :: "f32 list \<Rightarrow> bool" where
  "is_uniform_f32 xs =
     (case xs of
        [] \<Rightarrow> True
      | x # rest \<Rightarrow>
          (case as_chunks 8 rest of
             (chunks, rem) \<Rightarrow>
               list_all (\<lambda>c. diff_bits id x c = 0 \<or> list_all (\<lambda>v. f64_eq (f64_of_f32 v) (f64_of_f32 x)) c) chunks \<and>
               list_all (\<lambda>v. f64_eq (f64_of_f32 v) (f64_of_f32 x)) rem))"

definition is_uniform_f64 :: "f64 list \<Rightarrow> bool" where
  "is_uniform_f64 xs =
     (case xs of
        [] \<Rightarrow> True
      | x # rest \<Rightarrow>
          (case as_chunks 8 rest of
             (chunks, rem) \<Rightarrow>
               list_all (\<lambda>c. diff_bits id x c = 0 \<or> list_all (\<lambda>v. f64_eq v x) c) chunks \<and>
               list_all (\<lambda>v. f64_eq v x) rem))"

definition unsigned_to_category :: "'a::len word \<Rightarrow> i64 option" where "unsigned_to_category v = Some (ucast v)"
definition signed_to_category :: "'a::len word \<Rightarrow> i64 option" where "signed_to_category v = Some (scast v)"

definition u64_to_category :: "u64 \<Rightarrow> i64 option" where
  "u64_to_category v = (if unat v \<le> 2 ^ 63 - 1 then Some v else None)"

definition f64_to_category :: "f64 \<Rightarrow> i64 option" where
  "f64_to_category v = (if f64_is_finite v then Some (f64_to_i64 (f64_round v)) else None)"

definition f32_to_category :: "f32 \<Rightarrow> i64 option" where
  "f32_to_category v = f64_to_category (f64_of_f32 v)"

section \<open>The accumulator keeps a map of classes\<close>

definition cat_ok :: "categorical_acc \<Rightarrow> bool" where
  "cat_ok acc \<longleftrightarrow> length (ca_inline_entries acc) = INLINE_CAPACITY \<and> unat (ca_inline_len acc) \<le> INLINE_CAPACITY \<and>
     distinct (map fst (cat_classes acc))"

definition cat_view :: "categorical_acc \<Rightarrow> i64 \<Rightarrow> f64 option" where
  "cat_view acc = map_of (cat_classes acc)"

definition weight_or_0 :: "f64 option \<Rightarrow> f64" where
  "weight_or_0 n = (case n of None \<Rightarrow> 0 | Some n \<Rightarrow> n)"

lemma map_nth_take: "n \<le> length xs \<Longrightarrow> map (\<lambda>i. xs ! i) [0..<n] = take n xs"
  by (rule nth_equalityI) simp_all

lemma classes_inline:
  "cat_ok acc \<Longrightarrow> ca_heap_counts acc = None \<Longrightarrow> cat_classes acc = take (unat (ca_inline_len acc)) (ca_inline_entries acc)"
  by (simp add: cat_classes_def cat_ok_def map_nth_take)

lemma slot_Some:
  assumes "cat_ok acc" "ca_heap_counts acc = None" "inline_slot acc c = Some i"
  shows "i < unat (ca_inline_len acc)" "fst (ca_inline_entries acc ! i) = c"
    "cat_view acc c = Some (snd (ca_inline_entries acc ! i))"
proof -
  show i: "i < unat (ca_inline_len acc)" "fst (ca_inline_entries acc ! i) = c"
    using assms(3) by (auto simp: inline_slot_def find_Some_iff)
  then have "(c, snd (ca_inline_entries acc ! i)) \<in> set (cat_classes acc)"
    by (force simp: cat_classes_def assms(2))
  then show "cat_view acc c = Some (snd (ca_inline_entries acc ! i))"
    using assms(1) by (simp add: cat_view_def cat_ok_def)
qed

lemma slot_None:
  assumes "ca_heap_counts acc = None" "inline_slot acc c = None"
  shows "c \<notin> fst ` set (cat_classes acc)" "cat_view acc c = None"
proof -
  show "c \<notin> fst ` set (cat_classes acc)"
    using assms by (auto simp: inline_slot_def find_None_iff cat_classes_def)
  then show "cat_view acc c = None" by (simp add: cat_view_def map_of_eq_None_iff)
qed

lemma get_class_count_view: "cat_ok acc \<Longrightarrow> get_class_count acc c = weight_or_0 (cat_view acc c)"
  using slot_Some(3) [of acc c] slot_None(2) [of acc c]
  by (auto simp: get_class_count_def weight_or_0_def split: option.splits) (simp_all add: cat_view_def cat_classes_def)

lemma unique_classes_view: "cat_ok acc \<Longrightarrow> unique_classes acc = card (dom (cat_view acc))"
proof -
  assume ok: "cat_ok acc"
  have "unique_classes acc = length (map fst (cat_classes acc))"
    by (simp add: unique_classes_def cat_classes_def split: option.splits)
  also have "\<dots> = card (set (map fst (cat_classes acc)))"
    using ok unfolding cat_ok_def by (simp only: distinct_card)
  finally show ?thesis by (simp add: cat_view_def dom_map_of_conv_image_fst)
qed

lemma map_of_list_update:
  "distinct (map fst xs) \<Longrightarrow> i < length xs \<Longrightarrow>
    map_of (xs[i := (fst (xs ! i), v)]) = (map_of xs)(fst (xs ! i) \<mapsto> v)"
proof (induction xs arbitrary: i)
  case (Cons x xs)
  show ?case
  proof (cases i)
    case (Suc j)
    then have "xs ! j \<in> set xs" using Cons.prems by simp
    then have "fst (xs ! j) \<noteq> fst x" using Cons.prems(1) by (metis distinct.simps(2) image_eqI list.simps(9) set_map)
    then show ?thesis using Suc Cons by (auto simp: fun_upd_twist)
  qed (simp add: fun_eq_iff)
qed simp

lemma fold_update_fresh:
  "distinct (map fst (ys @ xs)) \<Longrightarrow> fold (\<lambda>p. AList.update (fst p) (snd p)) xs ys = ys @ xs"
proof (induction xs arbitrary: ys)
  case (Cons x xs)
  have "fst x \<notin> fst ` set ys" using Cons.prems by auto
  then have "AList.update (fst x) (snd x) ys = ys @ [x]" by (induction ys) auto
  then show ?case using Cons by simp
qed simp

lemma spill_to_heap_eq:
  assumes "length es = INLINE_CAPACITY" "distinct (map fst es)"
  shows "spill_to_heap es c w = AList.update c w es"
proof -
  have "fold (\<lambda>i. AList.update (fst (es ! i)) (snd (es ! i))) [0..<INLINE_CAPACITY] [] =
      fold (\<lambda>p. AList.update (fst p) (snd p)) (map (\<lambda>i. es ! i) [0..<INLINE_CAPACITY]) []"
    by (simp add: fold_map comp_def)
  also have "map (\<lambda>i. es ! i) [0..<INLINE_CAPACITY] = es" using assms(1) by (simp add: map_nth_take)
  finally show ?thesis using fold_update_fresh [of "[]" es] assms(2) by (simp add: spill_to_heap_def)
qed

lemma cat_update_weighted_view:
  fixes c :: i64
  assumes ok: "cat_ok acc" and w: "f64_lt 0 w"
  defines "acc' \<equiv> cat_update_weighted c w acc"
  shows "cat_ok acc' \<and> cat_view acc' = (cat_view acc)(c \<mapsto> f64_add (weight_or_0 (cat_view acc c)) w) \<and>
    ca_total_count acc' = f64_add (ca_total_count acc) w"
proof -
  have le: "\<not> f64_le w 0" using f64_lt_not_nan [OF w] f64_not_lt w by blast
  show ?thesis
  proof (cases "ca_heap_counts acc")
    case (Some heap)
    then show ?thesis
      using ok le by (auto simp: acc'_def cat_update_weighted_def Let_def cat_ok_def cat_view_def cat_classes_def
        distinct_update update_conv' weight_or_0_def)
  next
    case None
    define len where "len = unat (ca_inline_len acc)"
    define es where "es = ca_inline_entries acc"
    have len: "len \<le> 16" "length es = 16" using ok by (simp_all add: cat_ok_def INLINE_CAPACITY_def len_def es_def)
    have cl: "cat_classes acc = take len es" using classes_inline [OF ok None] by (simp add: len_def es_def)
    have dist: "distinct (map fst (take len es))" using ok cl by (simp add: cat_ok_def)
    have classes: "ca_heap_counts a = None \<Longrightarrow> length (ca_inline_entries a) = 16 \<Longrightarrow> unat (ca_inline_len a) \<le> 16 \<Longrightarrow>
        cat_classes a = take (unat (ca_inline_len a)) (ca_inline_entries a)" for a
      by (simp add: cat_classes_def map_nth_take)
    show ?thesis
    proof (cases "inline_slot acc c")
      case (Some i)
      note slot = slot_Some [OF ok None Some]
      have i: "i < len" "fst (es ! i) = c" using slot by (simp_all add: len_def es_def)
      define v where "v = f64_add (snd (es ! i)) w"
      have acc': "acc' = acc\<lparr> ca_total_count := f64_add (ca_total_count acc) w, ca_inline_entries := es[i := (fst (es ! i), v)] \<rparr>"
        using le None Some by (simp add: acc'_def cat_update_weighted_def Let_def inline_slot_def es_def v_def)
      have "cat_classes acc' = (take len es)[i := (fst (take len es ! i), v)]"
        using i len by (simp add: acc' classes None len_def [symmetric] take_update_swap)
      moreover have "map fst ((take len es)[i := (fst (take len es ! i), v)]) = map fst (take len es)"
        using i len by (intro nth_equalityI) (auto simp: nth_list_update)
      ultimately show ?thesis
        using dist i len slot(3) map_of_list_update [OF dist, of i v] cl
        by (simp add: cat_ok_def cat_view_def acc' weight_or_0_def v_def INLINE_CAPACITY_def len_def [symmetric] es_def [symmetric])
    next
      case slot: None
      note fresh = slot_None [OF None slot]
      have z: "f64_add 0 w = w" by (rule f64_add_0_pos [OF w])
      show ?thesis
      proof (cases "len < 16")
        case True
        have acc': "acc' = acc\<lparr> ca_total_count := f64_add (ca_total_count acc) w, ca_inline_entries := es[len := (c, w)],
            ca_inline_len := ca_inline_len acc + 1 \<rparr>"
          using le None slot True by (simp add: acc'_def cat_update_weighted_def Let_def inline_slot_def es_def len_def INLINE_CAPACITY_def)
        have u: "unat (ca_inline_len acc + 1) = len + 1"
          using True by (simp add: unat_word_ariths len_def)
        have "cat_classes acc' = take len es @ [(c, w)]"
          using len True by (simp add: acc' classes None u take_Suc_conv_app_nth)
        then show ?thesis
          using dist fresh len True u z
          by (simp add: cat_ok_def cat_view_def acc' cl weight_or_0_def INLINE_CAPACITY_def map_add_def fun_eq_iff split: option.splits)
      next
        case False
        then have l16: "len = 16" using len by simp
        have acc': "acc' = acc\<lparr> ca_total_count := f64_add (ca_total_count acc) w, ca_heap_counts := Some (AList.update c w es) \<rparr>"
          using le None slot False dist l16 len
          by (simp add: acc'_def cat_update_weighted_def Let_def inline_slot_def es_def [symmetric] len_def [symmetric]
            INLINE_CAPACITY_def spill_to_heap_eq)
        then show ?thesis
          using dist fresh len l16 z ok
          by (simp add: cat_ok_def cat_view_def cat_classes_def cl [unfolded cat_classes_def] distinct_update update_conv' weight_or_0_def)
      qed
    qed
  qed
qed

definition cat_of :: "(i64 \<times> f64) list \<Rightarrow> categorical_acc" where
  "cat_of ws = fold (\<lambda>(c, w). cat_update_weighted c w) ws cat_new"

definition class_weights :: "i64 \<Rightarrow> (i64 \<times> f64) list \<Rightarrow> f64 list" where
  "class_weights c ws = map snd (filter (\<lambda>p. fst p = c \<and> f64_lt 0 (snd p)) ws)"

definition sum_weights :: "f64 list \<Rightarrow> f64" where
  "sum_weights ws = fold (\<lambda>w s. f64_add s w) ws 0"

lemma cat_ok_new: "cat_ok cat_new"
  by (simp add: cat_ok_def cat_new_def cat_classes_def INLINE_CAPACITY_def)

lemma cat_view_new: "cat_view cat_new c = None"
  by (simp add: cat_view_def cat_new_def cat_classes_def)

lemma sum_weights_snoc: "sum_weights (ws @ [w]) = f64_add (sum_weights ws) w"
  by (simp add: sum_weights_def)

lemma cat_of_spec:
  assumes "\<forall>p\<in>set ws. \<not> f64_is_nan (snd p)"
  shows "cat_ok (cat_of ws) \<and> ca_total_count (cat_of ws) = sum_weights (filter (f64_lt 0) (map snd ws)) \<and>
    (\<forall>c. cat_view (cat_of ws) c =
      (if class_weights c ws = [] then None else Some (sum_weights (class_weights c ws))))"
  using assms
proof (induction ws rule: rev_induct)
  case Nil
  then show ?case
    by (simp add: cat_of_def cat_ok_new cat_view_new class_weights_def sum_weights_def) (simp add: cat_new_def)
next
  case (snoc p ws)
  obtain c w where p: "p = (c, w)" by (cases p)
  have step: "cat_of (ws @ [p]) = cat_update_weighted c w (cat_of ws)" by (simp add: cat_of_def p)
  have IH: "cat_ok (cat_of ws)" "ca_total_count (cat_of ws) = sum_weights (filter (f64_lt 0) (map snd ws))"
      "\<And>d. cat_view (cat_of ws) d = (if class_weights d ws = [] then None else Some (sum_weights (class_weights d ws)))"
    using snoc by auto
  show ?case
  proof (cases "f64_lt 0 w")
    case True
    have "class_weights d (ws @ [p]) = (if d = c then class_weights d ws @ [w] else class_weights d ws)" for d
      using True by (simp add: class_weights_def p)
    moreover have "weight_or_0 (cat_view (cat_of ws) c) = sum_weights (class_weights c ws)"
      by (simp add: IH(3) weight_or_0_def sum_weights_def)
    ultimately show ?thesis
      using cat_update_weighted_view [OF IH(1) True, of c] IH True unfolding step by (simp add: p sum_weights_snoc)
  next
    case False
    then have "f64_le w 0" using f64_not_lt [of 0 w] snoc.prems by (simp add: p)
    then show ?thesis using IH False unfolding step by (simp add: cat_update_weighted_def class_weights_def p)
  qed
qed

lemma dom_cat_view: "dom (cat_view acc) = fst ` set (cat_classes acc)"
  by (simp add: cat_view_def dom_map_of_conv_image_fst)


section \<open>The majority does not depend on the order\<close>

text \<open>A class leads when every other count is smaller and not within the tie distance.\<close>

definition clear_leader :: "f64 \<Rightarrow> class_counts \<Rightarrow> i64 \<Rightarrow> f64 \<Rightarrow> bool" where
  "clear_leader tie_eps classes c n \<longleftrightarrow>
     (\<forall>p\<in>set classes. p \<noteq> (c, n) \<longrightarrow> f64_lt (snd p) n \<and> \<not> is_tie tie_eps n (snd p) \<and> \<not> is_tie tie_eps (snd p) n)"

lemma majority_before:
  "clear_leader eps classes c n \<Longrightarrow> (c, n) \<notin> set classes \<Longrightarrow> snd (snd st) \<longrightarrow> f64_lt (fst (snd st)) n \<and> \<not> is_tie eps n (fst (snd st)) \<Longrightarrow>
    let st' = fold (majority_step eps) classes st
    in snd (snd st') \<longrightarrow> f64_lt (fst (snd st')) n \<and> \<not> is_tie eps n (fst (snd st'))"
proof (induction classes arbitrary: st)
  case (Cons p classes)
  have "clear_leader eps classes c n" "(c, n) \<notin> set classes" using Cons.prems by (auto simp: clear_leader_def)
  moreover have "f64_lt (snd p) n \<and> \<not> is_tie eps n (snd p)" using Cons.prems by (auto simp: clear_leader_def)
  then have "snd (snd (majority_step eps p st)) \<longrightarrow>
      f64_lt (fst (snd (majority_step eps p st))) n \<and> \<not> is_tie eps n (fst (snd (majority_step eps p st)))"
    using Cons.prems(3) by (auto simp: majority_step_def split: prod.splits)
  ultimately show ?case using Cons.IH by simp
qed (simp add: Let_def)

lemma majority_after:
  "clear_leader eps classes c n \<Longrightarrow> (c, n) \<notin> set classes \<Longrightarrow> fold (majority_step eps) classes (c, n, True) = (c, n, True)"
proof (induction classes)
  case (Cons p classes)
  have lt: "f64_lt (snd p) n" and tie: "\<not> is_tie eps (snd p) n" using Cons.prems by (auto simp: clear_leader_def)
  have "\<not> f64_lt n (snd p)" using f64_lt_trans [OF lt] f64_lt_irrefl by blast
  then have "majority_step eps p (c, n, True) = (c, n, True)"
    using tie by (auto simp: majority_step_def split: prod.splits)
  then show ?case using Cons by (simp add: clear_leader_def)
qed simp

text \<open>
  A class whose count is above every other by more than the tie distance is the majority class,
  with its count and its fraction of the total, in whatever order the classes are stored.
\<close>

theorem majority_clear_leader:
  assumes "cat_ok acc" "cat_view acc c = Some n" "\<not> f64_eq (ca_total_count acc) 0"
    and "clear_leader (f64_mul (f64_abs (ca_total_count acc)) f64_1e_9) (cat_classes acc) c n"
  shows "majority acc =
    (c, n, if f64_lt 0 (ca_total_count acc) \<and> f64_lt 0 n then f64_div n (ca_total_count acc) else 0)"
proof -
  define eps where "eps = f64_mul (f64_abs (ca_total_count acc)) f64_1e_9"
  have "(c, n) \<in> set (cat_classes acc)" using assms(2) by (simp add: cat_view_def map_of_SomeD)
  then obtain xs ys where sp: "cat_classes acc = xs @ (c, n) # ys" by (meson split_list)
  then have notin: "(c, n) \<notin> set xs" "(c, n) \<notin> set ys" using assms(1) by (force simp: cat_ok_def)+
  have lead: "clear_leader eps xs c n" "clear_leader eps ys c n"
    using assms(4) by (auto simp: clear_leader_def sp eps_def)
  define st where "st = fold (majority_step eps) xs (0, f64_neg f64_one, False)"
  have "snd (snd st) \<longrightarrow> f64_lt (fst (snd st)) n \<and> \<not> is_tie eps n (fst (snd st))"
    using majority_before [OF lead(1) notin(1), of "(0, f64_neg f64_one, False)"] by (simp add: st_def Let_def)
  then have "majority_step eps (c, n) st = (c, n, True)"
    by (auto simp: majority_step_def split: prod.splits)
  then have "fold (majority_step eps) (cat_classes acc) (0, f64_neg f64_one, False) = (c, n, True)"
    using majority_after [OF lead(2) notin(2)] by (simp add: sp st_def)
  then show ?thesis using assms(3) by (simp add: majority_def Let_def eps_def)
qed

text \<open>
  Being tied is not transitive, so without a clear leader the order decides: with counts 1000000000,
  1000000002 and 1000000004, each tied to the next only, the scan ends at class 1 or class 2.
\<close>

definition tied_counts :: "class_counts \<Rightarrow> categorical_acc" where
  "tied_counts classes = cat_new\<lparr> ca_heap_counts := Some classes, ca_total_count := 0x41E65A0BC0C00000 \<rparr>"

lemma tie_facts:
  fixes a b c :: f64
  defines "eps \<equiv> f64_mul (f64_abs 0x41E65A0BC0C00000) f64_1e_9" and "a \<equiv> 0x41CDCD6500000000"
    and "b \<equiv> 0x41CDCD6501000000" and "c \<equiv> 0x41CDCD6502000000"
  shows "is_tie eps b c" "is_tie eps a b" "\<not> is_tie eps c a" "\<not> is_tie eps a c" "f64_lt a c"
  by (simp_all add: assms is_tie_def f64_1e_9_def f64_abs_def f64_eval)

lemma majority_order_dependent:
  "fst (majority (tied_counts [(3, 0x41CDCD6502000000), (2, 0x41CDCD6501000000), (1, 0x41CDCD6500000000)])) = 1 \<and>
   fst (majority (tied_counts [(1, 0x41CDCD6500000000), (3, 0x41CDCD6502000000), (2, 0x41CDCD6501000000)])) = 2"
proof -
  have "\<not> f64_eq (0x41E65A0BC0C00000 :: f64) 0" by (simp add: f64_eval)
  then show ?thesis
    using tie_facts by (simp add: tied_counts_def majority_def cat_classes_def Let_def majority_step_def word_sless_alt)
qed

section \<open>The histogram text does not depend on the order\<close>

lemma set_classes_view: "cat_ok acc \<Longrightarrow> set (cat_classes acc) = {(c, n). cat_view acc c = Some n}"
  by (auto simp: cat_ok_def cat_view_def dest: map_of_SomeD)

lemma sorted_classes_unique:
  assumes "distinct (map fst xs)" "distinct (map fst ys)" "set xs = set (ys :: class_counts)"
  shows "sort_key (\<lambda>p. sint (fst p)) xs = sort_key (\<lambda>p. sint (fst p)) ys"
proof -
  have key: "sint (fst p) = sint (fst q) \<longleftrightarrow> fst p = fst q" for p q :: "i64 \<times> f64"
    by (auto dest: signed_word_eqI)
  have inj: "inj_on (\<lambda>p. sint (fst p)) (set ys)"
    using assms(2) by (auto simp: distinct_map inj_on_def key)
  have d: "distinct (map (\<lambda>p. sint (fst p)) (sort_key (\<lambda>p. sint (fst p)) zs))" if "distinct (map fst zs)" for zs :: class_counts
    using that by (auto simp: distinct_map inj_on_def key)
  show ?thesis
    by (rule map_sorted_distinct_set_unique [of "\<lambda>p. sint (fst p)"]) (use inj d assms in simp_all)
qed

text \<open>
  The histogram text is a function of the classes, their counts and the total: it is the same
  however the accumulator came to hold them and wherever it keeps them.
\<close>

theorem histogram_canonical:
  assumes "cat_ok a" "cat_ok b" "cat_view a = cat_view b" "ca_total_count a = ca_total_count b"
  shows "histogram_json a = histogram_json b"
proof -
  have "histogram_entries a = histogram_entries b"
    unfolding histogram_entries_def
    by (rule sorted_classes_unique) (use assms in \<open>auto simp: cat_ok_def set_classes_view\<close>)
  moreover have "unique_classes a = unique_classes b" using assms by (simp add: unique_classes_view)
  ultimately show ?thesis using assms(4) by (simp add: histogram_json_def)
qed

section \<open>Uniform spans\<close>

lemma as_chunks_concat:
  assumes "as_chunks n xs = (chunks, rem)"
  shows "concat chunks @ rem = xs"
proof -
  have "concat (map (\<lambda>k. take n (drop (k * n) xs)) [0..<m]) = take (m * n) xs" for m
    by (induction m) (simp_all add: take_add_drop algebra_simps)
  then show ?thesis using assms by (auto simp: as_chunks_def)
qed

lemma as_chunks_set: "as_chunks n xs = (chunks, rem) \<Longrightarrow> set xs = (\<Union>c\<in>set chunks. set c) \<union> set rem"
  using as_chunks_concat by fastforce

lemma word_or_0: "a OR b = 0 \<longleftrightarrow> a = 0 \<and> b = (0 :: 'a::len word)"
  by (auto simp: bit_eq_iff bit_simps)

lemma word_xor_0: "a XOR b = 0 \<longleftrightarrow> a = (b :: 'a::len word)"
  by (auto simp: bit_eq_iff bit_simps)

lemma diff_bits_0: "diff_bits bits x chunk = 0 \<longleftrightarrow> (\<forall>v\<in>set chunk. bits v = bits x)"
proof -
  have "fold (\<lambda>v diff. diff OR (bits v XOR bits x)) chunk d = 0 \<longleftrightarrow> d = 0 \<and> (\<forall>v\<in>set chunk. bits v = bits x)" for d
    by (induction chunk arbitrary: d) (auto simp: word_or_0 word_xor_0)
  then show ?thesis by (simp add: diff_bits_def)
qed

lemma is_uniform_word_iff: "is_uniform_word n xs \<longleftrightarrow> (\<forall>v\<in>set xs. v = hd xs)"
  by (cases xs) (auto simp: is_uniform_word_def diff_bits_0 list_all_iff as_chunks_set split: prod.splits)

text \<open>
  The chunked test of a span, which ORs the differences of 32, 16 or 8 pixels at a time, says of
  integers of every width whether all of them are the first, and of floats whether all equal the first
  as floats when the first is not NaN.
\<close>

theorem uniform_spans:
  "(is_uniform_u8 bs \<longleftrightarrow> list_all (\<lambda>v. v = hd bs) bs) \<and>
   (is_uniform_u16 ws \<longleftrightarrow> list_all (\<lambda>v. v = hd ws) ws) \<and>
   (is_uniform_u32 ds \<longleftrightarrow> list_all (\<lambda>v. v = hd ds) ds) \<and>
   (is_uniform_u64 qs \<longleftrightarrow> list_all (\<lambda>v. v = hd qs) qs) \<and>
   (f64_is_nan (f64_of_f32 (hd ss)) \<or> (is_uniform_f32 ss \<longleftrightarrow> list_all (\<lambda>v. f64_eq (f64_of_f32 v) (f64_of_f32 (hd ss))) ss)) \<and>
   (f64_is_nan (hd fs) \<or> (is_uniform_f64 fs \<longleftrightarrow> list_all (\<lambda>v. f64_eq v (hd fs)) fs))"
proof -
  have "is_uniform_f64 fs \<longleftrightarrow> list_all (\<lambda>v. f64_eq v (hd fs)) fs" if "\<not> f64_is_nan (hd fs)"
  proof (cases fs)
    case (Cons x xs)
    then have "f64_eq x x" using that by (simp add: f64_eq_key)
    then show ?thesis
      by (auto simp: is_uniform_f64_def Cons diff_bits_0 list_all_iff as_chunks_set split: prod.splits)
  qed (simp add: is_uniform_f64_def)
  moreover have "is_uniform_f32 ss \<longleftrightarrow> list_all (\<lambda>v. f64_eq (f64_of_f32 v) (f64_of_f32 (hd ss))) ss"
    if "\<not> f64_is_nan (f64_of_f32 (hd ss))"
  proof (cases ss)
    case (Cons x xs)
    then have "f64_eq (f64_of_f32 x) (f64_of_f32 x)" using that by (simp add: f64_eq_key)
    then show ?thesis
      by (auto simp: is_uniform_f32_def Cons diff_bits_0 list_all_iff as_chunks_set split: prod.splits)
  qed (simp add: is_uniform_f32_def)
  ultimately show ?thesis
    by (auto simp: is_uniform_u8_def is_uniform_u16_def is_uniform_u32_def is_uniform_u64_def is_uniform_word_iff list_all_iff)
qed

text \<open>A span of NaNs is uniform or not according to its length.\<close>

lemma nan_span_uniform:
  "is_uniform_f64 (replicate 9 f64_nan) \<and> \<not> is_uniform_f64 (replicate 2 f64_nan)"
proof
  have "\<not> f64_eq f64_nan f64_nan" using f64_eq_nan nan_is_nan by blast
  then show "\<not> is_uniform_f64 (replicate 2 f64_nan)"
    by (simp add: is_uniform_f64_def as_chunks_def numeral_2_eq_2)
  have "replicate 9 f64_nan = f64_nan # replicate 8 f64_nan" by (simp add: replicate_Suc [symmetric])
  moreover have "as_chunks 8 (replicate 8 f64_nan) = ([replicate 8 f64_nan], [])"
    by (simp add: as_chunks_def)
  ultimately show "is_uniform_f64 (replicate 9 f64_nan)"
    by (simp only: is_uniform_f64_def list.case prod.case) (simp add: diff_bits_0)
qed

section \<open>Concrete inputs\<close>

definition sample_weights :: "(i64 \<times> f64) list" where
  "sample_weights = [(5, f64_one), (- 3, f64_half), (5, f64_half), (7, 0)]"

lemma sample_weights_ok: "\<forall>p\<in>set sample_weights. \<not> f64_is_nan (snd p)"
  by (simp add: sample_weights_def f64_one_def f64_half_def f64_eval)


definition led_counts :: categorical_acc where
  "led_counts = tied_counts [(4, 0x41CDCD6500000000), (9, 0x41CDCD6502000000)]"

theorem majority_clear_leader_witness:
  "fst (majority led_counts) = 9"
proof -
  have ok: "cat_ok led_counts" "cat_view led_counts 9 = Some 0x41CDCD6502000000"
    by (simp_all add: led_counts_def tied_counts_def cat_ok_def cat_new_def cat_classes_def cat_view_def INLINE_CAPACITY_def)
  have nz: "\<not> f64_eq (ca_total_count led_counts) 0" by (simp add: led_counts_def tied_counts_def f64_eval)
  have "clear_leader (f64_mul (f64_abs (ca_total_count led_counts)) f64_1e_9) (cat_classes led_counts) 9 0x41CDCD6502000000"
    using tie_facts(3,4,5) by (simp add: led_counts_def tied_counts_def clear_leader_def cat_classes_def)
  from majority_clear_leader [OF ok nz this] show ?thesis by simp
qed

theorem histogram_canonical_witness:
  "histogram_json (tied_counts [(4, f64_one), (9, f64_half)]) = histogram_json (tied_counts [(9, f64_half), (4, f64_one)])"
  by (rule histogram_canonical) (auto simp: tied_counts_def cat_ok_def cat_new_def cat_classes_def cat_view_def INLINE_CAPACITY_def)

end
