(* ===== verification/Byte_Codec.thy ===== *)
theory Byte_Codec
  imports Rust_Prelude
begin

text \<open>
  Fixed-width integers as bytes (\<open>to_le_bytes\<close>, \<open>from_le_bytes\<close> and their big-endian
  versions), readers over an in-memory byte stream, and the contract \<open>byte_codec\<close> that a
  writer and a reader share: reading what was written gives the value back and leaves the
  rest of the stream unread.
\<close>

section \<open>Integers as bytes\<close>

definition to_le_bytes :: "'a::len word \<Rightarrow> bytes" where
  "to_le_bytes x = map (\<lambda>i. ucast (drop_bit (8 * i) x)) [0..<LENGTH('a) div 8]"

fun from_le_bytes :: "bytes \<Rightarrow> 'a::len word" where
  "from_le_bytes [] = 0"
| "from_le_bytes (b # bs) = ucast b OR push_bit 8 (from_le_bytes bs)"

definition to_be_bytes :: "'a::len word \<Rightarrow> bytes" where
  "to_be_bytes x = rev (to_le_bytes x)"

definition from_be_bytes :: "bytes \<Rightarrow> 'a::len word" where
  "from_be_bytes bs = from_le_bytes (rev bs)"

lemma length_to_le_bytes [simp]: "length (to_le_bytes (x :: 'a::len word)) = LENGTH('a) div 8"
  by (simp add: to_le_bytes_def)

lemma length_to_be_bytes [simp]: "length (to_be_bytes (x :: 'a::len word)) = LENGTH('a) div 8"
  by (simp add: to_be_bytes_def)

lemma bit_from_le_bytes:
  "bit (from_le_bytes bs :: 'a::len word) n \<longleftrightarrow>
     n < LENGTH('a) \<and> n div 8 < length bs \<and> bit (bs ! (n div 8)) (n mod 8)"
proof (induction bs arbitrary: n)
  case Nil
  then show ?case by simp
next
  case (Cons b bs)
  show ?case
  proof (cases "n < 8")
    case True
    then show ?thesis
      by (auto simp: bit_or_iff bit_ucast_iff bit_push_bit_iff)
  next
    case False
    then have div: "n div 8 = Suc ((n - 8) div 8)" and md: "n mod 8 = (n - 8) mod 8"
      by (simp_all add: le_div_geq le_mod_geq)
    have "\<not> bit b n"
      using False bit_imp_le_length [of b n] by auto
    then show ?thesis
      using False Cons.IH [of "n - 8"]
      by (auto simp: bit_or_iff bit_ucast_iff bit_push_bit_iff div md)
  qed
qed

lemma nth_to_le_bytes:
  "i < LENGTH('a) div 8 \<Longrightarrow> to_le_bytes (x :: 'a::len word) ! i = ucast (drop_bit (8 * i) x)"
  by (simp add: to_le_bytes_def)

lemma from_to_le_bytes [simp]:
  assumes "8 dvd LENGTH('a)"
  shows "from_le_bytes (to_le_bytes x) = (x :: 'a::len word)"
proof (rule bit_eqI)
  fix n
  assume "possible_bit TYPE('a word) n"
  then have n: "n < LENGTH('a)" by simp
  with assms have d: "n div 8 < LENGTH('a) div 8"
    by (metis dvd_mult_div_cancel less_mult_imp_div_less mult.commute)
  then show "bit (from_le_bytes (to_le_bytes x) :: 'a word) n \<longleftrightarrow> bit x n"
    using n by (simp add: bit_from_le_bytes nth_to_le_bytes bit_ucast_iff bit_drop_bit_eq)
qed

lemma from_to_be_bytes [simp]:
  "8 dvd LENGTH('a) \<Longrightarrow> from_be_bytes (to_be_bytes x) = (x :: 'a::len word)"
  by (simp add: from_be_bytes_def to_be_bytes_def)

lemma to_from_le_bytes:
  assumes "length bs = LENGTH('a) div 8"
  shows "to_le_bytes (from_le_bytes bs :: 'a::len word) = bs"
proof (rule nth_equalityI)
  show "length (to_le_bytes (from_le_bytes bs :: 'a word)) = length bs"
    by (simp add: assms)
next
  fix i
  assume "i < length (to_le_bytes (from_le_bytes bs :: 'a word))"
  then have i: "i < LENGTH('a) div 8" by simp
  show "to_le_bytes (from_le_bytes bs :: 'a word) ! i = bs ! i"
  proof (rule bit_eqI)
    fix n
    assume "possible_bit TYPE(8 word) n"
    then have n: "n < 8" by simp
    moreover have "8 * i + n < LENGTH('a)"
      using i n by linarith
    moreover have "(8 * i + n) div 8 = i" "(8 * i + n) mod 8 = n"
      using n by simp_all
    ultimately show "bit (to_le_bytes (from_le_bytes bs :: 'a word) ! i) n \<longleftrightarrow> bit (bs ! i) n"
      using i assms
      by (simp add: nth_to_le_bytes bit_ucast_iff bit_drop_bit_eq bit_from_le_bytes)
  qed
qed

section \<open>Readers\<close>

text \<open>A reader consumes a prefix of the stream and returns the rest, or fails.\<close>

type_synonym ('e, 'a) reader = "bytes \<Rightarrow> 'e + ('a \<times> bytes)"

definition return_p :: "'a \<Rightarrow> ('e, 'a) reader" where
  "return_p x s = Ok (x, s)"

definition fail_p :: "'e \<Rightarrow> ('e, 'a) reader" where
  "fail_p e s = Err e"

definition bind_p :: "('e, 'a) reader \<Rightarrow> ('a \<Rightarrow> ('e, 'b) reader) \<Rightarrow> ('e, 'b) reader" where
  "bind_p p f s = (case p s of Inl e \<Rightarrow> Err e | Inr (x, s') \<Rightarrow> f x s')"

text \<open>\<open>read_exact\<close> into a buffer of \<open>n\<close> bytes; \<open>e\<close> is the reader's error when the stream is short.\<close>

definition take_p :: "'e \<Rightarrow> nat \<Rightarrow> ('e, bytes) reader" where
  "take_p e n s = (if n \<le> length s then Ok (take n s, drop n s) else Err e)"

text \<open>\<open>for _ in 0..n { values.push(p()?) }\<close>\<close>

fun replicate_p :: "nat \<Rightarrow> ('e, 'a) reader \<Rightarrow> ('e, 'a list) reader" where
  "replicate_p 0 p s = Ok ([], s)"
| "replicate_p (Suc n) p s =
     (case p s of
        Inl e \<Rightarrow> Err e
      | Inr (x, s') \<Rightarrow>
          (case replicate_p n p s' of
             Inl e \<Rightarrow> Err e
           | Inr (xs, s'') \<Rightarrow> Ok (x # xs, s'')))"

named_theorems reader_simps
lemmas reader_defs [reader_simps] = return_p_def fail_p_def bind_p_def take_p_def

lemma take_p_append [simp]: "length b = n \<Longrightarrow> take_p e n (b @ rest) = Ok (b, rest)"
  by (auto simp: take_p_def)

lemma take_p_Ok [simp]: "take_p e n s = Ok (b, r) \<longleftrightarrow> n \<le> length s \<and> b = take n s \<and> r = drop n s"
  by (auto simp: take_p_def)

lemma bind_p_Ok_iff: "bind_p p f s = Ok z \<longleftrightarrow> (\<exists>x s'. p s = Ok (x, s') \<and> f x s' = Ok z)"
  by (cases "p s") (auto simp: bind_p_def)

lemma replicate_p_Suc_Ok:
  "replicate_p (Suc n) p s = Ok (ys, r) \<longleftrightarrow>
     (\<exists>x s' xs. p s = Ok (x, s') \<and> replicate_p n p s' = Ok (xs, r) \<and> ys = x # xs)"
proof (cases "p s")
  case (Inr a)
  then show ?thesis
    by (cases a; cases "replicate_p n p (snd a)") auto
qed simp

lemma bind_p_Ok: "p s = Ok (x, s') \<Longrightarrow> bind_p p f s = f x s'"
  by (simp add: bind_p_def)

lemma replicate_p_length: "replicate_p n p s = Ok (xs, r) \<Longrightarrow> length xs = n"
proof (induction n arbitrary: s xs)
  case (Suc n)
  then show ?case by (auto simp: replicate_p_Suc_Ok simp del: replicate_p.simps(2))
qed simp

text \<open>A reader never gives back more than it was given.\<close>

definition shrinks :: "('e, 'a) reader \<Rightarrow> bool" where
  "shrinks p \<longleftrightarrow> (\<forall>s x r. p s = Ok (x, r) \<longrightarrow> length r \<le> length s)"

lemma shrinksD: "shrinks p \<Longrightarrow> p s = Ok (x, r) \<Longrightarrow> length r \<le> length s"
  by (auto simp: shrinks_def)

lemma shrinks_take_p [simp]: "shrinks (take_p e n)"
  by (auto simp: shrinks_def)

lemma shrinks_return_p [simp]: "shrinks (return_p x)"
  by (auto simp: shrinks_def return_p_def)

lemma shrinks_bind_p:
  assumes "shrinks p" and "\<And>x. shrinks (f x)"
  shows "shrinks (bind_p p f)"
  unfolding shrinks_def
proof (intro allI impI)
  fix s y r
  assume "bind_p p f s = Ok (y, r)"
  then obtain x s' where "p s = Ok (x, s')" and "f x s' = Ok (y, r)"
    by (auto simp: bind_p_Ok_iff)
  then show "length r \<le> length s"
    using shrinksD [OF assms(1)] shrinksD [OF assms(2)] order_trans by blast
qed

lemma shrinks_replicate_p:
  assumes "shrinks p"
  shows "shrinks (replicate_p n p)"
proof (induction n)
  case 0
  then show ?case by (simp add: shrinks_def)
next
  case (Suc n)
  show ?case
    unfolding shrinks_def
  proof (intro allI impI)
    fix s xs r
    assume "replicate_p (Suc n) p s = Ok (xs, r)"
    then obtain x s' ys where "p s = Ok (x, s')" and "replicate_p n p s' = Ok (ys, r)"
      by (auto simp: replicate_p_Suc_Ok simp del: replicate_p.simps)
    then show "length r \<le> length s"
      using shrinksD [OF assms] shrinksD [OF Suc.IH] order_trans by blast
  qed
qed

text \<open>A reader that succeeds does the same, and leaves the same bytes, when more input follows.\<close>

definition streaming :: "('e, 'a) reader \<Rightarrow> bool" where
  "streaming p \<longleftrightarrow> (\<forall>s x r q. p s = Ok (x, r) \<longrightarrow> p (s @ q) = Ok (x, r @ q))"

lemma streamingD: "streaming p \<Longrightarrow> p s = Ok (x, r) \<Longrightarrow> p (s @ q) = Ok (x, r @ q)"
  by (auto simp: streaming_def)

named_theorems streaming_intros

lemma streaming_take_p [streaming_intros]: "streaming (take_p e n)"
  by (auto simp: streaming_def)

lemma streaming_return_p [streaming_intros]: "streaming (return_p x)"
  by (auto simp: streaming_def return_p_def)

lemma streaming_fail_p [streaming_intros]: "streaming (fail_p e)"
  by (auto simp: streaming_def fail_p_def)

lemma streaming_bind_p [streaming_intros]:
  assumes "streaming p" and "\<And>x. streaming (f x)"
  shows "streaming (bind_p p f)"
  unfolding streaming_def
proof (intro allI impI)
  fix s y r q
  assume "bind_p p f s = Ok (y, r)"
  then obtain x s' where "p s = Ok (x, s')" and "f x s' = Ok (y, r)"
    by (auto simp: bind_p_Ok_iff)
  then show "bind_p p f (s @ q) = Ok (y, r @ q)"
    using streamingD [OF assms(1)] streamingD [OF assms(2)] by (auto simp: bind_p_Ok_iff)
qed

lemma streaming_replicate_p [streaming_intros]:
  assumes "streaming p"
  shows "streaming (replicate_p n p)"
proof (induction n)
  case (Suc n)
  show ?case
    unfolding streaming_def
  proof (intro allI impI)
    fix s xs r q
    assume "replicate_p (Suc n) p s = Ok (xs, r)"
    then obtain x s' ys where "p s = Ok (x, s')" "replicate_p n p s' = Ok (ys, r)" "xs = x # ys"
      by (auto simp: replicate_p_Suc_Ok simp del: replicate_p.simps)
    then show "replicate_p (Suc n) p (s @ q) = Ok (xs, r @ q)"
      using streamingD [OF assms] streamingD [OF Suc.IH] by (auto simp: replicate_p_Suc_Ok simp del: replicate_p.simps)
  qed
qed (simp add: streaming_def)

section \<open>The contract of a codec\<close>

text \<open>
  \<open>enc\<close> writes a value, \<open>dec\<close> reads one; \<open>wf\<close> says which values the format can hold
  (a length that fits its length field, for instance).
\<close>

locale byte_codec =
  fixes enc :: "'a \<Rightarrow> bytes"
    and dec :: "('e, 'a) reader"
    and wf :: "'a \<Rightarrow> bool"
  assumes roundtrip: "wf x \<Longrightarrow> dec (enc x @ rest) = Ok (x, rest)"
begin

lemma roundtrip_nil: "wf x \<Longrightarrow> dec (enc x) = Ok (x, [])"
  using roundtrip [of x "[]"] by simp

lemma enc_inj: "wf x \<Longrightarrow> wf y \<Longrightarrow> enc x = enc y \<Longrightarrow> x = y"
  by (metis Inr_inject fst_conv roundtrip_nil)

text \<open>Unique decodability: no encoding is a proper prefix of another.\<close>

lemma enc_prefix_free:
  assumes "wf x" "wf y" and eq: "enc x @ r = enc y @ s"
  shows "x = y \<and> r = s"
  by (metis Inr_inject Pair_inject assms roundtrip)

lemma list_roundtrip:
  "\<forall>x\<in>set xs. wf x \<Longrightarrow> replicate_p (length xs) dec (concat (map enc xs) @ rest) = Ok (xs, rest)"
  by (induction xs) (auto simp: roundtrip)

end

section \<open>The primitive codecs\<close>

text \<open>An integer reader reads its bytes and assembles them little-endian.\<close>

definition read_le :: "'e \<Rightarrow> ('e, 'a::len word) reader" where
  "read_le e = bind_p (take_p e (LENGTH('a) div 8)) (\<lambda>b. return_p (from_le_bytes b))"

lemma read_le_append:
  assumes "8 dvd LENGTH('a)"
  shows "read_le e (to_le_bytes (x :: 'a::len word) @ rest) = Ok (x, rest)"
  using assms by (simp add: read_le_def bind_p_Ok return_p_def)

lemma read_le_shrinks [simp]: "shrinks (read_le e :: ('e, 'a::len word) reader)"
  unfolding read_le_def by (rule shrinks_bind_p) simp_all

lemma read_le_streaming [streaming_intros]: "streaming (read_le e :: ('e, 'a::len word) reader)"
  unfolding read_le_def by (intro streaming_intros)

lemma read_le_short:
  "length s < LENGTH('a) div 8 \<Longrightarrow> (read_le e :: ('e, 'a::len word) reader) s = Err e"
  by (simp add: read_le_def reader_simps)

interpretation u8_codec: byte_codec "to_le_bytes :: u8 \<Rightarrow> bytes" "read_le e" "\<lambda>_. True" for e :: 'e
  by unfold_locales (rule read_le_append, simp)

interpretation u32_codec: byte_codec "to_le_bytes :: u32 \<Rightarrow> bytes" "read_le e" "\<lambda>_. True" for e :: 'e
  by unfold_locales (rule read_le_append, simp)

interpretation u64_codec: byte_codec "to_le_bytes :: u64 \<Rightarrow> bytes" "read_le e" "\<lambda>_. True" for e :: 'e
  by unfold_locales (rule read_le_append, simp)

lemma to_le_bytes_u8 [simp]: "to_le_bytes (x :: u8) = [x]"
  by (simp add: to_le_bytes_def)

end
