(* ===== verification/Spill.thy ===== *)
theory Spill
  imports Accumulator Categorical Byte_Codec
begin

text \<open>
  Lossless accumulator states (\<open>aggregator/multi_horizon/spill.rs\<close>, \<open>partial.rs\<close>): the binary form of
  both accumulators, read back under the aggregation budget, and the framed form that partial states
  travel in. The memory an accumulator takes depends on the capacities of its tables and is the
  parameter \<open>mem\<close>.
\<close>

section \<open>Reading and writing\<close>

type_synonym io_error = "io_kind \<times> string"

definition short_read :: io_error where
  "short_read = (UnexpectedEof, ''failed to fill whole buffer'')"

definition invalid_data :: "string \<Rightarrow> io_error" where
  "invalid_data msg = (InvalidData, msg)"

definition write_u64 :: "u64 \<Rightarrow> bytes" where
  "write_u64 v = to_le_bytes v"

definition spill_read_u64 :: "(io_error, u64) reader" where
  "spill_read_u64 = read_le short_read"

definition write_f64 :: "f64 \<Rightarrow> bytes" where
  "write_f64 v = write_u64 v"

definition read_f64 :: "(io_error, f64) reader" where
  "read_f64 = spill_read_u64"

definition spill_count :: "usize \<Rightarrow> (io_error, usize) reader" where
  "spill_count limit = bind_p spill_read_u64 (\<lambda>n.
     if limit div 64 < unat n then fail_p (invalid_data ''spill accumulator exceeds aggregation budget'')
     else return_p (unat n))"

section \<open>Statistics\<close>

definition write_bins :: "bins \<Rightarrow> bytes" where
  "write_bins bins = write_u64 (word_of_nat (length bins)) @ concat (map (\<lambda>(k, v). to_le_bytes k @ write_f64 v) bins)"

definition h3_write_state :: "h3_accumulator \<Rightarrow> bytes" where
  "h3_write_state acc =
     concat (map write_f64 [acc_sum acc, acc_count acc, acc_sum_w2 acc, acc_min acc, acc_max acc, acc_m2 acc]) @
     write_u64 (if acc_quantiles acc = None then 0 else 1) @
     (case acc_quantiles acc of
        None \<Rightarrow> []
      | Some q \<Rightarrow> write_f64 (qs_zero_count q) @ write_f64 (qs_total_count q) @
                  concat (map write_bins [qs_pos_bins q, qs_neg_bins q]))"

definition read_bin :: "(io_error, i32 \<times> f64) reader" where
  "read_bin = bind_p (read_le short_read) (\<lambda>k. bind_p read_f64 (\<lambda>v. return_p (k, v)))"

definition read_bins :: "usize \<Rightarrow> (io_error, bins) reader" where
  "read_bins limit = bind_p (spill_count limit) (\<lambda>n. bind_p (replicate_p n read_bin) (\<lambda>kvs.
     return_p (fold (\<lambda>p. AList.update (fst p) (snd p)) kvs [])))"

definition read_sketch :: "usize \<Rightarrow> (io_error, quantile_sketch) reader" where
  "read_sketch limit =
     bind_p read_f64 (\<lambda>zero_count. bind_p read_f64 (\<lambda>total_count.
     bind_p (read_bins limit) (\<lambda>pos_bins. bind_p (read_bins limit) (\<lambda>neg_bins.
     return_p \<lparr> qs_zero_count = zero_count, qs_pos_bins = pos_bins, qs_neg_bins = neg_bins, qs_total_count = total_count \<rparr>))))"

definition h3_read_state :: "(h3_accumulator \<Rightarrow> usize) \<Rightarrow> usize \<Rightarrow> (io_error, h3_accumulator) reader" where
  "h3_read_state mem limit =
     bind_p read_f64 (\<lambda>sm. bind_p read_f64 (\<lambda>cnt. bind_p read_f64 (\<lambda>sum_w2.
     bind_p read_f64 (\<lambda>mn. bind_p read_f64 (\<lambda>mx. bind_p read_f64 (\<lambda>m2.
     bind_p spill_read_u64 (\<lambda>marker.
       bind_p (if marker = 0 then return_p None
               else if marker = 1 then bind_p (read_sketch limit) (\<lambda>q. return_p (Some q))
               else fail_p (invalid_data ''invalid quantile marker in spill''))
         (\<lambda>q. let acc = (from_weighted_stats sm cnt sum_w2 mn mx m2)\<lparr> acc_quantiles := q \<rparr>
              in if limit < mem acc then fail_p (invalid_data ''quantile accumulator exceeds aggregation budget'')
                 else return_p acc))))))))"

section \<open>Class frequencies\<close>

definition cat_write_state :: "categorical_acc \<Rightarrow> bytes" where
  "cat_write_state acc =
     write_f64 (ca_total_count acc) @ write_u64 (word_of_nat (unique_classes acc)) @
     concat (map (\<lambda>(k, v). to_le_bytes k @ write_f64 v) (cat_classes acc))"

definition read_class :: "(io_error, i64 \<times> f64) reader" where
  "read_class = bind_p (read_le short_read) (\<lambda>k. bind_p read_f64 (\<lambda>v. return_p (k, v)))"

definition cat_read_state :: "(categorical_acc \<Rightarrow> usize) \<Rightarrow> usize \<Rightarrow> (io_error, categorical_acc) reader" where
  "cat_read_state mem limit =
     bind_p read_f64 (\<lambda>tc. bind_p (spill_count limit) (\<lambda>n. bind_p (replicate_p n read_class) (\<lambda>kvs.
       let acc = (fold (\<lambda>(k, v). cat_update_weighted k v) kvs cat_new)\<lparr> ca_total_count := tc \<rparr>
       in if limit < mem acc then fail_p (invalid_data ''categorical accumulator exceeds aggregation budget'')
          else return_p acc)))"

section \<open>Statistics round trip\<close>

lemma spill_read_u64_write [simp]: "spill_read_u64 (write_u64 v @ rest) = Ok (v, rest)"
  unfolding spill_read_u64_def write_u64_def by (rule u64_codec.roundtrip) simp

lemma read_f64_write [simp]: "read_f64 (write_f64 v @ rest) = Ok (v, rest)"
  by (simp add: read_f64_def write_f64_def)

lemma read_le_write [simp]:
  "read_le e (to_le_bytes (k :: u32) @ rest) = Ok (k, rest)"
  "read_le e (to_le_bytes (c :: u64) @ rest) = Ok (c, rest)"
  by (rule read_le_append, simp)+

interpretation bin_codec: byte_codec "\<lambda>(k, v). to_le_bytes k @ write_f64 v" read_bin "\<lambda>_. True"
proof unfold_locales
  fix x :: "i32 \<times> f64" and rest
  show "read_bin ((case x of (k, v) \<Rightarrow> to_le_bytes k @ write_f64 v) @ rest) = Ok (x, rest)"
    by (cases x) (simp add: read_bin_def bind_p_Ok return_p_def)
qed

interpretation class_codec: byte_codec "\<lambda>(k, v). to_le_bytes k @ write_f64 v" read_class "\<lambda>_. True"
proof unfold_locales
  fix x :: "i64 \<times> f64" and rest
  show "read_class ((case x of (k, v) \<Rightarrow> to_le_bytes k @ write_f64 v) @ rest) = Ok (x, rest)"
    by (cases x) (simp add: read_class_def bind_p_Ok return_p_def)
qed

text \<open>What the reader makes of an encoding: an error when a table has more entries than the budget admits.\<close>

lemma spill_count_write:
  "n < 2 ^ 64 \<Longrightarrow> spill_count limit (write_u64 (word_of_nat n) @ rest) =
    (if limit div 64 < n then Err (invalid_data ''spill accumulator exceeds aggregation budget'') else Ok (n, rest))"
  by (simp add: spill_count_def bind_p_Ok unat_word_of_nat_id fail_p_def return_p_def)

definition over_budget :: io_error where
  "over_budget = invalid_data ''spill accumulator exceeds aggregation budget''"

lemma read_bins_write:
  assumes "length bins < 2 ^ 64" "distinct (map fst bins)"
  shows "read_bins limit (write_bins bins @ rest) =
    (if limit div 64 < length bins then Err over_budget else Ok (bins, rest))"
proof -
  have fresh: "fold (\<lambda>p. AList.update (fst p) (snd p)) bins [] = bins"
    using fold_update_fresh [of "[]" bins] assms(2) by simp
  show ?thesis
  proof (cases "limit div 64 < length bins")
    case True
    then show ?thesis
      using spill_count_write [OF assms(1), of limit] by (simp add: read_bins_def write_bins_def bind_p_def over_budget_def)
  next
    case False
    then show ?thesis
      using spill_count_write [OF assms(1), of limit] bin_codec.list_roundtrip [of bins rest] fresh
      by (simp add: read_bins_def write_bins_def bind_p_Ok return_p_def)
  qed
qed

definition table_sizes :: "h3_accumulator \<Rightarrow> nat list" where
  "table_sizes acc =
     (case acc_quantiles acc of None \<Rightarrow> [] | Some q \<Rightarrow> [length (qs_pos_bins q), length (qs_neg_bins q)])"

definition sketch_tables_ok :: "h3_accumulator \<Rightarrow> bool" where
  "sketch_tables_ok acc \<longleftrightarrow>
     (case acc_quantiles acc of
        None \<Rightarrow> True
      | Some q \<Rightarrow> distinct (map fst (qs_pos_bins q)) \<and> distinct (map fst (qs_neg_bins q))) \<and>
     list_all (\<lambda>n. n < 2 ^ 64) (table_sizes acc)"


lemma read_sketch_write:
  assumes "acc_quantiles acc = Some q" "sketch_tables_ok acc"
  shows "read_sketch limit
      (write_f64 (qs_zero_count q) @ write_f64 (qs_total_count q) @ concat (map write_bins [qs_pos_bins q, qs_neg_bins q]) @ rest) =
    (if list_all (\<lambda>n. n \<le> limit div 64) (table_sizes acc) then Ok (q, rest) else Err over_budget)"
proof -
  have ok: "length (qs_pos_bins q) < 2 ^ 64" "distinct (map fst (qs_pos_bins q))"
      "length (qs_neg_bins q) < 2 ^ 64" "distinct (map fst (qs_neg_bins q))"
    using assms by (simp_all add: sketch_tables_ok_def table_sizes_def)
  note pos = read_bins_write [OF ok(1,2), of limit] and neg = read_bins_write [OF ok(3,4), of limit]
  show ?thesis
  proof (cases "limit div 64 < length (qs_pos_bins q)")
    case True
    then show ?thesis
      using pos by (simp add: read_sketch_def bind_p_Ok table_sizes_def assms(1) bind_p_def)
  next
    case False
    then show ?thesis
      using pos neg by (simp add: read_sketch_def bind_p_Ok table_sizes_def assms(1) return_p_def) (simp add: bind_p_def)
  qed
qed

lemma h3_spill:
  assumes "sketch_tables_ok acc"
  shows "h3_read_state mem limit (h3_write_state acc @ rest) =
    (if \<not> list_all (\<lambda>n. n \<le> limit div 64) (table_sizes acc) then Err over_budget
     else if limit < mem acc then Err (invalid_data ''quantile accumulator exceeds aggregation budget'')
     else Ok (acc, rest))"
proof (cases "acc_quantiles acc")
  case None
  have "(from_weighted_stats (acc_sum acc) (acc_count acc) (acc_sum_w2 acc) (acc_min acc) (acc_max acc) (acc_m2 acc))
      \<lparr> acc_quantiles := None \<rparr> = acc"
    using None by (cases acc) (simp add: from_weighted_stats_def)
  then show ?thesis
    by (simp add: h3_read_state_def h3_write_state_def None bind_p_Ok return_p_def fail_p_def table_sizes_def Let_def)
next
  case (Some q)
  have acc: "(from_weighted_stats (acc_sum acc) (acc_count acc) (acc_sum_w2 acc) (acc_min acc) (acc_max acc) (acc_m2 acc))
      \<lparr> acc_quantiles := Some q \<rparr> = acc"
    using Some by (cases acc) (simp add: from_weighted_stats_def)
  note sk = read_sketch_write [OF Some assms, of limit rest]
  define tail where "tail = write_f64 (qs_zero_count q) @ write_f64 (qs_total_count q) @
      concat (map write_bins [qs_pos_bins q, qs_neg_bins q]) @ rest"
  have w: "h3_write_state acc @ rest = write_f64 (acc_sum acc) @ write_f64 (acc_count acc) @ write_f64 (acc_sum_w2 acc) @
      write_f64 (acc_min acc) @ write_f64 (acc_max acc) @ write_f64 (acc_m2 acc) @ write_u64 1 @ tail"
    by (simp add: h3_write_state_def Some tail_def)
  show ?thesis
    using sk unfolding w tail_def [symmetric]
    by (simp add: h3_read_state_def bind_p_Ok Let_def) (simp add: acc bind_p_def return_p_def fail_p_def)
qed

text \<open>
  C24. The statistics of a cell, its quantile sketch included, come back from their spilled form bit
  for bit, NaN and infinities too, with the rest of the stream unread, exactly when they are within
  the budget the reader enforces; otherwise the reader answers one of its two budget errors.
\<close>

theorem h3_spill_roundtrip:
  assumes "sketch_tables_ok acc"
  shows "h3_read_state mem limit (h3_write_state acc @ rest) =
    (if \<not> list_all (\<lambda>n. n \<le> limit div 64) (table_sizes acc) then Err over_budget
     else if limit < mem acc then Err (invalid_data ''quantile accumulator exceeds aggregation budget'')
     else Ok (acc, rest))"
  using assms by (rule h3_spill)

section \<open>Class frequencies round trip\<close>

lemma cat_update_fresh:
  assumes ok: "cat_ok acc" and w: "f64_lt 0 w" and c: "c \<notin> fst ` set (cat_classes acc)"
  shows "cat_classes (cat_update_weighted c w acc) = cat_classes acc @ [(c, w)]"
proof -
  have le: "\<not> f64_le w 0" using f64_lt_not_nan [OF w] f64_not_lt w by blast
  have z: "f64_add 0 w = w" by (rule f64_add_0_pos [OF w])
  have upd: "AList.update c v xs = xs @ [(c, v)]" if "c \<notin> fst ` set xs" for xs :: class_counts and v
    using that by (induction xs) auto
  show ?thesis
  proof (cases "ca_heap_counts acc")
    case (Some heap)
    then have "c \<notin> fst ` set heap" using c by (simp add: cat_classes_def)
    moreover from this have "map_of heap c = None" by (simp add: map_of_eq_None_iff)
    ultimately show ?thesis
      using le z Some by (simp add: cat_update_weighted_def Let_def cat_classes_def upd)
  next
    case None
    define len where "len = unat (ca_inline_len acc)"
    define es where "es = ca_inline_entries acc"
    have len: "len \<le> 16" "length es = 16" using ok by (simp_all add: cat_ok_def INLINE_CAPACITY_def len_def es_def)
    have cl: "cat_classes acc = take len es" using classes_inline [OF ok None] by (simp add: len_def es_def)
    have slot: "inline_slot acc c = None"
    proof (rule ccontr)
      assume "inline_slot acc c \<noteq> None"
      then obtain i where "inline_slot acc c = Some i" by auto
      from slot_Some [OF ok None this] have "c \<in> fst ` set (cat_classes acc)"
        by (simp add: cat_view_def) (metis fst_conv imageI map_of_SomeD)
      then show False using c by simp
    qed
    show ?thesis
    proof (cases "len < 16")
      case True
      have u: "unat (ca_inline_len acc + 1) = len + 1" using True by (simp add: unat_word_ariths len_def)
      have "cat_update_weighted c w acc = acc\<lparr> ca_total_count := f64_add (ca_total_count acc) w,
          ca_inline_entries := es[len := (c, w)], ca_inline_len := ca_inline_len acc + 1 \<rparr>"
        using le None slot True by (simp add: cat_update_weighted_def Let_def inline_slot_def es_def len_def INLINE_CAPACITY_def)
      then have "cat_classes (cat_update_weighted c w acc) = map (\<lambda>i. es[len := (c, w)] ! i) [0..<len + 1]"
        by (simp add: cat_classes_def None u)
      also have "\<dots> = take len es @ [(c, w)]"
        using len True by (simp only: map_nth_take length_list_update) (simp add: take_Suc_conv_app_nth)
      finally show ?thesis by (simp add: cl)
    next
      case False
      then have l16: "len = 16" using len by simp
      have d: "distinct (map fst es)" using ok cl l16 len by (simp add: cat_ok_def)
      have "cat_update_weighted c w acc =
          acc\<lparr> ca_total_count := f64_add (ca_total_count acc) w, ca_heap_counts := Some (AList.update c w es) \<rparr>"
        using le None slot False d l16 len
        by (simp add: cat_update_weighted_def Let_def inline_slot_def es_def [symmetric] len_def [symmetric]
          INLINE_CAPACITY_def spill_to_heap_eq)
      moreover have "c \<notin> fst ` set es" using c cl l16 len by simp
      ultimately show ?thesis using cl l16 len by (simp add: upd) (simp add: cat_classes_def)
    qed
  qed
qed

lemma cat_of_distinct:
  "distinct (map fst xs) \<Longrightarrow> \<forall>p\<in>set xs. f64_lt 0 (snd p) \<Longrightarrow> cat_ok (cat_of xs) \<and> cat_classes (cat_of xs) = xs"
proof (induction xs rule: rev_induct)
  case Nil
  then show ?case using cat_ok_new by (simp add: cat_of_def cat_classes_def cat_new_def)
next
  case (snoc p xs)
  obtain c w where p: "p = (c, w)" by (cases p)
  have IH: "cat_ok (cat_of xs)" "cat_classes (cat_of xs) = xs" using snoc by auto
  have w: "f64_lt 0 w" "c \<notin> fst ` set (cat_classes (cat_of xs))" using snoc.prems IH(2) by (auto simp: p)
  have step: "cat_of (xs @ [p]) = cat_update_weighted c w (cat_of xs)" by (simp add: cat_of_def p)
  show ?case
    unfolding step using cat_update_weighted_view [OF IH(1) w(1), of c] cat_update_fresh [OF IH(1) w] IH(2) by (simp add: p)
qed

text \<open>What spilling makes of an accumulator: the same classes, counts and total, the slots filled afresh.\<close>

definition respilled :: "categorical_acc \<Rightarrow> categorical_acc" where
  "respilled acc = (cat_of (cat_classes acc))\<lparr> ca_total_count := ca_total_count acc \<rparr>"

definition cat_state_ok :: "categorical_acc \<Rightarrow> bool" where
  "cat_state_ok acc \<longleftrightarrow> cat_ok acc \<and> list_all (\<lambda>p. f64_lt 0 (snd p)) (cat_classes acc) \<and> unique_classes acc < 2 ^ 64"

lemma cat_classes_total [simp]: "cat_classes (acc\<lparr> ca_total_count := t \<rparr>) = cat_classes acc"
  by (simp add: cat_classes_def split: option.splits)

lemma respilled_same:
  assumes "cat_state_ok acc"
  shows "cat_ok (respilled acc)" "cat_classes (respilled acc) = cat_classes acc"
    "ca_total_count (respilled acc) = ca_total_count acc"
  using cat_of_distinct [of "cat_classes acc"] assms
  by (simp_all add: respilled_def cat_state_ok_def cat_ok_def list_all_iff)

lemma unique_classes_length: "cat_ok acc \<Longrightarrow> unique_classes acc = length (cat_classes acc)"
  by (simp add: unique_classes_def cat_classes_def split: option.splits)

lemma cat_spill:
  assumes "cat_state_ok acc"
  shows "cat_read_state mem limit (cat_write_state acc @ rest) =
      (if limit div 64 < unique_classes acc then Err over_budget
       else if limit < mem (respilled acc) then Err (invalid_data ''categorical accumulator exceeds aggregation budget'')
       else Ok (respilled acc, rest)) \<and>
    cat_classes (respilled acc) = cat_classes acc \<and> ca_total_count (respilled acc) = ca_total_count acc"
proof
  define n where "n = unique_classes acc"
  have n: "n < 2 ^ 64" "n = length (cat_classes acc)"
    using assms unique_classes_length [of acc] by (simp_all only: cat_state_ok_def n_def)
  have cnt: "spill_count limit (write_u64 (word_of_nat n) @ r) = (if limit div 64 < n then Err over_budget else Ok (n, r))" for r
    using spill_count_write [OF n(1), of limit r] by (simp add: over_budget_def)
  have list: "replicate_p n read_class (concat (map (\<lambda>(k, v). to_le_bytes k @ write_f64 v) (cat_classes acc)) @ rest) =
      Ok (cat_classes acc, rest)"
    using class_codec.list_roundtrip [of "cat_classes acc" rest] by (simp add: n(2))
  show "cat_read_state mem limit (cat_write_state acc @ rest) =
      (if limit div 64 < unique_classes acc then Err over_budget
       else if limit < mem (respilled acc) then Err (invalid_data ''categorical accumulator exceeds aggregation budget'')
       else Ok (respilled acc, rest))"
  proof (cases "limit div 64 < n")
    case True
    then show ?thesis
      using cnt unfolding n_def [symmetric]
      by (simp add: cat_read_state_def cat_write_state_def bind_p_Ok n_def [symmetric]) (simp add: bind_p_def)
  next
    case False
    then show ?thesis
      using cnt list unfolding n_def [symmetric]
      by (simp add: cat_read_state_def cat_write_state_def bind_p_Ok n_def [symmetric] Let_def respilled_def cat_of_def
        fail_p_def return_p_def)
  qed
  show "cat_classes (respilled acc) = cat_classes acc \<and> ca_total_count (respilled acc) = ca_total_count acc"
    using respilled_same [OF assms] by simp
qed

text \<open>
  The class frequencies of a cell come back from their spilled form with the same classes in the
  same order, the same counts and the same total, exactly when they are within the budget the reader
  enforces, and with a budget error otherwise.
\<close>

theorem cat_spill_roundtrip:
  assumes "cat_state_ok acc"
  shows "cat_read_state mem limit (cat_write_state acc @ rest) =
      (if limit div 64 < unique_classes acc then Err over_budget
       else if limit < mem (respilled acc) then Err (invalid_data ''categorical accumulator exceeds aggregation budget'')
       else Ok (respilled acc, rest)) \<and>
    cat_classes (respilled acc) = cat_classes acc \<and> ca_total_count (respilled acc) = ca_total_count acc"
  using assms by (rule cat_spill)

section \<open>The two budget tests\<close>

text \<open>
  The memory of a table of \<open>capacity\<close> entries of \<open>entry\<close> bytes each. The writer tests the memory of a
  state, 34 bytes for each bin a table has room for; the reader allows one bin for 64 bytes of budget.
\<close>

definition table_bytes :: "usize \<Rightarrow> usize \<Rightarrow> usize" where
  "table_bytes entry capacity =
     (if capacity = 0 then 0 else saturating_mul (capacity + 1) (2 * (entry + 1)) + 64)"

text \<open>\<open>size_of\<close> an accumulator and a sketch, and one full table of bins.\<close>

definition full_sketch :: "nat \<Rightarrow> h3_accumulator" where
  "full_sketch n = with_quantiles\<lparr> acc_quantiles :=
     Some (sketch_new\<lparr> qs_pos_bins := map (\<lambda>i. (word_of_nat i, f64_one)) [0..<n] \<rparr>) \<rparr>"

lemma budget_tests_disagree:
  "56 + 80 + table_bytes 16 1792 + table_bytes 16 0 \<le> 61162 \<and>
   h3_read_state (\<lambda>_. 56 + 80 + table_bytes 16 1792 + table_bytes 16 0) 61162 (h3_write_state (full_sketch 1792)) = Err over_budget"
proof
  show "56 + 80 + table_bytes 16 1792 + table_bytes 16 0 \<le> 61162"
    by (simp add: table_bytes_def saturating_mul_def usize_max_def)
  have "inj_on (\<lambda>i. word_of_nat i :: i32) {0..<1792}"
    by (intro inj_onI) (simp add: word_of_nat_inj)
  then have "sketch_tables_ok (full_sketch 1792)"
    by (simp add: full_sketch_def sketch_tables_ok_def table_sizes_def sketch_new_def distinct_map comp_def)
  moreover have "table_sizes (full_sketch 1792) = [1792, 0]"
    by (simp add: full_sketch_def table_sizes_def sketch_new_def)
  ultimately show "h3_read_state (\<lambda>_. 56 + 80 + table_bytes 16 1792 + table_bytes 16 0) 61162 (h3_write_state (full_sketch 1792)) = Err over_budget"
    using h3_spill [of "full_sketch 1792" _ 61162 "[]"] by simp
qed

section \<open>Partial states\<close>

definition partial_magic :: bytes where "partial_magic = [0x52, 0x48, 0x33, 0x50]"
definition partial_version :: u8 where "partial_version = 2"
definition H3_KIND :: u8 where "H3_KIND = 1"
definition CAT_KIND :: u8 where "CAT_KIND = 2"

definition encode_partial_state :: "u8 \<Rightarrow> ('a \<Rightarrow> bytes) \<Rightarrow> 'a \<Rightarrow> bytes" where
  "encode_partial_state kind write_state acc = partial_magic @ [partial_version] @ [kind] @ write_state acc"

definition decode_partial_state :: "u8 \<Rightarrow> (io_error, 'a) reader \<Rightarrow> bytes \<Rightarrow> rh3_error + 'a" where
  "decode_partial_state kind read_state b =
     (if take 4 b \<noteq> partial_magic then Err (InvalidParameter ''invalid partial state: missing RH3P prefix'')
      else case drop 4 b of
             version # k # rest \<Rightarrow>
               if version \<noteq> partial_version then Err (InvalidParameter ''invalid partial state: unsupported version'')
               else if k \<noteq> kind then Err (InvalidParameter ''invalid partial state: state kind'')
               else (case read_state rest of
                       Inl e \<Rightarrow> Err (InvalidParameter (''invalid partial state: '' @ snd e))
                     | Inr (acc, input) \<Rightarrow>
                         if input \<noteq> [] then Err (InvalidParameter ''invalid partial state: trailing bytes'') else Ok acc)
           | _ \<Rightarrow> Err (InvalidParameter ''invalid partial state: truncated header''))"


section \<open>Concrete states\<close>

definition sample_cat :: categorical_acc where
  "sample_cat = cat_of [(5, f64_one), (- 3, f64_half)]"

lemma sample_cat_ok: "cat_state_ok sample_cat"
proof -
  have "f64_lt 0 f64_one" "f64_lt 0 f64_half" by (simp_all add: f64_one_def f64_half_def f64_eval)
  then have "cat_ok sample_cat \<and> cat_classes sample_cat = [(5, f64_one), (- 3, f64_half)]"
    unfolding sample_cat_def by (intro cat_of_distinct) simp_all
  then show ?thesis
    using \<open>f64_lt 0 f64_one\<close> \<open>f64_lt 0 f64_half\<close> by (simp add: cat_state_ok_def unique_classes_length)
qed

definition sample_acc :: h3_accumulator where
  "sample_acc = (acc_new f64_two)\<lparr> acc_quantiles := Some sample_sketch \<rparr>"

lemma sample_acc_ok: "sketch_tables_ok sample_acc" "table_sizes sample_acc = [2, 1]"
  by (simp_all add: sample_acc_def sketch_tables_ok_def table_sizes_def sample_sketch_def)

theorem h3_spill_roundtrip_witness:
  "h3_read_state (\<lambda>_. 0) 128 (h3_write_state sample_acc @ [7]) = Ok (sample_acc, [7]) \<and>
   h3_read_state (\<lambda>_. 0) 64 (h3_write_state sample_acc @ [7]) = Err over_budget"
  using h3_spill_roundtrip [OF sample_acc_ok(1), of "\<lambda>_. 0" 128 "[7]"] h3_spill_roundtrip [OF sample_acc_ok(1), of "\<lambda>_. 0" 64 "[7]"]
  by (simp add: sample_acc_ok(2))

theorem cat_spill_roundtrip_witness:
  "cat_classes (respilled sample_cat) = cat_classes sample_cat"
  using cat_spill_roundtrip [OF sample_cat_ok] by blast


end
