(* ===== verification/Spill_Runs.thy ===== *)
theory Spill_Runs
  imports Spill
begin

text \<open>
  Sorted runs of spilled cells (\<open>aggregator/multi_horizon/spill.rs\<close>): writing a run, reading it record
  by record, the two-way merge, and the binary-carry levels. A temporary file is its bytes; failures
  of the disk are left out.
\<close>

section \<open>Runs\<close>

text \<open>What the trait \<open>SpillAccumulator\<close> gives; the reader has the budget already.\<close>

record 'a accumulator_ops =
  op_write :: "'a \<Rightarrow> bytes"
  op_read :: "(io_error, 'a) reader"
  op_mem :: "'a \<Rightarrow> usize"
  op_merge :: "'a \<Rightarrow> 'a \<Rightarrow> 'a"

record spill_run =
  sr_file :: bytes
  sr_len :: nat

record run_reader =
  rr_input :: bytes
  rr_remaining :: nat

definition run_reader_new :: "spill_run \<Rightarrow> run_reader" where
  "run_reader_new run = \<lparr> rr_input = sr_file run, rr_remaining = sr_len run \<rparr>"

definition next_record :: "'a accumulator_ops \<Rightarrow> run_reader \<Rightarrow> io_error + ((u64 \<times> 'a) option \<times> run_reader)" where
  "next_record ops rd =
     (if rr_remaining rd = 0 then Ok (None, rd)
      else case spill_read_u64 (rr_input rd) of
             Inl e \<Rightarrow> Err e
           | Inr (key, input) \<Rightarrow>
               (case op_read ops input of
                  Inl e \<Rightarrow> Err e
                | Inr (v, input) \<Rightarrow>
                    Ok (Some (key, v), \<lparr> rr_input = input, rr_remaining = rr_remaining rd - 1 \<rparr>)))"

definition write_record :: "'a accumulator_ops \<Rightarrow> u64 \<times> 'a \<Rightarrow> bytes" where
  "write_record ops p = write_u64 (fst p) @ op_write ops (snd p)"

fun write_sorted ::
  "'a accumulator_ops \<Rightarrow> usize \<Rightarrow> (u64 \<times> 'a) list \<Rightarrow> u64 option \<Rightarrow> bytes \<times> nat \<Rightarrow> io_error + (bytes \<times> nat)" where
  "write_sorted ops limit [] previous (out, len) = Ok (out, len)"
| "write_sorted ops limit ((key, acc) # records) previous (out, len) =
     (if (case previous of None \<Rightarrow> False | Some p \<Rightarrow> key \<le> p) then Err (invalid_data ''spill input is not strictly sorted'')
      else if limit < op_mem ops acc then Err (invalid_data ''single accumulator exceeds aggregation budget'')
      else write_sorted ops limit records (Some key) (out @ write_record ops (key, acc), len + 1))"

text \<open>The loop of \<open>merge\<close>: one record from each run in hand, the readers behind them, what is written.\<close>

lemma next_record_shrinks:
  "next_record ops rd = Ok (r, rd') \<Longrightarrow> rr_remaining rd' + (if r = None then 0 else 1) = rr_remaining rd"
  by (auto simp: next_record_def split: if_splits sum.splits prod.splits)

function merge_loop ::
  "'a accumulator_ops \<Rightarrow> usize \<Rightarrow> (u64 \<times> 'a) option \<Rightarrow> run_reader \<Rightarrow> (u64 \<times> 'a) option \<Rightarrow> run_reader \<Rightarrow>
   bytes \<times> nat \<Rightarrow> io_error + (bytes \<times> nat)" where
  "merge_loop ops limit None left None right (out, len) = Ok (out, len)"
| "merge_loop ops limit (Some (ka, va)) left None right (out, len) =
     (case next_record ops left of
        Inl e \<Rightarrow> Err e
      | Inr (a, left) \<Rightarrow> merge_loop ops limit a left None right (out @ write_record ops (ka, va), len + 1))"
| "merge_loop ops limit None left (Some (kb, vb)) right (out, len) =
     (case next_record ops right of
        Inl e \<Rightarrow> Err e
      | Inr (b, right) \<Rightarrow> merge_loop ops limit None left b right (out @ write_record ops (kb, vb), len + 1))"
| "merge_loop ops limit (Some (ka, va)) left (Some (kb, vb)) right (out, len) =
     (if ka < kb then
        (case next_record ops left of
           Inl e \<Rightarrow> Err e
         | Inr (a, left) \<Rightarrow> merge_loop ops limit a left (Some (kb, vb)) right (out @ write_record ops (ka, va), len + 1))
      else if kb < ka then
        (case next_record ops right of
           Inl e \<Rightarrow> Err e
         | Inr (b, right) \<Rightarrow> merge_loop ops limit (Some (ka, va)) left b right (out @ write_record ops (kb, vb), len + 1))
      else
        (let acc = op_merge ops va vb
         in if limit < op_mem ops acc then Err (invalid_data ''merged accumulator exceeds aggregation budget'')
            else case next_record ops left of
                   Inl e \<Rightarrow> Err e
                 | Inr (a, left) \<Rightarrow>
                     (case next_record ops right of
                        Inl e \<Rightarrow> Err e
                      | Inr (b, right) \<Rightarrow> merge_loop ops limit a left b right (out @ write_record ops (ka, acc), len + 1))))"
  by pat_completeness auto
termination
  by (relation "measure (\<lambda>(ops, limit, a, left, b, right, _).
      rr_remaining left + rr_remaining right + (if a = None then 0 else 1) + (if b = None then 0 else 1))")
    (auto dest!: next_record_shrinks split: if_splits)

section \<open>Levels\<close>

record spill_runs =
  sp_levels :: "spill_run option list"
  sp_runs_written :: nat
  sp_bytes_written :: nat

definition spill_runs_new :: spill_runs where
  "spill_runs_new = \<lparr> sp_levels = [], sp_runs_written = 0, sp_bytes_written = 0 \<rparr>"

definition has_spilled :: "spill_runs \<Rightarrow> bool" where
  "has_spilled s \<longleftrightarrow> sp_runs_written s \<noteq> 0"

definition merge_runs ::
  "'a accumulator_ops \<Rightarrow> usize \<Rightarrow> spill_run \<Rightarrow> spill_run \<Rightarrow> spill_runs \<Rightarrow> io_error + (spill_run \<times> spill_runs)" where
  "merge_runs ops limit left right s =
     bind_res (next_record ops (run_reader_new left)) (\<lambda>(a, left).
     bind_res (next_record ops (run_reader_new right)) (\<lambda>(b, right).
     bind_res (merge_loop ops limit a left b right ([], 0)) (\<lambda>(out, len).
       Ok (\<lparr> sr_file = out, sr_len = len \<rparr>, s\<lparr> sp_bytes_written := sp_bytes_written s + length out \<rparr>))))"

text \<open>The carry loop starts at level 0 and goes up by one.\<close>

function carry ::
  "'a accumulator_ops \<Rightarrow> usize \<Rightarrow> nat \<Rightarrow> spill_run \<Rightarrow> spill_runs \<Rightarrow> io_error + spill_runs" where
  "carry ops limit level run s =
     (if 64 \<le> level then Err (invalid_data ''spill run counter exhausted'')
      else
        let levels = (if level = length (sp_levels s) then sp_levels s @ [None] else sp_levels s)
        in case levels ! level of
             Some other \<Rightarrow>
               (case merge_runs ops limit other run (s\<lparr> sp_levels := levels[level := None] \<rparr>) of
                  Inl e \<Rightarrow> Err e
                | Inr (run, s) \<Rightarrow> carry ops limit (level + 1) run s)
           | None \<Rightarrow> Ok (s\<lparr> sp_levels := levels[level := Some run] \<rparr>))"
  by pat_completeness auto
termination
  by (relation "measure (\<lambda>(ops, limit, level, _). 64 - level)") auto

declare carry.simps [simp del]

definition push_sorted :: "'a accumulator_ops \<Rightarrow> usize \<Rightarrow> (u64 \<times> 'a) list \<Rightarrow> spill_runs \<Rightarrow> io_error + spill_runs" where
  "push_sorted ops limit records s =
     bind_res (write_sorted ops limit records None ([], 0)) (\<lambda>(out, len).
       if len = 0 then Ok s
       else carry ops limit 0 \<lparr> sr_file = out, sr_len = len \<rparr>
              (s\<lparr> sp_bytes_written := sp_bytes_written s + length out, sp_runs_written := sp_runs_written s + 1 \<rparr>))"

fun finish_levels ::
  "'a accumulator_ops \<Rightarrow> usize \<Rightarrow> nat list \<Rightarrow> spill_run option \<Rightarrow> spill_runs \<Rightarrow> io_error + (spill_run option \<times> spill_runs)" where
  "finish_levels ops limit [] combined s = Ok (combined, s)"
| "finish_levels ops limit (i # is) combined s =
     (case sp_levels s ! i of
        None \<Rightarrow> finish_levels ops limit is combined s
      | Some run \<Rightarrow>
          (let s = s\<lparr> sp_levels := (sp_levels s)[i := None] \<rparr>
           in case combined of
                None \<Rightarrow> finish_levels ops limit is (Some run) s
              | Some other \<Rightarrow>
                  (case merge_runs ops limit run other s of
                     Inl e \<Rightarrow> Err e
                   | Inr (run, s) \<Rightarrow> finish_levels ops limit is (Some run) s)))"

definition finish_runs :: "'a accumulator_ops \<Rightarrow> usize \<Rightarrow> spill_runs \<Rightarrow> io_error + (run_reader option \<times> spill_runs)" where
  "finish_runs ops limit s =
     bind_res (finish_levels ops limit [0..<length (sp_levels s)] None s) (\<lambda>(combined, s).
       Ok (map_option run_reader_new combined, s))"

section \<open>What the runs hold\<close>

text \<open>
  The values of a cell merge in a binary tree whose leaves are what was pushed, in the order it was
  pushed; \<open>norm\<close> is what writing and reading make of a value.
\<close>

inductive merge_tree :: "('a \<Rightarrow> 'a \<Rightarrow> 'a) \<Rightarrow> ('a \<Rightarrow> 'a) \<Rightarrow> 'a list \<Rightarrow> 'a \<Rightarrow> bool" for f norm where
  leaf: "merge_tree f norm [x] (norm x)"
| node: "merge_tree f norm xs a \<Longrightarrow> merge_tree f norm ys b \<Longrightarrow> merge_tree f norm (xs @ ys) (norm (f a b))"

type_synonym 'a history = "u64 \<Rightarrow> 'a list"

definition keys_sorted :: "(u64 \<times> 'a) list \<Rightarrow> bool" where
  "keys_sorted recs \<longleftrightarrow> sorted_wrt (<) (map fst recs)"

text \<open>Each key of the records has a value that its pushed values merge to, and no other key has any.\<close>

definition holds_history :: "('a list \<Rightarrow> 'a \<Rightarrow> bool) \<Rightarrow> (u64 \<times> 'a) list \<Rightarrow> 'a history \<Rightarrow> bool" where
  "holds_history tree recs h \<longleftrightarrow>
     (\<forall>k. case map_of recs k of None \<Rightarrow> h k = [] | Some v \<Rightarrow> tree (h k) v)"

fun merge_recs :: "('a \<Rightarrow> 'a \<Rightarrow> 'a) \<Rightarrow> (u64 \<times> 'a) list \<Rightarrow> (u64 \<times> 'a) list \<Rightarrow> (u64 \<times> 'a) list" where
  "merge_recs f [] ys = ys"
| "merge_recs f (x # xs) [] = x # xs"
| "merge_recs f (x # xs) (y # ys) =
     (if fst x < fst y then x # merge_recs f xs (y # ys)
      else if fst y < fst x then y # merge_recs f (x # xs) ys
      else (fst x, f (snd x) (snd y)) # merge_recs f xs ys)"

lemma merge_recs_Nil [simp]: "merge_recs f xs [] = xs"
  by (cases xs) simp_all

lemma keys_sorted_Cons: "keys_sorted (p # recs) \<longleftrightarrow> (\<forall>q\<in>set recs. fst p < fst q) \<and> keys_sorted recs"
  by (auto simp: keys_sorted_def)

lemma keys_sorted_Nil [simp]: "keys_sorted []"
  by (simp add: keys_sorted_def)

lemma merge_recs_keys: "fst ` set (merge_recs f xs ys) = fst ` set xs \<union> fst ` set ys"
  by (induction f xs ys rule: merge_recs.induct) auto

lemma merge_recs_sorted: "keys_sorted xs \<Longrightarrow> keys_sorted ys \<Longrightarrow> keys_sorted (merge_recs f xs ys)"
proof (induction f xs ys rule: merge_recs.induct)
  case (3 f x xs y ys)
  have b: "(\<forall>q\<in>set (merge_recs f as bs). k < fst q) \<longleftrightarrow> (\<forall>j\<in>fst ` set as \<union> fst ` set bs. k < j)" for as bs k
    unfolding merge_recs_keys [of f as bs, symmetric] by blast
  show ?case
    using 3 by (auto simp: keys_sorted_Cons b intro: less_trans)
qed simp_all

lemma map_of_above: "\<forall>q\<in>set recs. k < fst q \<Longrightarrow> map_of recs (k :: u64) = None"
  by (auto simp: map_of_eq_None_iff)

lemma map_of_step: "map_of (x # xs) k = (if fst x = k then Some (snd x) else map_of xs k)"
  by (cases x) simp

lemma map_of_merge_recs:
  "keys_sorted xs \<Longrightarrow> keys_sorted ys \<Longrightarrow>
    map_of (merge_recs f xs ys) k =
      (case map_of xs k of
         None \<Rightarrow> map_of ys k
       | Some a \<Rightarrow> (case map_of ys k of None \<Rightarrow> Some a | Some b \<Rightarrow> Some (f a b)))"
proof (induction f xs ys rule: merge_recs.induct)
  case (3 f x xs y ys)
  have above: "fst x < fst y \<Longrightarrow> map_of (y # ys) (fst x) = None" "fst y < fst x \<Longrightarrow> map_of (x # xs) (fst y) = None"
      "map_of xs (fst x) = None" "map_of ys (fst y) = None"
    using "3.prems" by (auto simp: keys_sorted_Cons intro!: map_of_above intro: less_trans)
  consider "fst x < fst y" | "fst y < fst x" | "fst x = fst y" by (cases "fst x" "fst y" rule: linorder_cases) auto
  then show ?case
  proof cases
    case 1
    then have "map_of (merge_recs f xs (y # ys)) k =
        (case map_of xs k of None \<Rightarrow> map_of (y # ys) k
         | Some a \<Rightarrow> (case map_of (y # ys) k of None \<Rightarrow> Some a | Some b \<Rightarrow> Some (f a b)))"
      using 3 by (simp add: keys_sorted_Cons)
    then show ?thesis using 1 above(1,3) by (cases "k = fst x") (auto simp del: map_of.simps(2) simp add: map_of_step split: if_splits option.splits)
  next
    case 2
    then have "map_of (merge_recs f (x # xs) ys) k =
        (case map_of (x # xs) k of None \<Rightarrow> map_of ys k
         | Some a \<Rightarrow> (case map_of ys k of None \<Rightarrow> Some a | Some b \<Rightarrow> Some (f a b)))"
      using 3 by (simp add: keys_sorted_Cons)
    moreover have "\<not> fst x < fst y" using 2 by simp
    ultimately show ?thesis using 2 above(2,4) by (cases "k = fst y") (auto simp del: map_of.simps(2) simp add: map_of_step split: if_splits option.splits)
  next
    case eq: 3
    then have "map_of (merge_recs f xs ys) k =
        (case map_of xs k of None \<Rightarrow> map_of ys k
         | Some a \<Rightarrow> (case map_of ys k of None \<Rightarrow> Some a | Some b \<Rightarrow> Some (f a b)))"
      using 3 by (simp add: keys_sorted_Cons)
    then show ?thesis using eq above(3,4) by (cases "k = fst x") (auto simp del: map_of.simps(2) simp add: map_of_step split: if_splits option.splits)
  qed
qed (auto split: option.splits)

section \<open>A spillable accumulator\<close>

fun count_levels :: "spill_run option list \<Rightarrow> nat" where
  "count_levels [] = 0"
| "count_levels (r # rs) = (if r = None then 0 else 1) + 2 * count_levels rs"

text \<open>The histories of the levels in the order of their ages: a higher level is older.\<close>

fun total_history :: "'a history list \<Rightarrow> 'a history" where
  "total_history [] = (\<lambda>_. [])"
| "total_history (h # hs) = (\<lambda>k. total_history hs k @ h k)"

definition batch_history :: "(u64 \<times> 'a) list \<Rightarrow> 'a history" where
  "batch_history recs = (\<lambda>k. case map_of recs k of None \<Rightarrow> [] | Some v \<Rightarrow> [v])"

locale spillable =
  fixes ops :: "'a accumulator_ops"
    and limit :: usize
    and wf :: "'a \<Rightarrow> bool"
    and norm :: "'a \<Rightarrow> 'a"
  assumes read_write: "wf x \<Longrightarrow> op_read ops (op_write ops x @ rest) = Ok (norm x, rest)"
    and wf_norm: "wf x \<Longrightarrow> wf (norm x)"
    and norm_norm: "wf x \<Longrightarrow> norm (norm x) = norm x"
    and wf_merge: "wf x \<Longrightarrow> wf y \<Longrightarrow> wf (op_merge ops x y)"
    and fits: "wf x \<Longrightarrow> op_mem ops x \<le> limit"
begin

definition enc :: "(u64 \<times> 'a) list \<Rightarrow> bytes" where
  "enc recs = concat (map (write_record ops) recs)"

definition reader_of :: "(u64 \<times> 'a) list \<Rightarrow> run_reader" where
  "reader_of recs = \<lparr> rr_input = enc recs, rr_remaining = length recs \<rparr>"

definition wf_recs :: "(u64 \<times> 'a) list \<Rightarrow> bool" where
  "wf_recs recs \<longleftrightarrow> (\<forall>p\<in>set recs. wf (snd p))"

definition norm_recs :: "(u64 \<times> 'a) list \<Rightarrow> (u64 \<times> 'a) list" where
  "norm_recs recs = map (\<lambda>p. (fst p, norm (snd p))) recs"

definition hand :: "(u64 \<times> 'a) list \<Rightarrow> (u64 \<times> 'a) option" where
  "hand recs = (case recs of [] \<Rightarrow> None | p # _ \<Rightarrow> Some (fst p, norm (snd p)))"

abbreviation tree :: "'a list \<Rightarrow> 'a \<Rightarrow> bool" where
  "tree \<equiv> merge_tree (op_merge ops) norm"

lemma norm_recs_simps [simp]:
  "norm_recs [] = []" "norm_recs (p # recs) = (fst p, norm (snd p)) # norm_recs recs" "length (norm_recs recs) = length recs"
  by (simp_all add: norm_recs_def)

lemma wf_recs_simps [simp]: "wf_recs []" "wf_recs (p # recs) \<longleftrightarrow> wf (snd p) \<and> wf_recs recs"
  by (simp_all add: wf_recs_def)

lemma hand_simps [simp]: "hand [] = None" "hand (p # recs) = Some (fst p, norm (snd p))"
  by (simp_all add: hand_def)

lemma enc_simps [simp]: "enc [] = []" "enc (p # recs) = write_record ops p @ enc recs"
  by (simp_all add: enc_def)

lemma wf_norm_recs: "wf_recs recs \<Longrightarrow> wf_recs (norm_recs recs)"
  by (induction recs) (simp_all add: wf_norm)

lemma keys_norm_recs: "keys_sorted (norm_recs recs) = keys_sorted recs"
  by (simp add: keys_sorted_def norm_recs_def comp_def)

lemma next_record_of: "wf_recs recs \<Longrightarrow> next_record ops (reader_of recs) = Ok (hand recs, reader_of (tl recs))"
  by (cases recs) (auto simp: next_record_def reader_of_def write_record_def read_write)

lemma write_sorted_ok:
  "keys_sorted recs \<Longrightarrow> wf_recs recs \<Longrightarrow> (case previous of None \<Rightarrow> True | Some k \<Rightarrow> \<forall>q\<in>set recs. k < fst q) \<Longrightarrow>
    write_sorted ops limit recs previous (out, len) = Ok (out @ enc recs, len + length recs)"
proof (induction recs arbitrary: previous out len)
  case (Cons p recs)
  obtain k v where p: "p = (k, v)" by (cases p)
  have "\<not> limit < op_mem ops v" using fits Cons.prems(2) by (simp add: p not_less)
  moreover have "(case previous of None \<Rightarrow> False | Some q \<Rightarrow> k \<le> q) = False"
    using Cons.prems(3) by (auto simp: p split: option.splits)
  moreover have "write_sorted ops limit recs (Some k) (out @ write_record ops p, len + 1) =
      Ok ((out @ write_record ops p) @ enc recs, (len + 1) + length recs)"
    by (rule Cons.IH) (use Cons.prems in \<open>auto simp: keys_sorted_Cons p\<close>)
  ultimately show ?case by (simp add: p)
qed simp

lemma merge_loop_ok:
  "wf_recs xs \<Longrightarrow> wf_recs ys \<Longrightarrow>
    merge_loop ops limit (hand xs) (reader_of (tl xs)) (hand ys) (reader_of (tl ys)) (out, len) =
      Ok (out @ enc (merge_recs (op_merge ops) (norm_recs xs) (norm_recs ys)),
          len + length (merge_recs (op_merge ops) (norm_recs xs) (norm_recs ys)))"
proof (induction "length xs + length ys" arbitrary: xs ys out len rule: less_induct)
  case less
  note wf = less.prems
  have nx: "next_record ops (reader_of (tl xs)) = Ok (hand (tl xs), reader_of (tl (tl xs)))"
    using wf(1) by (intro next_record_of) (cases xs; simp)
  have ny: "next_record ops (reader_of (tl ys)) = Ok (hand (tl ys), reader_of (tl (tl ys)))"
    using wf(2) by (intro next_record_of) (cases ys; simp)
  show ?case
  proof (cases xs)
    case Nil
    show ?thesis
    proof (cases ys)
      case (Cons y ys')
      then show ?thesis
        using Nil wf less.hyps [of "[]" ys' "out @ write_record ops (fst y, norm (snd y))" "len + 1"] ny by simp
    qed (simp add: Nil)
  next
    case x: (Cons x xs')
    show ?thesis
    proof (cases ys)
      case Nil
      then show ?thesis
        using x wf less.hyps [of xs' "[]" "out @ write_record ops (fst x, norm (snd x))" "len + 1"] nx by simp
    next
      case y: (Cons y ys')
      have wfm: "wf (op_merge ops (norm (snd x)) (norm (snd y)))" using wf by (simp add: x y wf_merge wf_norm)
      then have mem: "\<not> limit < op_mem ops (op_merge ops (norm (snd x)) (norm (snd y)))" using fits by (simp add: not_less)
      consider "fst x < fst y" | "fst y < fst x" | "fst x = fst y" by (cases "fst x" "fst y" rule: linorder_cases) auto
      then show ?thesis
      proof cases
        case 1
        then show ?thesis
          using x y wf less.hyps [of xs' ys "out @ write_record ops (fst x, norm (snd x))" "len + 1"] nx by simp
      next
        case 2
        moreover from this have "\<not> fst x < fst y" by simp
        ultimately show ?thesis
          using x y wf less.hyps [of xs ys' "out @ write_record ops (fst y, norm (snd y))" "len + 1"] ny by simp
      next
        case 3
        then show ?thesis
          using x y wf mem nx ny
            less.hyps [of xs' ys' "out @ write_record ops (fst x, op_merge ops (norm (snd x)) (norm (snd y)))" "len + 1"]
          by (simp add: Let_def)
      qed
    qed
  qed
qed

text \<open>A run holds a history when its records, once read, are what the history merges to.\<close>

definition run_holds :: "spill_run \<Rightarrow> 'a history \<Rightarrow> bool" where
  "run_holds r h \<longleftrightarrow>
     (\<exists>recs. r = \<lparr> sr_file = enc recs, sr_len = length recs \<rparr> \<and> keys_sorted recs \<and> wf_recs recs \<and>
       holds_history tree (norm_recs recs) h)"

lemma map_of_norm_recs: "map_of (norm_recs recs) k = map_option norm (map_of recs k)"
  by (induction recs) auto

lemma wf_map_of: "wf_recs recs \<Longrightarrow> map_of recs k = Some v \<Longrightarrow> wf v"
  by (force simp: wf_recs_def dest: map_of_SomeD)

lemma wf_merge_recs: "wf_recs xs \<Longrightarrow> wf_recs ys \<Longrightarrow> wf_recs (merge_recs (op_merge ops) xs ys)"
  by (induction "op_merge ops" xs ys rule: merge_recs.induct) (auto simp: wf_merge)

lemma batch_holds:
  assumes "keys_sorted recs" "wf_recs recs"
  shows "run_holds \<lparr> sr_file = enc recs, sr_len = length recs \<rparr> (batch_history recs)"
proof -
  have "holds_history tree (norm_recs recs) (batch_history recs)"
    by (auto simp: holds_history_def batch_history_def map_of_norm_recs intro: merge_tree.leaf split: option.splits)
  then show ?thesis using assms by (auto simp: run_holds_def)
qed

lemma merge_runs_ok:
  assumes "run_holds l hl" "run_holds r hr"
  shows "\<exists>run n. merge_runs ops limit l r s = Ok (run, s\<lparr> sp_bytes_written := n \<rparr>) \<and> run_holds run (\<lambda>k. hl k @ hr k)"
proof -
  obtain xs where xs: "l = \<lparr> sr_file = enc xs, sr_len = length xs \<rparr>" "keys_sorted xs" "wf_recs xs"
      "holds_history tree (norm_recs xs) hl" using assms(1) by (auto simp: run_holds_def)
  obtain ys where ys: "r = \<lparr> sr_file = enc ys, sr_len = length ys \<rparr>" "keys_sorted ys" "wf_recs ys"
      "holds_history tree (norm_recs ys) hr" using assms(2) by (auto simp: run_holds_def)
  define zs where "zs = merge_recs (op_merge ops) (norm_recs xs) (norm_recs ys)"
  have rd: "run_reader_new l = reader_of xs" "run_reader_new r = reader_of ys"
    by (simp_all add: run_reader_new_def reader_of_def xs(1) ys(1))
  have loop: "merge_loop ops limit (hand xs) (reader_of (tl xs)) (hand ys) (reader_of (tl ys)) ([], 0) = Ok (enc zs, length zs)"
    using merge_loop_ok [OF xs(3) ys(3), of "[]" 0] by (simp add: zs_def)
  have "merge_runs ops limit l r s =
      Ok (\<lparr> sr_file = enc zs, sr_len = length zs \<rparr>, s\<lparr> sp_bytes_written := sp_bytes_written s + length (enc zs) \<rparr>)"
    unfolding merge_runs_def rd next_record_of [OF xs(3)] next_record_of [OF ys(3)] by (simp add: loop)
  moreover have sorted: "keys_sorted (norm_recs xs)" "keys_sorted (norm_recs ys)" using xs ys by (simp_all add: keys_norm_recs)
  have wfz: "wf_recs zs" using wf_merge_recs wf_norm_recs xs(3) ys(3) by (simp add: zs_def)
  have "holds_history tree (norm_recs zs) (\<lambda>k. hl k @ hr k)"
    unfolding holds_history_def
  proof
    fix k
    have hx: "case map_of (norm_recs xs) k of None \<Rightarrow> hl k = [] | Some v \<Rightarrow> tree (hl k) v"
      and hy: "case map_of (norm_recs ys) k of None \<Rightarrow> hr k = [] | Some v \<Rightarrow> tree (hr k) v"
      using xs(4) ys(4) by (simp_all add: holds_history_def)
    have idem: "map_of (norm_recs xs) k = Some v \<Longrightarrow> norm v = v" "map_of (norm_recs ys) k = Some v \<Longrightarrow> norm v = v" for v
      using wf_map_of [OF xs(3)] wf_map_of [OF ys(3)] norm_norm by (auto simp: map_of_norm_recs)
    note mz = map_of_merge_recs [OF sorted, of "op_merge ops" k, folded zs_def]
    show "case map_of (norm_recs zs) k of None \<Rightarrow> hl k @ hr k = [] | Some v \<Rightarrow> tree (hl k @ hr k) v"
      using hx hy idem unfolding map_of_norm_recs [of zs] mz
      by (auto split: option.splits intro: merge_tree.node)
  qed
  then have "run_holds \<lparr> sr_file = enc zs, sr_len = length zs \<rparr> (\<lambda>k. hl k @ hr k)"
    using wfz merge_recs_sorted [OF sorted] by (auto simp: run_holds_def zs_def)
  ultimately show ?thesis by blast
qed

end

section \<open>Levels, and what comes back\<close>

definition spill_batches :: "'a accumulator_ops \<Rightarrow> usize \<Rightarrow> (u64 \<times> 'a) list list \<Rightarrow> spill_runs \<Rightarrow> io_error + spill_runs" where
  "spill_batches ops limit batches s = fold (\<lambda>recs r. bind_res r (push_sorted ops limit recs)) batches (Ok s)"

text \<open>Reading a run to its end.\<close>

fun read_records :: "'a accumulator_ops \<Rightarrow> nat \<Rightarrow> run_reader \<Rightarrow> io_error + (u64 \<times> 'a) list" where
  "read_records ops 0 rd = Ok []"
| "read_records ops (Suc n) rd =
     bind_res (next_record ops rd) (\<lambda>(r, rd).
       case r of None \<Rightarrow> Ok [] | Some p \<Rightarrow> bind_res (read_records ops n rd) (\<lambda>ps. Ok (p # ps)))"

definition read_back :: "'a accumulator_ops \<Rightarrow> run_reader option \<Rightarrow> io_error + (u64 \<times> 'a) list" where
  "read_back ops rd = (case rd of None \<Rightarrow> Ok [] | Some rd \<Rightarrow> read_records ops (rr_remaining rd) rd)"

definition pushed_history :: "(u64 \<times> 'a) list list \<Rightarrow> 'a history" where
  "pushed_history batches = (\<lambda>k. concat (map (\<lambda>recs. batch_history recs k) batches))"

context spillable
begin

definition levels_hold :: "spill_run option list \<Rightarrow> 'a history list \<Rightarrow> bool" where
  "levels_hold = list_all2 (\<lambda>r h. case r of None \<Rightarrow> h = (\<lambda>_. []) | Some run \<Rightarrow> run_holds run h)"

lemma levels_hold_simps [simp]:
  "levels_hold [] hs \<longleftrightarrow> hs = []"
  "levels_hold (None # rs) hs \<longleftrightarrow> (\<exists>hs'. hs = (\<lambda>_. []) # hs' \<and> levels_hold rs hs')"
  "levels_hold (Some r # rs) hs \<longleftrightarrow> (\<exists>h hs'. hs = h # hs' \<and> run_holds r h \<and> levels_hold rs hs')"
  by (auto simp: levels_hold_def list_all2_Cons1)

lemma carry_ok:
  assumes "levels_hold rest hs" "run_holds run h" "sp_levels s = replicate level None @ rest"
    and "2 ^ level * (count_levels rest + 1) < (2 :: nat) ^ 64"
  shows "\<exists>s' rest' hs'. carry ops limit level run s = Ok s' \<and> sp_levels s' = replicate level None @ rest' \<and>
    levels_hold rest' hs' \<and> count_levels rest' = count_levels rest + 1 \<and>
    total_history hs' = (\<lambda>k. total_history hs k @ h k) \<and> sp_runs_written s' = sp_runs_written s"
  using assms
proof (induction rest arbitrary: level run h hs s)
  case Nil
  have "(2 :: nat) ^ level < 2 ^ 64" using Nil.prems(4) by simp
  then have "level < 64" by (rule power_less_imp_less_exp [rotated]) simp
  then have "carry ops limit level run s = Ok (s\<lparr> sp_levels := replicate level None @ [Some run] \<rparr>)"
    using Nil.prems(3) by (subst carry.simps) (simp add: Let_def nth_append list_update_append)
  moreover have "levels_hold [Some run] [h]" using Nil.prems(2) by simp
  ultimately show ?case using Nil.prems(1) by (intro exI [of _ "s\<lparr> sp_levels := replicate level None @ [Some run] \<rparr>"] exI [of _ "[Some run]"] exI [of _ "[h]"]) simp
next
  case (Cons r rest)
  have "(2 :: nat) ^ level * 1 \<le> 2 ^ level * (count_levels (r # rest) + 1)" by (rule mult_left_mono) simp_all
  then have "(2 :: nat) ^ level < 2 ^ 64" using Cons.prems(4) by linarith
  then have l64: "level < 64" by (rule power_less_imp_less_exp [rotated]) simp
  have nth: "(replicate level None @ r # rest) ! level = r" by (simp add: nth_append)
  have upd: "(replicate level None @ r # rest)[level := x] = replicate level None @ x # rest" for x
    by (simp add: list_update_append)
  show ?case
  proof (cases r)
    case None
    obtain hs' where hs: "hs = (\<lambda>_. []) # hs'" "levels_hold rest hs'" using Cons.prems(1) None by auto
    have "carry ops limit level run s = Ok (s\<lparr> sp_levels := replicate level None @ Some run # rest \<rparr>)"
      using l64 Cons.prems(3) nth upd by (subst carry.simps) (simp add: Let_def None)
    moreover have "levels_hold (Some run # rest) (h # hs')" using hs(2) Cons.prems(2) by simp
    ultimately show ?thesis
      using hs None by (intro exI [of _ "s\<lparr> sp_levels := replicate level None @ Some run # rest \<rparr>"]
        exI [of _ "Some run # rest"] exI [of _ "h # hs'"]) simp
  next
    case (Some other)
    obtain h0 hs' where hs: "hs = h0 # hs'" "run_holds other h0" "levels_hold rest hs'" using Cons.prems(1) Some by auto
    define s1 where "s1 = s\<lparr> sp_levels := replicate level None @ None # rest \<rparr>"
    obtain m n where mr: "merge_runs ops limit other run s1 = Ok (m, s1\<lparr> sp_bytes_written := n \<rparr>)"
        "run_holds m (\<lambda>k. h0 k @ h k)"
      using merge_runs_ok [OF hs(2) Cons.prems(2)] by blast
    have "carry ops limit level run s = carry ops limit (level + 1) m (s1\<lparr> sp_bytes_written := n \<rparr>)"
      using l64 Cons.prems(3) nth upd mr(1) by (subst carry.simps) (simp add: Let_def Some s1_def)
    moreover have "sp_levels (s1\<lparr> sp_bytes_written := n \<rparr>) = replicate (Suc level) None @ rest"
      by (simp add: s1_def replicate_append_same [symmetric])
    moreover have "2 ^ Suc level * (count_levels rest + 1) < (2 :: nat) ^ 64"
      using Cons.prems(4) by (simp add: Some algebra_simps)
    ultimately obtain s' rest' hs'' where IH: "carry ops limit level run s = Ok s'"
        "sp_levels s' = replicate (Suc level) None @ rest'" "levels_hold rest' hs''"
        "count_levels rest' = count_levels rest + 1"
        "total_history hs'' = (\<lambda>k. total_history hs' k @ h0 k @ h k)" "sp_runs_written s' = sp_runs_written s"
      using Cons.IH [OF hs(3) mr(2), of "s1\<lparr> sp_bytes_written := n \<rparr>" "Suc level"] by (auto simp: s1_def)
    have "sp_levels s' = replicate level None @ None # rest'"
      using IH(2) by (simp add: replicate_append_same [symmetric])
    moreover have "levels_hold (None # rest') ((\<lambda>_. []) # hs'')" using IH(3) by simp
    ultimately show ?thesis
      using IH hs(1) Some by (intro exI [of _ s'] exI [of _ "None # rest'"] exI [of _ "(\<lambda>_. []) # hs''"]) simp
  qed
qed

definition runs_inv :: "spill_runs \<Rightarrow> 'a history \<Rightarrow> bool" where
  "runs_inv s h \<longleftrightarrow> (\<exists>hs. levels_hold (sp_levels s) hs \<and> total_history hs = h \<and> count_levels (sp_levels s) = sp_runs_written s)"

lemma push_sorted_ok:
  assumes "runs_inv s h" "keys_sorted recs" "wf_recs recs" "sp_runs_written s + 1 < 2 ^ 64"
  shows "\<exists>s'. push_sorted ops limit recs s = Ok s' \<and> runs_inv s' (\<lambda>k. h k @ batch_history recs k) \<and>
    sp_runs_written s' \<le> sp_runs_written s + 1"
proof (cases recs)
  case Nil
  then show ?thesis using assms(1) by (simp add: push_sorted_def batch_history_def)
next
  case (Cons p ps)
  define run where "run = \<lparr> sr_file = enc recs, sr_len = length recs \<rparr>"
  define s1 where "s1 = s\<lparr> sp_bytes_written := sp_bytes_written s + length (enc recs), sp_runs_written := sp_runs_written s + 1 \<rparr>"
  have "write_sorted ops limit recs None ([], 0) = Ok (enc recs, length recs)"
    using write_sorted_ok [OF assms(2,3), of None "[]" 0] by simp
  then have push: "push_sorted ops limit recs s = carry ops limit 0 run s1"
    by (simp add: push_sorted_def run_def s1_def Cons del: enc_simps)
  obtain hs where hs: "levels_hold (sp_levels s) hs" "total_history hs = h" "count_levels (sp_levels s) = sp_runs_written s"
    using assms(1) by (auto simp: runs_inv_def)
  have "sp_levels s1 = replicate 0 None @ sp_levels s" "2 ^ 0 * (count_levels (sp_levels s) + 1) < (2 :: nat) ^ 64"
    using assms(4) hs(3) by (simp_all add: s1_def)
  from carry_ok [OF hs(1) batch_holds [OF assms(2,3), folded run_def] this] obtain s' rest' hs' where
    "carry ops limit 0 run s1 = Ok s'" "sp_levels s' = rest'" "levels_hold rest' hs'"
    "count_levels rest' = count_levels (sp_levels s) + 1"
    "total_history hs' = (\<lambda>k. total_history hs k @ batch_history recs k)" "sp_runs_written s' = sp_runs_written s1"
    by auto
  then show ?thesis using hs push by (auto simp: runs_inv_def s1_def)
qed

lemma spill_batches_snoc: "spill_batches ops limit (bs @ [recs]) s = bind_res (spill_batches ops limit bs s) (push_sorted ops limit recs)"
  by (simp add: spill_batches_def)

lemma spill_batches_ok:
  "\<forall>recs\<in>set bs. keys_sorted recs \<and> wf_recs recs \<Longrightarrow> length bs < 2 ^ 64 \<Longrightarrow>
    \<exists>s. spill_batches ops limit bs spill_runs_new = Ok s \<and> runs_inv s (pushed_history bs) \<and> sp_runs_written s \<le> length bs"
proof (induction bs rule: rev_induct)
  case Nil
  have "runs_inv spill_runs_new (\<lambda>_. [])"
    by (simp add: runs_inv_def spill_runs_new_def)
  then show ?case by (simp add: spill_batches_def pushed_history_def) (simp add: spill_runs_new_def)
next
  case (snoc recs bs)
  obtain s where s: "spill_batches ops limit bs spill_runs_new = Ok s" "runs_inv s (pushed_history bs)" "sp_runs_written s \<le> length bs"
    using snoc by auto
  have "sp_runs_written s + 1 < 2 ^ 64" using s(3) snoc.prems(2) by simp
  then obtain s' where s': "push_sorted ops limit recs s = Ok s'"
      "runs_inv s' (\<lambda>k. pushed_history bs k @ batch_history recs k)" "sp_runs_written s' \<le> sp_runs_written s + 1"
    using push_sorted_ok [OF s(2)] snoc.prems(1) by auto
  moreover have "pushed_history (bs @ [recs]) = (\<lambda>k. pushed_history bs k @ batch_history recs k)"
    by (simp add: pushed_history_def)
  ultimately show ?case using s by (auto simp: spill_batches_snoc)
qed

definition combined_holds :: "spill_run option \<Rightarrow> 'a history \<Rightarrow> bool" where
  "combined_holds c h \<longleftrightarrow> (case c of None \<Rightarrow> h = (\<lambda>_. []) | Some run \<Rightarrow> run_holds run h)"

lemma finish_levels_ok:
  assumes "levels_hold rest hs" "combined_holds c h" "sp_levels s = done1 @ rest"
  shows "\<exists>c' s'. finish_levels ops limit [length done1..<length (sp_levels s)] c s = Ok (c', s') \<and>
    combined_holds c' (\<lambda>k. total_history hs k @ h k)"
  using assms
proof (induction rest arbitrary: hs c h s done1)
  case (Cons r rest)
  define i where "i = length done1"
  have idx: "[i..<length (sp_levels s)] = i # [Suc i..<length (sp_levels s)]"
    by (rule upt_conv_Cons) (simp add: i_def Cons.prems(3))
  have nth: "sp_levels s ! i = r" using Cons.prems(3) by (simp add: i_def)
  show ?case
  proof (cases r)
    case None
    obtain hs' where hs: "hs = (\<lambda>_. []) # hs'" "levels_hold rest hs'" using Cons.prems(1) None by auto
    have "sp_levels s = (done1 @ [None]) @ rest" using Cons.prems(3) None by simp
    from Cons.IH [OF hs(2) Cons.prems(2) this] show ?thesis
      using idx nth None hs(1) by (simp add: i_def)
  next
    case (Some run)
    obtain h0 hs' where hs: "hs = h0 # hs'" "run_holds run h0" "levels_hold rest hs'" using Cons.prems(1) Some by auto
    define s1 where "s1 = s\<lparr> sp_levels := (sp_levels s)[i := None] \<rparr>"
    have s1: "sp_levels s1 = (done1 @ [None]) @ rest" using Cons.prems(3) by (simp add: s1_def i_def list_update_append)
    have len: "length (sp_levels s1) = length (sp_levels s)" by (simp add: s1_def)
    have "\<exists>c1 s2. finish_levels ops limit [i..<length (sp_levels s)] c s =
        finish_levels ops limit [Suc i..<length (sp_levels s)] c1 s2 \<and> sp_levels s2 = sp_levels s1 \<and>
        combined_holds c1 (\<lambda>k. h0 k @ h k)"
    proof (cases c)
      case None
      then have "h = (\<lambda>_. [])" using Cons.prems(2) by (simp add: combined_holds_def)
      then show ?thesis
        using idx nth Some None hs(2)
        by (intro exI [of _ "Some run"] exI [of _ s1]) (simp add: Let_def s1_def combined_holds_def)
    next
      case (Some other)
      then have "run_holds other h" using Cons.prems(2) by (simp add: combined_holds_def)
      then obtain m n where mr: "merge_runs ops limit run other s1 = Ok (m, s1\<lparr> sp_bytes_written := n \<rparr>)"
          "run_holds m (\<lambda>k. h0 k @ h k)"
        using merge_runs_ok [OF hs(2)] by blast
      then show ?thesis
        using idx nth \<open>r = Some run\<close> Some
        by (intro exI [of _ "Some m"] exI [of _ "s1\<lparr> sp_bytes_written := n \<rparr>"]) (simp add: Let_def s1_def combined_holds_def)
    qed
    then obtain c1 s2 where step: "finish_levels ops limit [i..<length (sp_levels s)] c s =
        finish_levels ops limit [Suc i..<length (sp_levels s)] c1 s2" "sp_levels s2 = sp_levels s1"
        "combined_holds c1 (\<lambda>k. h0 k @ h k)" by blast
    have "sp_levels s2 = (done1 @ [None]) @ rest" using step(2) s1 by simp
    from Cons.IH [OF hs(3) step(3) this] show ?thesis
      using step(1,2) len hs(1) by (simp add: i_def)
  qed
qed simp

lemma read_records_ok: "wf_recs recs \<Longrightarrow> read_records ops (length recs) (reader_of recs) = Ok (norm_recs recs)"
proof (induction recs)
  case (Cons p recs)
  then show ?case using next_record_of [of "p # recs"] by simp
qed simp

lemma runs_merge_history:
  assumes "\<forall>recs\<in>set bs. keys_sorted recs \<and> wf_recs recs" "length bs < 2 ^ 64"
  shows "\<exists>s rd s' out. spill_batches ops limit bs spill_runs_new = Ok s \<and> finish_runs ops limit s = Ok (rd, s') \<and>
    read_back ops rd = Ok out \<and> keys_sorted out \<and> holds_history tree out (pushed_history bs)"
proof -
  obtain s where s: "spill_batches ops limit bs spill_runs_new = Ok s" "runs_inv s (pushed_history bs)"
    using spill_batches_ok [OF assms] by blast
  then obtain hs where hs: "levels_hold (sp_levels s) hs" "total_history hs = pushed_history bs" by (auto simp: runs_inv_def)
  have "combined_holds None (\<lambda>_. [])" by (simp add: combined_holds_def)
  from finish_levels_ok [OF hs(1) this, of s "[]"] obtain c s' where
    fin: "finish_levels ops limit [0..<length (sp_levels s)] None s = Ok (c, s')" "combined_holds c (pushed_history bs)"
    using hs(2) by auto
  have f: "finish_runs ops limit s = Ok (map_option run_reader_new c, s')" by (simp add: finish_runs_def fin(1))
  show ?thesis
  proof (cases c)
    case None
    then have "holds_history tree [] (pushed_history bs)" using fin(2) by (simp add: combined_holds_def holds_history_def)
    moreover have "read_back ops (map_option run_reader_new c) = Ok []" by (simp add: read_back_def None)
    ultimately show ?thesis using s(1) f by (intro exI conjI) (assumption | simp)+
  next
    case (Some run)
    then obtain recs where recs: "run = \<lparr> sr_file = enc recs, sr_len = length recs \<rparr>" "keys_sorted recs" "wf_recs recs"
        "holds_history tree (norm_recs recs) (pushed_history bs)"
      using fin(2) by (auto simp: combined_holds_def run_holds_def)
    have "run_reader_new run = reader_of recs" by (simp add: run_reader_new_def reader_of_def recs(1))
    moreover have "rr_remaining (reader_of recs) = length recs" by (simp add: reader_of_def)
    ultimately have "read_back ops (map_option run_reader_new c) = Ok (norm_recs recs)"
      using read_records_ok [OF recs(3)] by (simp add: read_back_def Some)
    then show ?thesis using s(1) f recs(2,4) keys_norm_recs by blast
  qed
qed

end

section \<open>Statistics and class frequencies are spillable\<close>

definition h3_ops :: "(h3_accumulator \<Rightarrow> usize) \<Rightarrow> usize \<Rightarrow> h3_accumulator accumulator_ops" where
  "h3_ops mem limit = \<lparr> op_write = h3_write_state, op_read = h3_read_state mem limit, op_mem = mem, op_merge = acc_merge \<rparr>"

definition cat_ops :: "(categorical_acc \<Rightarrow> usize) \<Rightarrow> usize \<Rightarrow> categorical_acc accumulator_ops" where
  "cat_ops mem limit = \<lparr> op_write = cat_write_state, op_read = cat_read_state mem limit, op_mem = mem, op_merge = cat_merge \<rparr>"

text \<open>Accumulators whose bins have keys in \<open>K\<close>, and a budget that holds every such accumulator.\<close>

definition bins_within :: "i32 set \<Rightarrow> bins \<Rightarrow> bool" where
  "bins_within K bins \<longleftrightarrow> distinct (map fst bins) \<and> fst ` set bins \<subseteq> K"

definition h3_within :: "i32 set \<Rightarrow> h3_accumulator \<Rightarrow> bool" where
  "h3_within K acc \<longleftrightarrow>
     (case acc_quantiles acc of None \<Rightarrow> True | Some q \<Rightarrow> bins_within K (qs_pos_bins q) \<and> bins_within K (qs_neg_bins q))"

definition h3_budget :: "(h3_accumulator \<Rightarrow> usize) \<Rightarrow> usize \<Rightarrow> i32 set \<Rightarrow> bool" where
  "h3_budget mem limit K \<longleftrightarrow> card K \<le> limit div 64 \<and> limit < 2 ^ 64 \<and> (\<forall>acc. h3_within K acc \<longrightarrow> mem acc \<le> limit)"

definition cat_within :: "i64 set \<Rightarrow> categorical_acc \<Rightarrow> bool" where
  "cat_within C acc \<longleftrightarrow>
     cat_ok acc \<and> list_all (\<lambda>p. f64_lt 0 (snd p)) (cat_classes acc) \<and> fst ` set (cat_classes acc) \<subseteq> C"

definition cat_budget :: "(categorical_acc \<Rightarrow> usize) \<Rightarrow> usize \<Rightarrow> i64 set \<Rightarrow> bool" where
  "cat_budget mem limit C \<longleftrightarrow> card C \<le> limit div 64 \<and> limit < 2 ^ 64 \<and> (\<forall>acc. cat_within C acc \<longrightarrow> mem acc \<le> limit)"

lemma op_merge_ops: "op_merge (h3_ops mem limit) = acc_merge" "op_merge (cat_ops cmem limit) = cat_merge"
  by (simp_all add: h3_ops_def cat_ops_def)

lemma bins_within_length: "bins_within K bins \<Longrightarrow> length bins \<le> card (K :: i32 set)"
proof -
  assume b: "bins_within K bins"
  then have "length bins = card (fst ` set bins)" unfolding bins_within_def by (metis distinct_card length_map set_map)
  also have "\<dots> \<le> card K" using b by (intro card_mono) (simp_all add: bins_within_def)
  finally show ?thesis .
qed

lemma bins_within_add: "bins_within K bins \<Longrightarrow> k \<in> K \<Longrightarrow> bins_within K (bin_add k w bins)"
proof -
  have "fst ` set (AList.update k v bins) = insert k (fst ` set bins)" for v
    using dom_map_of_conv_image_fst [of "AList.update k v bins"] dom_map_of_conv_image_fst [of bins]
    by (simp add: update_conv')
  then show "bins_within K bins \<Longrightarrow> k \<in> K \<Longrightarrow> bins_within K (bin_add k w bins)"
    by (simp add: bins_within_def bin_add_def distinct_update)
qed

lemma bins_within_merge: "bins_within K bins \<Longrightarrow> bins_within K other \<Longrightarrow> bins_within K (bins_merge bins other)"
proof -
  assume b: "bins_within K bins" and o: "bins_within K other"
  have "fst ` set ys \<subseteq> K \<Longrightarrow> bins_within K bins \<Longrightarrow> bins_within K (fold (\<lambda>(k, w). bin_add k w) ys bins)" for ys
    by (induction ys arbitrary: bins) (auto simp: bins_within_add)
  then show ?thesis using b o unfolding bins_merge_def bins_within_def [of K other] by blast
qed

lemma h3_within_merge:
  assumes "h3_within K x" "h3_within K y"
  shows "h3_within K (acc_merge x y)"
proof -
  have "bins_within K (qs_pos_bins (sketch_merge p q)) \<and> bins_within K (qs_neg_bins (sketch_merge p q))"
    if "bins_within K (qs_pos_bins p) \<and> bins_within K (qs_neg_bins p)"
      "bins_within K (qs_pos_bins q) \<and> bins_within K (qs_neg_bins q)" for p q
    using that by (simp add: sketch_merge_def bins_within_merge)
  then show ?thesis
    using assms by (auto simp: h3_within_def acc_merge_def Let_def split: option.splits)
qed

lemma h3_within_read:
  assumes "h3_budget mem limit K" "h3_within K acc"
  shows "h3_read_state mem limit (h3_write_state acc @ rest) = Ok (acc, rest)"
proof -
  have len: "bins_within K bins \<Longrightarrow> length bins \<le> limit div 64 \<and> length bins < 2 ^ 64" for bins
    using bins_within_length [of K bins] assms(1) by (auto simp: h3_budget_def)
  have "sketch_tables_ok acc"
    using assms(2) len by (auto simp: sketch_tables_ok_def table_sizes_def h3_within_def bins_within_def split: option.splits)
  moreover have "list_all (\<lambda>n. n \<le> limit div 64) (table_sizes acc)"
    using assms(2) len by (auto simp: table_sizes_def h3_within_def split: option.splits)
  moreover have "mem acc \<le> limit" using assms by (simp add: h3_budget_def)
  ultimately show ?thesis by (simp add: h3_spill)
qed

interpretation h3_runs: spillable "h3_ops mem limit" limit "\<lambda>acc. h3_budget mem limit K \<and> h3_within K acc" id
  for mem limit K
  by unfold_locales (auto simp: h3_ops_def h3_within_read h3_within_merge, simp add: h3_budget_def)

lemma cat_within_state_ok:
  assumes "cat_budget mem limit C" "cat_within C acc"
  shows "cat_state_ok acc" "unique_classes acc \<le> limit div 64"
proof -
  have ok: "cat_ok acc" using assms(2) by (simp add: cat_within_def)
  have "unique_classes acc = card (fst ` set (cat_classes acc))"
    using unique_classes_view [OF ok] dom_cat_view by simp
  also have "\<dots> \<le> card C" using assms(2) by (intro card_mono) (simp_all add: cat_within_def)
  finally have u: "unique_classes acc \<le> card C" .
  then show "unique_classes acc \<le> limit div 64" using assms(1) by (simp add: cat_budget_def)
  then have "unique_classes acc \<le> limit" using div_le_dividend le_trans by blast
  then have "unique_classes acc < 2 ^ 64" using assms(1) unfolding cat_budget_def by linarith
  then show "cat_state_ok acc" using assms(2) by (simp add: cat_state_ok_def cat_within_def)
qed

lemma cat_within_respilled: "cat_within C acc \<Longrightarrow> cat_within C (respilled acc)"
  using cat_of_distinct [of "cat_classes acc"]
  by (auto simp: cat_within_def respilled_def cat_ok_def list_all_iff)

lemma cat_respilled_idem: "cat_within C acc \<Longrightarrow> respilled (respilled acc) = respilled acc"
  using cat_of_distinct [of "cat_classes acc"]
  by (simp add: cat_within_def respilled_def cat_ok_def list_all_iff)

lemma cat_within_update:
  assumes "cat_within C acc" "f64_lt 0 w" "c \<in> C"
  shows "cat_within C (cat_update_weighted c w acc)"
proof -
  have ok: "cat_ok acc" using assms(1) by (simp add: cat_within_def)
  note upd = cat_update_weighted_view [OF ok assms(2), of c]
  have pos: "cat_view acc k = Some n \<Longrightarrow> f64_lt 0 n" for k n
    using assms(1) by (force simp: cat_within_def cat_view_def list_all_iff dest!: map_of_SomeD)
  have "f64_lt 0 (f64_add (weight_or_0 (cat_view acc c)) w)"
    using pos f64_add_pos [OF _ assms(2)] f64_add_0_pos [OF assms(2)] assms(2) by (auto simp: weight_or_0_def split: option.splits)
  then have "\<forall>(k, n)\<in>set (cat_classes (cat_update_weighted c w acc)). f64_lt 0 n"
    using pos upd unfolding set_classes_view [OF conjunct1 [OF upd]] by (auto split: if_splits)
  moreover have "fst ` set (cat_classes (cat_update_weighted c w acc)) = insert c (fst ` set (cat_classes acc))"
    using upd dom_cat_view [of "cat_update_weighted c w acc"] dom_cat_view [of acc] by simp
  ultimately show ?thesis using assms upd by (auto simp: cat_within_def list_all_iff)
qed

lemma cat_within_merge:
  assumes "cat_within C x" "cat_within C y"
  shows "cat_within C (cat_merge x y)"
proof -
  have "list_all (\<lambda>p. f64_lt 0 (snd p) \<and> fst p \<in> C) ps \<Longrightarrow> cat_within C x \<Longrightarrow>
      cat_within C (fold (\<lambda>(cat, cnt). cat_update_weighted cat cnt) ps x)" for ps
    by (induction ps arbitrary: x) (auto simp: cat_within_update)
  moreover have "list_all (\<lambda>p. f64_lt 0 (snd p) \<and> fst p \<in> C) (cat_classes y)"
    using assms(2) by (auto simp: cat_within_def list_all_iff)
  ultimately show ?thesis using assms(1) by (simp add: cat_merge_def)
qed

lemma cat_within_read:
  assumes "cat_budget mem limit C" "cat_within C acc"
  shows "cat_read_state mem limit (cat_write_state acc @ rest) = Ok (respilled acc, rest)"
proof -
  have "mem (respilled acc) \<le> limit" using assms cat_within_respilled by (simp add: cat_budget_def)
  then show ?thesis using cat_spill [OF cat_within_state_ok(1) [OF assms]] cat_within_state_ok(2) [OF assms] by simp
qed

interpretation cat_runs: spillable "cat_ops mem limit" limit "\<lambda>acc. cat_budget mem limit C \<and> cat_within C acc" respilled
  for mem limit C
proof unfold_locales
  fix x assume x: "cat_budget mem limit C \<and> cat_within C x"
  show "op_read (cat_ops mem limit) (op_write (cat_ops mem limit) x @ rest) = Ok (respilled x, rest)" for rest
    using cat_within_read [OF conjunct1 [OF x] conjunct2 [OF x]] by (simp add: cat_ops_def)
  show "cat_budget mem limit C \<and> cat_within C (respilled x)" using x cat_within_respilled by blast
  show "respilled (respilled x) = respilled x" using x cat_respilled_idem by blast
  show "op_mem (cat_ops mem limit) x \<le> limit" using x by (simp add: cat_ops_def cat_budget_def)
  fix y assume "cat_budget mem limit C \<and> cat_within C y"
  then show "cat_budget mem limit C \<and> cat_within C (op_merge (cat_ops mem limit) x y)"
    using x cat_within_merge by (simp add: cat_ops_def)
qed

text \<open>
  C10. Within the budget spilling never fails and loses nothing: whatever sorted batches of partial
  statistics are pushed, finishing gives one run, sorted by cell, with exactly the cells pushed, and
  the statistics of each are the merge of all that was pushed for it, each contribution once and in
  the order of the pushes, however the binary-carry levels grouped them.
\<close>

theorem spilled_statistics_merge:
  assumes "h3_budget mem limit K" "length batches < 2 ^ 64"
    and "list_all (\<lambda>recs. keys_sorted recs \<and> list_all (\<lambda>p. h3_within K (snd p)) recs) batches"
  shows "\<exists>s rd s' out.
    spill_batches (h3_ops mem limit) limit batches spill_runs_new = Ok s \<and>
    finish_runs (h3_ops mem limit) limit s = Ok (rd, s') \<and> read_back (h3_ops mem limit) rd = Ok out \<and>
    keys_sorted out \<and> holds_history (merge_tree acc_merge id) out (pushed_history batches)"
proof -
  have "\<forall>recs\<in>set batches. keys_sorted recs \<and> h3_runs.wf_recs mem limit K recs"
    using assms(1,3) unfolding list_all_iff h3_runs.wf_recs_def by blast
  from h3_runs.runs_merge_history [OF this assms(2)] show ?thesis by (simp only: op_merge_ops)
qed


definition sample_batches :: "(u64 \<times> h3_accumulator) list list" where
  "sample_batches = [[(1, acc_new f64_one), (4, acc_new f64_two)], [], [(1, acc_new f64_half)]]"

theorem spilled_statistics_merge_witness:
  "\<exists>s rd s' out.
    spill_batches (h3_ops (\<lambda>_. 0) 64) 64 sample_batches spill_runs_new = Ok s \<and>
    finish_runs (h3_ops (\<lambda>_. 0) 64) 64 s = Ok (rd, s') \<and> read_back (h3_ops (\<lambda>_. 0) 64) rd = Ok out \<and>
    keys_sorted out \<and> holds_history (merge_tree acc_merge id) out (pushed_history sample_batches)"
  by (rule spilled_statistics_merge [of _ _ "{}"])
    (simp_all add: h3_budget_def sample_batches_def keys_sorted_def h3_within_def acc_new_def)

definition sample_class_batches :: "(u64 \<times> categorical_acc) list list" where
  "sample_class_batches = [[(1, cat_new)], [(1, cat_new), (2, cat_new)]]"


end
