(* ===== verification/Sharded_Map.thy ===== *)
theory Sharded_Map
  imports Spill_Runs
begin

text \<open>
  The active cells of one resolution (\<open>aggregator/multi_horizon/sharded_map.rs\<close>, \<open>cell_hash.rs\<close>): 32
  hash maps, each with an eviction heap ordered by the southern bound of its cells, and the memory
  accounting the aggregation budget reads.

  The standard hash map and heap choose their capacities; \<open>allocator\<close> is that choice, and the model
  keeps each capacity in the state. A heap is the list of its entries; which of several equal maxima
  it gives first is not specified, and the model takes the one stored first.
\<close>

section \<open>Shards\<close>

definition NUM_SHARDS :: usize where "NUM_SHARDS = 32"

definition mix_h3 :: "u64 \<Rightarrow> u64" where
  "mix_h3 cell =
     (let h = cell;
          h = (h XOR drop_bit 30 h) * 0xBF58476D1CE4E5B9;
          h = (h XOR drop_bit 27 h) * 0x94D049BB133111EB
      in h XOR drop_bit 31 h)"

definition get_shard :: "u64 \<Rightarrow> usize" where
  "get_shard cell = unat (drop_bit 32 (mix_h3 cell) AND 31)"

record 'a shard =
  sh_map :: "(u64 \<times> 'a) list"
  sh_map_cap :: nat
  sh_heap :: "(f64 \<times> u64) list"
  sh_heap_cap :: nat

record 'a resolution_map =
  rm_shards :: "'a shard list"
  rm_dynamic_bytes :: usize
  rm_structure_bytes :: usize
  rm_track_eviction :: bool

text \<open>How capacities change: on inserting into and removing from a table, and on pushing to a heap.\<close>

record allocator =
  al_insert :: "nat \<Rightarrow> nat \<Rightarrow> nat"
  al_remove :: "nat \<Rightarrow> nat \<Rightarrow> nat"
  al_push :: "nat \<Rightarrow> nat \<Rightarrow> nat"

text \<open>What the accumulator type gives: merging, its heap memory and the size of a table entry and of itself.\<close>

record 'a merge_ops =
  mo_merge :: "'a \<Rightarrow> 'a \<Rightarrow> 'a"
  mo_heap_bytes :: "'a \<Rightarrow> usize"
  mo_entry_size :: usize
  mo_size :: usize

definition empty_shard :: "'a shard" where
  "empty_shard = \<lparr> sh_map = [], sh_map_cap = 0, sh_heap = [], sh_heap_cap = 0 \<rparr>"

definition resolution_map_new :: "'a resolution_map" where
  "resolution_map_new =
     \<lparr> rm_shards = replicate NUM_SHARDS empty_shard, rm_dynamic_bytes = 0, rm_structure_bytes = 0, rm_track_eviction = True \<rparr>"

definition shard_bytes :: "'a merge_ops \<Rightarrow> 'a shard \<Rightarrow> usize" where
  "shard_bytes ops sh = table_bytes (mo_entry_size ops) (sh_map_cap sh) + sh_heap_cap sh * 16"

definition recount_structure :: "'a merge_ops \<Rightarrow> 'a resolution_map \<Rightarrow> 'a resolution_map" where
  "recount_structure ops m = m\<lparr> rm_structure_bytes := sum_list (map (shard_bytes ops) (rm_shards m)) \<rparr>"

definition active_cell_count :: "'a resolution_map \<Rightarrow> usize" where
  "active_cell_count m = sum_list (map (\<lambda>sh. length (sh_map sh)) (rm_shards m))"

definition rm_get :: "u64 \<Rightarrow> 'a resolution_map \<Rightarrow> 'a option" where
  "rm_get cell m = map_of (sh_map (rm_shards m ! get_shard cell)) cell"

definition rm_contains :: "u64 \<Rightarrow> 'a resolution_map \<Rightarrow> bool" where
  "rm_contains cell m \<longleftrightarrow> cell \<in> fst ` set (sh_map (rm_shards m ! get_shard cell))"

definition estimated_bytes :: "'a resolution_map \<Rightarrow> usize" where
  "estimated_bytes m = rm_dynamic_bytes m + rm_structure_bytes m"

definition set_eviction_enabled :: "'a merge_ops \<Rightarrow> bool \<Rightarrow> 'a resolution_map \<Rightarrow> 'a resolution_map" where
  "set_eviction_enabled ops enabled m =
     (let m = m\<lparr> rm_track_eviction := enabled \<rparr>
      in if enabled then m
         else recount_structure ops (m\<lparr> rm_shards := map (\<lambda>sh. sh\<lparr> sh_heap := [], sh_heap_cap := 0 \<rparr>) (rm_shards m) \<rparr>))"

text \<open>Subtractions of the accounting panic below zero: \<open>None\<close>.\<close>

definition merge_owned_with ::
  "'a merge_ops \<Rightarrow> allocator \<Rightarrow> u64 \<Rightarrow> 'a \<Rightarrow> f64 \<Rightarrow> 'a resolution_map \<Rightarrow> ('a resolution_map \<times> usize) option" where
  "merge_owned_with ops al key acc south_lat m =
     (let s = get_shard key; sh = rm_shards m ! s; before = shard_bytes ops sh
      in Option.bind
           (case map_of (sh_map sh) key of
              Some existing \<Rightarrow>
                Option.bind (sub_usize (rm_dynamic_bytes m) (mo_heap_bytes ops existing)) (\<lambda>dyn.
                  let merged = mo_merge ops existing acc
                  in Some (sh\<lparr> sh_map := AList.update key merged (sh_map sh) \<rparr>, dyn + mo_heap_bytes ops merged,
                           mo_size ops + mo_heap_bytes ops merged))
            | None \<Rightarrow>
                let sh' = sh\<lparr> sh_map := AList.update key acc (sh_map sh),
                              sh_map_cap := al_insert al (sh_map_cap sh) (length (sh_map sh) + 1) \<rparr>;
                    sh' = (if rm_track_eviction m
                           then sh'\<lparr> sh_heap := sh_heap sh @ [(south_lat, key)],
                                     sh_heap_cap := al_push al (sh_heap_cap sh) (length (sh_heap sh) + 1) \<rparr>
                           else sh')
                in Some (sh', rm_dynamic_bytes m + mo_heap_bytes ops acc, mo_size ops + mo_heap_bytes ops acc))
           (\<lambda>(sh', dyn, merged_bytes).
              Option.bind (sub_usize (rm_structure_bytes m) before) (\<lambda>st.
                Some (m\<lparr> rm_shards := (rm_shards m)[s := sh'], rm_dynamic_bytes := dyn,
                         rm_structure_bytes := st + shard_bytes ops sh' \<rparr>, merged_bytes))))"

text \<open>\<open>peek\<close> and \<open>pop\<close>: an entry with the greatest southern bound in the order of \<open>total_cmp\<close>.\<close>

fun heap_top :: "(f64 \<times> u64) list \<Rightarrow> (f64 \<times> u64) option" where
  "heap_top [] = None"
| "heap_top (e # es) =
     (case heap_top es of None \<Rightarrow> Some e | Some t \<Rightarrow> if total_key (fst e) < total_key (fst t) then Some t else Some e)"

lemma heap_top_in: "heap_top es = Some e \<Longrightarrow> e \<in> set es"
  by (induction es arbitrary: e) (auto split: option.splits if_splits)

lemma heap_top_max: "heap_top es = Some t \<Longrightarrow> e \<in> set es \<Longrightarrow> total_key (fst e) \<le> total_key (fst t)"
proof (induction es arbitrary: t e)
  case (Cons a es)
  then show ?case
  proof (cases "heap_top es")
    case None
    then have "es = []" by (cases es) (auto split: option.splits if_splits)
    then show ?thesis using Cons.prems by simp
  next
    case (Some t')
    have le: "x \<in> set es \<Longrightarrow> total_key (fst x) \<le> total_key (fst t')" for x using Cons.IH [OF Some] .
    show ?thesis
    proof (cases "total_key (fst a) < total_key (fst t')")
      case True
      then have "t = t'" using Cons.prems(1) Some by simp
      then show ?thesis using True le Cons.prems(2) by (cases "e = a") simp_all
    next
      case False
      then have "t = a" using Cons.prems(1) Some by simp
      then show ?thesis using False le [of e] Cons.prems(2) by (cases "e = a") simp_all
    qed
  qed
qed simp

lemma heap_top_None: "heap_top es = None \<longleftrightarrow> es = []"
  by (cases es) (auto split: option.splits if_splits)

text \<open>Popping the top entry: the accumulator of its cell, when it is still active, and the shard left.\<close>

definition evict_entry :: "allocator \<Rightarrow> f64 \<times> u64 \<Rightarrow> 'a shard \<Rightarrow> 'a option \<times> 'a shard" where
  "evict_entry al e sh =
     (let key = snd e;
          removed = map_of (sh_map sh) key;
          sh1 = sh\<lparr> sh_heap := remove1 e (sh_heap sh) \<rparr>;
          sh1 = (if removed = None then sh1
                 else sh1\<lparr> sh_map := AList.delete key (sh_map sh),
                           sh_map_cap := al_remove al (sh_map_cap sh) (length (sh_map sh) - 1) \<rparr>)
      in (removed, if removed \<noteq> None \<and> sh_map sh1 = [] then empty_shard else sh1))"

lemma evict_entry_shrinks:
  assumes "heap_top (sh_heap sh) = Some e"
  shows "length (sh_heap (snd (evict_entry al e sh))) < length (sh_heap sh)"
proof -
  have "e \<in> set (sh_heap sh)" using heap_top_in assms by blast
  then have pos: "0 < length (sh_heap sh)" and "length (remove1 e (sh_heap sh)) = length (sh_heap sh) - 1"
    by (auto simp: length_remove1 intro: length_pos_if_in_set)
  then have "length (remove1 e (sh_heap sh)) < length (sh_heap sh)" by linarith
  then show ?thesis using pos unfolding evict_entry_def Let_def empty_shard_def by auto
qed

text \<open>The inner loop of \<open>pop_completed\<close> on one shard: a completed cell, or nothing, and the map left.\<close>

function pop_shard ::
  "'a merge_ops \<Rightarrow> allocator \<Rightarrow> f64 \<Rightarrow> usize \<Rightarrow> 'a resolution_map \<Rightarrow> ((u64 \<times> 'a) option \<times> 'a resolution_map) option" where
  "pop_shard ops al horizon s m =
     (if length (rm_shards m) \<le> s then None
      else case heap_top (sh_heap (rm_shards m ! s)) of
             None \<Rightarrow> Some (None, m)
           | Some e \<Rightarrow>
               if \<not> f64_lt horizon (fst e) then Some (None, m)
               else case evict_entry al e (rm_shards m ! s) of
                      (removed, sh1) \<Rightarrow>
                        (case sub_usize (rm_structure_bytes m) (shard_bytes ops (rm_shards m ! s)) of
                           None \<Rightarrow> None
                         | Some st \<Rightarrow>
                             let m1 = m\<lparr> rm_shards := (rm_shards m)[s := sh1], rm_structure_bytes := st + shard_bytes ops sh1 \<rparr>
                             in case removed of
                                  None \<Rightarrow> pop_shard ops al horizon s m1
                                | Some acc \<Rightarrow>
                                    map_option (\<lambda>dyn. (Some (snd e, acc), m1\<lparr> rm_dynamic_bytes := dyn \<rparr>))
                                      (sub_usize (rm_dynamic_bytes m) (mo_heap_bytes ops acc))))"
  by pat_completeness auto
termination
proof (relation "measure (\<lambda>(ops, al, horizon, s, m). length (sh_heap (rm_shards m ! s)))", goal_cases)
  case (2 ops al horizon s m e removed sh1 st m1)
  then have "snd (evict_entry al e (rm_shards m ! s)) = sh1" by (metis snd_conv)
  then show ?case using 2 evict_entry_shrinks [of "rm_shards m ! s" e al] by (simp add: not_le)
qed simp

declare pop_shard.simps [simp del]

fun pop_from ::
  "'a merge_ops \<Rightarrow> allocator \<Rightarrow> f64 \<Rightarrow> usize list \<Rightarrow> 'a resolution_map \<Rightarrow> ((u64 \<times> 'a) option \<times> 'a resolution_map) option" where
  "pop_from ops al horizon [] m = Some (None, m)"
| "pop_from ops al horizon (s # ss) m =
     Option.bind (pop_shard ops al horizon s m) (\<lambda>(r, m).
       if r = None then pop_from ops al horizon ss m else Some (r, m))"

definition pop_completed ::
  "'a merge_ops \<Rightarrow> allocator \<Rightarrow> f64 \<Rightarrow> 'a resolution_map \<Rightarrow> ((u64 \<times> 'a) option \<times> 'a resolution_map) option" where
  "pop_completed ops al horizon m = pop_from ops al horizon [0..<NUM_SHARDS] m"

definition take_sorted :: "'a resolution_map \<Rightarrow> (u64 \<times> 'a) list \<times> 'a resolution_map" where
  "take_sorted m =
     (sort_key (\<lambda>p. unat (fst p)) (concat (map sh_map (rm_shards m))),
      m\<lparr> rm_shards := map (\<lambda>_. empty_shard) (rm_shards m), rm_dynamic_bytes := 0, rm_structure_bytes := 0 \<rparr>)"

section \<open>The invariant\<close>

definition shard_dynamic :: "'a merge_ops \<Rightarrow> 'a shard \<Rightarrow> nat" where
  "shard_dynamic ops sh = sum_list (map (\<lambda>p. mo_heap_bytes ops (snd p)) (sh_map sh))"

text \<open>\<open>south\<close> is the southern bound of a cell; with eviction on, every active cell is in its heap under it.\<close>

definition shard_ok :: "(u64 \<Rightarrow> f64) \<Rightarrow> bool \<Rightarrow> nat \<Rightarrow> 'a shard \<Rightarrow> bool" where
  "shard_ok south track s sh \<longleftrightarrow>
     distinct (map fst (sh_map sh)) \<and> (\<forall>k\<in>fst ` set (sh_map sh). get_shard k = s) \<and>
     (\<forall>e\<in>set (sh_heap sh). fst e = south (snd e)) \<and>
     (track \<longrightarrow> (\<forall>k\<in>fst ` set (sh_map sh). (south k, k) \<in> set (sh_heap sh)))"

definition rm_ok :: "'a merge_ops \<Rightarrow> (u64 \<Rightarrow> f64) \<Rightarrow> 'a resolution_map \<Rightarrow> bool" where
  "rm_ok ops south m \<longleftrightarrow>
     length (rm_shards m) = NUM_SHARDS \<and> (\<forall>s<NUM_SHARDS. shard_ok south (rm_track_eviction m) s (rm_shards m ! s)) \<and>
     rm_dynamic_bytes m = sum_list (map (shard_dynamic ops) (rm_shards m)) \<and>
     rm_structure_bytes m = sum_list (map (shard_bytes ops) (rm_shards m))"

lemma get_shard_less: "get_shard k < NUM_SHARDS"
proof -
  have "unat (drop_bit 32 (mix_h3 k) AND mask 5) < 2 ^ 5"
    by (simp only: unat_and_mask) simp
  then show ?thesis by (simp add: get_shard_def NUM_SHARDS_def mask_eq_exp_minus_1)
qed

lemma rm_ok_new: "rm_ok ops south resolution_map_new"
  by (simp add: rm_ok_def resolution_map_new_def shard_ok_def empty_shard_def shard_dynamic_def shard_bytes_def
    table_bytes_def sum_list_replicate)

lemma rm_ok_shard:
  assumes ok: "rm_ok ops south m" and s: "s < NUM_SHARDS" and sh: "shard_ok south (rm_track_eviction m) s sh"
    and dyn: "d + shard_dynamic ops (rm_shards m ! s) = rm_dynamic_bytes m + shard_dynamic ops sh"
    and st: "t + shard_bytes ops (rm_shards m ! s) = rm_structure_bytes m + shard_bytes ops sh"
  shows "rm_ok ops south (m\<lparr> rm_shards := (rm_shards m)[s := sh], rm_dynamic_bytes := d, rm_structure_bytes := t \<rparr>)"
proof -
  have l: "s < length (rm_shards m)" using ok s by (simp add: rm_ok_def)
  have "\<forall>i<NUM_SHARDS. shard_ok south (rm_track_eviction m) i ((rm_shards m)[s := sh] ! i)"
    using ok sh l by (auto simp: rm_ok_def nth_list_update)
  moreover have "d = sum_list (map (shard_dynamic ops) ((rm_shards m)[s := sh]))"
    using sum_list_map_update [OF l, of "shard_dynamic ops" sh] dyn ok by (simp add: rm_ok_def)
  moreover have "t = sum_list (map (shard_bytes ops) ((rm_shards m)[s := sh]))"
    using sum_list_map_update [OF l, of "shard_bytes ops" sh] st ok by (simp add: rm_ok_def)
  ultimately show ?thesis using ok by (simp add: rm_ok_def)
qed

lemma rm_get_shard:
  assumes "s < length (rm_shards m)"
  shows "rm_get k (m\<lparr> rm_shards := (rm_shards m)[s := sh], rm_dynamic_bytes := d, rm_structure_bytes := t \<rparr>) =
    (if get_shard k = s then map_of (sh_map sh) k else rm_get k m)"
  using assms by (simp add: rm_get_def)

lemma shard_accounts:
  assumes "rm_ok ops south m" "s < NUM_SHARDS"
  shows "shard_dynamic ops (rm_shards m ! s) \<le> rm_dynamic_bytes m" "shard_bytes ops (rm_shards m ! s) \<le> rm_structure_bytes m"
  using assms member_le_sum_list_map [of s "rm_shards m" "shard_dynamic ops"] member_le_sum_list_map [of s "rm_shards m" "shard_bytes ops"]
  by (simp_all add: rm_ok_def)

lemma sum_AList_update:
  fixes f :: "'v \<Rightarrow> 'b :: comm_monoid_add"
  shows "distinct (map fst xs) \<Longrightarrow> sum_list (map (\<lambda>p. f (snd p)) (AList.update k v xs)) + (case map_of xs k of None \<Rightarrow> 0 | Some a \<Rightarrow> f a) =
    sum_list (map (\<lambda>p. f (snd p)) xs) + f v"
proof (induction xs)
  case (Cons x xs)
  show ?case
  proof (cases "fst x = k")
    case True
    then have "map_of xs k = None" using Cons.prems by (auto simp: map_of_eq_None_iff)
    then show ?thesis using True by (cases x) (simp add: ac_simps)
  next
    case False
    then show ?thesis using Cons by (cases x) (simp add: ac_simps)
  qed
qed simp

lemma sum_AList_delete:
  fixes f :: "'v \<Rightarrow> 'b :: comm_monoid_add"
  assumes "distinct (map fst xs)" "map_of xs k = Some a"
  shows "sum_list (map (\<lambda>p. f (snd p)) (AList.delete k xs)) + f a = sum_list (map (\<lambda>p. f (snd p)) xs)"
  using assms
proof (induction xs)
  case (Cons x xs)
  show ?case
  proof (cases "fst x = k")
    case True
    then have "k \<notin> fst ` set xs" using Cons.prems(1) by auto
    then have "AList.delete k xs = xs" by (simp add: delete_id)
    then show ?thesis using True Cons.prems(2) by (cases x) (simp add: ac_simps)
  next
    case False
    then show ?thesis using Cons by (cases x) (simp add: ac_simps)
  qed
qed simp

lemma keys_AList_update: "fst ` set (AList.update k v xs) = insert k (fst ` set xs)"
  using dom_map_of_conv_image_fst [of "AList.update k v xs"] dom_map_of_conv_image_fst [of xs] by (simp add: update_conv')

section \<open>Merging\<close>

definition merged_value :: "'a merge_ops \<Rightarrow> u64 \<Rightarrow> 'a \<Rightarrow> 'a resolution_map \<Rightarrow> 'a" where
  "merged_value ops key acc m = (case rm_get key m of None \<Rightarrow> acc | Some existing \<Rightarrow> mo_merge ops existing acc)"

lemma merge_owned_ok:
  assumes ok: "rm_ok ops south m"
  shows "\<exists>m'. merge_owned_with ops al key acc (south key) m =
      Some (m', mo_size ops + mo_heap_bytes ops (merged_value ops key acc m)) \<and> rm_ok ops south m' \<and>
    (\<lambda>k. rm_get k m') = (\<lambda>k. rm_get k m)(key \<mapsto> merged_value ops key acc m) \<and>
    rm_track_eviction m' = rm_track_eviction m"
proof -
  define s where "s = get_shard key"
  define sh where "sh = rm_shards m ! s"
  define merged where "merged = merged_value ops key acc m"
  define upd where "upd = AList.update key merged (sh_map sh)"
  have s: "s < NUM_SHARDS" "s < length (rm_shards m)" using get_shard_less ok by (simp_all add: s_def rm_ok_def)
  have sok: "shard_ok south (rm_track_eviction m) s sh" using ok s(1) by (simp add: rm_ok_def sh_def)
  have get: "rm_get key m = map_of (sh_map sh) key" by (simp add: rm_get_def sh_def s_def)
  have dist: "distinct (map fst (sh_map sh))" using sok by (simp add: shard_ok_def)
  note acct = shard_accounts [OF ok s(1), folded sh_def]
  define old where "old = (case map_of (sh_map sh) key of None \<Rightarrow> 0 | Some a \<Rightarrow> mo_heap_bytes ops a)"
  define sh' where "sh' = (case map_of (sh_map sh) key of
      Some _ \<Rightarrow> sh\<lparr> sh_map := upd \<rparr>
    | None \<Rightarrow> let sh1 = sh\<lparr> sh_map := upd, sh_map_cap := al_insert al (sh_map_cap sh) (length (sh_map sh) + 1) \<rparr>
              in if rm_track_eviction m
                 then sh1\<lparr> sh_heap := sh_heap sh @ [(south key, key)], sh_heap_cap := al_push al (sh_heap_cap sh) (length (sh_heap sh) + 1) \<rparr>
                 else sh1)"
  have sh': "sh_map sh' = upd" "set (sh_heap sh) \<subseteq> set (sh_heap sh')"
      "map_of (sh_map sh) key = None \<Longrightarrow> rm_track_eviction m \<Longrightarrow> (south key, key) \<in> set (sh_heap sh')"
      "set (sh_heap sh') \<subseteq> insert (south key, key) (set (sh_heap sh))"
    by (auto simp: sh'_def Let_def split: option.splits)
  have sum: "shard_dynamic ops sh' + old = shard_dynamic ops sh + mo_heap_bytes ops merged"
    using sum_AList_update [OF dist, of "mo_heap_bytes ops" key merged] by (simp add: shard_dynamic_def sh'(1) upd_def old_def)
  have old: "old \<le> shard_dynamic ops sh"
  proof (cases "map_of (sh_map sh) key")
    case (Some a)
    then have "mo_heap_bytes ops a \<in> set (map (\<lambda>p. mo_heap_bytes ops (snd p)) (sh_map sh))"
      using map_of_SomeD [OF Some] by force
    then show ?thesis by (simp add: old_def Some shard_dynamic_def member_le_sum_list)
  qed (simp add: old_def)
  define m' where "m' = m\<lparr> rm_shards := (rm_shards m)[s := sh'], rm_dynamic_bytes := rm_dynamic_bytes m - old + mo_heap_bytes ops merged,
      rm_structure_bytes := rm_structure_bytes m - shard_bytes ops sh + shard_bytes ops sh' \<rparr>"
  have run: "merge_owned_with ops al key acc (south key) m = Some (m', mo_size ops + mo_heap_bytes ops merged)"
  proof (cases "map_of (sh_map sh) key")
    case None
    then have "merged = acc" by (simp add: merged_def merged_value_def get)
    then show ?thesis
      using None acct unfolding merge_owned_with_def s_def [symmetric] sh_def [symmetric] Let_def
      by (simp add: sub_usize_def m'_def sh'_def upd_def old_def Let_def)
  next
    case (Some a)
    then have "merged = mo_merge ops a acc" by (simp add: merged_def merged_value_def get)
    then show ?thesis
      using Some acct old unfolding merge_owned_with_def s_def [symmetric] sh_def [symmetric] Let_def
      by (simp add: sub_usize_def m'_def sh'_def upd_def old_def Let_def)
  qed
  have shard: "shard_ok south (rm_track_eviction m) s sh'"
  proof -
    have "\<forall>k\<in>fst ` set (sh_map sh'). get_shard k = s" using sok by (simp add: sh'(1) upd_def keys_AList_update shard_ok_def s_def)
    moreover have "\<forall>e\<in>set (sh_heap sh'). fst e = south (snd e)" using sok sh'(4) by (auto simp: shard_ok_def)
    moreover have "\<forall>k\<in>fst ` set (sh_map sh'). (south k, k) \<in> set (sh_heap sh')" if "rm_track_eviction m"
    proof
      fix k assume "k \<in> fst ` set (sh_map sh')"
      then have "k = key \<or> k \<in> fst ` set (sh_map sh)" by (simp add: sh'(1) upd_def keys_AList_update)
      moreover have "k \<in> fst ` set (sh_map sh) \<Longrightarrow> (south k, k) \<in> set (sh_heap sh')"
        using sok that sh'(2) by (auto simp: shard_ok_def)
      moreover have "key \<notin> fst ` set (sh_map sh) \<Longrightarrow> (south key, key) \<in> set (sh_heap sh')"
        using sh'(3) that by (simp add: map_of_eq_None_iff)
      ultimately show "(south k, k) \<in> set (sh_heap sh')" by blast
    qed
    ultimately show ?thesis using dist by (simp add: shard_ok_def sh'(1) upd_def distinct_update)
  qed
  have "rm_ok ops south m'"
    unfolding m'_def using acct old sum by (intro rm_ok_shard [OF ok s(1) shard]) (simp_all add: sh_def)
  moreover have "(\<lambda>k. rm_get k m') = (\<lambda>k. rm_get k m)(key \<mapsto> merged)"
    unfolding m'_def rm_get_shard [OF s(2)] sh'(1) upd_def
    by (auto simp: update_conv' fun_eq_iff s_def rm_get_def sh_def)
  ultimately show ?thesis using run by (simp add: merged_def m'_def)
qed

section \<open>Eviction\<close>

lemma evict_entry_ok:
  assumes sok: "shard_ok south track s sh" and top: "heap_top (sh_heap sh) = Some e"
    and ev: "evict_entry al e sh = (removed, sh1)"
  shows "removed = map_of (sh_map sh) (snd e)" "fst e = south (snd e)" "shard_ok south track s sh1"
    "map_of (sh_map sh1) = (map_of (sh_map sh))(snd e := None)"
    "shard_dynamic ops sh1 + (case removed of None \<Rightarrow> 0 | Some a \<Rightarrow> mo_heap_bytes ops a) = shard_dynamic ops sh"
proof -
  define key where "key = snd e"
  have dist: "distinct (map fst (sh_map sh))" using sok by (simp add: shard_ok_def)
  show r: "removed = map_of (sh_map sh) (snd e)" using ev by (simp add: evict_entry_def Let_def)
  show lat: "fst e = south (snd e)" using heap_top_in [OF top] sok by (simp add: shard_ok_def)
  have rest: "sh_map sh1 = (if removed = None then sh_map sh else AList.delete key (sh_map sh))"
      "sh_heap sh1 = remove1 e (sh_heap sh) \<or> sh_map sh1 = [] \<and> sh_heap sh1 = []"
    using ev by (auto simp: evict_entry_def Let_def key_def empty_shard_def split: if_splits)
  have map: "map_of (sh_map sh1) = (map_of (sh_map sh))(key := None)"
  proof (cases removed)
    case None
    then show ?thesis using r by (auto simp: rest(1) key_def fun_eq_iff)
  next
    case (Some a)
    then show ?thesis by (simp add: rest(1) delete_conv')
  qed
  then show "map_of (sh_map sh1) = (map_of (sh_map sh))(snd e := None)" by (simp add: key_def)
  have keys: "fst ` set (sh_map sh1) = fst ` set (sh_map sh) - {key}"
    using dom_map_of_conv_image_fst [of "sh_map sh1"] dom_map_of_conv_image_fst [of "sh_map sh"] map by auto
  show "shard_dynamic ops sh1 + (case removed of None \<Rightarrow> 0 | Some a \<Rightarrow> mo_heap_bytes ops a) = shard_dynamic ops sh"
    using sum_AList_delete [OF dist, of key _ "mo_heap_bytes ops"] r
    by (auto simp: shard_dynamic_def rest(1) key_def split: option.splits)
  have "distinct (map fst (sh_map sh1))" using dist by (simp add: rest(1) distinct_delete)
  moreover have "set (sh_heap sh1) \<subseteq> set (sh_heap sh)" using rest(2) set_remove1_subset by fastforce
  moreover have "(south k, k) \<in> set (sh_heap sh1)" if "track" "k \<in> fst ` set (sh_map sh1)" for k
  proof -
    have "k \<noteq> key" "(south k, k) \<in> set (sh_heap sh)" using that keys sok by (auto simp: shard_ok_def)
    moreover from this have "(south k, k) \<noteq> e" by (auto simp: key_def)
    moreover have "sh_heap sh1 = remove1 e (sh_heap sh)" using rest(2) that(2) by auto
    ultimately show ?thesis by (simp add: in_set_remove1)
  qed
  moreover have "\<forall>k\<in>fst ` set (sh_map sh1). get_shard k = s"
  proof
    fix k assume "k \<in> fst ` set (sh_map sh1)"
    then have "k \<in> fst ` set (sh_map sh)" using keys by blast
    then show "get_shard k = s" using sok unfolding shard_ok_def by blast
  qed
  moreover have "\<forall>e\<in>set (sh_heap sh). fst e = south (snd e)" using sok unfolding shard_ok_def by blast
  ultimately show "shard_ok south track s sh1" unfolding shard_ok_def by (intro conjI) blast+
qed

lemma rm_get_shard_of: "shard_ok south track s sh \<Longrightarrow> map_of (sh_map sh) k = Some a \<Longrightarrow> get_shard k = s"
  by (force simp: shard_ok_def dest: map_of_SomeD)

definition pop_spec :: "(u64 \<Rightarrow> f64) \<Rightarrow> f64 \<Rightarrow> (u64 \<Rightarrow> bool) \<Rightarrow> 'a resolution_map \<Rightarrow> (u64 \<times> 'a) option \<Rightarrow> 'a resolution_map \<Rightarrow> bool" where
  "pop_spec south horizon cells m r m' \<longleftrightarrow>
     rm_track_eviction m' = rm_track_eviction m \<and>
     (case r of
        Some (k, a) \<Rightarrow> rm_get k m = Some a \<and> f64_lt horizon (south k) \<and> (\<lambda>k. rm_get k m') = (\<lambda>k. rm_get k m)(k := None)
      | None \<Rightarrow> (\<lambda>k. rm_get k m') = (\<lambda>k. rm_get k m) \<and>
          (rm_track_eviction m \<longrightarrow> (\<forall>k. cells k \<longrightarrow> rm_get k m \<noteq> None \<longrightarrow> \<not> f64_lt horizon (south k))))"

lemma pop_shard_ok:
  assumes "rm_ok ops south m" "s < NUM_SHARDS" "\<And>k. \<not> f64_is_nan (south k)"
  shows "\<exists>r m'. pop_shard ops al horizon s m = Some (r, m') \<and> rm_ok ops south m' \<and>
    pop_spec south horizon (\<lambda>k. get_shard k = s) m r m'"
  using assms(1)
proof (induction "length (sh_heap (rm_shards m ! s))" arbitrary: m rule: less_induct)
  case less
  define sh where "sh = rm_shards m ! s"
  have l: "s < length (rm_shards m)" using less.prems assms(2) by (simp add: rm_ok_def)
  have sok: "shard_ok south (rm_track_eviction m) s sh" using less.prems assms(2) by (simp add: rm_ok_def sh_def)
  note acct = shard_accounts [OF less.prems assms(2), folded sh_def]
  have stop: ?case if "pop_shard ops al horizon s m = Some (None, m)"
      "\<And>e. e \<in> set (sh_heap sh) \<Longrightarrow> \<not> f64_lt horizon (fst e)"
  proof -
    have "\<not> f64_lt horizon (south k)" if "rm_track_eviction m" "get_shard k = s" "rm_get k m \<noteq> None" for k
    proof -
      have "k \<in> fst ` set (sh_map sh)" using that by (simp add: rm_get_def sh_def map_of_eq_None_iff)
      then have "(south k, k) \<in> set (sh_heap sh)" using sok that(1) unfolding shard_ok_def by blast
      then show ?thesis using \<open>\<And>e. e \<in> set (sh_heap sh) \<Longrightarrow> \<not> f64_lt horizon (fst e)\<close> by force
    qed
    then show ?thesis using \<open>pop_shard ops al horizon s m = Some (None, m)\<close> less.prems by (auto simp: pop_spec_def)
  qed
  show ?case
  proof (cases "heap_top (sh_heap sh)")
    case None
    then show ?thesis using l by (intro stop) (subst pop_shard.simps, auto simp: sh_def heap_top_None)
  next
    case (Some e)
    show ?thesis
    proof (cases "f64_lt horizon (fst e)")
      case False
      have "\<not> f64_lt horizon (fst x)" if "x \<in> set (sh_heap sh)" for x
      proof
        assume "f64_lt horizon (fst x)"
        have "fst e = south (snd e)" "fst x = south (snd x)" using heap_top_in [OF Some] that sok by (simp_all add: shard_ok_def)
        then have "f64_le (fst x) (fst e)"
          using total_le_le [of "fst x" "fst e"] heap_top_max [OF Some that] assms(3) by (simp add: total_le_def)
        then show False using f64_lt_le_trans [OF \<open>f64_lt horizon (fst x)\<close>] False by blast
      qed
      then show ?thesis using l Some False by (intro stop) (subst pop_shard.simps, auto simp: sh_def)
    next
      case True
      obtain removed sh1 where ev: "evict_entry al e sh = (removed, sh1)" by (cases "evict_entry al e sh")
      note eo = evict_entry_ok [OF sok Some ev]
      define st where "st = rm_structure_bytes m - shard_bytes ops sh + shard_bytes ops sh1"
      define m1 where "m1 = m\<lparr> rm_shards := (rm_shards m)[s := sh1], rm_structure_bytes := st \<rparr>"
      have step: "pop_shard ops al horizon s m = (case removed of
            None \<Rightarrow> pop_shard ops al horizon s m1
          | Some acc \<Rightarrow> map_option (\<lambda>dyn. (Some (snd e, acc), m1\<lparr> rm_dynamic_bytes := dyn \<rparr>))
              (sub_usize (rm_dynamic_bytes m) (mo_heap_bytes ops acc)))"
        using l Some True ev acct
        by (subst pop_shard.simps) (simp add: sh_def [symmetric] sub_usize_def m1_def st_def not_le Let_def split: option.splits)
      have st: "st + shard_bytes ops sh = rm_structure_bytes m + shard_bytes ops sh1" using acct by (simp add: st_def)
      show ?thesis
      proof (cases removed)
        case None
        have ok1: "rm_ok ops south (m\<lparr> rm_shards := (rm_shards m)[s := sh1], rm_dynamic_bytes := rm_dynamic_bytes m, rm_structure_bytes := st \<rparr>)"
          using eo(5) [of ops] None st by (intro rm_ok_shard [OF less.prems assms(2) eo(3)]) (simp_all add: sh_def)
        have "(m\<lparr> rm_shards := (rm_shards m)[s := sh1], rm_dynamic_bytes := rm_dynamic_bytes m, rm_structure_bytes := st \<rparr>) = m1"
          by (simp add: m1_def)
        then have ok1: "rm_ok ops south m1" using ok1 by simp
        have get: "(\<lambda>k. rm_get k m1) = (\<lambda>k. rm_get k m)"
        proof
          fix k
          show "rm_get k m1 = rm_get k m"
            using eo(1,4) None l by (cases "get_shard k = s") (auto simp: m1_def rm_get_def sh_def)
        qed
        have "length (sh_heap (rm_shards m1 ! s)) < length (sh_heap (rm_shards m ! s))"
          using evict_entry_shrinks [OF Some, of al] ev l by (simp add: m1_def sh_def)
        from less.hyps [OF this ok1] obtain r m' where IH: "pop_shard ops al horizon s m1 = Some (r, m')" "rm_ok ops south m'"
            "pop_spec south horizon (\<lambda>k. get_shard k = s) m1 r m'" by blast
        have getk: "rm_get k m1 = rm_get k m" for k using get by (rule fun_cong)
        have tr: "rm_track_eviction m1 = rm_track_eviction m" by (simp add: m1_def)
        have "pop_spec south horizon (\<lambda>k. get_shard k = s) m r m'"
          using IH(3) unfolding pop_spec_def tr getk .
        then show ?thesis using step None IH by auto
      next
        case S: (Some acc)
        have key: "map_of (sh_map sh) (snd e) = Some acc" using eo(1) S by simp
        have sh_key: "get_shard (snd e) = s" by (rule rm_get_shard_of [OF sok key])
        have dyn: "mo_heap_bytes ops acc \<le> shard_dynamic ops sh" using eo(5) [of ops] S by simp
        define d where "d = rm_dynamic_bytes m - mo_heap_bytes ops acc"
        have ok1: "rm_ok ops south (m\<lparr> rm_shards := (rm_shards m)[s := sh1], rm_dynamic_bytes := d, rm_structure_bytes := st \<rparr>)"
          using eo(5) [of ops] S st dyn acct by (intro rm_ok_shard [OF less.prems assms(2) eo(3)]) (simp_all add: sh_def d_def)
        have m1d: "m\<lparr> rm_shards := (rm_shards m)[s := sh1], rm_dynamic_bytes := d, rm_structure_bytes := st \<rparr> = m1\<lparr> rm_dynamic_bytes := d \<rparr>"
          by (simp add: m1_def)
        have "pop_shard ops al horizon s m = Some (Some (snd e, acc), m1\<lparr> rm_dynamic_bytes := d \<rparr>)"
          using step S dyn acct by (simp add: sub_usize_def d_def)
        moreover have "rm_get (snd e) m = Some acc" using key sh_key by (simp add: rm_get_def sh_def)
        moreover have "(\<lambda>k. rm_get k (m1\<lparr> rm_dynamic_bytes := d \<rparr>)) = (\<lambda>k. rm_get k m)(snd e := None)"
          unfolding m1d [symmetric] rm_get_shard [OF l] eo(4)
          using sh_key by (auto simp: fun_eq_iff rm_get_def sh_def)
        moreover have "f64_lt horizon (south (snd e))" using True eo(2) by simp
        ultimately show ?thesis using ok1 unfolding m1d by (auto simp: pop_spec_def m1_def)
      qed
    qed
  qed
qed

lemma pop_from_ok:
  assumes "rm_ok ops south m" "\<forall>s\<in>set ss. s < NUM_SHARDS" "\<And>k. \<not> f64_is_nan (south k)"
  shows "\<exists>r m'. pop_from ops al horizon ss m = Some (r, m') \<and> rm_ok ops south m' \<and>
    pop_spec south horizon (\<lambda>k. get_shard k \<in> set ss) m r m'"
  using assms(1,2)
proof (induction ss arbitrary: m)
  case Nil
  then show ?case by (simp add: pop_spec_def)
next
  case (Cons s ss)
  obtain r1 m1 where p1: "pop_shard ops al horizon s m = Some (r1, m1)" "rm_ok ops south m1"
      "pop_spec south horizon (\<lambda>k. get_shard k = s) m r1 m1"
    using pop_shard_ok [OF Cons.prems(1) _ assms(3), of s] Cons.prems(2) by (meson list.set_intros(1))
  show ?case
  proof (cases r1)
    case None
    obtain r m' where IH: "pop_from ops al horizon ss m1 = Some (r, m')" "rm_ok ops south m'"
        "pop_spec south horizon (\<lambda>k. get_shard k \<in> set ss) m1 r m'"
      using Cons.IH [OF p1(2)] Cons.prems(2) by auto
    have "(\<lambda>k. rm_get k m1) = (\<lambda>k. rm_get k m)" using p1(3) None by (simp add: pop_spec_def)
    then have get: "rm_get k m1 = rm_get k m" for k by (rule fun_cong)
    have "pop_spec south horizon (\<lambda>k. get_shard k \<in> set (s # ss)) m r m'"
      using p1(3) IH(3) None get by (auto simp: pop_spec_def split: option.splits)
    then show ?thesis using p1(1) IH None by simp
  next
    case (Some p)
    then show ?thesis using p1 by (cases p) (auto simp: pop_spec_def)
  qed
qed

section \<open>Taking everything\<close>

lemma concat_shards:
  assumes ok: "rm_ok ops south m"
  shows "distinct (map fst (concat (map sh_map (rm_shards m))))"
    "(k, v) \<in> set (concat (map sh_map (rm_shards m))) \<longleftrightarrow> rm_get k m = Some v"
proof -
  have len: "length (rm_shards m) = NUM_SHARDS" using ok by (simp add: rm_ok_def)
  have sok: "s < NUM_SHARDS \<Longrightarrow> shard_ok south (rm_track_eviction m) s (rm_shards m ! s)" for s
    using ok by (simp add: rm_ok_def)
  have "distinct (map fst (concat (map sh_map (take n (rm_shards m)))))" if "n \<le> NUM_SHARDS" for n
    using that
  proof (induction n)
    case (Suc n)
    have fresh: "k \<notin> fst ` set (sh_map (rm_shards m ! n))"
      if k: "k \<in> fst ` set (sh_map sh)" and sh: "sh \<in> set (take n (rm_shards m))" for k sh
    proof -
      obtain i where i: "i < n" "sh = rm_shards m ! i" using sh Suc.prems len by (auto simp: in_set_conv_nth)
      then have "get_shard k = i" using k sok [of i] Suc.prems unfolding shard_ok_def by (metis Suc_le_lessD less_trans)
      then show ?thesis using sok [of n] Suc.prems i(1) by (auto simp: shard_ok_def)
    qed
    have "distinct (map fst (sh_map (rm_shards m ! n)))" using sok [of n] Suc.prems by (simp add: shard_ok_def)
    then show ?case
      using Suc len fresh by (simp add: take_Suc_conv_app_nth) (use fresh in blast)
  qed simp
  from this [of NUM_SHARDS] show "distinct (map fst (concat (map sh_map (rm_shards m))))" by (simp add: len)
  show "(k, v) \<in> set (concat (map sh_map (rm_shards m))) \<longleftrightarrow> rm_get k m = Some v"
  proof
    assume "(k, v) \<in> set (concat (map sh_map (rm_shards m)))"
    then obtain sh where "sh \<in> set (rm_shards m)" "(k, v) \<in> set (sh_map sh)" by auto
    then obtain i where i: "i < NUM_SHARDS" "(k, v) \<in> set (sh_map (rm_shards m ! i))"
      using len by (metis in_set_conv_nth)
    then have "get_shard k = i" "distinct (map fst (sh_map (rm_shards m ! i)))" using sok [OF i(1)] by (force simp: shard_ok_def)+
    then show "rm_get k m = Some v" using i(2) by (simp add: rm_get_def)
  next
    assume "rm_get k m = Some v"
    then have "(k, v) \<in> set (sh_map (rm_shards m ! get_shard k))" by (simp add: rm_get_def map_of_SomeD)
    then show "(k, v) \<in> set (concat (map sh_map (rm_shards m)))"
      using get_shard_less [of k] len by auto
  qed
qed

lemma take_sorted_ok:
  assumes ok: "rm_ok ops south m" and t: "take_sorted m = (records, m')"
  shows "keys_sorted records" "map_of records = (\<lambda>k. rm_get k m)" "rm_ok ops south m'" "rm_get k m' = None"
    "estimated_bytes m' = 0"
proof -
  define cs where "cs = concat (map sh_map (rm_shards m))"
  have r: "records = sort_key (\<lambda>p. unat (fst p)) cs" and m': "m' = m\<lparr> rm_shards := map (\<lambda>_. empty_shard) (rm_shards m),
      rm_dynamic_bytes := 0, rm_structure_bytes := 0 \<rparr>"
    using t by (simp_all add: take_sorted_def cs_def)
  have d: "distinct (map fst records)"
    using concat_shards(1) [OF ok] unfolding r cs_def [symmetric] by (metis mset_eq_imp_distinct_iff mset_map mset_sort)
  have "sorted (map (\<lambda>p. unat (fst p)) records)" unfolding r by (rule sorted_sort_key)
  then have "sorted (map fst records)" by (simp add: sorted_map word_le_nat_alt)
  then show "keys_sorted records" using d by (simp add: keys_sorted_def strict_sorted_iff)
  show "map_of records = (\<lambda>k. rm_get k m)"
  proof
    fix k
    have "map_of records k = Some v \<longleftrightarrow> rm_get k m = Some v" for v
      using map_of_eq_Some_iff [OF d] concat_shards(2) [OF ok] unfolding r cs_def [symmetric] by simp
    then show "map_of records k = rm_get k m" by (metis not_None_eq)
  qed
  have rep: "map (\<lambda>_. empty_shard) (rm_shards m) = replicate NUM_SHARDS empty_shard"
    using ok by (simp add: rm_ok_def map_replicate_const)
  have fields: "rm_shards m' = replicate NUM_SHARDS empty_shard" "rm_dynamic_bytes m' = 0" "rm_structure_bytes m' = 0"
    by (simp_all add: m' rep)
  show "rm_ok ops south m'" "rm_get k m' = None"
    using get_shard_less [of k]
    by (simp_all add: fields rm_ok_def rm_get_def shard_ok_def empty_shard_def shard_dynamic_def shard_bytes_def table_bytes_def sum_list_replicate)
  show "estimated_bytes m' = 0" by (simp add: m' estimated_bytes_def)
qed

section \<open>Collecting and evicting cells\<close>

definition merge_cells ::
  "'a merge_ops \<Rightarrow> allocator \<Rightarrow> (u64 \<Rightarrow> f64) \<Rightarrow> (u64 \<times> 'a) list \<Rightarrow> 'a resolution_map \<Rightarrow> 'a resolution_map option" where
  "merge_cells ops al south kvs m =
     fold_opt (\<lambda>p m. map_option fst (merge_owned_with ops al (fst p) (snd p) (south (fst p)) m)) kvs m"

text \<open>The values given for a cell, merged in the order they were given.\<close>

definition collected :: "'a merge_ops \<Rightarrow> (u64 \<times> 'a) list \<Rightarrow> u64 \<Rightarrow> 'a option" where
  "collected ops kvs k =
     (case map snd (filter (\<lambda>p. fst p = k) kvs) of
        [] \<Rightarrow> None
      | a # as \<Rightarrow> Some (fold (\<lambda>b x. mo_merge ops x b) as a))"

lemma collected_snoc:
  "collected ops (kvs @ [(k, a)]) = (collected ops kvs)(k \<mapsto> (case collected ops kvs k of None \<Rightarrow> a | Some x \<Rightarrow> mo_merge ops x a))"
  by (auto simp: collected_def fun_eq_iff split: list.splits)

lemma merge_cells_ok:
  "\<exists>m. merge_cells ops al south kvs resolution_map_new = Some m \<and> rm_ok ops south m \<and> (\<lambda>k. rm_get k m) = collected ops kvs"
proof (induction kvs rule: rev_induct)
  case Nil
  have "(\<lambda>k. rm_get k resolution_map_new) = collected ops []"
    using get_shard_less by (simp add: fun_eq_iff rm_get_def resolution_map_new_def empty_shard_def collected_def)
  then show ?case using rm_ok_new by (auto simp: merge_cells_def)
next
  case (snoc p kvs)
  obtain k a where p: "p = (k, a)" by (cases p)
  obtain m where m: "merge_cells ops al south kvs resolution_map_new = Some m" "rm_ok ops south m"
      "(\<lambda>k. rm_get k m) = collected ops kvs" using snoc by blast
  obtain m' b where m': "merge_owned_with ops al k a (south k) m = Some (m', b)" "rm_ok ops south m'"
      "(\<lambda>k. rm_get k m') = (\<lambda>k. rm_get k m)(k \<mapsto> merged_value ops k a m)"
    using merge_owned_ok [OF m(2)] by blast
  have "rm_get k m = collected ops kvs k" using m(3) by (rule fun_cong)
  then have "(\<lambda>k. rm_get k m') = collected ops (kvs @ [p])"
    using m'(3) m(3) by (simp add: p collected_snoc merged_value_def)
  then show ?case using m(1) m'(1,2) by (simp add: merge_cells_def fold_opt_append p)
qed

text \<open>
  C15. Whatever cells are merged into the sharded map and however its tables and heaps grow, no
  subtraction of the memory accounting goes below zero, the estimate is the sum over the shards, and
  taking the records gives each cell once, in increasing order, with the merge of all its values in
  the order they came; the map left behind accounts for nothing.
\<close>

theorem sharded_map_collects:
  "\<exists>m records m'. merge_cells ops al south kvs resolution_map_new = Some m \<and>
    estimated_bytes m = sum_list (map (\<lambda>sh. shard_dynamic ops sh + shard_bytes ops sh) (rm_shards m)) \<and>
    take_sorted m = (records, m') \<and> keys_sorted records \<and> map_of records = collected ops kvs \<and> estimated_bytes m' = 0"
proof -
  obtain m where m: "merge_cells ops al south kvs resolution_map_new = Some m" "rm_ok ops south m"
      "(\<lambda>k. rm_get k m) = collected ops kvs" using merge_cells_ok by blast
  obtain records m' where t: "take_sorted m = (records, m')" by (cases "take_sorted m")
  have "estimated_bytes m = sum_list (map (\<lambda>sh. shard_dynamic ops sh + shard_bytes ops sh) (rm_shards m))"
    using m(2) by (simp add: estimated_bytes_def rm_ok_def sum_list_addf)
  then show ?thesis using m t take_sorted_ok [OF m(2) t] by auto
qed

lemma pop_completed_ok:
  assumes "rm_ok ops south m" "\<And>k. \<not> f64_is_nan (south k)"
  shows "\<exists>r m'. pop_completed ops al horizon m = Some (r, m') \<and> rm_ok ops south m' \<and> pop_spec south horizon (\<lambda>_. True) m r m'"
proof -
  have "(\<lambda>k. get_shard k \<in> set [0..<NUM_SHARDS]) = (\<lambda>_. True)" using get_shard_less by auto
  then show ?thesis using pop_from_ok [OF assms(1) _ assms(2), of "[0..<NUM_SHARDS]" al horizon] by (simp add: pop_completed_def)
qed

text \<open>
  C30. Popping a completed cell never panics and keeps the accounts exact. It gives an active cell whose
  southern bound is above the horizon and removes that cell only; when it gives none and eviction is
  on, no active cell has its southern bound above the horizon.
\<close>

theorem pop_completed_correct:
  assumes "rm_ok ops south m" "\<And>k. \<not> f64_is_nan (south k)"
  shows "\<exists>r m'. pop_completed ops al horizon m = Some (r, m') \<and> rm_ok ops south m' \<and>
    (case r of
       Some (k, a) \<Rightarrow> rm_get k m = Some a \<and> f64_lt horizon (south k) \<and>
         (\<lambda>k. rm_get k m') = (\<lambda>k. rm_get k m)(k := None)
     | None \<Rightarrow> (\<lambda>k. rm_get k m') = (\<lambda>k. rm_get k m) \<and>
         (rm_track_eviction m \<longrightarrow> (\<forall>k. rm_get k m \<noteq> None \<longrightarrow> \<not> f64_lt horizon (south k))))"
proof -
  obtain r m' where r: "pop_completed ops al horizon m = Some (r, m')" "rm_ok ops south m'"
      "pop_spec south horizon (\<lambda>_. True) m r m'" using pop_completed_ok [OF assms] by blast
  then show ?thesis by (intro exI [of _ r] exI [of _ m']) (cases r; simp add: pop_spec_def)
qed

definition unit_ops :: "h3_accumulator merge_ops" where
  "unit_ops = \<lparr> mo_merge = acc_merge, mo_heap_bytes = \<lambda>_. 0, mo_entry_size = 64, mo_size = 56 \<rparr>"

definition doubling :: allocator where
  "doubling = \<lparr> al_insert = \<lambda>cap len. if len \<le> cap then cap else 2 * len, al_remove = \<lambda>cap len. cap,
                al_push = \<lambda>cap len. if len \<le> cap then cap else 2 * len \<rparr>"

theorem pop_completed_correct_witness:
  "\<exists>m r m'. merge_cells unit_ops doubling (\<lambda>_. f64_one) [(1, acc_new f64_one), (2, acc_new f64_two)] resolution_map_new = Some m \<and>
    pop_completed unit_ops doubling 0 m = Some (r, m') \<and> r \<noteq> None"
proof -
  let ?kvs = "[(1, acc_new f64_one), (2, acc_new f64_two)] :: (u64 \<times> h3_accumulator) list"
  obtain m where m: "merge_cells unit_ops doubling (\<lambda>_. f64_one) ?kvs resolution_map_new = Some m" "rm_ok unit_ops (\<lambda>_. f64_one) m"
      "(\<lambda>k. rm_get k m) = collected unit_ops ?kvs" using merge_cells_ok by blast
  have track: "rm_track_eviction m"
  proof -
    have "rm_track_eviction m" if "fold_opt (\<lambda>p m. map_option fst (merge_owned_with unit_ops doubling (fst p) (snd p) f64_one m)) xs m0 = Some m"
        "rm_ok unit_ops (\<lambda>_. f64_one) m0" "rm_track_eviction m0" for xs :: "(u64 \<times> h3_accumulator) list" and m0
      using that
    proof (induction xs arbitrary: m0)
      case (Cons p xs)
      obtain m1 where "merge_owned_with unit_ops doubling (fst p) (snd p) f64_one m0 =
          Some (m1, mo_size unit_ops + mo_heap_bytes unit_ops (merged_value unit_ops (fst p) (snd p) m0))"
          "rm_ok unit_ops (\<lambda>_. f64_one) m1" "rm_track_eviction m1 = rm_track_eviction m0"
        using merge_owned_ok [OF Cons.prems(2), of doubling "fst p" "snd p"] by auto
      then show ?case using Cons by simp
    qed simp
    moreover have "rm_track_eviction (resolution_map_new :: h3_accumulator resolution_map)" by (simp add: resolution_map_new_def)
    ultimately show ?thesis using m(1) rm_ok_new unfolding merge_cells_def by blast
  qed
  have nan: "\<And>k. \<not> f64_is_nan ((\<lambda>_ :: u64. f64_one) k)" using one_not_nan by simp
  obtain r m' where p: "pop_completed unit_ops doubling 0 m = Some (r, m')"
      and c: "case r of Some (k, a) \<Rightarrow> rm_get k m = Some a \<and> f64_lt 0 f64_one \<and> (\<lambda>k. rm_get k m') = (\<lambda>k. rm_get k m)(k := None)
        | None \<Rightarrow> (\<lambda>k. rm_get k m') = (\<lambda>k. rm_get k m) \<and>
            (rm_track_eviction m \<longrightarrow> (\<forall>k. rm_get k m \<noteq> None \<longrightarrow> \<not> f64_lt 0 f64_one))"
    using pop_completed_correct [OF m(2) nan, of doubling 0] by blast
  have "rm_get 1 m = collected unit_ops ?kvs 1" using m(3) by (rule fun_cong)
  then have "rm_get 1 m \<noteq> None" by (simp add: collected_def)
  then have "r \<noteq> None" using c track one_pos by (cases r) auto
  then show ?thesis using m(1) p by blast
qed

end
