(* ===== verification/Lifecycle.thy ===== *)
theory Lifecycle
  imports Rust_Prelude
begin

text \<open>
  The state of a stream and the records waiting for its consumer
  (\<open>aggregator/multi_horizon/lifecycle.rs\<close>): a latched failure, and a queue with the memory it holds.
\<close>

section \<open>Stream state\<close>

datatype stream_state = Running | Finished | Failed string

definition lifecycle_new :: stream_state where
  "lifecycle_new = Running"

definition ensure_runnable :: "stream_state \<Rightarrow> rh3_error + bool" where
  "ensure_runnable st =
     (case st of Running \<Rightarrow> Ok True | Finished \<Rightarrow> Ok False | Failed reason \<Rightarrow> Err (StreamFailed reason))"

definition latch_failure :: "string \<Rightarrow> stream_state \<Rightarrow> rh3_error \<times> stream_state" where
  "latch_failure reason st =
     (case st of
        Failed existing \<Rightarrow> (StreamFailed existing, st)
      | _ \<Rightarrow> (StreamFailed reason, Failed reason))"

definition mark_finished :: "stream_state \<Rightarrow> stream_state" where
  "mark_finished st = (if st = Running then Finished else st)"

definition is_finished :: "stream_state \<Rightarrow> bool" where
  "is_finished st \<longleftrightarrow> (case st of Finished \<Rightarrow> True | _ \<Rightarrow> False)"

definition is_failed :: "stream_state \<Rightarrow> bool" where
  "is_failed st \<longleftrightarrow> (case st of Failed _ \<Rightarrow> True | _ \<Rightarrow> False)"

definition failure_reason :: "stream_state \<Rightarrow> string option" where
  "failure_reason st = (case st of Failed r \<Rightarrow> Some r | _ \<Rightarrow> None)"

datatype lifecycle_event = Fail string | Finish

definition lifecycle_step :: "lifecycle_event \<Rightarrow> stream_state \<Rightarrow> stream_state" where
  "lifecycle_step e st = (case e of Fail reason \<Rightarrow> snd (latch_failure reason st) | Finish \<Rightarrow> mark_finished st)"

text \<open>The first failure of a sequence of events is the one that is reported from then on.\<close>

fun first_failure :: "lifecycle_event list \<Rightarrow> string option" where
  "first_failure [] = None"
| "first_failure (Fail r # es) = Some r"
| "first_failure (Finish # es) = first_failure es"

lemma failed_stays: "fold lifecycle_step es (Failed r) = Failed r"
  by (induction es) (auto simp: lifecycle_step_def latch_failure_def mark_finished_def split: lifecycle_event.splits)

lemma lifecycle_first_failure:
  "st = Running \<or> st = Finished \<Longrightarrow> fold lifecycle_step es st =
    (case first_failure es of Some r \<Rightarrow> Failed r | None \<Rightarrow> if es = [] then st else Finished)"
proof (induction es arbitrary: st rule: first_failure.induct)
  case (2 r es)
  then have "lifecycle_step (Fail r) st = Failed r" by (auto simp: lifecycle_step_def latch_failure_def)
  then show ?case by (simp add: failed_stays)
next
  case (3 es)
  then have "lifecycle_step Finish st = Finished" by (auto simp: lifecycle_step_def mark_finished_def)
  then show ?case using "3.IH" [of Finished] by (auto split: option.splits)
qed auto

text \<open>
  A failure is latched: whatever failures and completions a stream goes through, reads answer the
  first failure there was, a stream that failed never counts as finished, and without a failure it
  is finished as soon as it was marked so.
\<close>

theorem failure_latched:
  "ensure_runnable (fold lifecycle_step es lifecycle_new) =
     (case first_failure es of Some r \<Rightarrow> Err (StreamFailed r) | None \<Rightarrow> Ok (es = [])) \<and>
   failure_reason (fold lifecycle_step es lifecycle_new) = first_failure es \<and>
   is_finished (fold lifecycle_step es lifecycle_new) = (first_failure es = None \<and> es \<noteq> [])"
  using lifecycle_first_failure [of lifecycle_new es]
  by (auto simp: lifecycle_new_def ensure_runnable_def failure_reason_def is_finished_def split: option.splits)

section \<open>Output buffer\<close>

record 'r output_buffer =
  ob_records :: "('r \<times> usize) list"
  ob_estimated_bytes :: usize

definition output_new :: "'r output_buffer" where
  "output_new = \<lparr> ob_records = [], ob_estimated_bytes = 0 \<rparr>"

definition push_sized :: "'r \<Rightarrow> usize \<Rightarrow> 'r output_buffer \<Rightarrow> 'r output_buffer" where
  "push_sized r bytes ob = ob\<lparr> ob_estimated_bytes := ob_estimated_bytes ob + bytes, ob_records := ob_records ob @ [(r, bytes)] \<rparr>"

definition output_len :: "'r output_buffer \<Rightarrow> usize" where
  "output_len ob = length (ob_records ob)"

text \<open>\<open>None\<close> is the panic of a subtraction below zero.\<close>

definition pop_front :: "'r output_buffer \<Rightarrow> ('r option \<times> 'r output_buffer) option" where
  "pop_front ob =
     (case ob_records ob of
        [] \<Rightarrow> Some (None, ob)
      | (r, bytes) # rest \<Rightarrow>
          map_option (\<lambda>b. (Some r, \<lparr> ob_records = rest, ob_estimated_bytes = b \<rparr>)) (sub_usize (ob_estimated_bytes ob) bytes))"

definition output_clear :: "'r output_buffer \<Rightarrow> 'r output_buffer" where
  "output_clear ob = \<lparr> ob_records = [], ob_estimated_bytes = 0 \<rparr>"

fun pop_batch :: "nat \<Rightarrow> 'r list \<Rightarrow> 'r output_buffer \<Rightarrow> ('r list \<times> 'r output_buffer) option" where
  "pop_batch 0 batch ob = Some (batch, ob)"
| "pop_batch (Suc n) batch ob =
     Option.bind (pop_front ob) (\<lambda>(r, ob). pop_batch n (case r of None \<Rightarrow> batch | Some r \<Rightarrow> batch @ [r]) ob)"

definition take_batch :: "usize \<Rightarrow> 'r output_buffer \<Rightarrow> ('r list \<times> 'r output_buffer) option" where
  "take_batch max_rows ob = pop_batch (min max_rows (length (ob_records ob))) [] ob"

text \<open>\<open>drain_into\<close> hands each record to its consumer with its index; the calls made are the batch.\<close>

definition drain_into :: "usize \<Rightarrow> 'r output_buffer \<Rightarrow> ((usize \<times> 'r) list \<times> usize \<times> 'r output_buffer) option" where
  "drain_into max_rows ob =
     map_option (\<lambda>(batch, ob'). (zip [0..<length batch] batch, min max_rows (length (ob_records ob)), ob')) (take_batch max_rows ob)"

definition output_ok :: "'r output_buffer \<Rightarrow> bool" where
  "output_ok ob \<longleftrightarrow> ob_estimated_bytes ob = sum_list (map snd (ob_records ob))"

lemma output_ok_push: "output_ok ob \<Longrightarrow> output_ok (push_sized r b ob)"
  by (simp add: output_ok_def push_sized_def)

lemma pop_batch_ok:
  "output_ok ob \<Longrightarrow> n \<le> length (ob_records ob) \<Longrightarrow>
    \<exists>ob'. pop_batch n batch ob = Some (batch @ map fst (take n (ob_records ob)), ob') \<and> output_ok ob' \<and>
      ob_records ob' = drop n (ob_records ob)"
proof (induction n arbitrary: batch ob)
  case (Suc n)
  obtain r b rest where recs: "ob_records ob = (r, b) # rest" using Suc.prems(2) by (cases "ob_records ob") auto
  define ob1 where "ob1 = \<lparr> ob_records = rest, ob_estimated_bytes = ob_estimated_bytes ob - b \<rparr>"
  have "pop_front ob = Some (Some r, ob1)"
    using Suc.prems(1) by (simp add: pop_front_def recs sub_usize_def ob1_def output_ok_def)
  moreover have "output_ok ob1" using Suc.prems(1) by (simp add: output_ok_def ob1_def recs)
  ultimately show ?case using Suc.IH [of ob1 "batch @ [r]"] Suc.prems(2) by (simp add: recs ob1_def)
qed simp

lemma take_batch_ok:
  assumes "output_ok ob"
  shows "\<exists>ob'. take_batch n ob = Some (map fst (take n (ob_records ob)), ob') \<and>
    ob_records ob' = drop n (ob_records ob) \<and> output_ok ob'"
proof -
  obtain ob' where "take_batch n ob = Some (map fst (take (min n (length (ob_records ob))) (ob_records ob)), ob')"
      "output_ok ob'" "ob_records ob' = drop (min n (length (ob_records ob))) (ob_records ob)"
    using pop_batch_ok [OF assms, of "min n (length (ob_records ob))" "[]"] by (auto simp: take_batch_def)
  moreover have "take (min n (length (ob_records ob))) (ob_records ob) = take n (ob_records ob)"
    by (cases "n \<le> length (ob_records ob)") (simp_all add: min_def)
  moreover have "drop (min n (length (ob_records ob))) (ob_records ob) = drop n (ob_records ob)"
    by (cases "n \<le> length (ob_records ob)") (simp_all add: min_def)
  ultimately show ?thesis by auto
qed

text \<open>
  Records leave the buffer in the order they entered it, never more than asked for and all that
  are there when enough are asked for, and the memory accounted never goes below zero and stays the
  sum over the records that remain.
\<close>

theorem take_batch_fifo:
  assumes "output_ok ob"
  shows "\<exists>ob'. take_batch n ob = Some (map fst (take n (ob_records ob)), ob') \<and>
    ob_records ob' = drop n (ob_records ob) \<and> output_ok ob'"
  using assms by (rule take_batch_ok)

theorem take_batch_fifo_witness:
  "\<exists>ob'. take_batch 1 (push_sized True 8 (push_sized False 3 output_new)) = Some ([False], ob') \<and> ob_records ob' = [(True, 8)]"
proof -
  have "output_ok (push_sized True 8 (push_sized False 3 output_new))"
    by (intro output_ok_push) (simp add: output_ok_def output_new_def)
  from take_batch_fifo [OF this, of 1] obtain ob' where
    "take_batch 1 (push_sized True 8 (push_sized False 3 output_new)) =
      Some (map fst (take 1 (ob_records (push_sized True 8 (push_sized False 3 output_new)))), ob')"
    "ob_records ob' = drop 1 (ob_records (push_sized True 8 (push_sized False 3 output_new)))" by blast
  moreover have "ob_records (push_sized True 8 (push_sized False 3 output_new)) = [(False, 3), (True, 8 :: usize)]"
    by (simp add: push_sized_def output_new_def)
  ultimately show ?thesis by (intro exI [of _ ob']) simp
qed

end
