(* ===== verification/Compaction.thy ===== *)
theory Compaction
  imports Sharded_Map Lifecycle
begin

text \<open>
  Compaction of complete sets of children to their parent cell
  (\<open>aggregator/multi_horizon/compaction.rs\<close>): groups of final cells waiting for their siblings, two
  kinds of lazily invalidated heaps over the groups, and the byte limit on them.

  The cell grid (the \<open>h3o\<close> crate and the southern bounds computed from its boundaries), the kernel that
  filters, merges and records, and the capacities the standard containers choose are parameters.
\<close>

section \<open>Parameters and state\<close>

definition RESOLUTIONS :: usize where "RESOLUTIONS = 16"

text \<open>
  The grid: the parent of a cell one resolution up (none for an invalid index or a cell of resolution
  0), the children of a parent, and the southern bound of a cell.
\<close>

record h3_grid =
  hg_parent :: "u64 \<Rightarrow> u64 option"
  hg_children :: "u64 \<Rightarrow> u64 list"
  hg_resolution :: "u64 \<Rightarrow> u8"
  hg_is_pentagon :: "u64 \<Rightarrow> bool"
  hg_south :: "u64 \<Rightarrow> f64"

record ('a, 'r) stream_kernel =
  kn_passes_filter :: "'a \<Rightarrow> bool"
  kn_new_parent :: 'a
  kn_merge :: "'a \<Rightarrow> 'a \<Rightarrow> 'a"
  kn_heap_bytes :: "'a \<Rightarrow> usize"
  kn_make_record :: "u8 \<Rightarrow> u64 \<Rightarrow> 'a \<Rightarrow> 'r"
  kn_record_size :: usize
  kn_child_size :: usize
  kn_entry_size :: usize

text \<open>Capacities after shrinking a table or a heap, of a collected heap, and of the child vector.\<close>

record compact_alloc = allocator +
  al_shrink_table :: "nat \<Rightarrow> nat \<Rightarrow> nat"
  al_shrink_heap :: "nat \<Rightarrow> nat \<Rightarrow> nat"
  al_collect :: "nat \<Rightarrow> nat"
  al_children :: "nat \<Rightarrow> nat"

type_synonym heap_entry = "f64 \<times> u64"

record lat_heap =
  lh_entries :: "heap_entry list"
  lh_cap :: nat

record 'a group =
  gr_parent_acc :: 'a
  gr_children :: "(u64 \<times> 'a) list"
  gr_child_res :: u8
  gr_siblings_south :: f64
  gr_emit_south :: f64
  gr_bytes :: usize

record 'a compactor =
  cp_enabled :: bool
  cp_pending :: "(u64 \<times> 'a group) list"
  cp_table_cap :: nat
  cp_completion :: "lat_heap list"
  cp_emit :: lat_heap
  cp_group_bytes :: usize
  cp_byte_limit :: usize
  cp_forced_flushes :: nat
  cp_peak_bytes :: usize

definition buffer_record :: "('a, 'r) stream_kernel \<Rightarrow> u8 \<Rightarrow> u64 \<Rightarrow> 'a \<Rightarrow> 'r output_buffer \<Rightarrow> 'r output_buffer" where
  "buffer_record k res key acc out = push_sized (kn_make_record k res key acc) (kn_record_size k + kn_heap_bytes k acc) out"

definition owned_bytes :: "('a, 'r) stream_kernel \<Rightarrow> compact_alloc \<Rightarrow> 'a group \<Rightarrow> usize" where
  "owned_bytes k al g =
     al_children al (length (gr_children g)) * kn_child_size k + kn_heap_bytes k (gr_parent_acc g) +
     sum_list (map (\<lambda>c. kn_heap_bytes k (snd c)) (gr_children g))"

section \<open>Heaps\<close>

text \<open>The order of entries, by latitude in the total order of floats and then by parent; the greatest is on top.\<close>

definition entry_less :: "heap_entry \<Rightarrow> heap_entry \<Rightarrow> bool" where
  "entry_less x y \<longleftrightarrow>
     total_key (fst x) < total_key (fst y) \<or> total_key (fst x) = total_key (fst y) \<and> snd x < snd y"

fun entry_top :: "heap_entry list \<Rightarrow> heap_entry option" where
  "entry_top [] = None"
| "entry_top (e # es) = (case entry_top es of None \<Rightarrow> Some e | Some t \<Rightarrow> if entry_less e t then Some t else Some e)"

definition heap_new :: lat_heap where
  "heap_new = \<lparr> lh_entries = [], lh_cap = 0 \<rparr>"

definition heap_peek :: "lat_heap \<Rightarrow> heap_entry option" where
  "heap_peek h = entry_top (lh_entries h)"

definition heap_pop :: "lat_heap \<Rightarrow> lat_heap" where
  "heap_pop h = (case heap_peek h of None \<Rightarrow> h | Some e \<Rightarrow> h\<lparr> lh_entries := remove1 e (lh_entries h) \<rparr>)"

definition heap_push :: "compact_alloc \<Rightarrow> heap_entry \<Rightarrow> lat_heap \<Rightarrow> lat_heap" where
  "heap_push al e h = \<lparr> lh_entries = lh_entries h @ [e], lh_cap = al_push al (lh_cap h) (length (lh_entries h) + 1) \<rparr>"

definition heap_shrink :: "compact_alloc \<Rightarrow> lat_heap \<Rightarrow> lat_heap" where
  "heap_shrink al h = h\<lparr> lh_cap := al_shrink_heap al (lh_cap h) (length (lh_entries h)) \<rparr>"

lemma entry_top_in: "entry_top es = Some e \<Longrightarrow> e \<in> set es"
  by (induction es arbitrary: e) (auto split: option.splits if_splits)

lemma entry_top_None [simp]: "entry_top es = None \<longleftrightarrow> es = []"
  by (cases es) (auto split: option.splits)

lemma total_key_inj: "total_key x = total_key y \<longleftrightarrow> x = y"
proof
  assume eq: "total_key x = total_key y"
  then have "f64_sign x = f64_sign y" "f64_mag x = f64_mag y" by (auto simp: total_key_def split: if_splits)
  then show "x = y" using word_of_mag [of x] word_of_mag [of y] by simp
qed simp

lemma entry_less_trans: "entry_less x y \<Longrightarrow> entry_less y z \<Longrightarrow> entry_less x z"
  by (auto simp: entry_less_def)

lemma entry_total: "entry_less x y \<or> x = y \<or> entry_less y x"
  using total_key_inj [of "fst x" "fst y"] by (cases x; cases y) (auto simp: entry_less_def)

lemma entry_less_irrefl: "\<not> entry_less x x"
  by (simp add: entry_less_def)

lemma entry_top_max: "entry_top es = Some t \<Longrightarrow> e \<in> set es \<Longrightarrow> \<not> entry_less t e"
proof (induction es arbitrary: t e)
  case (Cons a es)
  show ?case
  proof (cases "entry_top es")
    case None
    then have "es = []" by simp
    then show ?thesis using Cons.prems by (simp add: entry_less_irrefl)
  next
    case (Some u)
    then have u: "x \<in> set es \<Longrightarrow> \<not> entry_less u x" for x using Cons.IH by blast
    show ?thesis
    proof (cases "entry_less a u")
      case True
      then have "t = u" using Cons.prems(1) Some by simp
      then show ?thesis using Cons.prems(2) u True entry_less_trans entry_less_irrefl by (metis set_ConsD)
    next
      case False
      then have "t = a" using Cons.prems(1) Some by simp
      then show ?thesis using Cons.prems(2) u False entry_less_trans entry_less_irrefl entry_total by (metis set_ConsD)
    qed
  qed
qed simp

lemma heap_peek_in: "heap_peek h = Some e \<Longrightarrow> e \<in> set (lh_entries h)"
  by (simp add: heap_peek_def entry_top_in)

lemma heap_pop_entries: "heap_peek h = Some e \<Longrightarrow> lh_entries (heap_pop h) = remove1 e (lh_entries h)"
  by (simp add: heap_pop_def)

lemma heap_pop_cap [simp]: "lh_cap (heap_pop h) = lh_cap h"
  by (simp add: heap_pop_def split: option.split)

lemma heap_pop_shrinks: "heap_peek h = Some e \<Longrightarrow> length (lh_entries (heap_pop h)) < length (lh_entries h)"
  using heap_peek_in [of h e] length_pos_if_in_set [of e "lh_entries h"] by (simp add: heap_pop_entries length_remove1)

section \<open>Operations\<close>

definition with_byte_limit :: "bool \<Rightarrow> usize \<Rightarrow> 'a compactor" where
  "with_byte_limit enabled limit =
     \<lparr> cp_enabled = enabled, cp_pending = [], cp_table_cap = 0, cp_completion = replicate RESOLUTIONS heap_new,
       cp_emit = heap_new, cp_group_bytes = 0, cp_byte_limit = limit, cp_forced_flushes = 0, cp_peak_bytes = 0 \<rparr>"

definition compactor_new :: "bool \<Rightarrow> 'a compactor" where
  "compactor_new enabled = with_byte_limit enabled usize_max"

definition compactor_bytes :: "('a, 'r) stream_kernel \<Rightarrow> 'a compactor \<Rightarrow> usize" where
  "compactor_bytes k c =
     table_bytes (kn_entry_size k) (cp_table_cap c) + cp_group_bytes c +
     (lh_cap (cp_emit c) + sum_list (map lh_cap (cp_completion c))) * 16"

definition compactor_clear :: "'a compactor \<Rightarrow> 'a compactor" where
  "compactor_clear c =
     c\<lparr> cp_pending := [], cp_table_cap := 0, cp_completion := map (\<lambda>_. heap_new) (cp_completion c),
        cp_emit := heap_new, cp_group_bytes := 0 \<rparr>"

text \<open>The heap of a child resolution.\<close>

definition res_index :: "u8 \<Rightarrow> nat" where
  "res_index res = unat res mod RESOLUTIONS"

definition set_completion :: "nat \<Rightarrow> lat_heap \<Rightarrow> 'a compactor \<Rightarrow> 'a compactor" where
  "set_completion res h c = c\<lparr> cp_completion := (cp_completion c)[res := h] \<rparr>"

text \<open>\<open>None\<close> is the panic of a subtraction below zero.\<close>

definition remove_group :: "compact_alloc \<Rightarrow> u64 \<Rightarrow> 'a compactor \<Rightarrow> ('a group option \<times> 'a compactor) option" where
  "remove_group al parent c =
     (case map_of (cp_pending c) parent of
        None \<Rightarrow> Some (None, c)
      | Some g \<Rightarrow>
          map_option (\<lambda>b. (Some g, c\<lparr> cp_pending := AList.delete parent (cp_pending c),
              cp_table_cap := al_remove al (cp_table_cap c) (length (cp_pending c) - 1), cp_group_bytes := b \<rparr>))
            (sub_usize (cp_group_bytes c) (gr_bytes g)))"

definition decompose :: "('a, 'r) stream_kernel \<Rightarrow> 'a group \<Rightarrow> 'r output_buffer \<Rightarrow> 'r output_buffer" where
  "decompose k g out = fold (\<lambda>(cell, acc). buffer_record k (gr_child_res g) cell acc) (gr_children g) out"

definition flush_parent ::
  "('a, 'r) stream_kernel \<Rightarrow> compact_alloc \<Rightarrow> u64 \<Rightarrow> 'a compactor \<Rightarrow> 'r output_buffer \<Rightarrow> ('a compactor \<times> 'r output_buffer) option" where
  "flush_parent k al parent c out =
     map_option (\<lambda>(g, c). (c, case g of None \<Rightarrow> out | Some g \<Rightarrow> decompose k g out)) (remove_group al parent c)"

definition is_live_completion :: "'a compactor \<Rightarrow> nat \<Rightarrow> heap_entry \<Rightarrow> bool" where
  "is_live_completion c res e =
     (case map_of (cp_pending c) (snd e) of
        None \<Rightarrow> False
      | Some g \<Rightarrow> res_index (gr_child_res g) = res \<and> f64_eq (gr_siblings_south g) (fst e))"

definition completion_entry :: "u64 \<times> 'a group \<Rightarrow> heap_entry" where
  "completion_entry p = (gr_siblings_south (snd p), fst p)"

definition emit_entry :: "u64 \<times> 'a group \<Rightarrow> heap_entry" where
  "emit_entry p = (gr_emit_south (snd p), fst p)"

definition rebuild_completion :: "compact_alloc \<Rightarrow> (u64 \<times> 'a group) list \<Rightarrow> lat_heap list \<Rightarrow> lat_heap list" where
  "rebuild_completion al ps hs =
     fold (\<lambda>p hs. let res = res_index (gr_child_res (snd p)) in hs[res := heap_push al (completion_entry p) (hs ! res)]) ps
       (map (\<lambda>h. h\<lparr> lh_entries := [] \<rparr>) hs)"

definition compact_indexes :: "compact_alloc \<Rightarrow> 'a compactor \<Rightarrow> 'a compactor" where
  "compact_indexes al c =
     (let live = length (cp_pending c);
          completion = sum_list (map (\<lambda>h. length (lh_entries h)) (cp_completion c));
          c = (if 2 * live + 64 < completion then c\<lparr> cp_completion := rebuild_completion al (cp_pending c) (cp_completion c) \<rparr> else c)
      in if 4 * live + 64 < length (lh_entries (cp_emit c))
         then c\<lparr> cp_emit := \<lparr> lh_entries = map emit_entry (cp_pending c), lh_cap = al_collect al live \<rparr> \<rparr>
         else c)"

definition reclaim :: "compact_alloc \<Rightarrow> 'a compactor \<Rightarrow> 'a compactor" where
  "reclaim al c =
     (let c = compact_indexes al (c\<lparr> cp_table_cap := al_shrink_table al (cp_table_cap c) (length (cp_pending c)) \<rparr>)
      in c\<lparr> cp_emit := heap_shrink al (cp_emit c), cp_completion := map (heap_shrink al) (cp_completion c) \<rparr>)"

text \<open>Popping the stale entries on top of a heap.\<close>

function drop_stale :: "(heap_entry \<Rightarrow> bool) \<Rightarrow> lat_heap \<Rightarrow> lat_heap" where
  "drop_stale live h = (case heap_peek h of None \<Rightarrow> h | Some e \<Rightarrow> if live e then h else drop_stale live (heap_pop h))"
  by pat_completeness auto
termination
  by (relation "measure (\<lambda>(live, h). length (lh_entries h))") (simp_all add: heap_pop_shrinks)

declare drop_stale.simps [simp del]

fun next_from :: "nat list \<Rightarrow> (nat \<times> heap_entry) option \<Rightarrow> 'a compactor \<Rightarrow> (nat \<times> heap_entry) option \<times> 'a compactor" where
  "next_from [] best c = (best, c)"
| "next_from (res # rs) best c =
     (let h = drop_stale (is_live_completion c res) (cp_completion c ! res);
          c = set_completion res h c
      in case heap_peek h of
           None \<Rightarrow> next_from rs best c
         | Some t \<Rightarrow>
             next_from rs (case best of None \<Rightarrow> Some (res, t) | Some b \<Rightarrow> if entry_less (snd b) t then Some (res, t) else best) c)"

definition next_to_complete :: "'a compactor \<Rightarrow> (nat \<times> heap_entry) option \<times> 'a compactor" where
  "next_to_complete c = next_from [0..<RESOLUTIONS] None c"

lemma drop_stale_peek: "heap_peek (drop_stale live h) = Some e \<Longrightarrow> live e"
proof (induction live h rule: drop_stale.induct)
  case (1 live h)
  then show ?case using drop_stale.simps [of live h] by (auto split: option.splits if_splits)
qed

lemma drop_stale_cap [simp]: "lh_cap (drop_stale live h) = lh_cap h"
proof (induction live h rule: drop_stale.induct)
  case (1 live h)
  then show ?case by (subst drop_stale.simps) (simp split: option.split)
qed

lemma drop_stale_keeps: "e \<in> set (lh_entries h) \<Longrightarrow> live e \<Longrightarrow> e \<in> set (lh_entries (drop_stale live h))"
proof (induction live h rule: drop_stale.induct)
  case (1 live h)
  show ?case
  proof (cases "heap_peek h")
    case None
    then show ?thesis using 1 by (subst drop_stale.simps) simp
  next
    case (Some t)
    show ?thesis
    proof (cases "live t")
      case True
      then show ?thesis using Some 1 by (subst drop_stale.simps) simp
    next
      case False
      then have "e \<noteq> t" using 1 by auto
      then have "e \<in> set (lh_entries (heap_pop h))" using 1 Some by (simp add: heap_pop_entries in_set_remove1)
      then show ?thesis using 1 Some False by (subst drop_stale.simps) simp
    qed
  qed
qed

lemma drop_stale_set: "set (lh_entries (drop_stale live h)) \<subseteq> set (lh_entries h)"
proof (induction live h rule: drop_stale.induct)
  case (1 live h)
  show ?case
  proof (cases "heap_peek h")
    case (Some t)
    have "set (lh_entries (heap_pop h)) \<subseteq> set (lh_entries h)"
      using set_remove1_subset by (simp add: heap_pop_entries [OF Some])
    then show ?thesis using 1 Some drop_stale.simps [of live h] by auto
  qed (simp add: drop_stale.simps)
qed

lemma set_completion_sel [simp]:
  "cp_pending (set_completion res h c) = cp_pending c" "cp_emit (set_completion res h c) = cp_emit c"
  "cp_group_bytes (set_completion res h c) = cp_group_bytes c" "cp_enabled (set_completion res h c) = cp_enabled c"
  "cp_byte_limit (set_completion res h c) = cp_byte_limit c"
  "cp_completion (set_completion res h c) = (cp_completion c)[res := h]"
  "is_live_completion (set_completion res h c) = is_live_completion c"
  by (simp_all add: set_completion_def is_live_completion_def fun_eq_iff)

lemma next_from_pending:
  "next_from rs best c = (r, c') \<Longrightarrow> cp_pending c' = cp_pending c \<and> cp_emit c' = cp_emit c \<and> cp_group_bytes c' = cp_group_bytes c \<and>
    cp_enabled c' = cp_enabled c \<and> cp_byte_limit c' = cp_byte_limit c \<and> cp_table_cap c' = cp_table_cap c"
proof (induction rs arbitrary: best c)
  case (Cons res rs)
  define c1 where "c1 = set_completion res (drop_stale (is_live_completion c res) (cp_completion c ! res)) c"
  obtain best' where "next_from rs best' c1 = (r, c')"
    using Cons.prems by (auto simp: Let_def c1_def split: option.splits)
  from Cons.IH [OF this] show ?case by (simp add: c1_def set_completion_def)
qed simp

lemma live_pending: "cp_pending c' = cp_pending c \<Longrightarrow> is_live_completion c' = is_live_completion c"
  by (simp add: is_live_completion_def fun_eq_iff)

lemma next_from_live:
  "next_from rs best c = (Some (res, e), c') \<Longrightarrow> (\<And>res e. best = Some (res, e) \<Longrightarrow> is_live_completion c res e) \<Longrightarrow>
    is_live_completion c res e"
proof (induction rs best c rule: next_from.induct)
  case (2 res' rs best c)
  define h where "h = drop_stale (is_live_completion c res') (cp_completion c ! res')"
  show ?case
  proof (cases "heap_peek h")
    case None
    then show ?thesis using 2(1) [OF h_def refl None] 2(3,4) by (simp add: Let_def h_def [symmetric])
  next
    case (Some t)
    then have "is_live_completion c res' t" unfolding h_def by (rule drop_stale_peek)
    then show ?thesis using 2(2) [OF h_def refl Some] 2(3,4) Some
      by (auto simp: Let_def h_def [symmetric] split: option.splits if_splits)
  qed
qed auto

lemma length_AList_delete: "map_of xs k = Some v \<Longrightarrow> length (AList.delete k xs) < length xs"
proof (induction xs)
  case (Cons x xs)
  then show ?case using length_delete_le [of k xs] by (cases x) (auto simp: le_imp_less_Suc)
qed simp

lemma flush_parent_shrinks:
  assumes "is_live_completion c res e" "flush_parent k al (snd e) c out = Some (c', out')"
  shows "length (cp_pending c') < length (cp_pending c)"
  using assms length_AList_delete [of "cp_pending c" "snd e"]
  by (auto simp: is_live_completion_def flush_parent_def remove_group_def split: option.splits)

section \<open>The byte limit\<close>

text \<open>The loop of \<open>enforce_limit\<close>: the groups nearest completion are decomposed until the estimate fits.\<close>

function enforce_loop ::
  "('a, 'r) stream_kernel \<Rightarrow> compact_alloc \<Rightarrow> 'a compactor \<Rightarrow> 'r output_buffer \<Rightarrow> ('a compactor \<times> 'r output_buffer) option" where
  "enforce_loop k al c out =
     (if compactor_bytes k c \<le> cp_byte_limit c \<or> cp_pending c = [] then Some (c, out)
      else case next_to_complete c of
             (None, c1) \<Rightarrow> Some (c1, out)
           | (Some (res, e), c1) \<Rightarrow>
               (case flush_parent k al (snd e) (set_completion res (heap_pop (cp_completion c1 ! res)) c1) out of
                  None \<Rightarrow> None
                | Some (c2, out2) \<Rightarrow> enforce_loop k al (c2\<lparr> cp_forced_flushes := cp_forced_flushes c2 + 1 \<rparr>) out2))"
  by pat_completeness auto
termination
proof (relation "measure (\<lambda>(k, al, c, out). length (cp_pending c))", goal_cases)
  case (2 k al c out r c1 p res e q c2 out2)
  then have next_eq: "next_from [0..<RESOLUTIONS] None c = (Some (res, e), c1)" by (simp add: next_to_complete_def)
  have "is_live_completion c1 res e"
    using next_from_live [OF next_eq] next_from_pending [OF next_eq] live_pending [of c1 c] by simp
  then have "is_live_completion (set_completion res (heap_pop (cp_completion c1 ! res)) c1) res e" by simp
  from flush_parent_shrinks [OF this, of k al out c2 out2] 2 next_from_pending [OF next_eq] show ?case by simp
qed simp

declare enforce_loop.simps [simp del]

definition enforce_limit ::
  "('a, 'r) stream_kernel \<Rightarrow> compact_alloc \<Rightarrow> 'a compactor \<Rightarrow> 'r output_buffer \<Rightarrow> ('a compactor \<times> 'r output_buffer) option" where
  "enforce_limit k al c out =
     (let c = c\<lparr> cp_peak_bytes := max (cp_peak_bytes c) (compactor_bytes k c) \<rparr>
      in if compactor_bytes k c \<le> cp_byte_limit c then Some (c, out)
         else map_option (\<lambda>(c, out). (if cp_byte_limit c < compactor_bytes k c then reclaim al c else c, out))
                (enforce_loop k al (reclaim al c) out))"

section \<open>Pushing and flushing\<close>

definition siblings_south :: "h3_grid \<Rightarrow> u64 \<Rightarrow> f64" where
  "siblings_south g parent = fold (\<lambda>child lat. f64_min lat (hg_south g child)) (hg_children g parent) f64_inf"

text \<open>The pending group of a parent, opened when there is none.\<close>

definition open_group ::
  "('a, 'r) stream_kernel \<Rightarrow> h3_grid \<Rightarrow> compact_alloc \<Rightarrow> u8 \<Rightarrow> u64 \<Rightarrow> 'a compactor \<Rightarrow> 'a group \<times> 'a compactor" where
  "open_group k g al res parent c =
     (case map_of (cp_pending c) parent of
        Some gr \<Rightarrow> (gr, c)
      | None \<Rightarrow>
          let south = siblings_south g parent;
              i = res_index res;
              gr = \<lparr> gr_parent_acc = kn_new_parent k, gr_children = [], gr_child_res = res, gr_siblings_south = south,
                     gr_emit_south = hg_south g parent, gr_bytes = 0 \<rparr>
          in (gr, (set_completion i (heap_push al (south, parent) (cp_completion c ! i)) c)
                    \<lparr> cp_pending := cp_pending c @ [(parent, gr)],
                      cp_table_cap := al_insert al (cp_table_cap c) (length (cp_pending c) + 1) \<rparr>))"

definition sibling_count :: "h3_grid \<Rightarrow> u64 \<Rightarrow> nat" where
  "sibling_count g parent = (if hg_is_pentagon g parent then 6 else 7)"

definition add_child :: "('a, 'r) stream_kernel \<Rightarrow> h3_grid \<Rightarrow> u64 \<Rightarrow> 'a \<Rightarrow> 'a group \<Rightarrow> 'a group" where
  "add_child k g cell acc gr =
     gr\<lparr> gr_parent_acc := kn_merge k (gr_parent_acc gr) acc,
         gr_emit_south := (if f64_lt (gr_emit_south gr) (hg_south g cell) then hg_south g cell else gr_emit_south gr),
         gr_children := gr_children gr @ [(cell, acc)] \<rparr>"

definition push_cell ::
  "('a, 'r) stream_kernel \<Rightarrow> h3_grid \<Rightarrow> compact_alloc \<Rightarrow> u8 \<Rightarrow> u64 \<Rightarrow> 'a \<Rightarrow> 'a compactor \<Rightarrow> 'r output_buffer \<Rightarrow>
    ('a compactor \<times> 'r output_buffer) option" where
  "push_cell k g al res cell acc c out =
     (if \<not> kn_passes_filter k acc then Some (c, out)
      else case (if cp_enabled c then hg_parent g cell else None) of
             None \<Rightarrow> Some (c, buffer_record k res cell acc out)
           | Some parent \<Rightarrow>
               (case open_group k g al res parent c of
                  (gr, c) \<Rightarrow>
                    let gr = add_child k g cell acc gr;
                        c = c\<lparr> cp_pending := AList.update parent gr (cp_pending c),
                               cp_emit := heap_push al (gr_emit_south gr, parent) (cp_emit c) \<rparr>
                    in Option.bind
                         (if length (gr_children gr) = sibling_count g parent
                          then Option.bind (remove_group al parent c) (\<lambda>(gr, c).
                                 map_option (\<lambda>gr. (c, buffer_record k (hg_resolution g parent) parent (gr_parent_acc gr) out)) gr)
                          else let bytes = owned_bytes k al gr
                               in map_option (\<lambda>b. (c\<lparr> cp_group_bytes := b + bytes,
                                      cp_pending := AList.update parent (gr\<lparr> gr_bytes := bytes \<rparr>) (cp_pending c) \<rparr>, out))
                                    (sub_usize (cp_group_bytes c) (gr_bytes gr)))
                         (\<lambda>(c, out). enforce_limit k al (compact_indexes al c) out)))"

function flush_completed_res ::
  "('a, 'r) stream_kernel \<Rightarrow> compact_alloc \<Rightarrow> f64 \<Rightarrow> usize \<Rightarrow> nat \<Rightarrow> 'a compactor \<Rightarrow> 'r output_buffer \<Rightarrow>
    ('a compactor \<times> 'r output_buffer) option" where
  "flush_completed_res k al horizon max_bytes res c out =
     (if length (cp_completion c) \<le> res then None
      else case heap_peek (cp_completion c ! res) of
             None \<Rightarrow> Some (c, out)
           | Some t \<Rightarrow>
               if f64_le (fst t) horizon \<or> max_bytes \<le> ob_estimated_bytes out then Some (c, out)
               else let c1 = set_completion res (heap_pop (cp_completion c ! res)) c
                    in if is_live_completion c1 res t
                       then (case flush_parent k al (snd t) c1 out of
                               None \<Rightarrow> None
                             | Some (c2, out2) \<Rightarrow> flush_completed_res k al horizon max_bytes res c2 out2)
                       else flush_completed_res k al horizon max_bytes res c1 out)"
  by pat_completeness auto

lemma flush_parent_completion:
  "flush_parent k al p c out = Some (c', out') \<Longrightarrow> cp_completion c' = cp_completion c"
  by (auto simp: flush_parent_def remove_group_def split: option.splits)

termination flush_completed_res
  by (relation "measure (\<lambda>(k, al, h, m, res, c, out). length (lh_entries (cp_completion c ! res)))")
    (auto simp: heap_pop_shrinks not_le dest!: flush_parent_completion)

declare flush_completed_res.simps [simp del]

fun flush_completed_all ::
  "('a, 'r) stream_kernel \<Rightarrow> compact_alloc \<Rightarrow> f64 \<Rightarrow> (u8 \<Rightarrow> bool) \<Rightarrow> usize \<Rightarrow> nat list \<Rightarrow> 'a compactor \<Rightarrow> 'r output_buffer \<Rightarrow>
    ('a compactor \<times> 'r output_buffer) option" where
  "flush_completed_all k al horizon streams max_bytes [] c out = Some (c, out)"
| "flush_completed_all k al horizon streams max_bytes (res # rs) c out =
     (if lh_entries (cp_completion c ! res) = [] \<or> \<not> streams (of_nat res)
      then flush_completed_all k al horizon streams max_bytes rs c out
      else Option.bind (flush_completed_res k al horizon max_bytes res c out) (\<lambda>(c, out).
             flush_completed_all k al horizon streams max_bytes rs c out))"

definition flush_completed ::
  "('a, 'r) stream_kernel \<Rightarrow> compact_alloc \<Rightarrow> f64 \<Rightarrow> (u8 \<Rightarrow> bool) \<Rightarrow> usize \<Rightarrow> 'a compactor \<Rightarrow> 'r output_buffer \<Rightarrow>
    ('a compactor \<times> 'r output_buffer) option" where
  "flush_completed k al horizon streams max_bytes c out =
     flush_completed_all k al horizon streams max_bytes [0..<RESOLUTIONS] c out"

text \<open>The entries of a taken heap come in storage order, which the standard library leaves open; here as pushed.\<close>

fun flush_entries ::
  "('a, 'r) stream_kernel \<Rightarrow> compact_alloc \<Rightarrow> nat \<Rightarrow> heap_entry list \<Rightarrow> 'a compactor \<Rightarrow> 'r output_buffer \<Rightarrow>
    ('a compactor \<times> 'r output_buffer) option" where
  "flush_entries k al res [] c out = Some (c, out)"
| "flush_entries k al res (e # es) c out =
     (if is_live_completion c res e
      then Option.bind (flush_parent k al (snd e) c out) (\<lambda>(c, out). flush_entries k al res es c out)
      else flush_entries k al res es c out)"

definition flush_resolution ::
  "('a, 'r) stream_kernel \<Rightarrow> compact_alloc \<Rightarrow> u8 \<Rightarrow> 'a compactor \<Rightarrow> 'r output_buffer \<Rightarrow> ('a compactor \<times> 'r output_buffer) option" where
  "flush_resolution k al child_res c out =
     (let res = res_index child_res
      in flush_entries k al res (lh_entries (cp_completion c ! res)) (set_completion res heap_new c) out)"

definition flush_all :: "('a, 'r) stream_kernel \<Rightarrow> 'a compactor \<Rightarrow> 'r output_buffer \<Rightarrow> 'a compactor \<times> 'r output_buffer" where
  "flush_all k c out = (compactor_clear c, fold (\<lambda>p. decompose k (snd p)) (cp_pending c) out)"

definition emit_live :: "'a compactor \<Rightarrow> heap_entry \<Rightarrow> bool" where
  "emit_live c e = (case map_of (cp_pending c) (snd e) of None \<Rightarrow> False | Some g \<Rightarrow> f64_eq (gr_emit_south g) (fst e))"

definition pending_emit_south :: "'a compactor \<Rightarrow> f64 \<times> 'a compactor" where
  "pending_emit_south c =
     (let h = drop_stale (emit_live c) (cp_emit c)
      in (case heap_peek h of Some t \<Rightarrow> fst t | None \<Rightarrow> f64_neg_inf, c\<lparr> cp_emit := h \<rparr>))"

section \<open>The invariant\<close>

definition group_cells :: "'a group \<Rightarrow> (u8 \<times> u64 \<times> 'a) list" where
  "group_cells gr = map (\<lambda>(cell, acc). (gr_child_res gr, cell, acc)) (gr_children gr)"

definition pending_cells :: "'a compactor \<Rightarrow> (u8 \<times> u64 \<times> 'a) multiset" where
  "pending_cells c = sum_list (map (\<lambda>p. mset (group_cells (snd p))) (cp_pending c))"

text \<open>A group of \<open>parent\<close>: the merge of its children so far, and bounds on what it may still emit.\<close>

definition group_of :: "('a, 'r) stream_kernel \<Rightarrow> h3_grid \<Rightarrow> u64 \<Rightarrow> 'a group \<Rightarrow> bool" where
  "group_of k g parent gr \<longleftrightarrow>
     gr_siblings_south gr = siblings_south g parent \<and> gr_child_res gr = hg_resolution g parent + 1 \<and>
     gr_parent_acc gr = foldl (kn_merge k) (kn_new_parent k) (map snd (gr_children gr)) \<and>
     (\<forall>cell\<in>fst ` set (gr_children gr). hg_parent g cell = Some parent) \<and>
     ((\<forall>cell. \<not> f64_is_nan (hg_south g cell)) \<longrightarrow>
        (\<forall>cell\<in>insert parent (fst ` set (gr_children gr)). f64_le (hg_south g cell) (gr_emit_south gr)))"

text \<open>
  The invariant, but for the completion entries in \<open>X\<close>: the accounted bytes, and every pending group
  present in the heap of its resolution and in the emission heap.
\<close>

definition cp_index :: "u64 \<times> 'a group \<Rightarrow> nat \<times> heap_entry" where
  "cp_index p = (res_index (gr_child_res (snd p)), completion_entry p)"

definition pend_ok ::
  "('a, 'r) stream_kernel \<Rightarrow> h3_grid \<Rightarrow> (nat \<times> heap_entry) set \<Rightarrow> 'a compactor \<Rightarrow> u64 \<times> 'a group \<Rightarrow> bool" where
  "pend_ok k g X c p \<longleftrightarrow>
     group_of k g (fst p) (snd p) \<and> length (gr_children (snd p)) < sibling_count g (fst p) \<and>
     (cp_index p \<in> X \<or> completion_entry p \<in> set (lh_entries (cp_completion c ! res_index (gr_child_res (snd p))))) \<and>
     emit_entry p \<in> set (lh_entries (cp_emit c))"

definition cp_shape :: "'a compactor \<Rightarrow> bool" where
  "cp_shape c \<longleftrightarrow>
     distinct (map fst (cp_pending c)) \<and> length (cp_completion c) = RESOLUTIONS \<and>
     cp_group_bytes c = sum_list (map (\<lambda>p. gr_bytes (snd p)) (cp_pending c))"

definition cp_ok :: "('a, 'r) stream_kernel \<Rightarrow> h3_grid \<Rightarrow> (nat \<times> heap_entry) set \<Rightarrow> 'a compactor \<Rightarrow> bool" where
  "cp_ok k g X c \<longleftrightarrow> cp_shape c \<and> (\<forall>p\<in>set (cp_pending c). pend_ok k g X c p)"

lemma res_index_less [simp]: "res_index r < RESOLUTIONS"
  by (simp add: res_index_def RESOLUTIONS_def)

lemma f64_min_not_nan: "\<not> f64_is_nan a \<Longrightarrow> \<not> f64_is_nan (f64_min a b)"
  by (simp add: f64_min_def)

lemma siblings_south_not_nan: "\<not> f64_is_nan (siblings_south g p)"
proof -
  have "\<not> f64_is_nan a \<Longrightarrow> \<not> f64_is_nan (fold (\<lambda>child lat. f64_min lat (hg_south g child)) cs a)" for cs a
    by (induction cs arbitrary: a) (simp_all add: f64_min_not_nan)
  moreover have "\<not> f64_is_nan f64_inf" using special_not_nan(1) [of False] by (simp add: inf_of_def)
  ultimately show ?thesis by (simp add: siblings_south_def)
qed

lemma f64_eq_self: "\<not> f64_is_nan x \<Longrightarrow> f64_eq x x"
  by (simp add: f64_eq_key)

lemma shape_bytes:
  assumes "cp_shape c" "map_of (cp_pending c) p = Some gr"
  shows "gr_bytes gr \<le> cp_group_bytes c"
proof -
  have "(p, gr) \<in> set (cp_pending c)" using assms(2) by (rule map_of_SomeD)
  then have "gr_bytes gr \<in> set (map (\<lambda>p. gr_bytes (snd p)) (cp_pending c))" by force
  from member_le_sum_list [OF this] show ?thesis using assms(1) by (simp add: cp_shape_def)
qed

lemma cp_ok_pending:
  assumes "cp_ok k g X c" "map_of (cp_pending c) p = Some gr"
  shows "pend_ok k g X c (p, gr)"
  using assms map_of_SomeD [OF assms(2)] by (simp add: cp_ok_def)

lemma live_of_index:
  assumes "cp_ok k g X c" "p \<in> set (cp_pending c)" "cp_index p = (res, e)"
  shows "is_live_completion c res e"
proof -
  have "map_of (cp_pending c) (fst p) = Some (snd p)" using assms(1,2) by (simp add: cp_ok_def cp_shape_def)
  moreover have "gr_siblings_south (snd p) = siblings_south g (fst p)" using assms(1,2) by (simp add: cp_ok_def pend_ok_def group_of_def)
  ultimately show ?thesis using assms(3)
    by (auto simp: is_live_completion_def cp_index_def completion_entry_def f64_eq_self siblings_south_not_nan)
qed

section \<open>Conservation\<close>

text \<open>
  What is emitted: a cell by itself, or a parent for its children. \<open>conserves\<close>: the emissions of a
  step and the cells pending after it hold those pending before it and the cells \<open>A\<close> added.
\<close>

datatype 'a emission = Single u8 u64 'a | Whole u64 "(u64 \<times> 'a) list"

fun emission_record :: "('a, 'r) stream_kernel \<Rightarrow> h3_grid \<Rightarrow> 'a emission \<Rightarrow> 'r" where
  "emission_record k g (Single res cell acc) = kn_make_record k res cell acc"
| "emission_record k g (Whole parent cs) =
     kn_make_record k (hg_resolution g parent) parent (foldl (kn_merge k) (kn_new_parent k) (map snd cs))"

fun emission_cells :: "h3_grid \<Rightarrow> 'a emission \<Rightarrow> (u8 \<times> u64 \<times> 'a) list" where
  "emission_cells g (Single res cell acc) = [(res, cell, acc)]"
| "emission_cells g (Whole parent cs) = map (\<lambda>(cell, acc). (hg_resolution g parent + 1, cell, acc)) cs"

fun emission_ok :: "h3_grid \<Rightarrow> 'a emission \<Rightarrow> bool" where
  "emission_ok g (Single res cell acc) = True"
| "emission_ok g (Whole parent cs) =
     (length cs = sibling_count g parent \<and> (\<forall>cell\<in>fst ` set cs. hg_parent g cell = Some parent))"

definition conserves ::
  "('a, 'r) stream_kernel \<Rightarrow> h3_grid \<Rightarrow> (u8 \<times> u64 \<times> 'a) multiset \<Rightarrow> 'a compactor \<times> 'r output_buffer \<Rightarrow> 'a compactor \<times> 'r output_buffer \<Rightarrow> bool" where
  "conserves k g A s s' \<longleftrightarrow>
     (\<exists>es. map fst (ob_records (snd s')) = map fst (ob_records (snd s)) @ map (emission_record k g) es \<and>
        (\<forall>e\<in>set es. emission_ok g e) \<and> mset (concat (map (emission_cells g) es)) + pending_cells (fst s') = pending_cells (fst s) + A) \<and>
     (output_ok (snd s) \<longrightarrow> output_ok (snd s'))"

lemma conserves_same: "pending_cells c' = pending_cells c \<Longrightarrow> conserves k g {#} (c, out) (c', out)"
  unfolding conserves_def by (intro conjI exI [of _ "[]"]) auto

lemma conserves_trans:
  assumes "conserves k g A s s'" "conserves k g B s' s''"
  shows "conserves k g (A + B) s s''"
proof -
  obtain es where es: "map fst (ob_records (snd s')) = map fst (ob_records (snd s)) @ map (emission_record k g) es"
      "\<forall>e\<in>set es. emission_ok g e" "mset (concat (map (emission_cells g) es)) + pending_cells (fst s') = pending_cells (fst s) + A"
    using assms(1) by (auto simp: conserves_def)
  obtain es' where es': "map fst (ob_records (snd s'')) = map fst (ob_records (snd s')) @ map (emission_record k g) es'"
      "\<forall>e\<in>set es'. emission_ok g e" "mset (concat (map (emission_cells g) es')) + pending_cells (fst s'') = pending_cells (fst s') + B"
    using assms(2) by (auto simp: conserves_def)
  have "mset (concat (map (emission_cells g) (es @ es'))) + pending_cells (fst s'') =
      mset (concat (map (emission_cells g) es)) + (mset (concat (map (emission_cells g) es')) + pending_cells (fst s''))"
    by (simp only: map_append concat_append mset_append add.assoc)
  also have "\<dots> = pending_cells (fst s) + (A + B)" by (simp only: es'(3) es(3) add.assoc [symmetric])
  finally have "mset (concat (map (emission_cells g) (es @ es'))) + pending_cells (fst s'') = pending_cells (fst s) + (A + B)" .
  moreover have "\<forall>e\<in>set (es @ es'). emission_ok g e" using es(2) es'(2) by auto
  moreover have "map fst (ob_records (snd s'')) = map fst (ob_records (snd s)) @ map (emission_record k g) (es @ es')"
    by (simp add: es(1) es'(1))
  ultimately show ?thesis using assms unfolding conserves_def by blast
qed

lemmas conserves_step = conserves_trans [where A = "{#}", simplified] conserves_trans [where B = "{#}", simplified]

lemma conserves_record:
  assumes "emission_ok g e" "mset (emission_cells g e) + pending_cells c' = pending_cells c + A"
    "out' = push_sized (emission_record k g e) b out"
  shows "conserves k g A (c, out) (c', out')"
  unfolding conserves_def using assms output_ok_push by (intro conjI exI [of _ "[e]"]) (auto simp: push_sized_def)

lemma decompose_records:
  "map fst (ob_records (decompose k gr out)) =
    map fst (ob_records out) @ map (emission_record k g) (map (\<lambda>(cell, acc). Single (gr_child_res gr) cell acc) (gr_children gr))"
  "output_ok out \<Longrightarrow> output_ok (decompose k gr out)"
proof -
  have "map fst (ob_records (fold (\<lambda>(cell, acc). buffer_record k r cell acc) cs out)) =
      map fst (ob_records out) @ map (emission_record k g) (map (\<lambda>(cell, acc). Single r cell acc) cs) \<and>
      (output_ok out \<longrightarrow> output_ok (fold (\<lambda>(cell, acc). buffer_record k r cell acc) cs out))" for r cs
    by (induction cs arbitrary: out) (auto simp: buffer_record_def output_ok_push, simp_all add: push_sized_def)
  then show "map fst (ob_records (decompose k gr out)) =
    map fst (ob_records out) @ map (emission_record k g) (map (\<lambda>(cell, acc). Single (gr_child_res gr) cell acc) (gr_children gr))"
    "output_ok out \<Longrightarrow> output_ok (decompose k gr out)" by (simp_all add: decompose_def)
qed

lemma conserves_decompose:
  assumes "pending_cells c' + mset (group_cells gr) = pending_cells c"
  shows "conserves k g {#} (c, out) (c', decompose k gr out)"
proof -
  let ?es = "map (\<lambda>(cell, acc). Single (gr_child_res gr) cell acc) (gr_children gr)"
  have "concat (map (emission_cells g) (map (\<lambda>(cell, acc). Single r cell acc) cs)) = map (\<lambda>(cell, acc). (r, cell, acc)) cs" for r and cs :: "(u64 \<times> 'a) list"
    by (induction cs) auto
  then have "mset (concat (map (emission_cells g) ?es)) + pending_cells c' = pending_cells c"
    using assms by (simp add: group_cells_def ac_simps)
  moreover have "\<forall>e\<in>set ?es. emission_ok g e" by auto
  ultimately show ?thesis
    unfolding conserves_def using decompose_records by (intro conjI exI [of _ ?es]) auto
qed

section \<open>Removing groups\<close>

lemma remove_group_ok:
  assumes shape: "cp_shape c" and gr: "map_of (cp_pending c) p = Some gr"
    and rest: "\<forall>q\<in>set (cp_pending c). fst q \<noteq> p \<longrightarrow> pend_ok k g X c q"
  shows "\<exists>c'. remove_group al p c = Some (Some gr, c') \<and> cp_ok k g {x\<in>X. snd (snd x) \<noteq> p} c' \<and>
    pending_cells c' + mset (group_cells gr) = pending_cells c \<and> cp_completion c' = cp_completion c \<and>
    cp_pending c' = AList.delete p (cp_pending c) \<and> cp_byte_limit c' = cp_byte_limit c \<and> cp_enabled c' = cp_enabled c"
proof -
  define c' where "c' = c\<lparr> cp_pending := AList.delete p (cp_pending c),
      cp_table_cap := al_remove al (cp_table_cap c) (length (cp_pending c) - 1), cp_group_bytes := cp_group_bytes c - gr_bytes gr \<rparr>"
  have bytes: "gr_bytes gr \<le> cp_group_bytes c" using shape gr by (rule shape_bytes)
  have dist: "distinct (map fst (cp_pending c))" using shape by (simp add: cp_shape_def)
  have "remove_group al p c = Some (Some gr, c')" using gr bytes by (simp add: remove_group_def sub_usize_def c'_def)
  moreover have "pending_cells c' + mset (group_cells gr) = pending_cells c"
    unfolding pending_cells_def using sum_AList_delete [OF dist gr, of "\<lambda>gr. mset (group_cells gr)"] by (simp add: c'_def)
  moreover have "cp_shape c'"
    using shape sum_AList_delete [OF dist gr, of gr_bytes] by (simp add: cp_shape_def c'_def distinct_delete)
  moreover have "pend_ok k g {x\<in>X. snd (snd x) \<noteq> p} c' q" if "q \<in> set (cp_pending c')" for q
  proof -
    have q: "q \<in> set (cp_pending c)" "fst q \<noteq> p" using that by (auto simp: c'_def AList.delete_eq)
    then show ?thesis using rest by (auto simp: pend_ok_def c'_def cp_index_def completion_entry_def)
  qed
  ultimately show ?thesis by (intro exI [of _ c']) (simp add: cp_ok_def c'_def)
qed

lemma flush_parent_ok:
  assumes "cp_ok k g X c"
  shows "\<exists>c' out'. flush_parent k al p c out = Some (c', out') \<and> cp_ok k g {x\<in>X. snd (snd x) \<noteq> p} c' \<and>
    conserves k g {#} (c, out) (c', out') \<and> cp_completion c' = cp_completion c \<and> cp_byte_limit c' = cp_byte_limit c \<and>
    cp_enabled c' = cp_enabled c \<and> set (cp_pending c') \<subseteq> set (cp_pending c)"
proof (cases "map_of (cp_pending c) p")
  case None
  then have absent: "p \<notin> fst ` set (cp_pending c)" by (simp add: map_of_eq_None_iff)
  have "pend_ok k g {x\<in>X. snd (snd x) \<noteq> p} c q" if "q \<in> set (cp_pending c)" for q
  proof -
    have "fst q \<noteq> p" using absent that by auto
    then show ?thesis using assms that by (auto simp: cp_ok_def pend_ok_def cp_index_def completion_entry_def)
  qed
  then have "cp_ok k g {x\<in>X. snd (snd x) \<noteq> p} c" using assms by (simp add: cp_ok_def)
  then show ?thesis using None by (simp add: flush_parent_def remove_group_def conserves_same)
next
  case (Some gr)
  have "cp_shape c" "\<forall>q\<in>set (cp_pending c). fst q \<noteq> p \<longrightarrow> pend_ok k g X c q" using assms by (simp_all add: cp_ok_def)
  from remove_group_ok [OF this(1) Some this(2), of al]
  obtain c' where c': "remove_group al p c = Some (Some gr, c')" "cp_ok k g {x\<in>X. snd (snd x) \<noteq> p} c'"
      "pending_cells c' + mset (group_cells gr) = pending_cells c" "cp_completion c' = cp_completion c"
      "cp_pending c' = AList.delete p (cp_pending c)" "cp_byte_limit c' = cp_byte_limit c" "cp_enabled c' = cp_enabled c"
    by blast
  have "flush_parent k al p c out = Some (c', decompose k gr out)" by (simp add: flush_parent_def c'(1))
  moreover have "set (cp_pending c') \<subseteq> set (cp_pending c)" by (auto simp: c'(5) AList.delete_eq)
  ultimately show ?thesis using c'(2,4,6,7) conserves_decompose [OF c'(3)] by blast
qed

text \<open>A popped entry: either its group is live and flushed, or no group needs it.\<close>

lemma cp_ok_mono: "cp_ok k g X c \<Longrightarrow> X \<subseteq> Y \<Longrightarrow> cp_ok k g Y c"
  by (auto simp: cp_ok_def pend_ok_def)

lemma flush_popped:
  assumes "cp_ok k g (insert (res, e) X) c"
  shows "\<exists>c' out'. flush_parent k al (snd e) c out = Some (c', out') \<and> cp_ok k g X c' \<and> conserves k g {#} (c, out) (c', out') \<and>
    cp_completion c' = cp_completion c \<and> cp_byte_limit c' = cp_byte_limit c \<and> cp_enabled c' = cp_enabled c \<and>
    set (cp_pending c') \<subseteq> set (cp_pending c)"
proof -
  have "{x\<in>insert (res, e) X. snd (snd x) \<noteq> snd e} \<subseteq> X" by auto
  then show ?thesis using flush_parent_ok [OF assms, of al "snd e" out] cp_ok_mono by blast
qed

lemma stale_popped:
  assumes "cp_ok k g (insert (res, e) X) c" "\<not> is_live_completion c res e"
  shows "cp_ok k g X c"
proof -
  have "cp_index p \<noteq> (res, e)" if "p \<in> set (cp_pending c)" for p
    using live_of_index [OF assms(1) that] assms(2) by blast
  then show ?thesis using assms(1) by (auto simp: cp_ok_def pend_ok_def)
qed

lemma pop_ok:
  assumes ok: "cp_ok k g X c" and top: "heap_peek (cp_completion c ! res) = Some e" and res: "res < RESOLUTIONS"
  shows "cp_ok k g (insert (res, e) X) (set_completion res (heap_pop (cp_completion c ! res)) c)"
proof -
  let ?c = "set_completion res (heap_pop (cp_completion c ! res)) c"
  have len: "res < length (cp_completion c)" using ok res by (simp add: cp_ok_def cp_shape_def)
  have "pend_ok k g (insert (res, e) X) ?c p" if "p \<in> set (cp_pending c)" for p
  proof -
    have p: "pend_ok k g X c p" using ok that by (simp add: cp_ok_def)
    show ?thesis
    proof (cases "res = res_index (gr_child_res (snd p))")
      case True
      have "x \<in> set (lh_entries (cp_completion c ! res)) \<Longrightarrow> x = e \<or> x \<in> set (lh_entries (heap_pop (cp_completion c ! res)))" for x
        by (cases "x = e") (simp_all add: heap_pop_entries [OF top] in_set_remove1)
      from this [of "completion_entry p"] show ?thesis using p True len by (auto simp: pend_ok_def cp_index_def)
    next
      case False
      then show ?thesis using p by (simp add: pend_ok_def)
    qed
  qed
  then show ?thesis using ok by (simp add: cp_ok_def cp_shape_def)
qed

section \<open>The group nearest completion\<close>

lemma drop_ok:
  assumes ok: "cp_ok k g X c" and res: "res < RESOLUTIONS"
  shows "cp_ok k g X (set_completion res (drop_stale (is_live_completion c res) (cp_completion c ! res)) c)" (is "cp_ok k g X ?c")
proof -
  have len: "res < length (cp_completion c)" using ok res by (simp add: cp_ok_def cp_shape_def)
  have "pend_ok k g X ?c p" if mem: "p \<in> set (cp_pending c)" for p
  proof -
    have p: "pend_ok k g X c p" using ok mem by (simp add: cp_ok_def)
    show ?thesis
    proof (cases "res = res_index (gr_child_res (snd p))")
      case True
      then have "is_live_completion c res (completion_entry p)" using live_of_index [OF ok mem] by (simp add: cp_index_def)
      then have "completion_entry p \<in> set (lh_entries (cp_completion c ! res)) \<Longrightarrow>
          completion_entry p \<in> set (lh_entries (drop_stale (is_live_completion c res) (cp_completion c ! res)))"
        by (intro drop_stale_keeps)
      then show ?thesis using p True len by (auto simp: pend_ok_def)
    next
      case False
      then show ?thesis using p by (simp add: pend_ok_def)
    qed
  qed
  then show ?thesis using ok by (simp add: cp_ok_def cp_shape_def)
qed

lemma next_from_ok:
  assumes "next_from rs best c = (r, c')" "cp_ok k g {} c" "set rs \<subseteq> {..<RESOLUTIONS}" "distinct rs"
    "\<And>res e. best = Some (res, e) \<Longrightarrow> res < RESOLUTIONS \<and> res \<notin> set rs \<and> heap_peek (cp_completion c ! res) = Some e"
  shows "cp_ok k g {} c'"
    "\<And>res e. r = Some (res, e) \<Longrightarrow> res < RESOLUTIONS \<and> heap_peek (cp_completion c' ! res) = Some e"
    "r = None \<Longrightarrow> best = None \<and> (\<forall>p\<in>set (cp_pending c). res_index (gr_child_res (snd p)) \<notin> set rs)"
proof -
  have "cp_ok k g {} c' \<and> (\<forall>res e. r = Some (res, e) \<longrightarrow> res < RESOLUTIONS \<and> heap_peek (cp_completion c' ! res) = Some e) \<and>
      (r = None \<longrightarrow> best = None \<and> (\<forall>p\<in>set (cp_pending c). res_index (gr_child_res (snd p)) \<notin> set rs))"
    using assms
  proof (induction rs arbitrary: best c)
    case (Cons res rs)
    define h where "h = drop_stale (is_live_completion c res) (cp_completion c ! res)"
    define c1 where "c1 = set_completion res h c"
    define best1 where "best1 = (case heap_peek h of None \<Rightarrow> best
      | Some t \<Rightarrow> (case best of None \<Rightarrow> Some (res, t) | Some b \<Rightarrow> if entry_less (snd b) t then Some (res, t) else best))"
    have res: "res < RESOLUTIONS" "res \<notin> set rs" using Cons.prems by auto
    have len: "res < length (cp_completion c)" using Cons.prems(2) res by (simp add: cp_ok_def cp_shape_def)
    have ok1: "cp_ok k g {} c1" unfolding c1_def h_def using Cons.prems(2) res(1) by (rule drop_ok)
    have run: "next_from rs best1 c1 = (r, c')"
      using Cons.prems(1) by (auto simp: Let_def c1_def h_def best1_def split: option.splits)
    have best1: "res' < RESOLUTIONS \<and> res' \<notin> set rs \<and> heap_peek (cp_completion c1 ! res') = Some e" if "best1 = Some (res', e)" for res' e
    proof (cases "best1 = best")
      case True
      then show ?thesis using Cons.prems(5) [of res' e] that by (simp add: c1_def)
    next
      case False
      then have "best1 = Some (res, e)" "heap_peek h = Some e" "res' = res"
        using that by (auto simp: best1_def split: option.splits if_splits)
      then show ?thesis using res len by (simp add: c1_def)
    qed
    note IH = Cons.IH [OF run ok1 _ _ best1]
    have "r = None \<longrightarrow> best = None \<and> res_index (gr_child_res (snd p)) \<noteq> res" if "p \<in> set (cp_pending c)" for p
    proof (intro impI)
      assume "r = None"
      then have none: "best1 = None" using IH Cons.prems by auto
      then have b: "best = None" "heap_peek h = None" by (auto simp: best1_def split: option.splits if_splits)
      then have "lh_entries h = []" by (simp add: heap_peek_def)
      moreover have "pend_ok k g {} c1 p" using ok1 that by (simp add: cp_ok_def c1_def)
      ultimately show "best = None \<and> res_index (gr_child_res (snd p)) \<noteq> res" using b len by (auto simp: pend_ok_def c1_def)
    qed
    moreover have "r = None \<longrightarrow> best = None" using IH Cons.prems by (auto simp: best1_def split: option.splits if_splits)
    ultimately show ?case using IH Cons.prems by (auto simp: c1_def)
  qed auto
  then show "cp_ok k g {} c'"
    "\<And>res e. r = Some (res, e) \<Longrightarrow> res < RESOLUTIONS \<and> heap_peek (cp_completion c' ! res) = Some e"
    "r = None \<Longrightarrow> best = None \<and> (\<forall>p\<in>set (cp_pending c). res_index (gr_child_res (snd p)) \<notin> set rs)" by blast+
qed

lemma next_to_complete_ok:
  assumes "next_to_complete c = (r, c')" "cp_ok k g {} c"
  shows "cp_ok k g {} c'" "r = Some (res, e) \<Longrightarrow> res < RESOLUTIONS \<and> heap_peek (cp_completion c' ! res) = Some e"
    "r = None \<Longrightarrow> cp_pending c = []" "cp_pending c' = cp_pending c" "cp_byte_limit c' = cp_byte_limit c" "cp_enabled c' = cp_enabled c"
proof -
  note * = assms(1) [unfolded next_to_complete_def]
  have "set [0..<RESOLUTIONS] \<subseteq> {..<RESOLUTIONS}" by auto
  note ok = next_from_ok [OF * assms(2) this, simplified]
  show "cp_ok k g {} c'" "r = Some (res, e) \<Longrightarrow> res < RESOLUTIONS \<and> heap_peek (cp_completion c' ! res) = Some e"
    using ok(1,2) by blast+
  show "r = None \<Longrightarrow> cp_pending c = []" using ok(3) by (cases "cp_pending c") auto
  show "cp_pending c' = cp_pending c" "cp_byte_limit c' = cp_byte_limit c" "cp_enabled c' = cp_enabled c"
    using next_from_pending [OF *] by simp_all
qed

section \<open>Rebuilding and the limit\<close>

lemma rebuild_completion_ok:
  fixes ps :: "(u64 \<times> 'a group) list"
  shows "length (rebuild_completion al ps hs) = length hs"
  "q \<in> set ps \<Longrightarrow> res_index (gr_child_res (snd q)) < length hs \<Longrightarrow>
    completion_entry q \<in> set (lh_entries (rebuild_completion al ps hs ! res_index (gr_child_res (snd q))))"
proof -
  define f where "f = (\<lambda>(p :: u64 \<times> 'a group) hs. let res = res_index (gr_child_res (snd p)) in hs[res := heap_push al (completion_entry p) (hs ! res)])"
  have flen: "length (f p hs) = length hs" for p hs by (simp add: f_def Let_def)
  have fkeep: "i < length hs \<Longrightarrow> e \<in> set (lh_entries (hs ! i)) \<Longrightarrow> e \<in> set (lh_entries (f p hs ! i))" for i e p hs
    by (cases "i = res_index (gr_child_res (snd p))") (simp_all add: f_def Let_def heap_push_def)
  have len: "length (fold f ps hs) = length hs" for ps hs by (induction ps arbitrary: hs) (simp_all add: flen)
  have keep: "i < length hs \<Longrightarrow> e \<in> set (lh_entries (hs ! i)) \<Longrightarrow> e \<in> set (lh_entries (fold f ps hs ! i))" for i e ps hs
    by (induction ps arbitrary: hs) (simp_all add: flen fkeep)
  have put: "q \<in> set ps \<Longrightarrow> res_index (gr_child_res (snd q)) < length hs \<Longrightarrow>
      completion_entry q \<in> set (lh_entries (fold f ps hs ! res_index (gr_child_res (snd q))))" for hs
  proof (induction ps arbitrary: hs)
    case (Cons p ps)
    show ?case
    proof (cases "q = p")
      case True
      have "completion_entry p \<in> set (lh_entries (f p hs ! res_index (gr_child_res (snd p))))"
        using Cons.prems(2) True by (simp add: f_def Let_def heap_push_def)
      then show ?thesis using keep [of _ "f p hs"] Cons.prems(2) True by (simp add: flen)
    next
      case False
      then show ?thesis using Cons by (simp add: flen)
    qed
  qed simp
  show "length (rebuild_completion al ps hs) = length hs" using len by (simp add: rebuild_completion_def f_def)
  show "q \<in> set ps \<Longrightarrow> res_index (gr_child_res (snd q)) < length hs \<Longrightarrow>
    completion_entry q \<in> set (lh_entries (rebuild_completion al ps hs ! res_index (gr_child_res (snd q))))"
    using put [of "map (\<lambda>h. h\<lparr> lh_entries := [] \<rparr>) hs"] unfolding rebuild_completion_def f_def by simp
qed

lemma pending_cells_cong: "cp_pending c' = cp_pending c \<Longrightarrow> pending_cells c' = pending_cells c"
  by (simp add: pending_cells_def)

lemma compact_indexes_ok:
  assumes "cp_ok k g {} c"
  shows "cp_ok k g {} (compact_indexes al c)"
proof -
  define c1 where "c1 = c\<lparr> cp_completion := rebuild_completion al (cp_pending c) (cp_completion c) \<rparr>"
  have c1: "cp_ok k g {} c1"
    using assms rebuild_completion_ok [where al = al and ps = "cp_pending c" and hs = "cp_completion c"] by (auto simp: cp_ok_def cp_shape_def pend_ok_def c1_def)
  have emit: "cp_ok k g {} (c\<lparr> cp_emit := \<lparr> lh_entries = map emit_entry (cp_pending c), lh_cap = n \<rparr> \<rparr>)" if "cp_ok k g {} c" for c n
    using that by (auto simp: cp_ok_def cp_shape_def pend_ok_def)
  show ?thesis unfolding compact_indexes_def Let_def c1_def [symmetric]
    using assms c1 emit [OF assms] emit [OF c1] by (simp add: c1_def)
qed

lemma compact_indexes_sel [simp]:
  "cp_pending (compact_indexes al c) = cp_pending c" "cp_byte_limit (compact_indexes al c) = cp_byte_limit c"
  "cp_enabled (compact_indexes al c) = cp_enabled c"
  by (simp_all add: compact_indexes_def Let_def)

lemma reclaim_sel [simp]:
  "cp_pending (reclaim al c) = cp_pending c" "cp_byte_limit (reclaim al c) = cp_byte_limit c" "cp_enabled (reclaim al c) = cp_enabled c"
  by (simp_all add: reclaim_def Let_def)

lemma reclaim_ok:
  assumes "cp_ok k g {} c"
  shows "cp_ok k g {} (reclaim al c)"
proof -
  have "cp_ok k g {} (c\<lparr> cp_table_cap := n \<rparr>)" for n using assms by (simp add: cp_ok_def cp_shape_def pend_ok_def)
  then have "cp_ok k g {} (compact_indexes al (c\<lparr> cp_table_cap := n \<rparr>))" for n by (rule compact_indexes_ok)
  moreover have "cp_ok k g {} (c\<lparr> cp_emit := heap_shrink al (cp_emit c), cp_completion := map (heap_shrink al) (cp_completion c) \<rparr>)"
    if "cp_ok k g {} c" for c
  proof -
    have "res_index r < length (cp_completion c)" for r using that by (simp add: cp_ok_def cp_shape_def)
    then show ?thesis using that by (auto simp: cp_ok_def cp_shape_def pend_ok_def heap_shrink_def)
  qed
  ultimately show ?thesis by (simp add: reclaim_def Let_def)
qed

definition good_step ::
  "('a, 'r) stream_kernel \<Rightarrow> h3_grid \<Rightarrow> (u8 \<times> u64 \<times> 'a) multiset \<Rightarrow> 'a compactor \<Rightarrow> 'r output_buffer \<Rightarrow> 'a compactor \<Rightarrow> 'r output_buffer \<Rightarrow> bool" where
  "good_step k g A c out c' out' \<longleftrightarrow>
     cp_ok k g {} c' \<and> conserves k g A (c, out) (c', out') \<and> cp_byte_limit c' = cp_byte_limit c \<and> cp_enabled c' = cp_enabled c"

lemma good_step_trans:
  "good_step k g A c out c1 out1 \<Longrightarrow> good_step k g B c1 out1 c' out' \<Longrightarrow> good_step k g (A + B) c out c' out'"
  unfolding good_step_def using conserves_trans [of k g A "(c, out)" "(c1, out1)" B "(c', out')"] by simp

lemmas good_step_then = good_step_trans [where B = "{#}", simplified] good_step_trans [where A = "{#}", simplified]

lemma good_step_same:
  "cp_ok k g {} c' \<Longrightarrow> cp_pending c' = cp_pending c \<Longrightarrow> cp_byte_limit c' = cp_byte_limit c \<Longrightarrow> cp_enabled c' = cp_enabled c \<Longrightarrow>
    good_step k g {#} c out c' out"
  using conserves_same [OF pending_cells_cong, of c' c k g out] by (simp add: good_step_def)

lemma cp_ok_fields [simp]:
  "cp_ok k g X (c\<lparr> cp_forced_flushes := n \<rparr>) = cp_ok k g X c" "cp_ok k g X (c\<lparr> cp_peak_bytes := m \<rparr>) = cp_ok k g X c"
  by (simp_all add: cp_ok_def cp_shape_def pend_ok_def)

lemma compactor_bytes_fields [simp]:
  "compactor_bytes k (c\<lparr> cp_forced_flushes := n \<rparr>) = compactor_bytes k c" "compactor_bytes k (c\<lparr> cp_peak_bytes := m \<rparr>) = compactor_bytes k c"
  by (simp_all add: compactor_bytes_def)

lemma enforce_loop_ok:
  "cp_ok k g {} c \<Longrightarrow> \<exists>c' out'. enforce_loop k al c out = Some (c', out') \<and> good_step k g {#} c out c' out' \<and>
    (compactor_bytes k c' \<le> cp_byte_limit c' \<or> cp_pending c' = [])"
proof (induction k al c out rule: enforce_loop.induct)
  case (1 k al c out)
  show ?case
  proof (cases "compactor_bytes k c \<le> cp_byte_limit c \<or> cp_pending c = []")
    case True
    then show ?thesis using "1.prems" good_step_same [of k g c c] by (simp add: enforce_loop.simps)
  next
    case False
    obtain r c1 where nx: "next_to_complete c = (r, c1)" by (cases "next_to_complete c")
    note nok = next_to_complete_ok [OF nx "1.prems"]
    then obtain res e where r: "r = Some (res, e)" using False by (cases r) auto
    have peek: "res < RESOLUTIONS" "heap_peek (cp_completion c1 ! res) = Some e" using nok(2) r by auto
    define c2 where "c2 = set_completion res (heap_pop (cp_completion c1 ! res)) c1"
    have "cp_ok k g (insert (res, e) {}) c2" unfolding c2_def using nok(1) peek(2,1) by (rule pop_ok)
    from flush_popped [OF this, of al out]
    obtain c3 out3 where c3: "flush_parent k al (snd e) c2 out = Some (c3, out3)" "cp_ok k g {} c3" "conserves k g {#} (c2, out) (c3, out3)"
        "cp_byte_limit c3 = cp_byte_limit c2" "cp_enabled c3 = cp_enabled c2" by auto
    define c4 where "c4 = c3\<lparr> cp_forced_flushes := cp_forced_flushes c3 + 1 \<rparr>"
    have c2: "cp_pending c2 = cp_pending c" "cp_byte_limit c2 = cp_byte_limit c" "cp_enabled c2 = cp_enabled c"
      using nok by (simp_all add: c2_def)
    have "conserves k g {#} (c, out) (c4, out3)"
      using c3(3) c2(1) by (simp add: conserves_def pending_cells_def c4_def)
    then have step: "good_step k g {#} c out c4 out3" using c3 c2 by (simp add: good_step_def c4_def)
    have "cp_ok k g {} c4" using c3(2) by (simp add: c4_def)
    then have "\<exists>c' out'. enforce_loop k al c4 out3 = Some (c', out') \<and> good_step k g {#} c4 out3 c' out' \<and>
        (compactor_bytes k c' \<le> cp_byte_limit c' \<or> cp_pending c' = [])"
      unfolding c4_def by (rule "1.IH" [OF False nx [symmetric] r refl c3(1) [unfolded c2_def] refl])
    then obtain c' out' where IH: "enforce_loop k al c4 out3 = Some (c', out')" "good_step k g {#} c4 out3 c' out'"
        "compactor_bytes k c' \<le> cp_byte_limit c' \<or> cp_pending c' = []"
      by blast
    have "enforce_loop k al c out = Some (c', out')"
      using False nx r c3(1) IH(1) by (simp add: enforce_loop.simps [of k al c out] c2_def c4_def)
    then show ?thesis using IH(3) good_step_then(1) [OF step IH(2)] by blast
  qed
qed

lemma enforce_limit_ok:
  assumes "cp_ok k g {} c"
  shows "\<exists>c' out'. enforce_limit k al c out = Some (c', out') \<and> good_step k g {#} c out c' out' \<and>
    (compactor_bytes k c' \<le> cp_byte_limit c' \<or> cp_pending c' = [])"
proof -
  define c1 where "c1 = c\<lparr> cp_peak_bytes := max (cp_peak_bytes c) (compactor_bytes k c) \<rparr>"
  have ok1: "cp_ok k g {} c1" using assms by (simp add: c1_def)
  have step1: "good_step k g {#} c out c1 out" using ok1 by (rule good_step_same) (simp_all add: c1_def)
  show ?thesis
  proof (cases "compactor_bytes k c1 \<le> cp_byte_limit c1")
    case True
    then have "enforce_limit k al c out = Some (c1, out)" by (simp add: enforce_limit_def c1_def [symmetric])
    then show ?thesis using step1 True by blast
  next
    case False
    have okr: "cp_ok k g {} (reclaim al c1)" using ok1 by (rule reclaim_ok)
    have stepr: "good_step k g {#} c1 out (reclaim al c1) out" using okr by (rule good_step_same) simp_all
    obtain c2 out2 where c2: "enforce_loop k al (reclaim al c1) out = Some (c2, out2)" "good_step k g {#} (reclaim al c1) out c2 out2"
        "compactor_bytes k c2 \<le> cp_byte_limit c2 \<or> cp_pending c2 = []" using enforce_loop_ok [OF okr] by blast
    have step2: "good_step k g {#} c out c2 out2" using good_step_then(1) [OF good_step_then(1) [OF step1 stepr] c2(2)] .
    have run: "enforce_limit k al c out = Some (if cp_byte_limit c2 < compactor_bytes k c2 then reclaim al c2 else c2, out2)"
      using False c2(1) by (simp add: enforce_limit_def c1_def [symmetric])
    show ?thesis
    proof (cases "cp_byte_limit c2 < compactor_bytes k c2")
      case True
      have "cp_ok k g {} c2" using c2(2) by (simp add: good_step_def)
      then have "good_step k g {#} c2 out2 (reclaim al c2) out2" by (intro good_step_same reclaim_ok) simp_all
      then have "good_step k g {#} c out (reclaim al c2) out2" using good_step_then(1) [OF step2] by blast
      then show ?thesis using run True c2(3) by auto
    next
      case False
      then show ?thesis using run step2 by auto
    qed
  qed
qed

section \<open>Adding a cell\<close>

text \<open>The state while the group of \<open>parent\<close> is at hand.\<close>

definition opened :: "('a, 'r) stream_kernel \<Rightarrow> h3_grid \<Rightarrow> u64 \<Rightarrow> 'a group \<Rightarrow> 'a compactor \<Rightarrow> bool" where
  "opened k g parent gr c \<longleftrightarrow>
     cp_shape c \<and> map_of (cp_pending c) parent = Some gr \<and> group_of k g parent gr \<and>
     completion_entry (parent, gr) \<in> set (lh_entries (cp_completion c ! res_index (gr_child_res gr))) \<and>
     (\<forall>q\<in>set (cp_pending c). fst q \<noteq> parent \<longrightarrow> pend_ok k g {} c q)"

lemma open_group_ok:
  assumes ok: "cp_ok k g {} c" and res: "res = hg_resolution g parent + 1" and og: "open_group k g al res parent c = (gr, c1)"
  shows "opened k g parent gr c1" "length (gr_children gr) < sibling_count g parent" "pending_cells c1 = pending_cells c"
    "cp_byte_limit c1 = cp_byte_limit c" "cp_enabled c1 = cp_enabled c"
proof -
  have "opened k g parent gr c1 \<and> length (gr_children gr) < sibling_count g parent \<and> pending_cells c1 = pending_cells c \<and>
      cp_byte_limit c1 = cp_byte_limit c \<and> cp_enabled c1 = cp_enabled c"
  proof (cases "map_of (cp_pending c) parent")
    case (Some gr')
    then have eq: "gr' = gr" "c1 = c" using og by (simp_all add: open_group_def)
    then have "pend_ok k g {} c (parent, gr)" using cp_ok_pending [OF ok Some] by simp
    then show ?thesis using ok Some by (auto simp: eq opened_def cp_ok_def pend_ok_def)
  next
    case None
    define i where "i = res_index res"
    have i: "i < length (cp_completion c)" using ok by (simp add: i_def cp_ok_def cp_shape_def)
    have gr: "gr = \<lparr> gr_parent_acc = kn_new_parent k, gr_children = [], gr_child_res = res, gr_siblings_south = siblings_south g parent,
        gr_emit_south = hg_south g parent, gr_bytes = 0 \<rparr>"
      and c1: "c1 = (set_completion i (heap_push al (siblings_south g parent, parent) (cp_completion c ! i)) c)
        \<lparr> cp_pending := cp_pending c @ [(parent, gr)], cp_table_cap := al_insert al (cp_table_cap c) (length (cp_pending c) + 1) \<rparr>"
      using og None by (auto simp: open_group_def Let_def i_def)
    have absent: "parent \<notin> fst ` set (cp_pending c)" using None by (simp add: map_of_eq_None_iff)
    have "pend_ok k g {} c1 q" if "q \<in> set (cp_pending c)" for q
    proof -
      have "pend_ok k g {} c q" using ok that by (simp add: cp_ok_def)
      moreover have "set (lh_entries (cp_completion c ! j)) \<subseteq> set (lh_entries (cp_completion c1 ! j))" for j
        using i by (cases "j = i") (auto simp: c1 heap_push_def)
      ultimately show ?thesis by (auto simp: pend_ok_def c1)
    qed
    moreover have "cp_shape c1" using ok absent by (simp add: cp_ok_def cp_shape_def c1 gr)
    moreover have "map_of (cp_pending c1) parent = Some gr" using None by (simp add: c1 map_add_def)
    moreover have "group_of k g parent gr" using res f64_le_refl by (simp add: group_of_def gr)
    moreover have "completion_entry (parent, gr) \<in> set (lh_entries (cp_completion c1 ! res_index (gr_child_res gr)))"
      using i by (simp add: gr c1 completion_entry_def i_def [symmetric] heap_push_def)
    moreover have "length (gr_children gr) < sibling_count g parent" by (simp add: gr sibling_count_def)
    moreover have "pending_cells c1 = pending_cells c" by (simp add: pending_cells_def c1 gr group_cells_def)
    ultimately show ?thesis by (auto simp: opened_def c1)
  qed
  then show "opened k g parent gr c1" "length (gr_children gr) < sibling_count g parent" "pending_cells c1 = pending_cells c"
    "cp_byte_limit c1 = cp_byte_limit c" "cp_enabled c1 = cp_enabled c" by blast+
qed

lemma group_cells_add:
  "mset (group_cells (add_child k g cell acc gr)) = mset (group_cells gr) + {#(gr_child_res gr, cell, acc)#}"
  by (simp add: group_cells_def add_child_def)

lemma group_of_add:
  assumes gr: "group_of k g p gr" and cell: "hg_parent g cell = Some p"
  shows "group_of k g p (add_child k g cell acc gr)"
proof -
  have "f64_le (hg_south g x) (gr_emit_south (add_child k g cell acc gr))"
    if nan: "\<forall>x. \<not> f64_is_nan (hg_south g x)" and x: "x = cell \<or> x \<in> insert p (fst ` set (gr_children gr))" for x
  proof -
    have old: "f64_le (hg_south g y) (gr_emit_south gr)" if "y \<in> insert p (fst ` set (gr_children gr))" for y
      using gr nan that unfolding group_of_def by blast
    then have "\<not> f64_is_nan (gr_emit_south gr)" using f64_le_not_nan by blast
    then have new: "f64_le (hg_south g cell) (gr_emit_south (add_child k g cell acc gr))"
        "f64_le (gr_emit_south gr) (gr_emit_south (add_child k g cell acc gr))"
      using nan f64_not_lt [of "gr_emit_south gr" "hg_south g cell"] f64_le_refl f64_lt_key f64_le_key by (simp_all add: add_child_def)
    then show ?thesis using x old f64_le_trans by blast
  qed
  then show ?thesis using gr cell unfolding group_of_def by (simp add: add_child_def)
qed

lemma set_AList_update: "q \<in> set (AList.update k v xs) \<Longrightarrow> q = (k, v) \<or> q \<in> set xs"
  by (induction xs) (auto split: if_splits)

lemma put_group_ok:
  assumes op: "opened k g p gr c" and bytes: "b + gr_bytes gr = cp_group_bytes c + gr_bytes gr'"
    and same: "gr_child_res gr' = gr_child_res gr" "gr_siblings_south gr' = gr_siblings_south gr" and gr': "group_of k g p gr'"
    and c': "c' = c\<lparr> cp_pending := AList.update p gr' (cp_pending c), cp_group_bytes := b, cp_emit := h \<rparr>"
    and emit: "set (lh_entries (cp_emit c)) \<subseteq> set (lh_entries h)"
  shows "opened k g p gr' c'" "pending_cells c' + mset (group_cells gr) = pending_cells c + mset (group_cells gr')"
proof -
  have dist: "distinct (map fst (cp_pending c))" and gr: "map_of (cp_pending c) p = Some gr"
    using op by (simp_all add: opened_def cp_shape_def)
  have "b = sum_list (map (\<lambda>p. gr_bytes (snd p)) (AList.update p gr' (cp_pending c)))"
    using sum_AList_update [OF dist, of gr_bytes p gr'] bytes op gr by (simp add: opened_def cp_shape_def)
  then have "cp_shape c'" using op dist by (simp add: opened_def cp_shape_def c' distinct_update)
  moreover have "pend_ok k g {} c' q" if "q \<in> set (cp_pending c')" "fst q \<noteq> p" for q
  proof -
    have "q \<in> set (cp_pending c)" using that set_AList_update [of q p gr' "cp_pending c"] by (auto simp: c')
    then have "pend_ok k g {} c q" using op that(2) by (simp add: opened_def)
    then show ?thesis using emit by (auto simp: pend_ok_def c')
  qed
  ultimately show "opened k g p gr' c'"
    using op gr' same by (simp add: opened_def c' update_conv' completion_entry_def)
  show "pending_cells c' + mset (group_cells gr) = pending_cells c + mset (group_cells gr')"
    unfolding pending_cells_def using sum_AList_update [OF dist, of "\<lambda>gr. mset (group_cells gr)" p gr'] gr by (simp add: c')
qed

lemma opened_cp_ok:
  assumes op: "opened k g p gr c" and gr: "length (gr_children gr) < sibling_count g p" and emit: "emit_entry (p, gr) \<in> set (lh_entries (cp_emit c))"
  shows "cp_ok k g {} c"
proof -
  have "pend_ok k g {} c q" if "q \<in> set (cp_pending c)" for q
  proof (cases "fst q = p")
    case True
    have "map_of (cp_pending c) (fst q) = Some (snd q)" using op that by (simp add: opened_def cp_shape_def)
    then have "q = (p, gr)" using op True by (cases q) (simp add: opened_def)
    then show ?thesis using op gr emit by (simp add: opened_def pend_ok_def)
  next
    case False
    then show ?thesis using op that by (simp add: opened_def)
  qed
  then show ?thesis using op by (simp add: cp_ok_def opened_def)
qed

text \<open>What a pushed cell adds, and the parent record of a complete group.\<close>

definition added :: "('a, 'r) stream_kernel \<Rightarrow> u8 \<Rightarrow> u64 \<Rightarrow> 'a \<Rightarrow> (u8 \<times> u64 \<times> 'a) multiset" where
  "added k res cell acc = (if kn_passes_filter k acc then {#(res, cell, acc)#} else {#})"

lemma push_cell_ok:
  assumes ok: "cp_ok k g {} c" and res: "\<And>p. hg_parent g cell = Some p \<Longrightarrow> res = hg_resolution g p + 1"
  shows "\<exists>c' out'. push_cell k g al res cell acc c out = Some (c', out') \<and> good_step k g (added k res cell acc) c out c' out' \<and>
    (kn_passes_filter k acc \<and> cp_enabled c \<and> hg_parent g cell \<noteq> None \<longrightarrow> compactor_bytes k c' \<le> cp_byte_limit c' \<or> cp_pending c' = [])"
proof (cases "kn_passes_filter k acc")
  case False
  then show ?thesis using ok good_step_same [of k g c c] by (simp add: push_cell_def added_def)
next
  case pass: True
  show ?thesis
  proof (cases "if cp_enabled c then hg_parent g cell else None")
    case None
    have "conserves k g {#(res, cell, acc)#} (c, out) (c, buffer_record k res cell acc out)"
      by (rule conserves_record [of _ "Single res cell acc"]) (simp_all add: buffer_record_def)
    then show ?thesis using None pass ok by (auto simp: push_cell_def added_def good_step_def split: if_splits)
  next
    case (Some p)
    then have parent: "hg_parent g cell = Some p" by (simp split: if_splits)
    obtain gr0 c1 where og: "open_group k g al res p c = (gr0, c1)" by (cases "open_group k g al res p c")
    note og_ok = open_group_ok [OF ok res [OF parent] og]
    define gr where "gr = add_child k g cell acc gr0"
    define h where "h = heap_push al (gr_emit_south gr, p) (cp_emit c1)"
    define c2 where "c2 = c1\<lparr> cp_pending := AList.update p gr (cp_pending c1), cp_emit := h \<rparr>"
    have gr0: "group_of k g p gr0" using og_ok(1) by (simp add: opened_def)
    then have gr0_res: "gr_child_res gr0 = res" using res [OF parent] by (simp add: group_of_def)
    have gr: "group_of k g p gr" unfolding gr_def using gr0 parent by (rule group_of_add)
    have fields: "gr_bytes gr = gr_bytes gr0" "gr_child_res gr = gr_child_res gr0" "gr_siblings_south gr = gr_siblings_south gr0"
      by (simp_all add: gr_def add_child_def)
    have gr2: "length (gr_children gr) \<le> sibling_count g p" using og_ok(2) by (simp add: gr_def add_child_def)
    have c2_eq: "c2 = c1\<lparr> cp_pending := AList.update p gr (cp_pending c1), cp_group_bytes := cp_group_bytes c1, cp_emit := h \<rparr>"
      by (simp add: c2_def)
    have h_sub: "set (lh_entries (cp_emit c1)) \<subseteq> set (lh_entries h)" by (auto simp: h_def heap_push_def)
    note put2 = put_group_ok [OF og_ok(1) _ fields(2,3) gr c2_eq h_sub, unfolded fields(1), OF refl]
    have op2: "opened k g p gr c2" and cells2: "pending_cells c2 + mset (group_cells gr0) = pending_cells c1 + mset (group_cells gr)"
      by (fact put2)+
    have cells: "pending_cells c2 = pending_cells c + {#(res, cell, acc)#}"
      using cells2 gr0_res by (simp add: gr_def group_cells_add og_ok(3))
    have emit2: "emit_entry (p, gr) \<in> set (lh_entries (cp_emit c2))" by (simp add: c2_def h_def heap_push_def emit_entry_def)
    have map2: "map_of (cp_pending c2) p = Some gr" and shape2: "cp_shape c2" using op2 by (simp_all add: opened_def)
    define mid where "mid = (if length (gr_children gr) = sibling_count g p
      then Option.bind (remove_group al p c2) (\<lambda>(gr, c). map_option (\<lambda>gr. (c, buffer_record k (hg_resolution g p) p (gr_parent_acc gr) out)) gr)
      else let bytes = owned_bytes k al gr
           in map_option (\<lambda>b. (c2\<lparr> cp_group_bytes := b + bytes,
                cp_pending := AList.update p (gr\<lparr> gr_bytes := bytes \<rparr>) (cp_pending c2) \<rparr>, out)) (sub_usize (cp_group_bytes c2) (gr_bytes gr)))"
    have "\<exists>c3 out3. mid = Some (c3, out3) \<and> good_step k g {#(res, cell, acc)#} c out c3 out3"
    proof (cases "length (gr_children gr) = sibling_count g p")
      case True
      have "\<forall>q\<in>set (cp_pending c2). fst q \<noteq> p \<longrightarrow> pend_ok k g {} c2 q" using op2 by (simp add: opened_def)
      from remove_group_ok [OF shape2 map2 this, of al]
      obtain c3 where c3: "remove_group al p c2 = Some (Some gr, c3)" "cp_ok k g {} c3"
          "pending_cells c3 + mset (group_cells gr) = pending_cells c2" "cp_byte_limit c3 = cp_byte_limit c2" "cp_enabled c3 = cp_enabled c2"
        by auto
      have "emission_cells g (Whole p (gr_children gr)) = group_cells gr" using gr by (simp add: group_of_def group_cells_def)
      then have "conserves k g {#(res, cell, acc)#} (c, out) (c3, buffer_record k (hg_resolution g p) p (gr_parent_acc gr) out)"
        using c3(3) gr True
        by (intro conserves_record [of g "Whole p (gr_children gr)" _ _ _ _ _ "kn_record_size k + kn_heap_bytes k (gr_parent_acc gr)"])
          (simp_all add: cells group_of_def buffer_record_def ac_simps)
      then show ?thesis using True c3 og_ok(4,5) by (simp add: mid_def good_step_def c2_def)
    next
      case False
      define bytes where "bytes = owned_bytes k al gr"
      define gr3 where "gr3 = gr\<lparr> gr_bytes := bytes \<rparr>"
      define c3 where "c3 = c2\<lparr> cp_group_bytes := cp_group_bytes c2 - gr_bytes gr + bytes, cp_pending := AList.update p gr3 (cp_pending c2) \<rparr>"
      have le: "gr_bytes gr \<le> cp_group_bytes c2" using shape2 map2 by (rule shape_bytes)
      have mid: "mid = Some (c3, out)" using False le by (simp add: mid_def c3_def gr3_def bytes_def sub_usize_def Let_def)
      have gr3: "group_of k g p gr3" using gr by (simp add: group_of_def gr3_def)
      have c3_eq: "c3 = c2\<lparr> cp_pending := AList.update p gr3 (cp_pending c2), cp_group_bytes := cp_group_bytes c2 - gr_bytes gr + bytes,
          cp_emit := cp_emit c2 \<rparr>" by (simp add: c3_def)
      have b3: "cp_group_bytes c2 - gr_bytes gr + bytes + gr_bytes gr = cp_group_bytes c2 + gr_bytes gr3"
        using le by (simp add: gr3_def)
      have same3: "gr_child_res gr3 = gr_child_res gr" "gr_siblings_south gr3 = gr_siblings_south gr" by (simp_all add: gr3_def)
      note put3 = put_group_ok [OF op2 b3 same3 gr3 c3_eq subset_refl]
      have op3: "opened k g p gr3 c3" and cells3: "pending_cells c3 + mset (group_cells gr) = pending_cells c2 + mset (group_cells gr3)"
        by (fact put3)+
      have "cp_ok k g {} c3"
        by (rule opened_cp_ok [OF op3]) (use False gr2 emit2 in \<open>simp_all add: gr3_def c3_def emit_entry_def\<close>)
      moreover have "pending_cells c3 = pending_cells c2" using cells3 by (simp add: gr3_def group_cells_def)
      ultimately show ?thesis using mid og_ok(4,5) cells
        by (simp add: good_step_def c3_def c2_def conserves_def)
    qed
    then obtain c3 out3 where c3: "mid = Some (c3, out3)" "good_step k g {#(res, cell, acc)#} c out c3 out3" by blast
    then have ok3: "cp_ok k g {} (compact_indexes al c3)" by (simp add: good_step_def compact_indexes_ok)
    then have step3: "good_step k g {#} c3 out3 (compact_indexes al c3) out3" by (rule good_step_same) simp_all
    obtain c4 out4 where c4: "enforce_limit k al (compact_indexes al c3) out3 = Some (c4, out4)"
        "good_step k g {#} (compact_indexes al c3) out3 c4 out4" "compactor_bytes k c4 \<le> cp_byte_limit c4 \<or> cp_pending c4 = []"
      using enforce_limit_ok [OF ok3] by blast
    have "push_cell k g al res cell acc c out = Option.bind mid (\<lambda>(c, out). enforce_limit k al (compact_indexes al c) out)"
      using pass Some og by (simp add: push_cell_def mid_def gr_def [symmetric] h_def [symmetric] c2_def [symmetric] Let_def)
    then have "push_cell k g al res cell acc c out = Some (c4, out4)" by (simp add: c3(1) c4(1))
    moreover have "good_step k g {#(res, cell, acc)#} c out c4 out4"
      using good_step_then(1) [OF good_step_then(1) [OF c3(2) step3] c4(2)] .
    ultimately show ?thesis using c4(3) pass by (simp add: added_def)
  qed
qed

section \<open>Flushing\<close>

lemma decompose_bytes: "ob_estimated_bytes out \<le> ob_estimated_bytes (decompose k gr out)"
proof -
  have step: "ob_estimated_bytes out \<le> ob_estimated_bytes (buffer_record k r cell acc out)" for r cell acc out
    by (simp add: buffer_record_def push_sized_def)
  have "ob_estimated_bytes out \<le> ob_estimated_bytes (fold (\<lambda>(cell, acc). buffer_record k r cell acc) cs out)" for r cs
  proof (induction cs arbitrary: out)
    case (Cons x cs)
    then show ?case using step order_trans by (cases x) (simp, blast)
  qed simp
  then show ?thesis by (simp add: decompose_def)
qed

lemma flush_parent_bytes: "flush_parent k al p c out = Some (c', out') \<Longrightarrow> ob_estimated_bytes out \<le> ob_estimated_bytes out'"
  using decompose_bytes by (auto simp: flush_parent_def split: option.splits)

definition passed :: "h3_grid \<Rightarrow> f64 \<Rightarrow> nat \<Rightarrow> 'a compactor \<Rightarrow> bool" where
  "passed g horizon res c \<longleftrightarrow>
     (\<forall>p\<in>set (cp_pending c). res_index (gr_child_res (snd p)) = res \<longrightarrow> f64_le (siblings_south g (fst p)) horizon)"

lemma passed_top:
  assumes ok: "cp_ok k g {} c" and t: "\<And>t. heap_peek (cp_completion c ! res) = Some t \<Longrightarrow> f64_le (fst t) horizon"
  shows "passed g horizon res c"
  unfolding passed_def
proof (intro ballI impI)
  fix p assume p: "p \<in> set (cp_pending c)" "res_index (gr_child_res (snd p)) = res"
  then have "pend_ok k g {} c p" using ok by (simp add: cp_ok_def)
  then have "completion_entry p \<in> set (lh_entries (cp_completion c ! res))" "gr_siblings_south (snd p) = siblings_south g (fst p)"
    using p(2) by (simp_all only: pend_ok_def group_of_def empty_iff simp_thms)
  then have e: "(siblings_south g (fst p), fst p) \<in> set (lh_entries (cp_completion c ! res))" by (simp add: completion_entry_def)
  then obtain t where peek: "heap_peek (cp_completion c ! res) = Some t" by (cases "heap_peek (cp_completion c ! res)") (auto simp: heap_peek_def)
  have "\<not> entry_less t (siblings_south g (fst p), fst p)" using peek e entry_top_max by (simp add: heap_peek_def)
  then have "total_le (siblings_south g (fst p)) (fst t)" by (auto simp: entry_less_def total_le_def)
  moreover have "\<not> f64_is_nan (fst t)" using t [OF peek] f64_le_not_nan by blast
  ultimately have "f64_le (siblings_south g (fst p)) (fst t)" using total_le_le siblings_south_not_nan by blast
  then show "f64_le (siblings_south g (fst p)) horizon" using t [OF peek] f64_le_trans by blast
qed

lemma passed_mono: "passed g horizon res c \<Longrightarrow> set (cp_pending c') \<subseteq> set (cp_pending c) \<Longrightarrow> passed g horizon res c'"
  by (auto simp: passed_def)

definition flush_ok ::
  "('a, 'r) stream_kernel \<Rightarrow> h3_grid \<Rightarrow> f64 \<Rightarrow> usize \<Rightarrow> nat set \<Rightarrow> 'a compactor \<Rightarrow> 'r output_buffer \<Rightarrow> 'a compactor \<Rightarrow> 'r output_buffer \<Rightarrow> bool" where
  "flush_ok k g horizon max_bytes R c out c' out' \<longleftrightarrow>
     good_step k g {#} c out c' out' \<and> set (cp_pending c') \<subseteq> set (cp_pending c) \<and>
     ob_estimated_bytes out \<le> ob_estimated_bytes out' \<and>
     (max_bytes \<le> ob_estimated_bytes out' \<or> (\<forall>res\<in>R. passed g horizon res c'))"

lemma flush_ok_trans:
  assumes "flush_ok k g horizon mb R c out c1 out1" "flush_ok k g horizon mb S c1 out1 c' out'"
  shows "flush_ok k g horizon mb (R \<union> S) c out c' out'"
proof -
  have "good_step k g {#} c out c' out'" using assms good_step_then(1) unfolding flush_ok_def by blast
  moreover have "mb \<le> ob_estimated_bytes out' \<or> (\<forall>res\<in>R \<union> S. passed g horizon res c')"
  proof (cases "mb \<le> ob_estimated_bytes out1")
    case True
    then show ?thesis using assms(2) unfolding flush_ok_def by linarith
  next
    case False
    then have "\<forall>res\<in>R. passed g horizon res c1" using assms(1) by (simp add: flush_ok_def)
    then have "\<forall>res\<in>R. passed g horizon res c'" using passed_mono assms(2) unfolding flush_ok_def by blast
    then show ?thesis using assms(2) by (auto simp: flush_ok_def)
  qed
  ultimately show ?thesis using assms unfolding flush_ok_def by (intro conjI) auto
qed

lemma flush_completed_res_ok:
  "cp_ok k g {} c \<Longrightarrow> res < RESOLUTIONS \<Longrightarrow>
    \<exists>c' out'. flush_completed_res k al horizon mb res c out = Some (c', out') \<and> flush_ok k g horizon mb {res} c out c' out'"
proof (induction k al horizon mb res c out rule: flush_completed_res.induct)
  case (1 k al horizon mb res c out)
  have len: "\<not> length (cp_completion c) \<le> res" using "1.prems" by (simp add: cp_ok_def cp_shape_def)
  note refl_step = good_step_same [OF "1.prems"(1) refl refl refl, of out]
  show ?case
  proof (cases "heap_peek (cp_completion c ! res)")
    case None
    then have "passed g horizon res c" by (intro passed_top [OF "1.prems"(1)]) simp
    then show ?thesis using None len refl_step by (auto simp: flush_completed_res.simps flush_ok_def)
  next
    case (Some t)
    show ?thesis
    proof (cases "f64_le (fst t) horizon \<or> mb \<le> ob_estimated_bytes out")
      case True
      then have "mb \<le> ob_estimated_bytes out \<or> passed g horizon res c" using passed_top [OF "1.prems"(1), of res horizon] Some by fastforce
      then show ?thesis using Some True len refl_step by (auto simp: flush_completed_res.simps flush_ok_def)
    next
      case False
      define c1 where "c1 = set_completion res (heap_pop (cp_completion c ! res)) c"
      have pop: "cp_ok k g (insert (res, t) {}) c1" unfolding c1_def using "1.prems"(1) Some "1.prems"(2) by (rule pop_ok)
      have c1: "cp_pending c1 = cp_pending c" "cp_byte_limit c1 = cp_byte_limit c" "cp_enabled c1 = cp_enabled c" by (simp_all add: c1_def)
      show ?thesis
      proof (cases "is_live_completion c1 res t")
        case True
        obtain c2 out2 where c2: "flush_parent k al (snd t) c1 out = Some (c2, out2)" "cp_ok k g {} c2" "conserves k g {#} (c1, out) (c2, out2)"
            "cp_byte_limit c2 = cp_byte_limit c1" "cp_enabled c2 = cp_enabled c1" "set (cp_pending c2) \<subseteq> set (cp_pending c1)"
          using flush_popped [OF pop, of al out] by auto
        have "flush_ok k g horizon mb {} c out c2 out2"
          using c2 c1 flush_parent_bytes [OF c2(1)] by (auto simp: flush_ok_def good_step_def conserves_def pending_cells_def)
        moreover obtain c' out' where IH: "flush_completed_res k al horizon mb res c2 out2 = Some (c', out')"
            "flush_ok k g horizon mb {res} c2 out2 c' out'"
          using "1.IH"(1) [OF len Some False c1_def True c2(1) refl c2(2) "1.prems"(2)] by blast
        ultimately have "flush_ok k g horizon mb ({} \<union> {res}) c out c' out'" by (intro flush_ok_trans)
        then show ?thesis using len Some False True c2(1) IH(1)
          by (simp add: flush_completed_res.simps [of k al horizon mb res c out] c1_def [symmetric])
      next
        case dead: False
        have ok1: "cp_ok k g {} c1" using pop dead by (rule stale_popped)
        then have "good_step k g {#} c out c1 out" using c1 by (intro good_step_same) simp_all
        then have "flush_ok k g horizon mb {} c out c1 out" using c1 by (simp add: flush_ok_def)
        moreover obtain c' out' where IH: "flush_completed_res k al horizon mb res c1 out = Some (c', out')"
            "flush_ok k g horizon mb {res} c1 out c' out'"
          using "1.IH"(2) [OF len Some False c1_def dead ok1 "1.prems"(2)] by blast
        ultimately have "flush_ok k g horizon mb ({} \<union> {res}) c out c' out'" by (intro flush_ok_trans)
        then show ?thesis using len Some False dead IH(1)
          by (simp add: flush_completed_res.simps [of k al horizon mb res c out] c1_def [symmetric])
      qed
    qed
  qed
qed

lemma flush_completed_all_ok:
  "cp_ok k g {} c \<Longrightarrow> set rs \<subseteq> {..<RESOLUTIONS} \<Longrightarrow>
    \<exists>c' out'. flush_completed_all k al horizon streams mb rs c out = Some (c', out') \<and>
      flush_ok k g horizon mb {res\<in>set rs. streams (of_nat res)} c out c' out'"
proof (induction rs arbitrary: c out)
  case Nil
  then show ?case using good_step_same [of k g c c] by (simp add: flush_ok_def)
next
  case (Cons res rs)
  have sub: "set rs \<subseteq> {..<RESOLUTIONS}" "res < RESOLUTIONS" using Cons.prems(2) by auto
  have "\<exists>c1 out1. (if lh_entries (cp_completion c ! res) = [] \<or> \<not> streams (of_nat res) then Some (c, out)
      else flush_completed_res k al horizon mb res c out) = Some (c1, out1) \<and>
      flush_ok k g horizon mb {r. r = res \<and> streams (of_nat r)} c out c1 out1"
  proof (cases "lh_entries (cp_completion c ! res) = [] \<or> \<not> streams (of_nat res)")
    case True
    have "passed g horizon res c" if "lh_entries (cp_completion c ! res) = []"
      by (rule passed_top [OF Cons.prems(1)]) (simp add: heap_peek_def that)
    then show ?thesis using True good_step_same [OF Cons.prems(1) refl refl refl] by (auto simp: flush_ok_def)
  next
    case False
    then have "{r. r = res \<and> streams (of_nat r)} = {res}" by auto
    then show ?thesis using flush_completed_res_ok [OF Cons.prems(1) sub(2)] False by simp
  qed
  then obtain c1 out1 where c1: "(if lh_entries (cp_completion c ! res) = [] \<or> \<not> streams (of_nat res) then Some (c, out)
      else flush_completed_res k al horizon mb res c out) = Some (c1, out1)"
      "flush_ok k g horizon mb {r. r = res \<and> streams (of_nat r)} c out c1 out1" by blast
  then have "cp_ok k g {} c1" by (simp add: flush_ok_def good_step_def)
  from Cons.IH [OF this sub(1), of out1] obtain c' out' where c': "flush_completed_all k al horizon streams mb rs c1 out1 = Some (c', out')"
      "flush_ok k g horizon mb {res\<in>set rs. streams (of_nat res)} c1 out1 c' out'" by blast
  have "{r. r = res \<and> streams (of_nat r)} \<union> {res\<in>set rs. streams (of_nat res)} = {r\<in>set (res # rs). streams (of_nat r)}" by auto
  then have "flush_ok k g horizon mb {r\<in>set (res # rs). streams (of_nat r)} c out c' out'" using flush_ok_trans [OF c1(2) c'(2)] by simp
  then show ?case using c1(1) c'(1) by (auto split: if_splits)
qed

lemma flush_completed_ok:
  assumes "cp_ok k g {} c"
  shows "\<exists>c' out'. flush_completed k al horizon streams mb c out = Some (c', out') \<and>
    flush_ok k g horizon mb {res. res < RESOLUTIONS \<and> streams (of_nat res)} c out c' out'"
proof -
  have "set [0..<RESOLUTIONS] \<subseteq> {..<RESOLUTIONS}" by auto
  from flush_completed_all_ok [OF assms this, of al horizon streams mb out] show ?thesis by (simp add: flush_completed_def)
qed

lemma flush_entries_ok:
  "cp_ok k g (Pair res ` set es) c \<Longrightarrow> \<exists>c' out'. flush_entries k al res es c out = Some (c', out') \<and> good_step k g {#} c out c' out'"
proof (induction es arbitrary: c out)
  case Nil
  then show ?case using good_step_same [of k g c c] by simp
next
  case (Cons e es)
  then have ok: "cp_ok k g (insert (res, e) (Pair res ` set es)) c" by simp
  show ?case
  proof (cases "is_live_completion c res e")
    case True
    obtain c1 out1 where c1: "flush_parent k al (snd e) c out = Some (c1, out1)" "cp_ok k g (Pair res ` set es) c1"
        "conserves k g {#} (c, out) (c1, out1)" "cp_byte_limit c1 = cp_byte_limit c" "cp_enabled c1 = cp_enabled c"
      using flush_popped [OF ok, of al out] by auto
    obtain c' out' where c': "flush_entries k al res es c1 out1 = Some (c', out')" "good_step k g {#} c1 out1 c' out'"
      using Cons.IH [OF c1(2)] by blast
    then have "good_step k g {#} c out c' out'" using c1 conserves_step(1) unfolding good_step_def by fastforce
    then show ?thesis using True c1(1) c'(1) by simp
  next
    case False
    then have "cp_ok k g (Pair res ` set es) c" using stale_popped [OF ok] by simp
    then show ?thesis using Cons.IH False by simp
  qed
qed

lemma flush_resolution_ok:
  assumes "cp_ok k g {} c"
  shows "\<exists>c' out'. flush_resolution k al child_res c out = Some (c', out') \<and> good_step k g {#} c out c' out'"
proof -
  define res where "res = res_index child_res"
  define es where "es = lh_entries (cp_completion c ! res)"
  define c1 where "c1 = set_completion res heap_new c"
  have "pend_ok k g (Pair res ` set es) c1 p" if "p \<in> set (cp_pending c)" for p
  proof -
    have "pend_ok k g {} c p" using assms that by (simp add: cp_ok_def)
    then show ?thesis
      by (cases "res = res_index (gr_child_res (snd p))") (simp_all add: pend_ok_def c1_def es_def cp_index_def)
  qed
  then have "cp_ok k g (Pair res ` set es) c1" using assms by (simp add: cp_ok_def cp_shape_def c1_def)
  from flush_entries_ok [OF this, of al out] obtain c' out' where c': "flush_entries k al res es c1 out = Some (c', out')"
      "good_step k g {#} c1 out c' out'" by blast
  moreover have "good_step k g {#} c out c' out'"
    using c'(2) by (simp add: good_step_def conserves_def pending_cells_def c1_def)
  ultimately show ?thesis by (simp add: flush_resolution_def Let_def res_def es_def c1_def)
qed

lemma flush_all_ok:
  assumes "cp_ok k g {} c"
  shows "good_step k g {#} c out (fst (flush_all k c out)) (snd (flush_all k c out))" "cp_pending (fst (flush_all k c out)) = []"
proof -
  have "conserves k g {#} (c\<lparr> cp_pending := ps \<rparr>, out) (c\<lparr> cp_pending := [] \<rparr>, fold (\<lambda>p. decompose k (snd p)) ps out)" for ps
  proof (induction ps arbitrary: out)
    case (Cons p ps)
    have "conserves k g {#} (c\<lparr> cp_pending := p # ps \<rparr>, out) (c\<lparr> cp_pending := ps \<rparr>, decompose k (snd p) out)"
      by (rule conserves_decompose) (simp add: pending_cells_def ac_simps)
    from conserves_step(1) [OF this Cons.IH] show ?case by simp
  qed (simp add: conserves_same)
  from this [of "cp_pending c"] show "good_step k g {#} c out (fst (flush_all k c out)) (snd (flush_all k c out))"
    using assms by (simp add: flush_all_def good_step_def compactor_clear_def cp_ok_def cp_shape_def conserves_def pending_cells_def)
  show "cp_pending (fst (flush_all k c out)) = []" by (simp add: flush_all_def compactor_clear_def)
qed

lemma pending_emit_south_ok:
  assumes ok: "cp_ok k g {} c" and nan: "\<forall>x. \<not> f64_is_nan (hg_south g x)" and p: "(p, gr) \<in> set (cp_pending c)"
    and x: "x \<in> insert p (fst ` set (gr_children gr))"
  shows "f64_le (hg_south g x) (fst (pending_emit_south c))"
proof -
  define h where "h = drop_stale (emit_live c) (cp_emit c)"
  have pend: "pend_ok k g {} c (p, gr)" using ok p by (simp add: cp_ok_def)
  then have bound: "\<forall>x\<in>insert p (fst ` set (gr_children gr)). f64_le (hg_south g x) (gr_emit_south gr)"
    using nan by (simp add: pend_ok_def group_of_def)
  then have e: "\<not> f64_is_nan (gr_emit_south gr)" using f64_le_not_nan by blast
  have "map_of (cp_pending c) p = Some gr" using ok p by (simp add: cp_ok_def cp_shape_def)
  then have "emit_live c (gr_emit_south gr, p)" using e by (simp add: emit_live_def f64_eq_self)
  moreover have "(gr_emit_south gr, p) \<in> set (lh_entries (cp_emit c))" using pend by (simp add: pend_ok_def emit_entry_def)
  ultimately have mem: "(gr_emit_south gr, p) \<in> set (lh_entries h)" unfolding h_def by (intro drop_stale_keeps)
  then obtain t where t: "heap_peek h = Some t" by (cases "heap_peek h") (auto simp: heap_peek_def)
  have "\<not> entry_less t (gr_emit_south gr, p)" using t mem entry_top_max by (simp add: heap_peek_def)
  then have le: "total_le (gr_emit_south gr) (fst t)" by (auto simp: entry_less_def total_le_def)
  have "emit_live c t" using t unfolding h_def by (rule drop_stale_peek)
  then have "\<not> f64_is_nan (fst t)" using f64_eq_nan by (auto simp: emit_live_def split: option.splits)
  then have "f64_le (gr_emit_south gr) (fst t)" using total_le_le [OF le e] by blast
  moreover have "fst (pending_emit_south c) = fst t" using t by (simp add: pending_emit_south_def h_def Let_def)
  ultimately show ?thesis using bound x f64_le_trans by metis
qed

lemma pending_emit_south_keeps:
  assumes ok: "cp_ok k g {} c" and nan: "\<forall>x. \<not> f64_is_nan (hg_south g x)"
  shows "good_step k g {#} c out (snd (pending_emit_south c)) out"
proof (rule good_step_same)
  have "pend_ok k g {} (snd (pending_emit_south c)) p" if "p \<in> set (cp_pending c)" for p
  proof -
    have pend: "pend_ok k g {} c p" using ok that by (simp add: cp_ok_def)
    then have "f64_le (hg_south g (fst p)) (gr_emit_south (snd p))" using nan by (simp add: pend_ok_def group_of_def)
    then have "\<not> f64_is_nan (gr_emit_south (snd p))" using f64_le_not_nan by blast
    moreover have "map_of (cp_pending c) (fst p) = Some (snd p)" using ok that by (simp add: cp_ok_def cp_shape_def)
    ultimately have "emit_live c (emit_entry p)" by (simp add: emit_live_def emit_entry_def f64_eq_self)
    then have "emit_entry p \<in> set (lh_entries (drop_stale (emit_live c) (cp_emit c)))"
      using pend drop_stale_keeps by (auto simp: pend_ok_def)
    then show ?thesis using pend by (simp add: pend_ok_def pending_emit_south_def Let_def)
  qed
  then show "cp_ok k g {} (snd (pending_emit_south c))" using ok by (simp add: cp_ok_def cp_shape_def pending_emit_south_def Let_def)
qed (simp_all add: pending_emit_south_def Let_def)

section \<open>Runs\<close>

datatype 'a compact_op =
    PushCell u8 u64 'a | FlushParent u64 | FlushCompleted f64 "u8 \<Rightarrow> bool" usize | FlushResolution u8 | PendingSouth | FlushAll | TakeBatch usize

text \<open>A stream's compactor and output buffer, with what its consumer has taken so far.\<close>

definition compactor_step ::
  "('a, 'r) stream_kernel \<Rightarrow> h3_grid \<Rightarrow> compact_alloc \<Rightarrow> 'a compact_op \<Rightarrow> 'a compactor \<times> 'r output_buffer \<times> 'r list \<Rightarrow>
    ('a compactor \<times> 'r output_buffer \<times> 'r list) option" where
  "compactor_step k g al op s =
     (case s of (c, out, taken) \<Rightarrow>
        (case op of
           TakeBatch n \<Rightarrow> map_option (\<lambda>(batch, out). (c, out, taken @ batch)) (take_batch n out)
         | _ \<Rightarrow>
           map_option (\<lambda>(c, out). (c, out, taken))
             (case op of
                PushCell res cell acc \<Rightarrow> push_cell k g al res cell acc c out
              | FlushParent p \<Rightarrow> flush_parent k al p c out
              | FlushCompleted horizon streams max_bytes \<Rightarrow> flush_completed k al horizon streams max_bytes c out
              | FlushResolution res \<Rightarrow> flush_resolution k al res c out
              | PendingSouth \<Rightarrow> Some (snd (pending_emit_south c), out)
              | _ \<Rightarrow> Some (flush_all k c out))))"

fun compactor_run ::
  "('a, 'r) stream_kernel \<Rightarrow> h3_grid \<Rightarrow> compact_alloc \<Rightarrow> 'a compact_op list \<Rightarrow> 'a compactor \<times> 'r output_buffer \<times> 'r list \<Rightarrow>
    ('a compactor \<times> 'r output_buffer \<times> 'r list) option" where
  "compactor_run k g al [] s = Some s"
| "compactor_run k g al (op # ops) s = Option.bind (compactor_step k g al op s) (compactor_run k g al ops)"

fun op_cells :: "('a, 'r) stream_kernel \<Rightarrow> 'a compact_op \<Rightarrow> (u8 \<times> u64 \<times> 'a) multiset" where
  "op_cells k (PushCell res cell acc) = added k res cell acc"
| "op_cells k _ = {#}"

text \<open>The grid laws the code relies on: a child is one resolution finer, and southern bounds are numbers.\<close>

definition grid_ok :: "h3_grid \<Rightarrow> bool" where
  "grid_ok g \<longleftrightarrow> (\<forall>x. \<not> f64_is_nan (hg_south g x))"

definition op_ok :: "h3_grid \<Rightarrow> 'a compact_op \<Rightarrow> bool" where
  "op_ok g op \<longleftrightarrow>
     (case op of PushCell res cell _ \<Rightarrow> (case hg_parent g cell of None \<Rightarrow> True | Some p \<Rightarrow> res = hg_resolution g p + 1) | _ \<Rightarrow> True)"

definition accounted ::
  "('a, 'r) stream_kernel \<Rightarrow> h3_grid \<Rightarrow> (u8 \<times> u64 \<times> 'a) multiset \<Rightarrow> 'a compactor \<times> 'r output_buffer \<times> 'r list \<Rightarrow> bool" where
  "accounted k g M s \<longleftrightarrow>
     (case s of (c, out, taken) \<Rightarrow>
        cp_ok k g {} c \<and> output_ok out \<and>
        (\<exists>es. taken @ map fst (ob_records out) = map (emission_record k g) es \<and> (\<forall>e\<in>set es. emission_ok g e) \<and>
           mset (concat (map (emission_cells g) es)) + pending_cells c = M))"

lemma accounted_step:
  assumes acc: "accounted k g M (c, out, taken)" and step: "good_step k g A c out c' out'"
  shows "accounted k g (M + A) (c', out', taken)"
proof -
  obtain es where es: "taken @ map fst (ob_records out) = map (emission_record k g) es" "\<forall>e\<in>set es. emission_ok g e"
      "mset (concat (map (emission_cells g) es)) + pending_cells c = M"
    using acc by (auto simp: accounted_def)
  obtain fs where fs: "map fst (ob_records out') = map fst (ob_records out) @ map (emission_record k g) fs" "\<forall>e\<in>set fs. emission_ok g e"
      "mset (concat (map (emission_cells g) fs)) + pending_cells c' = pending_cells c + A"
    using step by (auto simp: good_step_def conserves_def)
  have "mset (concat (map (emission_cells g) (es @ fs))) + pending_cells c' =
      mset (concat (map (emission_cells g) es)) + (mset (concat (map (emission_cells g) fs)) + pending_cells c')"
    by (simp only: map_append concat_append mset_append add.assoc)
  also have "\<dots> = M + A" by (simp only: fs(3) es(3) [symmetric] add.assoc)
  finally have "mset (concat (map (emission_cells g) (es @ fs))) + pending_cells c' = M + A" .
  moreover have "taken @ map fst (ob_records out') = map (emission_record k g) (es @ fs)" using es(1) fs(1) by simp
  moreover have "\<forall>e\<in>set (es @ fs). emission_ok g e" using es(2) fs(2) by auto
  moreover have "output_ok out'" "cp_ok k g {} c'" using acc step by (simp_all add: accounted_def good_step_def conserves_def)
  ultimately show ?thesis unfolding accounted_def by blast
qed

lemma take_accounted:
  assumes acc: "accounted k g M (c, out, taken)"
  shows "\<exists>batch out'. take_batch n out = Some (batch, out') \<and> accounted k g M (c, out', taken @ batch)"
proof -
  have "output_ok out" using acc by (simp add: accounted_def)
  from take_batch_ok [OF this, of n] obtain out' where out': "take_batch n out = Some (map fst (take n (ob_records out)), out')"
      "ob_records out' = drop n (ob_records out)" "output_ok out'" by blast
  have "(taken @ map fst (take n (ob_records out))) @ map fst (ob_records out') = taken @ map fst (ob_records out)"
    by (simp add: out'(2) map_append [symmetric] del: map_append)
  then show ?thesis using acc out'(1,3) unfolding accounted_def by auto
qed

lemma compactor_step_ok:
  assumes g: "grid_ok g" and op: "op_ok g op" and acc: "accounted k g M s"
  shows "\<exists>s'. compactor_step k g al op s = Some s' \<and> accounted k g (M + op_cells k op) s' \<and>
    cp_byte_limit (fst s') = cp_byte_limit (fst s) \<and> cp_enabled (fst s') = cp_enabled (fst s) \<and>
    (op = FlushAll \<longrightarrow> cp_pending (fst s') = [])"
proof -
  obtain c out taken where s: "s = (c, out, taken)" by (cases s)
  have ok: "cp_ok k g {} c" using acc by (simp add: accounted_def s)
  have fin: "\<exists>s'. map_option (\<lambda>(c, out). (c, out, taken)) r = Some s' \<and> accounted k g (M + A) s' \<and>
      cp_byte_limit (fst s') = cp_byte_limit (fst s) \<and> cp_enabled (fst s') = cp_enabled (fst s)"
    if "\<exists>c' out'. r = Some (c', out') \<and> good_step k g A c out c' out'" for r A
    using that accounted_step [OF acc [unfolded s]] by (auto simp: s good_step_def)
  show ?thesis
  proof (cases op)
    case (PushCell res cell a)
    have "\<And>p. hg_parent g cell = Some p \<Longrightarrow> res = hg_resolution g p + 1" using op by (simp add: op_ok_def PushCell)
    from fin [of "push_cell k g al res cell a c out" "added k res cell a"] push_cell_ok [where cell = cell, OF ok this, where al = al and acc = a and out = out]
    show ?thesis unfolding PushCell by (auto simp: compactor_step_def s)
  next
    case (FlushParent p)
    have "\<exists>c' out'. flush_parent k al p c out = Some (c', out') \<and> good_step k g {#} c out c' out'"
      using flush_parent_ok [OF ok, of al p out] by (auto simp: good_step_def)
    from fin [OF this] show ?thesis by (auto simp: compactor_step_def s FlushParent)
  next
    case (FlushCompleted h st mb)
    have "\<exists>c' out'. flush_completed k al h st mb c out = Some (c', out') \<and> good_step k g {#} c out c' out'"
      using flush_completed_ok [OF ok, of al h st mb out] by (auto simp: flush_ok_def)
    from fin [OF this] show ?thesis by (auto simp: compactor_step_def s FlushCompleted)
  next
    case (FlushResolution res)
    from fin [OF flush_resolution_ok [OF ok, of al res out]] show ?thesis by (auto simp: compactor_step_def s FlushResolution)
  next
    case PendingSouth
    have "good_step k g {#} c out (snd (pending_emit_south c)) out"
      using pending_emit_south_keeps [OF ok] g by (simp add: grid_ok_def)
    with fin [of "Some (snd (pending_emit_south c), out)" "{#}"] show ?thesis by (auto simp: compactor_step_def s PendingSouth)
  next
    case FlushAll
    have "good_step k g {#} c out (fst (flush_all k c out)) (snd (flush_all k c out))" using flush_all_ok(1) [OF ok] .
    with fin [of "Some (flush_all k c out)" "{#}"] flush_all_ok(2) [OF ok, of out] show ?thesis
      by (auto simp: compactor_step_def s FlushAll split: prod.splits)
  next
    case (TakeBatch n)
    with take_accounted [OF acc [unfolded s], of n] show ?thesis by (auto simp: compactor_step_def s)
  qed
qed

definition compactor_start :: "bool \<Rightarrow> usize \<Rightarrow> 'a compactor \<times> 'r output_buffer \<times> 'r list" where
  "compactor_start enabled limit = (with_byte_limit enabled limit, output_new, [])"

lemma start_accounted: "accounted k g {#} (compactor_start enabled limit)"
proof -
  have "cp_ok k g {} (with_byte_limit enabled limit)" by (simp add: with_byte_limit_def cp_ok_def cp_shape_def)
  moreover have "pending_cells (with_byte_limit enabled limit) = {#}" by (simp add: with_byte_limit_def pending_cells_def)
  ultimately show ?thesis by (simp add: accounted_def compactor_start_def output_new_def output_ok_def)
qed

lemma compactor_run_ok:
  assumes "grid_ok g" "\<forall>op\<in>set ops. op_ok g op" "accounted k g M s"
  shows "\<exists>s'. compactor_run k g al ops s = Some s' \<and> accounted k g (M + sum_list (map (op_cells k) ops)) s' \<and>
    cp_byte_limit (fst s') = cp_byte_limit (fst s) \<and> cp_enabled (fst s') = cp_enabled (fst s) \<and>
    (ops \<noteq> [] \<and> last ops = FlushAll \<longrightarrow> cp_pending (fst s') = [])"
  using assms(2,3)
proof (induction ops arbitrary: s M)
  case (Cons op ops)
  obtain s1 where s1: "compactor_step k g al op s = Some s1" "accounted k g (M + op_cells k op) s1"
      "cp_byte_limit (fst s1) = cp_byte_limit (fst s)" "cp_enabled (fst s1) = cp_enabled (fst s)" "op = FlushAll \<longrightarrow> cp_pending (fst s1) = []"
    using compactor_step_ok [OF assms(1) _ Cons.prems(2), of op al] Cons.prems(1) by auto
  have "\<forall>op\<in>set ops. op_ok g op" using Cons.prems(1) by simp
  from Cons.IH [OF this s1(2)] obtain s' where "compactor_run k g al ops s1 = Some s'" "accounted k g (M + op_cells k op + sum_list (map (op_cells k) ops)) s'"
      "cp_byte_limit (fst s') = cp_byte_limit (fst s1)" "cp_enabled (fst s') = cp_enabled (fst s1)"
      "ops \<noteq> [] \<and> last ops = FlushAll \<longrightarrow> cp_pending (fst s') = []" by blast
  then show ?case using s1 by (cases "ops = []") (auto simp: add.assoc)
qed simp

definition pushed_cells :: "('a, 'r) stream_kernel \<Rightarrow> 'a compact_op list \<Rightarrow> (u8 \<times> u64 \<times> 'a) multiset" where
  "pushed_cells k ops = sum_list (map (op_cells k) ops)"


text \<open>
  C22. After any history of a compactor: when a push has grouped a cell, the estimate is within the byte
  limit or no group is left; the published horizon bounds the southern bound of every record a
  pending group may still emit; and once \<open>flush_completed\<close> was not stopped by a full output, no
  group of a streaming resolution is left whose children all lie north of the horizon.
\<close>

theorem compactor_bounds:
  assumes g: "grid_ok g" and ops: "\<forall>op\<in>set ops. op_ok g op"
    and run: "compactor_run k g al ops (compactor_start enabled limit) = Some (c, out, taken)"
  shows "(enabled \<and> kn_passes_filter k acc \<and> hg_parent g cell = Some p \<and> res = hg_resolution g p + 1 \<longrightarrow>
      (\<exists>c' out'. push_cell k g al res cell acc c out = Some (c', out') \<and> (compactor_bytes k c' \<le> limit \<or> cp_pending c' = []))) \<and>
    ((q, gr) \<in> set (cp_pending c) \<and> (x = q \<or> x \<in> fst ` set (gr_children gr)) \<longrightarrow> f64_le (hg_south g x) (fst (pending_emit_south c))) \<and>
    (\<exists>c' out'. flush_completed k al horizon streams max_bytes c out = Some (c', out') \<and>
      (ob_estimated_bytes out' < max_bytes \<longrightarrow>
       (\<forall>(q, gr)\<in>set (cp_pending c'). streams (of_nat (res_index (gr_child_res gr))) \<longrightarrow> f64_le (siblings_south g q) horizon)))"
proof (intro conjI)
  obtain s' where s': "compactor_run k g al ops (compactor_start enabled limit) = Some s'"
      "accounted k g ({#} + sum_list (map (op_cells k) ops)) s'" "cp_byte_limit (fst s') = limit" "cp_enabled (fst s') = enabled"
    using compactor_run_ok [OF g ops start_accounted, of k al enabled limit] by (auto simp: compactor_start_def with_byte_limit_def)
  have "s' = (c, out, taken)" using s'(1) run by simp
  then have ok: "cp_ok k g {} c" and fields: "cp_byte_limit c = limit" "cp_enabled c = enabled"
    using s'(2,3,4) by (simp_all add: accounted_def)
  show "enabled \<and> kn_passes_filter k acc \<and> hg_parent g cell = Some p \<and> res = hg_resolution g p + 1 \<longrightarrow>
      (\<exists>c' out'. push_cell k g al res cell acc c out = Some (c', out') \<and> (compactor_bytes k c' \<le> limit \<or> cp_pending c' = []))"
  proof
    assume a: "enabled \<and> kn_passes_filter k acc \<and> hg_parent g cell = Some p \<and> res = hg_resolution g p + 1"
    then have "\<And>p. hg_parent g cell = Some p \<Longrightarrow> res = hg_resolution g p + 1" by simp
    from push_cell_ok [where cell = cell, OF ok this, where al = al and acc = acc and out = out] obtain c' out' where
      "push_cell k g al res cell acc c out = Some (c', out')" "good_step k g (added k res cell acc) c out c' out'"
      "compactor_bytes k c' \<le> cp_byte_limit c' \<or> cp_pending c' = []" using a fields(2) by auto
    then show "\<exists>c' out'. push_cell k g al res cell acc c out = Some (c', out') \<and> (compactor_bytes k c' \<le> limit \<or> cp_pending c' = [])"
      using fields(1) by (auto simp: good_step_def)
  qed
  show "(q, gr) \<in> set (cp_pending c) \<and> (x = q \<or> x \<in> fst ` set (gr_children gr)) \<longrightarrow> f64_le (hg_south g x) (fst (pending_emit_south c))"
    using pending_emit_south_ok [OF ok] g by (auto simp: grid_ok_def)
  obtain c' out' where c': "flush_completed k al horizon streams max_bytes c out = Some (c', out')"
      "flush_ok k g horizon max_bytes {res. res < RESOLUTIONS \<and> streams (of_nat res)} c out c' out'"
    using flush_completed_ok [OF ok] by blast
  have "\<forall>(q, gr)\<in>set (cp_pending c'). streams (of_nat (res_index (gr_child_res gr))) \<longrightarrow> f64_le (siblings_south g q) horizon"
    if "ob_estimated_bytes out' < max_bytes"
  proof -
    have "passed g horizon (res_index r) c'" if "streams (of_nat (res_index r))" for r
      using c'(2) \<open>ob_estimated_bytes out' < max_bytes\<close> that by (simp add: flush_ok_def)
    then show ?thesis unfolding passed_def by fastforce
  qed
  then show "\<exists>c' out'. flush_completed k al horizon streams max_bytes c out = Some (c', out') \<and>
      (ob_estimated_bytes out' < max_bytes \<longrightarrow>
       (\<forall>(q, gr)\<in>set (cp_pending c'). streams (of_nat (res_index (gr_child_res gr))) \<longrightarrow> f64_le (siblings_south g q) horizon))"
    using c'(1) by blast
qed

text \<open>A grid of one parent, 100, with children 1 to 7, and sums of weights; capacities are the lengths.\<close>

definition example_grid :: h3_grid where
  "example_grid =
     \<lparr> hg_parent = (\<lambda>c. if 1 \<le> c \<and> c \<le> 7 then Some 100 else None), hg_children = (\<lambda>_. [1, 2, 3, 4, 5, 6, 7]),
       hg_resolution = (\<lambda>c. if c = 100 then 4 else 5), hg_is_pentagon = (\<lambda>_. False), hg_south = (\<lambda>_. 0) \<rparr>"

definition example_kernel :: "(nat, u64 \<times> nat) stream_kernel" where
  "example_kernel =
     \<lparr> kn_passes_filter = (\<lambda>n. 0 < n), kn_new_parent = 0, kn_merge = (+), kn_heap_bytes = (\<lambda>_. 0),
       kn_make_record = (\<lambda>_ c n. (c, n)), kn_record_size = 16, kn_child_size = 16, kn_entry_size = 64 \<rparr>"

definition example_alloc :: compact_alloc where
  "example_alloc =
     \<lparr> al_insert = (\<lambda>_ n. n), al_remove = (\<lambda>_ n. n), al_push = (\<lambda>_ n. n), al_shrink_table = (\<lambda>_ n. n),
       al_shrink_heap = (\<lambda>_ n. n), al_collect = (\<lambda>n. n), al_children = (\<lambda>_. 7) \<rparr>"

definition example_ops :: "nat compact_op list" where
  "example_ops = [PushCell 5 1 10, PushCell 5 2 0, PushCell 5 200 1, FlushAll]"

lemma example_ok: "grid_ok example_grid" "\<forall>op\<in>set example_ops. op_ok example_grid op"
  by (auto simp: grid_ok_def example_grid_def example_ops_def op_ok_def)


theorem compactor_bounds_witness:
  "\<exists>c' out'. push_cell example_kernel example_grid example_alloc 5 1 10 (with_byte_limit True 100000) output_new = Some (c', out') \<and>
    (compactor_bytes example_kernel c' \<le> 100000 \<or> cp_pending c' = [])"
  using compactor_bounds [of example_grid "[]" example_kernel example_alloc True 100000 "with_byte_limit True 100000" output_new "[]" 10 1 100 5]
    example_ok(1) by (simp add: compactor_start_def) (simp add: example_grid_def example_kernel_def)

end
