(* ===== verification/Partition.thy ===== *)
theory Partition
  imports Byte_Codec Accumulator
begin

text \<open>
  Splitting a mosaic into partitions that independent workers scan, and the classification of
  their cells (\<open>aggregator/multi_horizon/partition.rs\<close>).

  A mosaic is what the planner reads of it. The certified bounds of a chunk (\<open>crs\<close>) and the
  boundaries and parents of cells (\<open>h3o\<close>) are parameters. \<open>u32\<close> columns and rows are naturals below
  the chunk counts of their tile.
\<close>

section \<open>Mosaics and partitions\<close>

record mosaic_tile =
  mt_width :: nat
  mt_height :: nat
  mt_chunk_width :: nat
  mt_chunk_height :: nat
  mt_chunks_across :: nat
  mt_chunks_down :: nat
  mt_geotransform :: "f64 list"
  mt_crs_identity :: bytes

text \<open>A chunk reference is a tile and the index of a chunk in it.\<close>

record mosaic =
  ms_tiles :: "mosaic_tile list"
  ms_overlap_rule :: nat
  ms_bbox :: "f64 list option"
  ms_chunk_refs :: "(nat \<times> nat) list"

record chunk_block =
  cb_tile_idx :: nat
  cb_col_start :: nat
  cb_col_end :: nat
  cb_row_start :: nat
  cb_row_end :: nat

record scan_partition =
  sp_index :: nat
  sp_count :: nat
  sp_mosaic_fingerprint :: u64
  sp_blocks :: "chunk_block list"

definition block_contains :: "chunk_block \<Rightarrow> nat \<Rightarrow> nat \<Rightarrow> nat \<Rightarrow> bool" where
  "block_contains b tile_idx col row \<longleftrightarrow>
     cb_tile_idx b = tile_idx \<and> cb_col_start b \<le> col \<and> col < cb_col_end b \<and> cb_row_start b \<le> row \<and> row < cb_row_end b"

definition chunk_col_row :: "mosaic \<Rightarrow> nat \<times> nat \<Rightarrow> nat \<times> nat" where
  "chunk_col_row m c = (let across = max (mt_chunks_across (ms_tiles m ! fst c)) 1 in (snd c mod across, snd c div across))"

definition contains_chunk :: "mosaic \<Rightarrow> scan_partition \<Rightarrow> nat \<times> nat \<Rightarrow> bool" where
  "contains_chunk m p c = (case chunk_col_row m c of (col, row) \<Rightarrow> list_ex (\<lambda>b. block_contains b (fst c) col row) (sp_blocks p))"

definition chunk_count :: "mosaic \<Rightarrow> scan_partition \<Rightarrow> nat" where
  "chunk_count m p = length (filter (contains_chunk m p) (ms_chunk_refs m))"

section \<open>The fingerprint\<close>

text \<open>\<open>feed\<close>: FNV-1a over the bytes of a word.\<close>

definition fnv_feed :: "u64 \<Rightarrow> u64 \<Rightarrow> u64" where
  "fnv_feed v h = fold (\<lambda>byte h. (h XOR ucast byte) * 0x100000001b3) (to_le_bytes v) h"

fun chunks_of_8 :: "bytes \<Rightarrow> bytes list" where
  "chunks_of_8 bs = (if bs = [] then [] else take 8 bs # chunks_of_8 (drop 8 bs))"

declare chunks_of_8.simps [simp del]

definition fingerprint_words :: "mosaic \<Rightarrow> u64 list" where
  "fingerprint_words m =
     [word_of_nat (length (ms_tiles m)), word_of_nat (ms_overlap_rule m)] @
     (case ms_bbox m of None \<Rightarrow> [0] | Some bbox \<Rightarrow> 1 # bbox) @
     concat (map (\<lambda>t.
       map word_of_nat [mt_width t, mt_height t, mt_chunk_width t, mt_chunk_height t, mt_chunks_across t, mt_chunks_down t] @
       mt_geotransform t @ [word_of_nat (length (mt_crs_identity t))] @
       map (\<lambda>c. from_le_bytes (c @ replicate (8 - length c) 0)) (chunks_of_8 (mt_crs_identity t))) (ms_tiles m)) @
     [word_of_nat (length (ms_chunk_refs m))] @
     concat (map (\<lambda>c. [word_of_nat (fst c), word_of_nat (snd c)]) (ms_chunk_refs m))"

definition mosaic_fingerprint :: "mosaic \<Rightarrow> u64" where
  "mosaic_fingerprint m = fold fnv_feed (fingerprint_words m) 0xcbf29ce484222325"

definition validate_for :: "mosaic \<Rightarrow> scan_partition \<Rightarrow> rh3_error + unit" where
  "validate_for m p =
     (if sp_count p = 0 \<or> sp_count p \<le> sp_index p then Err (InvalidParameter ''scan partition index out of range'')
      else if mosaic_fingerprint m \<noteq> sp_mosaic_fingerprint p
      then Err (InvalidParameter ''scan partition was planned for a different mosaic'')
      else fold (\<lambda>b r. bind_res r (\<lambda>_.
             if length (ms_tiles m) \<le> cb_tile_idx b then Err (InvalidParameter ''scan partition block names a missing tile'')
             else let t = ms_tiles m ! cb_tile_idx b
                  in if cb_col_end b \<le> cb_col_start b \<or> cb_row_end b \<le> cb_row_start b \<or>
                        mt_chunks_across t < cb_col_end b \<or> mt_chunks_down t < cb_row_end b
                     then Err (InvalidParameter ''scan partition block does not fit tile'') else Ok ())) (sp_blocks p) (Ok ()))"

section \<open>Planning\<close>

definition clamp_usize :: "usize \<Rightarrow> usize \<Rightarrow> usize \<Rightarrow> usize" where
  "clamp_usize lo hi x = (if x < lo then lo else if hi < x then hi else x)"

definition div_ceil :: "usize \<Rightarrow> usize \<Rightarrow> usize" where
  "div_ceil a b = (a + b - 1) div b"

text \<open>\<open>(0..n).step_by(step)\<close>.\<close>

definition step_by :: "usize \<Rightarrow> usize \<Rightarrow> usize list" where
  "step_by n stp = map (\<lambda>i. i * stp) [0..<div_ceil n stp]"

definition present_chunks :: "mosaic \<Rightarrow> nat \<Rightarrow> (nat \<times> nat) list" where
  "present_chunks m tile_idx = map (chunk_col_row m) (filter (\<lambda>c. fst c = tile_idx) (ms_chunk_refs m))"

definition block_width :: "usize \<Rightarrow> mosaic_tile \<Rightarrow> usize \<Rightarrow> usize" where
  "block_width target t cols =
     (let aspect = f64_div (f64_of_int (int (max (mt_chunk_height t) 1))) (f64_of_int (int (max (mt_chunk_width t) 1)))
      in clamp_usize 1 cols (f64_to_usize (f64_round (f64_sqrt (f64_mul (f64_of_int (int target)) aspect)))))"

text \<open>Blocks of a tile with the number of streamed chunks in each, those without one left out.\<close>

definition tile_blocks :: "mosaic \<Rightarrow> usize \<Rightarrow> nat \<Rightarrow> (chunk_block \<times> nat) list" where
  "tile_blocks m target tile_idx =
     (let chunks = present_chunks m tile_idx
      in if chunks = [] then []
         else let c0 = Min (set (map fst chunks)); c1 = Max (set (map fst chunks)) + 1;
                  r0 = Min (set (map snd chunks)); r1 = Max (set (map snd chunks)) + 1;
                  cols = c1 - c0; rows = r1 - r0;
                  bw = block_width target (ms_tiles m ! tile_idx) cols;
                  bh = clamp_usize 1 rows (div_ceil target bw);
                  grid = fold (\<lambda>(c, r) grid. grid[(r - r0) * cols + (c - c0) := True]) chunks (replicate (cols * rows) False)
              in concat (map (\<lambda>br. concat (map (\<lambda>bc.
                   let re = min (br + bh) rows; ce = min (bc + bw) cols;
                       n = length (filter (\<lambda>i. grid ! i) (concat (map (\<lambda>r. map (\<lambda>c. r * cols + c) [bc..<ce]) [br..<re])))
                   in if 0 < n then [(\<lparr> cb_tile_idx = tile_idx, cb_col_start = c0 + bc, cb_col_end = c0 + ce,
                                        cb_row_start = r0 + br, cb_row_end = r0 + re \<rparr>, n)] else []) (step_by cols bw))) (step_by rows bh)))"

text \<open>Packing consecutive blocks while they fit the target.\<close>

fun pack_blocks :: "usize \<Rightarrow> (chunk_block \<times> nat) list \<Rightarrow> chunk_block list \<Rightarrow> usize \<Rightarrow> chunk_block list list" where
  "pack_blocks target [] current n = (if current = [] then [] else [current])"
| "pack_blocks target ((b, k) # bs) current n =
     (if current \<noteq> [] \<and> target < n + k then current # pack_blocks target bs [b] k
      else pack_blocks target bs (current @ [b]) (n + k))"

definition plan_partitions :: "mosaic \<Rightarrow> usize \<Rightarrow> rh3_error + scan_partition list" where
  "plan_partitions m target =
     (if target = 0 then Err (InvalidParameter ''target_chunks must be at least 1'')
      else let packed = pack_blocks target (concat (map (tile_blocks m target) [0..<length (ms_tiles m)])) [] 0
           in Ok (map (\<lambda>i. \<lparr> sp_index = i, sp_count = length packed, sp_mosaic_fingerprint = mosaic_fingerprint m,
                             sp_blocks = packed ! i \<rparr>) [0..<length packed]))"

definition restrict_mosaic :: "mosaic \<Rightarrow> scan_partition \<Rightarrow> rh3_error + mosaic" where
  "restrict_mosaic m p = bind_res (validate_for m p) (\<lambda>_. Ok (m\<lparr> ms_chunk_refs := filter (contains_chunk m p) (ms_chunk_refs m) \<rparr>))"

section \<open>Every chunk lies in one block\<close>

text \<open>The chunks a mosaic streams are distinct and lie in the grids of its tiles.\<close>

definition mosaic_ok :: "mosaic \<Rightarrow> bool" where
  "mosaic_ok m \<longleftrightarrow>
     distinct (ms_chunk_refs m) \<and>
     (\<forall>c\<in>set (ms_chunk_refs m). fst c < length (ms_tiles m) \<and>
        snd c < mt_chunks_across (ms_tiles m ! fst c) * mt_chunks_down (ms_tiles m ! fst c))"

lemma chunk_col_row_less:
  assumes "mosaic_ok m" "c \<in> set (ms_chunk_refs m)" "chunk_col_row m c = (col, row)"
  shows "col < mt_chunks_across (ms_tiles m ! fst c)" "row < mt_chunks_down (ms_tiles m ! fst c)"
proof -
  let ?a = "mt_chunks_across (ms_tiles m ! fst c)" and ?d = "mt_chunks_down (ms_tiles m ! fst c)"
  have less: "snd c < ?a * ?d" using assms(1,2) by (simp add: mosaic_ok_def)
  then have a: "0 < ?a" by (cases ?a) auto
  then have "col = snd c mod ?a" "row = snd c div ?a"
    using assms(3) by (simp_all add: chunk_col_row_def Let_def max.absorb1 Suc_leI)
  then show "col < ?a" "row < ?d" using a less by (simp_all add: less_mult_imp_div_less mult.commute)
qed

text \<open>Of the steps that cover \<open>0..n\<close>, exactly one interval holds \<open>x\<close>.\<close>

lemma sum_list_indicator:
  "i0 < n \<Longrightarrow> (\<And>i. i < n \<Longrightarrow> P i \<longleftrightarrow> i = i0) \<Longrightarrow> sum_list (map (\<lambda>i. if P i then f i else 0) [0..<n]) = (f i0 :: nat)"
proof (induction n)
  case (Suc n)
  show ?case
  proof (cases "i0 = n")
    case True
    then have "map (\<lambda>i. if P i then f i else 0) [0..<n] = map (\<lambda>i. 0) [0..<n]" using Suc.prems(2) by (intro map_cong) auto
    then show ?thesis using True Suc.prems(2) [of n] by (simp add: sum_list_triv del: map_eq_conv)
  next
    case False
    then show ?thesis using Suc.IH Suc.prems by simp
  qed
qed simp

lemma step_interval:
  assumes "0 < stp" "x < n"
  shows "x div stp < div_ceil n stp" and "i < div_ceil n stp \<Longrightarrow> i * stp \<le> x \<and> x < min (i * stp + stp) n \<longleftrightarrow> i = x div stp"
proof -
  have "x div stp * stp \<le> x" by (rule div_times_less_eq_dividend)
  then have "x div stp * stp + stp \<le> n + stp - 1" using assms by linarith
  then have "Suc (x div stp) * stp \<le> n + stp - 1" by simp
  then have "Suc (x div stp) \<le> (n + stp - 1) div stp" using assms(1) by (simp add: less_eq_div_iff_mult_less_eq)
  then show "x div stp < div_ceil n stp" by (simp add: div_ceil_def)
  have "i * stp \<le> x \<and> x < i * stp + stp \<longleftrightarrow> i = x div stp"
    using assms(1) by (metis add.commute div_nat_eqI dividend_less_times_div div_times_less_eq_dividend mult.commute mult_Suc)
  then show "i * stp \<le> x \<and> x < min (i * stp + stp) n \<longleftrightarrow> i = x div stp" using assms(2) by auto
qed

text \<open>The number of blocks that hold a chunk, over a nested loop of steps.\<close>

lemma grid_cover:
  assumes bw: "0 < bw" and bh: "0 < bh" and x: "x < cols" and y: "y < rows"
  shows "sum_list (map (\<lambda>br. sum_list (map (\<lambda>bc. if bc \<le> x \<and> x < min (bc + bw) cols \<and> br \<le> y \<and> y < min (br + bh) rows then f br bc else 0)
      (step_by cols bw))) (step_by rows bh)) = (f (y div bh * bh) (x div bw * bw) :: nat)"
proof -
  have inner: "sum_list (map (\<lambda>bc. if bc \<le> x \<and> x < min (bc + bw) cols \<and> br \<le> y \<and> y < min (br + bh) rows then f br bc else 0) (step_by cols bw)) =
      (if br \<le> y \<and> y < min (br + bh) rows then f br (x div bw * bw) else 0)" for br
  proof (cases "br \<le> y \<and> y < min (br + bh) rows")
    case True
    then have "sum_list (map (\<lambda>bc. if bc \<le> x \<and> x < min (bc + bw) cols \<and> br \<le> y \<and> y < min (br + bh) rows then f br bc else 0) (step_by cols bw)) =
        sum_list (map (\<lambda>i. if i * bw \<le> x \<and> x < min (i * bw + bw) cols then f br (i * bw) else 0) [0..<div_ceil cols bw])"
      by (simp add: step_by_def comp_def)
    also have "\<dots> = f br (x div bw * bw)"
      by (rule sum_list_indicator [OF step_interval(1) [OF bw x]]) (rule step_interval(2) [OF bw x])
    finally show ?thesis using True by simp
  next
    case False
    then have "(\<lambda>bc. if bc \<le> x \<and> x < min (bc + bw) cols \<and> br \<le> y \<and> y < min (br + bh) rows then f br bc else 0) = (\<lambda>_. 0)"
      by (intro ext) auto
    then show ?thesis using False by (simp only:) (simp add: sum_list_triv)
  qed
  have "sum_list (map (\<lambda>br. if br \<le> y \<and> y < min (br + bh) rows then f br (x div bw * bw) else 0) (step_by rows bh)) =
      sum_list (map (\<lambda>i. if i * bh \<le> y \<and> y < min (i * bh + bh) rows then f (i * bh) (x div bw * bw) else 0) [0..<div_ceil rows bh])"
    by (simp add: step_by_def comp_def)
  also have "\<dots> = f (y div bh * bh) (x div bw * bw)"
    by (rule sum_list_indicator [OF step_interval(1) [OF bh y]]) (rule step_interval(2) [OF bh y])
  finally show ?thesis by (simp only: inner)
qed

lemma length_filter_concat: "length (filter P (concat xss)) = sum_list (map (\<lambda>xs. length (filter P xs)) xss)"
  by (induction xss) simp_all

text \<open>Marking chunks in the grid.\<close>

lemma nth_update_any: "j < length xs \<Longrightarrow> xs[i := x] ! j = (if i = j then x else xs ! j)"
  by (cases "i < length xs") (auto simp: nth_list_update)

lemma grid_marks:
  "i < length grid \<Longrightarrow> fold (\<lambda>(c, r) grid. grid[f c r := True]) cs grid ! i \<longleftrightarrow> grid ! i \<or> (\<exists>(c, r)\<in>set cs. f c r = i)"
proof (induction cs arbitrary: grid)
  case (Cons p cs)
  obtain c r where p: "p = (c, r)" by fastforce
  have "fold (\<lambda>(c, r) grid. grid[f c r := True]) cs (grid[f c r := True]) ! i \<longleftrightarrow>
      grid[f c r := True] ! i \<or> (\<exists>(c, r)\<in>set cs. f c r = i)" using Cons by simp
  then show ?case using nth_update_any [OF Cons.prems] by (auto simp: p)
qed simp

lemma cell_index_inj:
  assumes "x < cols" "x' < (cols :: nat)"
  shows "y * cols + x = y' * cols + x' \<longleftrightarrow> y = y' \<and> x = x'"
proof
  assume eq: "y * cols + x = y' * cols + x'"
  have "(y * cols + x) div cols = y" "(y' * cols + x') div cols = y'" "(y * cols + x) mod cols = x" "(y' * cols + x') mod cols = x'"
    using assms by simp_all
  then show "y = y' \<and> x = x'" using eq by metis
qed simp

text \<open>The count of a rectangle of the grid is the number of chunks in it.\<close>

lemma rect_count:
  fixes c0 r0 cols rows :: nat
  assumes dist: "distinct cs" and range: "\<forall>(c, r)\<in>set cs. c0 \<le> c \<and> c < c0 + cols \<and> r0 \<le> r \<and> r < r0 + rows"
    and grid: "grid = fold (\<lambda>(c, r) grid. grid[(r - r0) * cols + (c - c0) := True]) cs (replicate (cols * rows) False)"
    and le: "ce \<le> cols" "re \<le> rows"
  shows "length (filter (\<lambda>i. grid ! i) (concat (map (\<lambda>r. map (\<lambda>c. r * cols + c) [bc..<ce]) [br..<re]))) =
    length (filter (\<lambda>(c, r). c0 + bc \<le> c \<and> c < c0 + ce \<and> r0 + br \<le> r \<and> r < r0 + re) cs)"
proof -
  define S where "S = {(c, r)\<in>set cs. c0 + bc \<le> c \<and> c < c0 + ce \<and> r0 + br \<le> r \<and> r < r0 + re}"
  define I where "I = concat (map (\<lambda>r. map (\<lambda>c. r * cols + c) [bc..<ce]) [br..<re])"
  define g where "g = (\<lambda>(c, r). (r - r0) * cols + (c - c0))"
  have mark: "grid ! (y * cols + x) \<longleftrightarrow> (c0 + x, r0 + y) \<in> set cs" if "x < cols" "y < rows" for x y
  proof -
    have "Suc y * cols \<le> rows * cols" using that(2) by (intro mult_le_mono1) simp
    then have i: "y * cols + x < cols * rows" using that(1) by (simp add: mult.commute)
    then have "grid ! (y * cols + x) \<longleftrightarrow> (\<exists>(c, r)\<in>set cs. (r - r0) * cols + (c - c0) = y * cols + x)"
      using grid_marks [of "y * cols + x" "replicate (cols * rows) False" "\<lambda>c r. (r - r0) * cols + (c - c0)" cs] by (simp add: grid)
    also have "\<dots> \<longleftrightarrow> (\<exists>(c, r)\<in>set cs. r - r0 = y \<and> c - c0 = x)"
    proof -
      have "(r - r0) * cols + (c - c0) = y * cols + x \<longleftrightarrow> r - r0 = y \<and> c - c0 = x" if "(c, r) \<in> set cs" for c r
      proof (rule cell_index_inj)
        show "c - c0 < cols" using range that by auto
      qed (rule \<open>x < cols\<close>)
      then show ?thesis by (intro bex_cong) auto
    qed
    also have "\<dots> \<longleftrightarrow> (c0 + x, r0 + y) \<in> set cs"
    proof
      assume "\<exists>(c, r)\<in>set cs. r - r0 = y \<and> c - c0 = x"
      then obtain c r where cr: "(c, r) \<in> set cs" "r - r0 = y" "c - c0 = x" by auto
      then have "c = c0 + x" "r = r0 + y" using range by auto
      then show "(c0 + x, r0 + y) \<in> set cs" using cr(1) by simp
    qed (auto intro!: bexI [of _ "(c0 + x, r0 + y)"])
    finally show ?thesis .
  qed
  have Iprod: "I = map (\<lambda>(r, c). r * cols + c) (List.product [br..<re] [bc..<ce])"
    by (simp add: I_def product_concat_map map_concat comp_def)
  have distI: "distinct I"
  proof -
    have "distinct (map (\<lambda>(r, c). r * cols + c) (List.product [br..<re] [bc..<ce]))"
      using cell_index_inj le by (auto simp: distinct_map inj_on_def distinct_product)
    then show ?thesis by (simp add: Iprod)
  qed
  have "set (filter (\<lambda>i. grid ! i) I) = g ` S"
  proof
    show "set (filter (\<lambda>i. grid ! i) I) \<subseteq> g ` S"
    proof
      fix i assume "i \<in> set (filter (\<lambda>i. grid ! i) I)"
      then obtain x y where xy: "i = y * cols + x" "bc \<le> x" "x < ce" "br \<le> y" "y < re" "grid ! i" by (auto simp: Iprod)
      then have "(c0 + x, r0 + y) \<in> S" using mark [of x y] le by (simp add: S_def)
      moreover have "g (c0 + x, r0 + y) = i" by (simp add: g_def xy(1))
      ultimately show "i \<in> g ` S" by force
    qed
    show "g ` S \<subseteq> set (filter (\<lambda>i. grid ! i) I)"
    proof
      fix i assume "i \<in> g ` S"
      then obtain c r where cr: "(c, r) \<in> set cs" "c0 + bc \<le> c" "c < c0 + ce" "r0 + br \<le> r" "r < r0 + re" "i = (r - r0) * cols + (c - c0)"
        by (auto simp: S_def g_def)
      then have "grid ! i" using mark [of "c - c0" "r - r0"] le by simp
      moreover have "i \<in> set I" using cr by (auto simp: Iprod intro!: image_eqI [of _ _ "(r - r0, c - c0)"])
      ultimately show "i \<in> set (filter (\<lambda>i. grid ! i) I)" by simp
    qed
  qed
  moreover have "inj_on g S"
  proof (rule inj_onI)
    fix p q assume pq: "p \<in> S" "q \<in> S" "g p = g q"
    obtain c r c' r' where eq: "p = (c, r)" "q = (c', r')" by fastforce
    have b: "c0 \<le> c" "c - c0 < cols" "r0 \<le> r" "c0 \<le> c'" "c' - c0 < cols" "r0 \<le> r'" using pq(1,2) le by (auto simp: S_def eq)
    have "(r - r0) * cols + (c - c0) = (r' - r0) * cols + (c' - c0)" using pq(3) by (simp add: g_def eq)
    then have "r - r0 = r' - r0" "c - c0 = c' - c0" using cell_index_inj [OF b(2,5)] by auto
    then have "r = r'" "c = c'" using b by linarith+
    then show "p = q" by (simp add: eq)
  qed
  ultimately have "length (filter (\<lambda>i. grid ! i) I) = card S"
    using distI distinct_card [of "filter (\<lambda>i. grid ! i) I"] by (simp add: card_image)
  also have "\<dots> = length (filter (\<lambda>(c, r). c0 + bc \<le> c \<and> c < c0 + ce \<and> r0 + br \<le> r \<and> r < r0 + re) cs)"
    using dist distinct_card [of "filter (\<lambda>(c, r). c0 + bc \<le> c \<and> c < c0 + ce \<and> r0 + br \<le> r \<and> r < r0 + re) cs"]
    by (simp add: S_def case_prod_unfold)
  finally show ?thesis by (simp add: I_def)
qed

lemma clamp_pos: "0 < hi \<Longrightarrow> 0 < clamp_usize (Suc 0) hi x"
  by (simp add: clamp_usize_def)

lemma present_distinct:
  assumes "mosaic_ok m"
  shows "distinct (present_chunks m t)"
proof -
  have "inj_on (chunk_col_row m) (set (filter (\<lambda>c. fst c = t) (ms_chunk_refs m)))"
  proof (rule inj_onI)
    fix a b assume ab: "a \<in> set (filter (\<lambda>c. fst c = t) (ms_chunk_refs m))" "b \<in> set (filter (\<lambda>c. fst c = t) (ms_chunk_refs m))"
      "chunk_col_row m a = chunk_col_row m b"
    then have "fst a = fst b" by simp
    moreover have "snd a = snd b"
      using ab(3) \<open>fst a = fst b\<close> by (simp add: chunk_col_row_def Let_def) (metis div_mult_mod_eq)
    ultimately show "a = b" by (simp add: prod_eq_iff)
  qed
  then show ?thesis using assms by (simp add: present_chunks_def distinct_map mosaic_ok_def)
qed

lemma tile_blocks_cover:
  assumes ok: "mosaic_ok m" and mem: "(col, row) \<in> set (present_chunks m t)"
  shows "length (filter (\<lambda>(b, n). block_contains b t col row) (tile_blocks m target t)) = 1"
    and "\<forall>(b, n)\<in>set (tile_blocks m target t). cb_tile_idx b = t \<and> n = length (filter (\<lambda>(c, r). block_contains b t c r) (present_chunks m t)) \<and>
      cb_col_start b < cb_col_end b \<and> cb_row_start b < cb_row_end b \<and>
      cb_col_end b \<le> mt_chunks_across (ms_tiles m ! t) \<and> cb_row_end b \<le> mt_chunks_down (ms_tiles m ! t)"
proof -
  define cs where "cs = present_chunks m t"
  define c0 where "c0 = Min (set (map fst cs))"
  define c1 where "c1 = Max (set (map fst cs)) + 1"
  define r0 where "r0 = Min (set (map snd cs))"
  define r1 where "r1 = Max (set (map snd cs)) + 1"
  define cols where "cols = c1 - c0"
  define rows where "rows = r1 - r0"
  define bw where "bw = block_width target (ms_tiles m ! t) cols"
  define bh where "bh = clamp_usize 1 rows (div_ceil target bw)"
  define grid where "grid = fold (\<lambda>(c, r) grid. grid[(r - r0) * cols + (c - c0) := True]) cs (replicate (cols * rows) False)"
  define n where "n = (\<lambda>br bc. length (filter (\<lambda>i. grid ! i)
    (concat (map (\<lambda>r. map (\<lambda>c. r * cols + c) [bc..<min (bc + bw) cols]) [br..<min (br + bh) rows]))))"
  define blk where "blk = (\<lambda>br bc. \<lparr> cb_tile_idx = t, cb_col_start = c0 + bc, cb_col_end = c0 + min (bc + bw) cols,
    cb_row_start = r0 + br, cb_row_end = r0 + min (br + bh) rows \<rparr>)"
  have mem': "(col, row) \<in> set cs" using mem by (simp add: cs_def)
  then have ne: "cs \<noteq> []" by auto
  have dist: "distinct cs" using present_distinct [OF ok] by (simp add: cs_def)
  have ranges: "c0 \<le> c \<and> c < c1 \<and> r0 \<le> r \<and> r < r1" if "(c, r) \<in> set cs" for c r
  proof -
    have "c \<in> set (map fst cs)" "r \<in> set (map snd cs)" using that by force+
    then show ?thesis using Min_le Max_ge by (simp add: c0_def c1_def r0_def r1_def less_Suc_eq_le)
  qed
  have c01: "c0 + cols = c1" "r0 + rows = r1" "0 < cols" "0 < rows" using ranges [OF mem'] by (simp_all add: cols_def rows_def)
  have range: "\<forall>(c, r)\<in>set cs. c0 \<le> c \<and> c < c0 + cols \<and> r0 \<le> r \<and> r < r0 + rows" using ranges by (auto simp: c01)
  have bw: "0 < bw" using c01(3) by (simp add: bw_def block_width_def Let_def clamp_pos)
  have bh: "0 < bh" using c01(4) by (simp add: bh_def clamp_pos)
  have count: "n br bc = length (filter (\<lambda>(c, r). block_contains (blk br bc) t c r) cs)" for br bc
    using rect_count [OF dist range grid_def, of "min (bc + bw) cols" "min (br + bh) rows" bc br]
    by (simp add: n_def blk_def block_contains_def case_prod_unfold conj_assoc)
  have tb: "tile_blocks m target t = concat (map (\<lambda>br. concat (map (\<lambda>bc. if 0 < n br bc then [(blk br bc, n br bc)] else []) (step_by cols bw))) (step_by rows bh))"
    unfolding tile_blocks_def Let_def cs_def [symmetric] c0_def [symmetric] c1_def [symmetric] r0_def [symmetric] r1_def [symmetric]
      cols_def [symmetric] rows_def [symmetric] bw_def [symmetric] bh_def [symmetric] grid_def [symmetric] n_def blk_def
    using ne by simp
  have "length (filter (\<lambda>(b, n). block_contains b t col row) (if 0 < n br bc then [(blk br bc, n br bc)] else [])) =
      (if bc \<le> col - c0 \<and> col - c0 < min (bc + bw) cols \<and> br \<le> row - r0 \<and> row - r0 < min (br + bh) rows then 1 else 0)" for br bc
  proof -
    have iff: "block_contains (blk br bc) t col row \<longleftrightarrow>
        bc \<le> col - c0 \<and> col - c0 < min (bc + bw) cols \<and> br \<le> row - r0 \<and> row - r0 < min (br + bh) rows"
      using ranges [OF mem'] by (auto simp: block_contains_def blk_def)
    have "block_contains (blk br bc) t col row \<Longrightarrow> 0 < n br bc"
      unfolding count using mem' by (force simp: filter_empty_conv)
    then show ?thesis using iff by auto
  qed
  then have total: "length (filter (\<lambda>(b, n). block_contains b t col row) (tile_blocks m target t)) =
      sum_list (map (\<lambda>br. sum_list (map (\<lambda>bc. if bc \<le> col - c0 \<and> col - c0 < min (bc + bw) cols \<and> br \<le> row - r0 \<and> row - r0 < min (br + bh) rows then 1 else 0)
        (step_by cols bw))) (step_by rows bh))"
    by (simp only: tb length_filter_concat map_map comp_def)
  have "col - c0 < cols" "row - r0 < rows" using ranges [OF mem'] c01 by auto
  then show "length (filter (\<lambda>(b, n). block_contains b t col row) (tile_blocks m target t)) = 1"
    unfolding total by (rule grid_cover [OF bw bh, where f = "\<lambda>_ _. 1"])
  have mx: "c1 \<le> mt_chunks_across (ms_tiles m ! t)" "r1 \<le> mt_chunks_down (ms_tiles m ! t)"
  proof -
    have "c < mt_chunks_across (ms_tiles m ! t) \<and> r < mt_chunks_down (ms_tiles m ! t)" if cr: "(c, r) \<in> set cs" for c r
    proof -
      obtain x where x: "x \<in> set (ms_chunk_refs m)" "fst x = t" "chunk_col_row m x = (c, r)" using cr by (auto simp: cs_def present_chunks_def)
      then show ?thesis using chunk_col_row_less [OF ok x(1,3)] by simp
    qed
    then have "\<forall>c\<in>set (map fst cs). c < mt_chunks_across (ms_tiles m ! t)" "\<forall>r\<in>set (map snd cs). r < mt_chunks_down (ms_tiles m ! t)" by auto
    then show "c1 \<le> mt_chunks_across (ms_tiles m ! t)" "r1 \<le> mt_chunks_down (ms_tiles m ! t)"
      using ne Max_in [of "set (map fst cs)"] Max_in [of "set (map snd cs)"] by (simp_all add: c1_def r1_def Suc_leI)
  qed
  show "\<forall>(b, n)\<in>set (tile_blocks m target t). cb_tile_idx b = t \<and> n = length (filter (\<lambda>(c, r). block_contains b t c r) (present_chunks m t)) \<and>
      cb_col_start b < cb_col_end b \<and> cb_row_start b < cb_row_end b \<and>
      cb_col_end b \<le> mt_chunks_across (ms_tiles m ! t) \<and> cb_row_end b \<le> mt_chunks_down (ms_tiles m ! t)"
  proof (intro ballI)
    fix p assume "p \<in> set (tile_blocks m target t)"
    then obtain br bc where p: "p = (blk br bc, n br bc)" "0 < n br bc" by (auto simp: tb split: if_splits)
    have "n br bc = length (filter (\<lambda>(c, r). block_contains (blk br bc) t c r) cs)" by (rule count)
    moreover obtain c r where "block_contains (blk br bc) t c r"
      using p(2) unfolding count by (auto simp: filter_empty_conv)
    moreover have "cb_col_end (blk br bc) \<le> c1" "cb_row_end (blk br bc) \<le> r1" using c01 by (auto simp: blk_def)
    ultimately show "case p of (b, n) \<Rightarrow> cb_tile_idx b = t \<and> n = length (filter (\<lambda>(c, r). block_contains b t c r) (present_chunks m t)) \<and>
      cb_col_start b < cb_col_end b \<and> cb_row_start b < cb_row_end b \<and>
      cb_col_end b \<le> mt_chunks_across (ms_tiles m ! t) \<and> cb_row_end b \<le> mt_chunks_down (ms_tiles m ! t)"
      using mx p(1) by (simp add: block_contains_def cs_def)
  qed
qed


section \<open>Packing\<close>

lemma concat_pack_blocks: "concat (pack_blocks target bs current n) = current @ map fst bs"
  by (induction target bs current n rule: pack_blocks.induct) simp_all

lemma pack_blocks_nonempty: "p \<in> set (pack_blocks target bs current n) \<Longrightarrow> p \<noteq> []"
  by (induction target bs current n rule: pack_blocks.induct) (auto split: if_splits)

lemma pack_blocks_size:
  assumes "n = sum_list (map f current)" "n \<le> target \<or> length current \<le> 1" "\<forall>(b, k)\<in>set bs. k = f b"
  shows "\<forall>p\<in>set (pack_blocks target bs current n). sum_list (map f p) \<le> target \<or> length p = 1"
  using assms
proof (induction target bs current n rule: pack_blocks.induct)
  case (1 target current n)
  then show ?case by (cases current) auto
next
  case (2 target b k bs current n)
  show ?case
  proof (cases "current \<noteq> [] \<and> target < n + k")
    case True
    then have "\<forall>p\<in>set (pack_blocks target bs [b] k). sum_list (map f p) \<le> target \<or> length p = 1" using 2 by simp
    moreover have "sum_list (map f current) \<le> target \<or> length current = 1" using True 2(3,4) by (cases current) auto
    ultimately show ?thesis using True by simp
  next
    case False
    then have "\<forall>p\<in>set (pack_blocks target bs (current @ [b]) (n + k)). sum_list (map f p) \<le> target \<or> length p = 1"
      using 2 by (intro 2(2)) auto
    then show ?thesis using False by (simp only: pack_blocks.simps if_False)
  qed
qed

section \<open>Every chunk is planned once\<close>

definition planned_blocks :: "mosaic \<Rightarrow> usize \<Rightarrow> (chunk_block \<times> nat) list" where
  "planned_blocks m target = concat (map (tile_blocks m target) [0..<length (ms_tiles m)])"

definition in_block :: "mosaic \<Rightarrow> nat \<times> nat \<Rightarrow> chunk_block \<Rightarrow> bool" where
  "in_block m c b = (case chunk_col_row m c of (col, row) \<Rightarrow> block_contains b (fst c) col row)"

lemma contains_chunk_in_block: "contains_chunk m p c = list_ex (in_block m c) (sp_blocks p)"
proof -
  have "in_block m c = (\<lambda>b. block_contains b (fst c) (fst (chunk_col_row m c)) (snd (chunk_col_row m c)))"
    by (rule ext) (simp add: in_block_def case_prod_unfold)
  then show ?thesis by (simp add: contains_chunk_def case_prod_unfold)
qed

lemma tile_blocks_empty: "present_chunks m t = [] \<Longrightarrow> tile_blocks m target t = []"
  by (simp add: tile_blocks_def)

lemma tile_blocks_facts:
  assumes "mosaic_ok m" "(b, n) \<in> set (tile_blocks m target t)"
  shows "cb_tile_idx b = t" "n = length (filter (\<lambda>c. in_block m c b) (ms_chunk_refs m))"
    "cb_col_start b < cb_col_end b" "cb_row_start b < cb_row_end b"
    "cb_col_end b \<le> mt_chunks_across (ms_tiles m ! t)" "cb_row_end b \<le> mt_chunks_down (ms_tiles m ! t)"
proof -
  obtain col row where "(col, row) \<in> set (present_chunks m t)"
    using assms(2) by (cases "present_chunks m t") (auto simp: tile_blocks_empty)
  note all = tile_blocks_cover(2) [OF assms(1) this, of target]
  show t: "cb_tile_idx b = t" and "cb_col_start b < cb_col_end b" "cb_row_start b < cb_row_end b"
    "cb_col_end b \<le> mt_chunks_across (ms_tiles m ! t)" "cb_row_end b \<le> mt_chunks_down (ms_tiles m ! t)"
    using bspec [OF all assms(2)] by simp_all
  have "n = length (filter (\<lambda>(c, r). block_contains b t c r) (present_chunks m t))" using bspec [OF all assms(2)] by simp
  also have "\<dots> = length (filter (\<lambda>c. in_block m c b) (ms_chunk_refs m))"
    by (simp add: present_chunks_def filter_map comp_def filter_filter in_block_def case_prod_unfold)
      (intro arg_cong [where f = length] filter_cong, auto simp: block_contains_def t)
  finally show "n = length (filter (\<lambda>c. in_block m c b) (ms_chunk_refs m))" .
qed

lemma planned_blocks_cover:
  assumes ok: "mosaic_ok m" and c: "c \<in> set (ms_chunk_refs m)"
  shows "length (filter (in_block m c) (map fst (planned_blocks m target))) = 1"
proof -
  obtain col row where cr: "chunk_col_row m c = (col, row)" by fastforce
  have mem: "(col, row) \<in> set (present_chunks m (fst c))" using c cr by (force simp: present_chunks_def)
  have tile: "length (filter (in_block m c) (map fst (tile_blocks m target t))) = (if t = fst c then 1 else 0)" for t
  proof (cases "t = fst c")
    case True
    have "length (filter (in_block m c) (map fst (tile_blocks m target t))) = length (filter (\<lambda>(b, n). block_contains b t col row) (tile_blocks m target t))"
      by (simp add: filter_map comp_def in_block_def cr True case_prod_unfold)
    then show ?thesis using tile_blocks_cover(1) [OF ok mem] True by simp
  next
    case False
    have "\<not> in_block m c b" if "(b, n) \<in> set (tile_blocks m target t)" for b n
      using tile_blocks_facts(1) [OF ok that] False by (simp add: in_block_def cr block_contains_def)
    then show ?thesis using False by (auto simp: filter_empty_conv)
  qed
  have "length (filter (in_block m c) (map fst (planned_blocks m target))) =
      sum_list (map (\<lambda>t. if t = fst c then 1 else 0) [0..<length (ms_tiles m)])"
    by (simp only: planned_blocks_def map_concat length_filter_concat map_map comp_def tile)
  also have "\<dots> = 1" using ok c by (intro sum_list_indicator [where f = "\<lambda>_. 1"]) (auto simp: mosaic_ok_def)
  finally show ?thesis .
qed

lemma one_in_one:
  "sum_list (map (\<lambda>xs. length (filter P xs)) xss) = 1 \<Longrightarrow> length (filter (list_ex P) xss) = 1"
proof (induction xss)
  case (Cons xs xss)
  show ?case
  proof (cases "filter P xs")
    case Nil
    then have "\<not> list_ex P xs" by (auto simp: filter_empty_conv list_ex_iff)
    then show ?thesis using Cons Nil by simp
  next
    case (Cons y ys)
    then have ex: "list_ex P xs" by (metis filter_eq_Cons_iff list_ex_iff in_set_conv_decomp)
    have "sum_list (map (\<lambda>xs. length (filter P xs)) xss) = 0" using Cons.prems Cons by simp
    then have "\<forall>xs\<in>set xss. \<not> list_ex P xs" by (auto simp: sum_list_eq_0_iff filter_empty_conv list_ex_iff)
    then have "filter (list_ex P) xss = []" by (simp add: filter_empty_conv)
    then show ?thesis using ex by simp
  qed
qed simp

lemma mset_partition:
  "(\<And>c. c \<in> set xs \<Longrightarrow> length (filter (\<lambda>p. Q p c) ps) = 1) \<Longrightarrow> mset (concat (map (\<lambda>p. filter (Q p) xs) ps)) = mset xs"
proof (rule multiset_eqI)
  fix c assume one: "\<And>c. c \<in> set xs \<Longrightarrow> length (filter (\<lambda>p. Q p c) ps) = 1"
  have "count (mset (concat (map (\<lambda>p. filter (Q p) xs) ps))) c = length (filter (\<lambda>p. Q p c) ps) * count (mset xs) c"
    by (induction ps) simp_all
  then show "count (mset (concat (map (\<lambda>p. filter (Q p) xs) ps))) c = count (mset xs) c"
    using one [of c] by (cases "c \<in> set xs") (simp_all add: count_mset_0_iff)
qed

lemma plan_partitions_ok:
  assumes "plan_partitions m target = Ok ps"
  shows "map sp_blocks ps = pack_blocks target (planned_blocks m target) [] 0"
    and "i < length ps \<Longrightarrow> sp_index (ps ! i) = i \<and> sp_count (ps ! i) = length ps \<and> sp_mosaic_fingerprint (ps ! i) = mosaic_fingerprint m"
  using assms by (auto simp: plan_partitions_def Let_def planned_blocks_def comp_def map_nth split: if_splits)

lemma fold_check_ok: "(\<forall>b\<in>set bs. f b = Ok ()) \<Longrightarrow> fold (\<lambda>b r. bind_res r (\<lambda>_. f b)) bs (Ok ()) = Ok ()"
  by (induction bs) simp_all

lemma planned_partition_valid:
  assumes ok: "mosaic_ok m" and plan: "plan_partitions m target = Ok ps" and p: "p \<in> set ps"
  shows "validate_for m p = Ok ()"
proof -
  obtain i where i: "i < length ps" "p = ps ! i" using p by (auto simp: in_set_conv_nth)
  have f: "sp_index p = i" "sp_count p = length ps" "sp_mosaic_fingerprint p = mosaic_fingerprint m"
    using plan_partitions_ok(2) [OF plan i(1)] i(2) by simp_all
  have blocks: "cb_tile_idx b < length (ms_tiles m) \<and> cb_col_start b < cb_col_end b \<and> cb_row_start b < cb_row_end b \<and>
      cb_col_end b \<le> mt_chunks_across (ms_tiles m ! cb_tile_idx b) \<and> cb_row_end b \<le> mt_chunks_down (ms_tiles m ! cb_tile_idx b)"
    if b: "b \<in> set (sp_blocks p)" for b
  proof -
    have "b \<in> set (concat (map sp_blocks ps))" using p b by auto
    then have "b \<in> fst ` set (planned_blocks m target)" by (simp add: plan_partitions_ok(1) [OF plan] concat_pack_blocks)
    then obtain n t where t: "t < length (ms_tiles m)" "(b, n) \<in> set (tile_blocks m target t)" by (auto simp: planned_blocks_def)
    then show ?thesis using tile_blocks_facts [OF ok t(2)] by simp
  qed
  show ?thesis
    unfolding validate_for_def using i(1) f
    using blocks by (auto simp: Let_def intro!: fold_check_ok) (fastforce simp: not_le)+
qed

lemma chunk_once:
  assumes "mosaic_ok m" "plan_partitions m target = Ok ps" "c \<in> set (ms_chunk_refs m)"
  shows "length (filter (\<lambda>p. contains_chunk m p c) ps) = 1"
proof -
  have "sum_list (map (\<lambda>bs. length (filter (in_block m c) bs)) (map sp_blocks ps)) = 1"
    using planned_blocks_cover [OF assms(1,3), of target]
    by (simp only: plan_partitions_ok(1) [OF assms(2)] length_filter_concat [symmetric] concat_pack_blocks append_Nil)
  from one_in_one [OF this] show ?thesis by (simp add: contains_chunk_in_block filter_map comp_def)
qed

text \<open>A worker scans its mosaic restricted to its partition.\<close>

definition partition_refs :: "mosaic \<Rightarrow> scan_partition \<Rightarrow> (nat \<times> nat) list" where
  "partition_refs m p = (case restrict_mosaic m p of Ok m' \<Rightarrow> ms_chunk_refs m' | Err e \<Rightarrow> [])"

text \<open>
  C13. The partitions planned for a mosaic split its chunks: every partition is accepted by the check a
  worker makes of it, they are numbered in order, and the restricted mosaics of all workers together
  hold each streamed chunk exactly once.
\<close>

theorem plan_partitions_cover:
  assumes "mosaic_ok m" "plan_partitions m target = Ok ps"
  shows "mset (concat (map (partition_refs m) ps)) = mset (ms_chunk_refs m) \<and>
    list_all (\<lambda>p. validate_for m p = Ok ()) ps \<and> map sp_index ps = [0..<length ps]"
proof (intro conjI)
  have valid: "validate_for m p = Ok ()" if "p \<in> set ps" for p by (rule planned_partition_valid [OF assms that])
  then have refs: "map (partition_refs m) ps = map (\<lambda>p. filter (contains_chunk m p) (ms_chunk_refs m)) ps"
    by (simp add: partition_refs_def restrict_mosaic_def)
  show "mset (concat (map (partition_refs m) ps)) = mset (ms_chunk_refs m)"
    unfolding refs by (rule mset_partition [OF chunk_once [OF assms]])
  show "list_all (\<lambda>p. validate_for m p = Ok ()) ps" using valid by (simp add: list_all_iff)
  show "map sp_index ps = [0..<length ps]" using plan_partitions_ok(2) [OF assms(2)] by (intro nth_equalityI) simp_all
qed

lemma chunk_count_le: "chunk_count m p \<le> sum_list (map (\<lambda>b. length (filter (\<lambda>c. in_block m c b) (ms_chunk_refs m))) (sp_blocks p))"
proof -
  have "length (filter (\<lambda>c. list_ex (\<lambda>b. P c b) bs) xs) \<le> sum_list (map (\<lambda>b. length (filter (\<lambda>c. P c b) xs)) bs)" for P :: "nat \<times> nat \<Rightarrow> chunk_block \<Rightarrow> bool" and bs xs
  proof (induction bs)
    case (Cons b bs)
    have "length (filter (\<lambda>c. P c b \<or> list_ex (P c) bs) xs) \<le> length (filter (\<lambda>c. P c b) xs) + length (filter (\<lambda>c. list_ex (P c) bs) xs)"
      by (induction xs) auto
    then show ?case using Cons by simp
  qed simp
  moreover have "contains_chunk m p = (\<lambda>c. list_ex (\<lambda>b. in_block m c b) (sp_blocks p))"
    by (rule ext) (simp add: contains_chunk_in_block)
  ultimately show ?thesis by (simp only: chunk_count_def)
qed

definition column_tile :: mosaic_tile where
  "column_tile = \<lparr> mt_width = 256, mt_height = 768, mt_chunk_width = 256, mt_chunk_height = 256, mt_chunks_across = 1,
     mt_chunks_down = 3, mt_geotransform = [0, 0, 0, 0, 0, 0], mt_crs_identity = [] \<rparr>"

definition column_mosaic :: mosaic where
  "column_mosaic = \<lparr> ms_tiles = [column_tile], ms_overlap_rule = 0, ms_bbox = None, ms_chunk_refs = [(0, 0), (0, 1), (0, 2)] \<rparr>"

definition column_partition :: "nat \<Rightarrow> nat \<Rightarrow> nat \<Rightarrow> scan_partition" where
  "column_partition i a b = \<lparr> sp_index = i, sp_count = 2, sp_mosaic_fingerprint = mosaic_fingerprint column_mosaic,
     sp_blocks = [\<lparr> cb_tile_idx = 0, cb_col_start = 0, cb_col_end = 1, cb_row_start = a, cb_row_end = b \<rparr>] \<rparr>"

lemma column_mosaic_ok: "mosaic_ok column_mosaic"
  by (simp add: mosaic_ok_def column_mosaic_def column_tile_def)

lemma column_plan: "plan_partitions column_mosaic 2 = Ok [column_partition 0 0 2, column_partition 1 2 3]"
proof -
  have present: "present_chunks column_mosaic 0 = [(0, 0), (0, 1), (0, 2)]"
    by (simp add: present_chunks_def column_mosaic_def column_tile_def chunk_col_row_def)
  have width: "block_width 2 t (Suc 0) = Suc 0" for t by (simp only: block_width_def Let_def) (simp add: clamp_usize_def)
  have steps: "step_by (Suc 0) (Suc 0) = [0]" "step_by (Suc (Suc (Suc 0))) 2 = [0, 2]"
    using upt_rec [of 0 2] upt_rec [of 1 2] by (simp_all add: step_by_def div_ceil_def)
  have clamp: "clamp_usize (Suc 0) (Suc (Suc (Suc 0))) 2 = 2" by (simp add: clamp_usize_def)
  have upt: "[0..<2] = [0, Suc 0]" using upt_rec [of 0 2] upt_rec [of 1 2] by simp
  have tiles: "[0..<length (ms_tiles column_mosaic)] = [0]" by (simp add: column_mosaic_def)
  have "tile_blocks column_mosaic 2 0 =
      [(\<lparr> cb_tile_idx = 0, cb_col_start = 0, cb_col_end = 1, cb_row_start = 0, cb_row_end = 2 \<rparr>, 2),
       (\<lparr> cb_tile_idx = 0, cb_col_start = 0, cb_col_end = 1, cb_row_start = 2, cb_row_end = 3 \<rparr>, 1)]"
    by (simp only: tile_blocks_def present Let_def, simp add: width steps clamp upt div_ceil_def)
  then show ?thesis
    by (simp add: plan_partitions_def tiles Let_def column_partition_def)
qed

theorem plan_partitions_cover_witness:
  "mset (concat (map (partition_refs column_mosaic) [column_partition 0 0 2, column_partition 1 2 3])) = {#(0, 0), (0, 1), (0, 2)#}"
  using plan_partitions_cover [OF column_mosaic_ok column_plan] by (simp add: column_mosaic_def)

text \<open>
  C33. The work of a partition is bounded: it holds at least one block, and either at most the target
  number of chunks or a single block.
\<close>

theorem plan_partitions_bounded:
  assumes "mosaic_ok m" "plan_partitions m target = Ok ps" "p \<in> set ps"
  shows "sp_blocks p \<noteq> [] \<and> (chunk_count m p \<le> target \<or> length (sp_blocks p) = 1)"
proof -
  have mem: "sp_blocks p \<in> set (pack_blocks target (planned_blocks m target) [] 0)"
    using assms(3) by (simp flip: plan_partitions_ok(1) [OF assms(2)])
  have "\<forall>(b, n)\<in>set (planned_blocks m target). n = length (filter (\<lambda>c. in_block m c b) (ms_chunk_refs m))"
    using tile_blocks_facts(2) [OF assms(1)] by (auto simp: planned_blocks_def)
  then have "sum_list (map (\<lambda>b. length (filter (\<lambda>c. in_block m c b) (ms_chunk_refs m))) (sp_blocks p)) \<le> target \<or> length (sp_blocks p) = 1"
    using pack_blocks_size [of 0 "\<lambda>b. length (filter (\<lambda>c. in_block m c b) (ms_chunk_refs m))" "[]" target] mem by auto
  then show ?thesis using chunk_count_le [of m p] pack_blocks_nonempty [OF mem] by linarith
qed

theorem plan_partitions_bounded_witness:
  "chunk_count column_mosaic (column_partition 0 0 2) \<le> 2 \<or> length (sp_blocks (column_partition 0 0 2)) = 1"
  using plan_partitions_bounded [OF column_mosaic_ok column_plan, of "column_partition 0 0 2"] by simp

end
