(* ===== verification/Predictor.thy ===== *)
theory Predictor
  imports Byte_Codec Float64
begin

text \<open>
  Undoing the TIFF predictors and unpacking samples (\<open>raster/predictor.rs\<close>), with the vector code
  of aarch64 beside the scalar loops. The host is little-endian. A panic is \<open>None\<close>.
\<close>

section \<open>Horizontal differences\<close>

text \<open>The loop over the columns of a row, from column \<open>from\<close>.\<close>

definition hp_cols :: "nat \<Rightarrow> usize \<Rightarrow> 'a::len word list \<Rightarrow> 'a word list" where
  "hp_cols first spp row = fold (\<lambda>col row. row[col := row ! col + row ! (col - spp)]) [first..<length row] row"

text \<open>Replacing row \<open>r\<close> of \<open>data\<close>, whose slice may be out of range.\<close>

definition map_row :: "usize \<Rightarrow> ('b list \<Rightarrow> 'b list) \<Rightarrow> nat \<Rightarrow> 'b list \<Rightarrow> 'b list option" where
  "map_row stride f r data =
     (if (r + 1) * stride \<le> length data
      then Some (take (r * stride) data @ f (take stride (drop (r * stride) data)) @ drop ((r + 1) * stride) data)
      else None)"

definition apply_horizontal_predictor :: "'a::len word list \<Rightarrow> usize \<Rightarrow> usize \<Rightarrow> usize \<Rightarrow> 'a word list option" where
  "apply_horizontal_predictor data data_w data_h spp = fold_opt (map_row (data_w * spp) (hp_cols spp spp)) [0..<data_h] data"

section \<open>Vector instructions\<close>

text \<open>\<open>vaddq\<close>, \<open>vdupq\<close> and \<open>vextq\<close> (the lanes of \<open>a\<close> then \<open>b\<close> from lane \<open>n\<close> on).\<close>

definition vaddq :: "'a::len word list \<Rightarrow> 'a word list \<Rightarrow> 'a word list" where
  "vaddq a b = map2 (+) a b"

definition vextq :: "'a::len word list \<Rightarrow> 'a word list \<Rightarrow> nat \<Rightarrow> 'a word list" where
  "vextq a b n = take (length b) (drop n (a @ b))"

definition neon_scan_u8 :: "u8 list \<Rightarrow> u8 \<Rightarrow> u8 list" where
  "neon_scan_u8 v prev_carry =
     (let zero = replicate 16 0;
          v = vaddq v (vextq zero v 15);
          v = vaddq v (vextq zero v 14);
          v = vaddq v (vextq zero v 12);
          v = vaddq v (vextq zero v 8)
      in vaddq v (replicate 16 prev_carry))"

definition neon_scan_u16 :: "u16 list \<Rightarrow> u16 \<Rightarrow> u16 list" where
  "neon_scan_u16 v prev_carry =
     (let zero = replicate 8 0;
          v = vaddq v (vextq zero v 7);
          v = vaddq v (vextq zero v 6);
          v = vaddq v (vextq zero v 4)
      in vaddq v (replicate 8 prev_carry))"

text \<open>The loop over \<open>chunks\<close> vectors of \<open>lanes\<close> lanes, carrying the last lane on.\<close>

fun neon_chunks :: "nat \<Rightarrow> ('a::len word list \<Rightarrow> 'a word \<Rightarrow> 'a word list) \<Rightarrow> nat \<Rightarrow> 'a word \<Rightarrow> 'a word list \<Rightarrow> 'a word list" where
  "neon_chunks lanes scan 0 prev_carry data = data"
| "neon_chunks lanes scan (Suc n) prev_carry data =
     (let v = scan (take lanes data) prev_carry
      in v @ neon_chunks lanes scan n (v ! (lanes - 1)) (drop lanes data))"

definition rev_hpredict_neon_u8_spp1 :: "u8 list \<Rightarrow> u8 list" where
  "rev_hpredict_neon_u8_spp1 input =
     (let chunks = length input div 16 in hp_cols (max (chunks * 16) 1) 1 (neon_chunks 16 neon_scan_u8 chunks 0 input))"

definition rev_hpredict_neon_u16_spp1 :: "u16 list \<Rightarrow> u16 list" where
  "rev_hpredict_neon_u16_spp1 row =
     (let chunks = length row div 8 in hp_cols (max (chunks * 8) 1) 1 (neon_chunks 8 neon_scan_u16 chunks 0 row))"

datatype arch = Aarch64 | OtherArch

definition apply_horizontal_predictor_u8 :: "arch \<Rightarrow> u8 list \<Rightarrow> usize \<Rightarrow> usize \<Rightarrow> usize \<Rightarrow> u8 list option" where
  "apply_horizontal_predictor_u8 arch data data_w data_h spp =
     (if spp \<noteq> 1 then apply_horizontal_predictor data data_w data_h spp
      else case arch of
             Aarch64 \<Rightarrow> fold_opt (map_row data_w rev_hpredict_neon_u8_spp1) [0..<data_h] data
           | OtherArch \<Rightarrow> apply_horizontal_predictor data data_w data_h spp)"

definition apply_horizontal_predictor_u16 :: "arch \<Rightarrow> u16 list \<Rightarrow> usize \<Rightarrow> usize \<Rightarrow> usize \<Rightarrow> u16 list option" where
  "apply_horizontal_predictor_u16 arch data data_w data_h spp =
     (if spp \<noteq> 1 then apply_horizontal_predictor data data_w data_h spp
      else case arch of
             Aarch64 \<Rightarrow> fold_opt (map_row data_w rev_hpredict_neon_u16_spp1) [0..<data_h] data
           | OtherArch \<Rightarrow> apply_horizontal_predictor data data_w data_h spp)"

section \<open>What the loops compute\<close>

text \<open>Every column becomes itself plus the finished column \<open>spp\<close> to its left.\<close>

definition is_scan :: "usize \<Rightarrow> 'a::len word list \<Rightarrow> 'a word list \<Rightarrow> bool" where
  "is_scan spp row out \<longleftrightarrow>
     length out = length row \<and> (\<forall>i<length row. out ! i = (if i < spp then row ! i else row ! i + out ! (i - spp)))"

lemma is_scan_unique:
  assumes "0 < spp" "is_scan spp row a" "is_scan spp row b"
  shows "a = b"
proof (rule nth_equalityI)
  show "length a = length b" using assms by (simp add: is_scan_def)
  fix i assume "i < length a"
  then show "a ! i = b ! i"
  proof (induction i rule: less_induct)
    case (less i)
    then show ?case using assms by (cases "i < spp") (simp_all add: is_scan_def)
  qed
qed

lemma hp_cols_scan:
  assumes len: "length start = length row" and spp: "0 < spp" "spp \<le> first"
    and before: "\<forall>i<first. i < length row \<longrightarrow> start ! i = (if i < spp then row ! i else row ! i + start ! (i - spp))"
    and rest: "\<forall>i. first \<le> i \<and> i < length row \<longrightarrow> start ! i = row ! i"
  shows "is_scan spp row (hp_cols first spp start)"
proof -
  define f where "f = (\<lambda>col (row :: 'a word list). row[col := row ! col + row ! (col - spp)])"
  have inv: "length (fold f [first..<m] start) = length row \<and>
      (\<forall>i<m. i < length row \<longrightarrow> fold f [first..<m] start ! i =
        (if i < spp then row ! i else row ! i + fold f [first..<m] start ! (i - spp))) \<and>
      (\<forall>i. m \<le> i \<and> i < length row \<longrightarrow> fold f [first..<m] start ! i = row ! i)"
    if "first \<le> m" "m \<le> max first (length row)" for m
    using that
  proof (induction m rule: dec_induct)
    case base
    then show ?case using len before rest by simp
  next
    case (step m)
    let ?s = "fold f [first..<m] start"
    have IH: "length ?s = length row" "\<forall>i<m. i < length row \<longrightarrow> ?s ! i = (if i < spp then row ! i else row ! i + ?s ! (i - spp))"
        "\<forall>i. m \<le> i \<and> i < length row \<longrightarrow> ?s ! i = row ! i" using step by simp_all
    have m: "m < length row" using step by simp
    have s': "fold f [first..<Suc m] start = ?s[m := row ! m + ?s ! (m - spp)]"
      using step IH(3) m by (simp add: f_def)
    have "?s[m := row ! m + ?s ! (m - spp)] ! i = (if i < spp then row ! i else row ! i + ?s[m := row ! m + ?s ! (m - spp)] ! (i - spp))"
      if "i < Suc m" for i
      using that IH m spp step by (cases "i = m") (auto simp: nth_list_update)
    then show ?case unfolding s' using IH m by simp
  qed
  define n where "n = max first (length row)"
  have eq: "hp_cols first spp start = fold f [first..<n] start \<or> length row \<le> first"
    by (cases "first \<le> length row") (auto simp: hp_cols_def f_def n_def len max_def)
  show ?thesis
  proof (cases "length row \<le> first")
    case True
    then have "hp_cols first spp start = start" by (simp add: hp_cols_def len)
    then show ?thesis using True before len by (simp add: is_scan_def)
  next
    case False
    then show ?thesis using eq inv [of n] by (simp add: is_scan_def n_def)
  qed
qed

lemma hp_cols_is_scan: "0 < spp \<Longrightarrow> is_scan spp row (hp_cols spp spp row)"
  by (rule hp_cols_scan) simp_all

section \<open>The vector code computes the same\<close>

text \<open>Sums of the last \<open>m\<close> lanes up to lane \<open>i\<close>; each step of the scan doubles \<open>m\<close>.\<close>

definition window :: "nat \<Rightarrow> 'a::len word list \<Rightarrow> nat \<Rightarrow> 'a word" where
  "window m v i = sum_list (drop (Suc i - m) (take (Suc i) v))"

lemma window_double:
  assumes "i < length v"
  shows "window (2 * m) v i = window m v i + (if m \<le> i then window m v (i - m) else 0)"
proof (cases "m \<le> i")
  case True
  define A where "A = Suc i - m"
  define B where "B = Suc i - 2 * m"
  have le: "B \<le> A" "A \<le> Suc i" "A \<le> length v" using assms True by (simp_all add: A_def B_def)
  have "take (Suc i) v = take A v @ drop A (take (Suc i) v)"
    using append_take_drop_id [of A "take (Suc i) v"] le by (simp add: min_def)
  then have "drop B (take (Suc i) v) = drop B (take A v) @ drop A (take (Suc i) v)"
    using le by (metis drop_append length_take min.absorb2 diff_is_0_eq drop_0)
  moreover have "Suc (i - m) = A" "Suc (i - m) - m = B" using True by (simp_all add: A_def B_def)
  ultimately show ?thesis using True by (simp add: window_def A_def [symmetric] B_def [symmetric] add.commute)
qed (simp add: window_def)

lemma vext_step:
  assumes len: "length v = L" "length w = L" and w: "\<forall>i<L. w ! i = window m v i" and m: "m \<le> L" and n: "n = L - m" and m': "m' = 2 * m"
  shows "length (vaddq w (vextq (replicate L 0) w n)) = L \<and> (\<forall>i<L. vaddq w (vextq (replicate L 0) w n) ! i = window m' v i)"
proof -
  have ext: "vextq (replicate L 0) w n = take L (replicate m 0 @ w)" using m n len by (simp add: vextq_def)
  have "take L (replicate m 0 @ w) ! i = (if m \<le> i then w ! (i - m) else 0)" if "i < L" for i
    using that by (simp add: nth_append)
  moreover have "length (vaddq w (vextq (replicate L 0) w n)) = L" using len by (simp add: vaddq_def ext)
  ultimately show ?thesis using w len window_double [of _ v m] by (auto simp: vaddq_def ext m')
qed

lemma window_1: "i < length v \<Longrightarrow> window (Suc 0) v i = v ! i"
  by (simp add: window_def take_Suc_conv_app_nth)

lemma window_full: "length v \<le> m \<Longrightarrow> i < length v \<Longrightarrow> window m v i = sum_list (take (Suc i) v)"
  by (simp add: window_def)

definition scans :: "nat \<Rightarrow> ('a::len word list \<Rightarrow> 'a word \<Rightarrow> 'a word list) \<Rightarrow> bool" where
  "scans L scan \<longleftrightarrow>
     (\<forall>v c. length v = L \<longrightarrow> length (scan v c) = L \<and> (\<forall>i<L. scan v c ! i = sum_list (take (Suc i) v) + c))"

lemma scans_u8: "scans 16 neon_scan_u8"
  unfolding scans_def
proof (intro allI impI)
  fix v :: "u8 list" and c
  assume v: "length v = 16"
  define v1 where "v1 = vaddq v (vextq (replicate 16 0) v 15)"
  define v2 where "v2 = vaddq v1 (vextq (replicate 16 0) v1 14)"
  define v3 where "v3 = vaddq v2 (vextq (replicate 16 0) v2 12)"
  define v4 where "v4 = vaddq v3 (vextq (replicate 16 0) v3 8)"
  have w: "\<forall>i<16. v ! i = window (Suc 0) v i" using v by (simp add: window_1)
  have s1: "length v1 = 16 \<and> (\<forall>i<16. v1 ! i = window 2 v i)"
    unfolding v1_def by (rule vext_step [OF v v w]) simp_all
  have s2: "length v2 = 16 \<and> (\<forall>i<16. v2 ! i = window 4 v i)"
    unfolding v2_def by (rule vext_step [OF v conjunct1 [OF s1] conjunct2 [OF s1]]) simp_all
  have s3: "length v3 = 16 \<and> (\<forall>i<16. v3 ! i = window 8 v i)"
    unfolding v3_def by (rule vext_step [OF v conjunct1 [OF s2] conjunct2 [OF s2]]) simp_all
  have s4: "length v4 = 16 \<and> (\<forall>i<16. v4 ! i = window 16 v i)"
    unfolding v4_def by (rule vext_step [OF v conjunct1 [OF s3] conjunct2 [OF s3]]) simp_all
  have "neon_scan_u8 v c = vaddq v4 (replicate 16 c)"
    by (simp only: neon_scan_u8_def Let_def v1_def v2_def v3_def v4_def)
  moreover have "v4 ! i = sum_list (take (Suc i) v)" if "i < 16" for i
    using s4 that window_full [of v 16 i] v by simp
  ultimately show "length (neon_scan_u8 v c) = 16 \<and> (\<forall>i<16. neon_scan_u8 v c ! i = sum_list (take (Suc i) v) + c)"
    using s4 by (simp add: vaddq_def)
qed

lemma scans_u16: "scans 8 neon_scan_u16"
  unfolding scans_def
proof (intro allI impI)
  fix v :: "u16 list" and c
  assume v: "length v = 8"
  define v1 where "v1 = vaddq v (vextq (replicate 8 0) v 7)"
  define v2 where "v2 = vaddq v1 (vextq (replicate 8 0) v1 6)"
  define v3 where "v3 = vaddq v2 (vextq (replicate 8 0) v2 4)"
  have w: "\<forall>i<8. v ! i = window (Suc 0) v i" using v by (simp add: window_1)
  have s1: "length v1 = 8 \<and> (\<forall>i<8. v1 ! i = window 2 v i)"
    unfolding v1_def by (rule vext_step [OF v v w]) simp_all
  have s2: "length v2 = 8 \<and> (\<forall>i<8. v2 ! i = window 4 v i)"
    unfolding v2_def by (rule vext_step [OF v conjunct1 [OF s1] conjunct2 [OF s1]]) simp_all
  have s3: "length v3 = 8 \<and> (\<forall>i<8. v3 ! i = window 8 v i)"
    unfolding v3_def by (rule vext_step [OF v conjunct1 [OF s2] conjunct2 [OF s2]]) simp_all
  have "neon_scan_u16 v c = vaddq v3 (replicate 8 c)"
    by (simp only: neon_scan_u16_def Let_def v1_def v2_def v3_def)
  moreover have "v3 ! i = sum_list (take (Suc i) v)" if "i < 8" for i
    using s3 that window_full [of v 8 i] v by simp
  ultimately show "length (neon_scan_u16 v c) = 8 \<and> (\<forall>i<8. neon_scan_u16 v c ! i = sum_list (take (Suc i) v) + c)"
    using s3 by (simp add: vaddq_def)
qed

lemma neon_chunks_scan:
  assumes L: "0 < L" and sc: "scans L scan"
  shows "n * L \<le> length data \<Longrightarrow>
    length (neon_chunks L scan n c data) = length data \<and>
    (\<forall>i<length data. neon_chunks L scan n c data ! i = (if i < n * L then c + sum_list (take (Suc i) data) else data ! i))"
proof (induction n arbitrary: c data)
  case (Suc n)
  define v where "v = scan (take L data) c"
  have len: "length (take L data) = L" using Suc.prems by simp
  have v: "length v = L" "\<And>i. i < L \<Longrightarrow> v ! i = sum_list (take (Suc i) data) + c"
    using sc len by (auto simp: scans_def v_def min_def)
  have last: "v ! (L - 1) = sum_list (take L data) + c" using v(2) [of "L - 1"] L by simp
  have IH: "length (neon_chunks L scan n (v ! (L - 1)) (drop L data)) = length data - L"
      "\<And>i. i < length data - L \<Longrightarrow> neon_chunks L scan n (v ! (L - 1)) (drop L data) ! i =
        (if i < n * L then v ! (L - 1) + sum_list (take (Suc i) (drop L data)) else drop L data ! i)"
    using Suc.IH [of "drop L data" "v ! (L - 1)"] Suc.prems by auto
  have run: "neon_chunks L scan (Suc n) c data = v @ neon_chunks L scan n (v ! (L - 1)) (drop L data)" by (simp add: v_def Let_def)
  have "neon_chunks L scan (Suc n) c data ! i = (if i < Suc n * L then c + sum_list (take (Suc i) data) else data ! i)"
    if i: "i < length data" for i
  proof (cases "i < L")
    case True
    then show ?thesis unfolding run using v by (simp add: nth_append add.commute trans_less_add1)
  next
    case False
    then obtain j where j: "i = L + j" using le_Suc_ex [of L i] by (metis not_less)
    have "take (Suc i) data = take L data @ take (Suc j) (drop L data)" by (simp add: j take_add add_Suc_right [symmetric] del: add_Suc_right)
    then have "sum_list (take (Suc i) data) = sum_list (take L data) + sum_list (take (Suc j) (drop L data))" by simp
    then show ?thesis unfolding run last using IH(2) [of j, unfolded last] i by (simp add: nth_append v(1) j algebra_simps)
  qed
  moreover have "length (neon_chunks L scan (Suc n) c data) = length data" unfolding run using IH(1) v(1) Suc.prems by simp
  ultimately show ?case by blast
qed simp

lemma neon_scan_is_scan:
  assumes L: "0 < L" and sc: "scans L scan"
  shows "is_scan 1 row (hp_cols (max (length row div L * L) 1) 1 (neon_chunks L scan (length row div L) 0 row))"
proof (rule hp_cols_scan)
  let ?n = "length row div L" and ?c = "neon_chunks L scan (length row div L) 0 row"
  have le: "?n * L \<le> length row" by (simp add: mult.commute)
  note ch = neon_chunks_scan [OF L sc le, of 0]
  show "length ?c = length row" using ch by simp
  have c: "?c ! i = (if i < ?n * L then sum_list (take (Suc i) row) else row ! i)" if "i < length row" for i using ch that by simp
  show "\<forall>i<max (?n * L) 1. i < length row \<longrightarrow> ?c ! i = (if i < 1 then row ! i else row ! i + ?c ! (i - 1))"
  proof (intro allI impI)
    fix i assume i: "i < max (?n * L) 1" "i < length row"
    show "?c ! i = (if i < 1 then row ! i else row ! i + ?c ! (i - 1))"
    proof (cases i)
      case 0
      then show ?thesis using c [of 0] i by (simp add: take_Suc_conv_app_nth)
    next
      case (Suc j)
      then have "i < ?n * L" using i by simp
      then show ?thesis using c [of i] c [of j] i Suc by (simp add: take_Suc_conv_app_nth add.commute)
    qed
  qed
  show "\<forall>i. max (?n * L) 1 \<le> i \<and> i < length row \<longrightarrow> ?c ! i = row ! i" using c by simp
qed simp_all

lemma neon_u8_scalar: "rev_hpredict_neon_u8_spp1 = hp_cols 1 1"
  using is_scan_unique [OF _ neon_scan_is_scan [OF _ scans_u8] hp_cols_is_scan]
  by (intro ext) (simp add: rev_hpredict_neon_u8_spp1_def Let_def)

lemma neon_u16_scalar: "rev_hpredict_neon_u16_spp1 = hp_cols 1 1"
  using is_scan_unique [OF _ neon_scan_is_scan [OF _ scans_u16] hp_cols_is_scan]
  by (intro ext) (simp add: rev_hpredict_neon_u16_spp1_def Let_def)

lemma predictor_u8_arch: "apply_horizontal_predictor_u8 arch data w h spp = apply_horizontal_predictor data w h spp"
  by (cases arch) (simp_all add: apply_horizontal_predictor_u8_def apply_horizontal_predictor_def neon_u8_scalar)

lemma predictor_u16_arch: "apply_horizontal_predictor_u16 arch data w h spp = apply_horizontal_predictor data w h spp"
  by (cases arch) (simp_all add: apply_horizontal_predictor_u16_def apply_horizontal_predictor_def neon_u16_scalar)

section \<open>Floating point differences\<close>

text \<open>Sample \<open>i\<close> of \<open>k\<close> big-endian byte planes; the accesses panic outside the input.\<close>

definition plane_sample :: "nat \<Rightarrow> bytes \<Rightarrow> nat \<Rightarrow> 'a::len word" where
  "plane_sample k input i = from_be_bytes (map (\<lambda>b. input ! (length input div k * b + i)) [0..<k])"

definition planes_in_range :: "nat \<Rightarrow> bytes \<Rightarrow> nat \<Rightarrow> bool" where
  "planes_in_range k input n \<longleftrightarrow> n = 0 \<or> length input div k * (k - 1) + n \<le> length input"

definition fp_predict :: "nat \<Rightarrow> bytes \<Rightarrow> usize \<Rightarrow> usize \<Rightarrow> 'a::len word list option" where
  "fp_predict k input n spp =
     (let input = hp_cols spp spp input
      in if planes_in_range k input n then Some (map (plane_sample k input) [0..<n]) else None)"

definition fp_predict_f32 :: "bytes \<Rightarrow> usize \<Rightarrow> usize \<Rightarrow> f32 list option" where
  "fp_predict_f32 input n spp = fp_predict 4 input n spp"

definition fp_predict_f64 :: "bytes \<Rightarrow> usize \<Rightarrow> usize \<Rightarrow> f64 list option" where
  "fp_predict_f64 input n spp = fp_predict 8 input n spp"

text \<open>\<open>vld1q_u8\<close>, the interleaving store \<open>vst4q_u8\<close>, and the two halves of interleaved lanes of \<open>w\<close> bytes.\<close>

definition vld1q_u8 :: "bytes \<Rightarrow> nat \<Rightarrow> bytes" where
  "vld1q_u8 mem p = take 16 (drop p mem)"

definition vst4q_u8 :: "bytes \<Rightarrow> bytes \<Rightarrow> bytes \<Rightarrow> bytes \<Rightarrow> bytes" where
  "vst4q_u8 a b c d = concat (map (\<lambda>j. [a ! j, b ! j, c ! j, d ! j]) [0..<16])"

definition groups_of :: "nat \<Rightarrow> 'b list \<Rightarrow> 'b list list" where
  "groups_of w xs = map (\<lambda>i. take w (drop (w * i) xs)) [0..<length xs div w]"

definition vzip1q :: "nat \<Rightarrow> bytes \<Rightarrow> bytes \<Rightarrow> bytes" where
  "vzip1q w a b = take 16 (concat (map2 (@) (groups_of w a) (groups_of w b)))"

definition vzip2q :: "nat \<Rightarrow> bytes \<Rightarrow> bytes \<Rightarrow> bytes" where
  "vzip2q w a b = drop 16 (concat (map2 (@) (groups_of w a) (groups_of w b)))"

text \<open>Memory read as samples of the host.\<close>

definition le_samples :: "nat \<Rightarrow> bytes \<Rightarrow> 'a::len word list" where
  "le_samples w mem = map from_le_bytes (groups_of w mem)"

definition neon_block_f32 :: "bytes \<Rightarrow> nat \<Rightarrow> nat \<Rightarrow> bytes" where
  "neon_block_f32 input plane_stride offset =
     (let v0 = vld1q_u8 input offset; v1 = vld1q_u8 input (plane_stride + offset);
          v2 = vld1q_u8 input (plane_stride * 2 + offset); v3 = vld1q_u8 input (plane_stride * 3 + offset)
      in vst4q_u8 v3 v2 v1 v0)"

definition neon_block_f64 :: "bytes \<Rightarrow> nat \<Rightarrow> nat \<Rightarrow> bytes" where
  "neon_block_f64 input plane_stride offset =
     (let v0 = vld1q_u8 input offset; v1 = vld1q_u8 input (plane_stride + offset);
          v2 = vld1q_u8 input (plane_stride * 2 + offset); v3 = vld1q_u8 input (plane_stride * 3 + offset);
          v4 = vld1q_u8 input (plane_stride * 4 + offset); v5 = vld1q_u8 input (plane_stride * 5 + offset);
          v6 = vld1q_u8 input (plane_stride * 6 + offset); v7 = vld1q_u8 input (plane_stride * 7 + offset);
          p76_lo = vzip1q 1 v7 v6; p76_hi = vzip2q 1 v7 v6;
          p54_lo = vzip1q 1 v5 v4; p54_hi = vzip2q 1 v5 v4;
          p32_lo = vzip1q 1 v3 v2; p32_hi = vzip2q 1 v3 v2;
          p10_lo = vzip1q 1 v1 v0; p10_hi = vzip2q 1 v1 v0;
          w_lo_0 = vzip1q 2 p76_lo p54_lo; w_lo_1 = vzip2q 2 p76_lo p54_lo;
          w_hi_0 = vzip1q 2 p32_lo p10_lo; w_hi_1 = vzip2q 2 p32_lo p10_lo;
          w_lo_2 = vzip1q 2 p76_hi p54_hi; w_lo_3 = vzip2q 2 p76_hi p54_hi;
          w_hi_2 = vzip1q 2 p32_hi p10_hi; w_hi_3 = vzip2q 2 p32_hi p10_hi
      in vzip1q 4 w_lo_0 w_hi_0 @ vzip2q 4 w_lo_0 w_hi_0 @ vzip1q 4 w_lo_1 w_hi_1 @ vzip2q 4 w_lo_1 w_hi_1 @
         vzip1q 4 w_lo_2 w_hi_2 @ vzip2q 4 w_lo_2 w_hi_2 @ vzip1q 4 w_lo_3 w_hi_3 @ vzip2q 4 w_lo_3 w_hi_3)"

definition fp_predict_f32_neon_spp1 :: "bytes \<Rightarrow> usize \<Rightarrow> f32 list" where
  "fp_predict_f32_neon_spp1 input out_len =
     (let input = rev_hpredict_neon_u8_spp1 input;
          plane_stride = length input div 4;
          chunks = out_len div 16
      in concat (map (\<lambda>i. le_samples 4 (neon_block_f32 input plane_stride (i * 16))) [0..<chunks]) @
         map (plane_sample 4 input) [chunks * 16..<out_len])"

definition fp_predict_f64_neon_spp1 :: "bytes \<Rightarrow> usize \<Rightarrow> f64 list" where
  "fp_predict_f64_neon_spp1 input out_len =
     (let input = rev_hpredict_neon_u8_spp1 input;
          plane_stride = length input div 8;
          chunks = out_len div 16
      in concat (map (\<lambda>i. le_samples 8 (neon_block_f64 input plane_stride (i * 16))) [0..<chunks]) @
         map (plane_sample 8 input) [chunks * 16..<out_len])"

definition decode_fp_predict_f32 :: "arch \<Rightarrow> bytes \<Rightarrow> usize \<Rightarrow> usize \<Rightarrow> f32 list option" where
  "decode_fp_predict_f32 arch input n spp =
     (if arch = Aarch64 \<and> spp = 1 \<and> n \<le> length input div 4 then Some (fp_predict_f32_neon_spp1 input n)
      else fp_predict_f32 input n spp)"

definition decode_fp_predict_f64 :: "arch \<Rightarrow> bytes \<Rightarrow> usize \<Rightarrow> usize \<Rightarrow> f64 list option" where
  "decode_fp_predict_f64 arch input n spp =
     (if arch = Aarch64 \<and> spp = 1 \<and> n \<le> length input div 8 then Some (fp_predict_f64_neon_spp1 input n)
      else fp_predict_f64 input n spp)"

section \<open>Interleaving by zips\<close>

definition blocks :: "(nat \<Rightarrow> 'b list) \<Rightarrow> nat \<Rightarrow> nat \<Rightarrow> 'b list" where
  "blocks f a b = concat (map f [a..<b])"

lemma length_blocks: "(\<And>j. length (f j) = w) \<Longrightarrow> length (blocks f a b) = (b - a) * w"
  by (simp add: blocks_def length_concat comp_def sum_list_triv)

lemma blocks_split: "a \<le> m \<Longrightarrow> m \<le> b \<Longrightarrow> blocks f a b = blocks f a m @ blocks f m b"
  using upt_add_eq_append [of a m "b - m"] by (simp add: blocks_def)

lemma take_drop_blocks:
  assumes len: "\<And>j. length (f j) = w" and m: "a \<le> m" "m \<le> b"
  shows "take ((m - a) * w) (blocks f a b) = blocks f a m" "drop ((m - a) * w) (blocks f a b) = blocks f m b"
  using length_blocks [of f w a m] len by (simp_all add: blocks_split [OF m])

lemma groups_blocks:
  assumes len: "\<And>j. length (f j) = w" and w: "0 < w"
  shows "groups_of w (blocks f a b) = map f [a..<b]"
proof (rule nth_equalityI)
  have l: "length (blocks f a b) = (b - a) * w" using length_blocks [of f w a b] len by simp
  then show "length (groups_of w (blocks f a b)) = length (map f [a..<b])" using w by (simp add: groups_of_def)
  fix i assume "i < length (groups_of w (blocks f a b))"
  then have i: "i < b - a" using l w by (simp add: groups_of_def)
  have "drop (w * i) (blocks f a b) = blocks f (a + i) b"
    using take_drop_blocks(2) [OF len, of a "a + i" b] i by (simp add: mult.commute)
  also have "\<dots> = f (a + i) @ blocks f (Suc (a + i)) b" using i by (simp add: blocks_def upt_conv_Cons)
  finally show "groups_of w (blocks f a b) ! i = map f [a..<b] ! i" using i l w len by (simp add: groups_of_def)
qed

lemma vzip_blocks:
  assumes f: "\<And>j. length (f j) = w" and g: "\<And>j. length (g j) = w" and w: "0 < w" and m: "a \<le> m" "m \<le> b" "(m - a) * (2 * w) = 16"
  shows "vzip1q w (blocks f a b) (blocks g a b) = blocks (\<lambda>j. f j @ g j) a m"
    "vzip2q w (blocks f a b) (blocks g a b) = blocks (\<lambda>j. f j @ g j) m b"
proof -
  have "concat (map2 (@) (groups_of w (blocks f a b)) (groups_of w (blocks g a b))) = blocks (\<lambda>j. f j @ g j) a b"
    by (simp only: groups_blocks [of f, OF f w] groups_blocks [of g, OF g w]) (simp add: blocks_def map2_map_map)
  moreover have "length (f j @ g j) = 2 * w" for j using f g by simp
  ultimately show "vzip1q w (blocks f a b) (blocks g a b) = blocks (\<lambda>j. f j @ g j) a m"
    "vzip2q w (blocks f a b) (blocks g a b) = blocks (\<lambda>j. f j @ g j) m b"
    using take_drop_blocks [of "\<lambda>j. f j @ g j" "2 * w" a m b] m by (simp_all add: vzip1q_def vzip2q_def)
qed

lemma vld_blocks:
  assumes "p + 16 \<le> length mem"
  shows "vld1q_u8 mem p = blocks (\<lambda>j. [mem ! (p + j)]) 0 16"
proof -
  have "vld1q_u8 mem p = map (\<lambda>j. mem ! (p + j)) [0..<16]"
    using assms by (intro nth_equalityI) (simp_all add: vld1q_u8_def)
  also have "\<dots> = blocks (\<lambda>j. [mem ! (p + j)]) 0 16" by (simp add: blocks_def concat_map_singleton)
  finally show ?thesis .
qed

lemma neon_block_f32:
  assumes "plane * 3 + off + 16 \<le> length mem"
  shows "neon_block_f32 mem plane off =
    blocks (\<lambda>j. [mem ! (plane * 3 + off + j), mem ! (plane * 2 + off + j), mem ! (plane + off + j), mem ! (off + j)]) 0 16"
proof -
  have "vld1q_u8 mem p ! j = mem ! (p + j)" if "p \<le> plane * 3 + off" "j < 16" for p j
    using assms that by (simp add: vld1q_u8_def)
  then show ?thesis unfolding neon_block_f32_def Let_def vst4q_u8_def blocks_def by (intro arg_cong [where f = concat] map_cong) auto
qed

lemma neon_block_f64:
  assumes "plane * 7 + off + 16 \<le> length mem"
  shows "neon_block_f64 mem plane off = blocks (\<lambda>j. map (\<lambda>b. mem ! (plane * b + off + j)) [7, 6, 5, 4, 3, 2, 1, 0]) 0 16"
proof -
  have ld: "vld1q_u8 mem (plane * b + off) = blocks (\<lambda>j. [mem ! (plane * b + off + j)]) 0 16" if "b \<le> 7" for b
    using mult_le_mono2 [OF that, of plane] assms by (intro vld_blocks) linarith
  note lds = ld [of 0, simplified] ld [of 1, simplified] ld [of 2, simplified] ld [of 3, simplified] ld [of 4, simplified]
    ld [of 5, simplified] ld [of 6, simplified] ld [of 7, simplified]
  have z1: "vzip1q 1 (blocks (\<lambda>j. [f j]) 0 16) (blocks (\<lambda>j. [g j]) 0 16) = blocks (\<lambda>j. [f j, g j]) 0 8"
    "vzip2q 1 (blocks (\<lambda>j. [f j]) 0 16) (blocks (\<lambda>j. [g j]) 0 16) = blocks (\<lambda>j. [f j, g j]) 8 16" for f g :: "nat \<Rightarrow> u8"
    using vzip_blocks [of "\<lambda>j. [f j]" 1 "\<lambda>j. [g j]" 0 8 16] by simp_all
  have z2: "vzip1q 2 (blocks (\<lambda>j. [f j, f' j]) a (a + 8)) (blocks (\<lambda>j. [g j, g' j]) a (a + 8)) = blocks (\<lambda>j. [f j, f' j, g j, g' j]) a (a + 4)"
    "vzip2q 2 (blocks (\<lambda>j. [f j, f' j]) a (a + 8)) (blocks (\<lambda>j. [g j, g' j]) a (a + 8)) = blocks (\<lambda>j. [f j, f' j, g j, g' j]) (a + 4) (a + 8)"
    for f f' g g' :: "nat \<Rightarrow> u8" and a
    using vzip_blocks [of "\<lambda>j. [f j, f' j]" 2 "\<lambda>j. [g j, g' j]" a "a + 4" "a + 8"] by simp_all
  have z4: "vzip1q 4 (blocks (\<lambda>j. [f j, f1 j, f2 j, f3 j]) a (a + 4)) (blocks (\<lambda>j. [g j, g1 j, g2 j, g3 j]) a (a + 4)) =
      blocks (\<lambda>j. [f j, f1 j, f2 j, f3 j, g j, g1 j, g2 j, g3 j]) a (a + 2)"
    "vzip2q 4 (blocks (\<lambda>j. [f j, f1 j, f2 j, f3 j]) a (a + 4)) (blocks (\<lambda>j. [g j, g1 j, g2 j, g3 j]) a (a + 4)) =
      blocks (\<lambda>j. [f j, f1 j, f2 j, f3 j, g j, g1 j, g2 j, g3 j]) (a + 2) (a + 4)"
    for f f1 f2 f3 g g1 g2 g3 :: "nat \<Rightarrow> u8" and a
    using vzip_blocks [of "\<lambda>j. [f j, f1 j, f2 j, f3 j]" 4 "\<lambda>j. [g j, g1 j, g2 j, g3 j]" a "a + 2" "a + 4"] by simp_all
  note z2' = z2 [where a = 0, simplified] z2 [where a = 8, simplified]
  note z4' = z4 [where a = 0, simplified] z4 [where a = 4, simplified] z4 [where a = 8, simplified] z4 [where a = 12, simplified]
  define F where "F = (\<lambda>j. map (\<lambda>b. mem ! (plane * b + off + j)) [7, 6, 5, 4, 3, 2, 1, 0])"
  have "blocks F 0 16 = blocks F 0 2 @ blocks F 2 4 @ blocks F 4 6 @ blocks F 6 8 @ blocks F 8 10 @ blocks F 10 12 @ blocks F 12 14 @ blocks F 14 16"
    using blocks_split [of 0 2 16 F] blocks_split [of 2 4 16 F] blocks_split [of 4 6 16 F] blocks_split [of 6 8 16 F] blocks_split [of 8 10 16 F]
      blocks_split [of 10 12 16 F] blocks_split [of 12 14 16 F] by simp
  then show ?thesis
    unfolding F_def [symmetric] neon_block_f64_def Let_def
    by (simp only: lds z1 z2' z4') (simp add: F_def numeral_2_eq_2)
qed

lemma upt_4: "[0..<4] = [0, 1, 2, 3]" and upt_8: "[0..<8] = [0, 1, 2, 3, 4, 5, 6, 7]"
  by (simp_all add: upt_conv_Cons)

lemma neon_samples_f32:
  assumes "off + 16 \<le> length mem div 4"
  shows "le_samples 4 (neon_block_f32 mem (length mem div 4) off) = map (plane_sample 4 mem :: nat \<Rightarrow> f32) [off..<off + 16]"
proof -
  define plane where "plane = length mem div 4"
  have "plane * 3 + off + 16 \<le> length mem" using assms div_times_less_eq_dividend [of "length mem" 4] unfolding plane_def by linarith
  then have "groups_of 4 (neon_block_f32 mem plane off) =
      map (\<lambda>j. [mem ! (plane * 3 + off + j), mem ! (plane * 2 + off + j), mem ! (plane + off + j), mem ! (off + j)]) [0..<16]"
    by (simp only: neon_block_f32) (rule groups_blocks, simp_all)
  moreover have "from_le_bytes [mem ! (plane * 3 + off + j), mem ! (plane * 2 + off + j), mem ! (plane + off + j), mem ! (off + j)] =
      (plane_sample 4 mem (off + j) :: f32)" for j
    by (simp add: plane_sample_def from_be_bytes_def plane_def [symmetric] upt_4 add.assoc del: from_le_bytes.simps)
  ultimately have "le_samples 4 (neon_block_f32 mem plane off) = map (\<lambda>j. plane_sample 4 mem (off + j) :: f32) [0..<16]"
    by (simp add: le_samples_def comp_def)
  also have "\<dots> = map (plane_sample 4 mem) [off..<off + 16]" by (rule nth_equalityI) simp_all
  finally show ?thesis by (simp add: plane_def)
qed

lemma neon_samples_f64:
  assumes "off + 16 \<le> length mem div 8"
  shows "le_samples 8 (neon_block_f64 mem (length mem div 8) off) = map (plane_sample 8 mem :: nat \<Rightarrow> f64) [off..<off + 16]"
proof -
  define plane where "plane = length mem div 8"
  have "plane * 7 + off + 16 \<le> length mem" using assms div_times_less_eq_dividend [of "length mem" 8] unfolding plane_def by linarith
  then have "groups_of 8 (neon_block_f64 mem plane off) = map (\<lambda>j. map (\<lambda>b. mem ! (plane * b + off + j)) [7, 6, 5, 4, 3, 2, 1, 0]) [0..<16]"
    by (simp only: neon_block_f64) (rule groups_blocks, simp_all)
  moreover have "from_le_bytes (map (\<lambda>b. mem ! (plane * b + off + j)) [7, 6, 5, 4, 3, 2, 1, 0]) = (plane_sample 8 mem (off + j) :: f64)" for j
    by (simp add: plane_sample_def from_be_bytes_def plane_def [symmetric] upt_8 add.assoc del: from_le_bytes.simps)
  ultimately have "le_samples 8 (neon_block_f64 mem plane off) = map (\<lambda>j. plane_sample 8 mem (off + j) :: f64) [0..<16]"
    by (simp add: le_samples_def comp_def del: from_le_bytes.simps)
  also have "\<dots> = map (plane_sample 8 mem) [off..<off + 16]" by (rule nth_equalityI) simp_all
  finally show ?thesis by (simp add: plane_def)
qed

lemma upt_append: "m \<le> n \<Longrightarrow> [0..<m] @ [m..<n] = [0..<n]"
  using upt_add_eq_append [of 0 m "n - m"] by simp

lemma concat_map_blocks: "concat (map (\<lambda>i. map g [i * 16..<i * 16 + 16]) [0..<n]) = map g [0..<n * 16]"
proof (induction n)
  case (Suc n)
  then show ?case using upt_add_eq_append [of 0 "n * 16" 16] by (simp add: add.commute)
qed simp

lemma in_range_of_plane: "n \<le> length input div k \<Longrightarrow> 0 < k \<Longrightarrow> planes_in_range k input n"
proof -
  assume n: "n \<le> length input div k" and k: "0 < k"
  have "length input div k * (k - 1) + n \<le> length input div k * (k - 1) + length input div k" using n by simp
  also have "\<dots> = length input div k * k" using k by (cases k) simp_all
  finally show ?thesis using div_times_less_eq_dividend [of "length input" k] unfolding planes_in_range_def by linarith
qed

lemma length_hp_cols [simp]: "length (hp_cols m spp row) = length row"
proof -
  have "length (fold (\<lambda>col row. row[col := row ! col + row ! (col - spp)]) cs row) = length row" for cs
    by (induction cs arbitrary: row) simp_all
  then show ?thesis by (simp add: hp_cols_def)
qed

lemma neon_f32_scalar:
  assumes "n \<le> length input div 4"
  shows "fp_predict_f32 input n 1 = Some (fp_predict_f32_neon_spp1 input n)"
proof -
  define mem where "mem = hp_cols 1 1 input"
  have len: "length mem = length input" by (simp add: mem_def)
  have "le_samples 4 (neon_block_f32 mem (length mem div 4) (i * 16)) = map (plane_sample 4 mem :: nat \<Rightarrow> f32) [i * 16..<i * 16 + 16]" if "i < n div 16" for i
  proof -
    have "i * 16 + 16 \<le> n" using that div_times_less_eq_dividend [of n 16] by linarith
    then show ?thesis using assms len by (intro neon_samples_f32) linarith
  qed
  then have "concat (map (\<lambda>i. le_samples 4 (neon_block_f32 mem (length mem div 4) (i * 16))) [0..<n div 16]) =
      map (plane_sample 4 mem :: nat \<Rightarrow> f32) [0..<n div 16 * 16]"
    unfolding concat_map_blocks [symmetric] by (intro arg_cong [where f = concat] map_cong) auto
  moreover have "map (plane_sample 4 mem) [0..<n div 16 * 16] @ map (plane_sample 4 mem) [n div 16 * 16..<n] = map (plane_sample 4 mem :: nat \<Rightarrow> f32) [0..<n]"
    by (simp add: map_append [symmetric] div_times_less_eq_dividend upt_append del: map_append)
  moreover have "planes_in_range 4 mem n" using assms len by (intro in_range_of_plane) simp_all
  ultimately show ?thesis
    unfolding fp_predict_f32_def fp_predict_def fp_predict_f32_neon_spp1_def neon_u8_scalar Let_def mem_def [symmetric] by simp
qed

lemma neon_f64_scalar:
  assumes "n \<le> length input div 8"
  shows "fp_predict_f64 input n 1 = Some (fp_predict_f64_neon_spp1 input n)"
proof -
  define mem where "mem = hp_cols 1 1 input"
  have len: "length mem = length input" by (simp add: mem_def)
  have "le_samples 8 (neon_block_f64 mem (length mem div 8) (i * 16)) = map (plane_sample 8 mem :: nat \<Rightarrow> f64) [i * 16..<i * 16 + 16]" if "i < n div 16" for i
  proof -
    have "i * 16 + 16 \<le> n" using that div_times_less_eq_dividend [of n 16] by linarith
    then show ?thesis using assms len by (intro neon_samples_f64) linarith
  qed
  then have "concat (map (\<lambda>i. le_samples 8 (neon_block_f64 mem (length mem div 8) (i * 16))) [0..<n div 16]) =
      map (plane_sample 8 mem :: nat \<Rightarrow> f64) [0..<n div 16 * 16]"
    unfolding concat_map_blocks [symmetric] by (intro arg_cong [where f = concat] map_cong) auto
  moreover have "map (plane_sample 8 mem) [0..<n div 16 * 16] @ map (plane_sample 8 mem) [n div 16 * 16..<n] = map (plane_sample 8 mem :: nat \<Rightarrow> f64) [0..<n]"
    by (simp add: map_append [symmetric] div_times_less_eq_dividend upt_append del: map_append)
  moreover have "planes_in_range 8 mem n" using assms len by (intro in_range_of_plane) simp_all
  ultimately show ?thesis
    unfolding fp_predict_f64_def fp_predict_def fp_predict_f64_neon_spp1_def neon_u8_scalar Let_def mem_def [symmetric] by simp
qed

text \<open>
  C12. The vector code for aarch64 computes exactly what the scalar code does, on every input: the
  parallel prefix sums of the horizontal predictor over bytes and 16-bit samples, and the byte plane
  interleaving of the floating point predictor, whole blocks and tails.
\<close>

theorem neon_predictors_equivalent:
  "apply_horizontal_predictor_u8 Aarch64 d8 w h spp = apply_horizontal_predictor_u8 OtherArch d8 w h spp \<and>
   apply_horizontal_predictor_u16 Aarch64 d16 w h spp = apply_horizontal_predictor_u16 OtherArch d16 w h spp \<and>
   decode_fp_predict_f32 Aarch64 input n spp = decode_fp_predict_f32 OtherArch input n spp \<and>
   decode_fp_predict_f64 Aarch64 input n spp = decode_fp_predict_f64 OtherArch input n spp"
  by (simp add: predictor_u8_arch predictor_u16_arch decode_fp_predict_f32_def decode_fp_predict_f64_def neon_f32_scalar [symmetric] neon_f64_scalar [symmetric])

section \<open>Unpacking chunks\<close>

datatype tiff_byte_order = TiffLittleEndian | TiffBigEndian
datatype tiff_predictor = NoPredictor | HorizontalPredictor | FloatingPointPredictor | UnknownPredictor u16
datatype photometric = WhiteIsZero | OtherPhotometric u16

record chunk_encoding =
  ce_tile_w :: usize
  ce_data_w :: usize
  ce_data_h :: usize
  ce_spp :: usize
  ce_byte_order :: tiff_byte_order
  ce_predictor :: tiff_predictor
  ce_photometric :: photometric

definition invalid_chunk :: rh3_error where
  "invalid_chunk = InvalidMetadata ''invalid or truncated decoded TIFF chunk layout''"

definition chunk_validate :: "chunk_encoding \<Rightarrow> usize \<Rightarrow> usize \<Rightarrow> usize \<Rightarrow> rh3_error + unit" where
  "chunk_validate enc src_len dst_len sample_bytes =
     (if ce_spp enc = 0 \<or> ce_data_w enc = 0 \<or> ce_data_h enc = 0 \<or> ce_tile_w enc < ce_data_w enc then Err invalid_chunk
      else bind_res (ok_or (Option.bind (checked_mul (ce_tile_w enc) (ce_spp enc)) (\<lambda>n. checked_mul n sample_bytes)) invalid_chunk) (\<lambda>src_stride.
           bind_res (ok_or (checked_mul (ce_data_w enc) (ce_spp enc)) invalid_chunk) (\<lambda>dst_stride.
           bind_res (ok_or (checked_mul dst_stride sample_bytes) invalid_chunk) (\<lambda>dst_bytes.
           bind_res (ok_or (checked_mul dst_stride (ce_data_h enc)) invalid_chunk) (\<lambda>samples.
             let last_row = (if ce_predictor enc = FloatingPointPredictor then src_stride else dst_bytes)
             in bind_res (ok_or (Option.bind (checked_mul src_stride (ce_data_h enc - 1)) (\<lambda>n. checked_add n last_row)) invalid_chunk) (\<lambda>required.
                  if src_len < required \<or> dst_len < samples then Err invalid_chunk else Ok ()))))))"

definition sub_slice :: "nat \<Rightarrow> nat \<Rightarrow> 'b list \<Rightarrow> 'b list option" where
  "sub_slice a b xs = (if a \<le> b \<and> b \<le> length xs then Some (take (b - a) (drop a xs)) else None)"

text \<open>Row \<open>r\<close> of the source decoded into row \<open>r\<close> of the destination.\<close>

definition copy_row ::
  "(bytes \<Rightarrow> 'a::len word) \<Rightarrow> usize \<Rightarrow> usize \<Rightarrow> usize \<Rightarrow> bytes \<Rightarrow> nat \<Rightarrow> 'a word list \<Rightarrow> 'a word list option" where
  "copy_row decode sample_bytes src_stride_bytes dst_stride src r dst =
     Option.bind (sub_slice (r * src_stride_bytes) (r * src_stride_bytes + dst_stride * sample_bytes) src) (\<lambda>s.
       map_row dst_stride (\<lambda>_. map decode (groups_of sample_bytes s)) r dst)"

text \<open>The copies that integers and undifferenced floats share: one block, row by row, or with swapped bytes.\<close>

definition copy_samples :: "bytes \<Rightarrow> 'a::len word list \<Rightarrow> chunk_encoding \<Rightarrow> 'a word list option" where
  "copy_samples src dst enc =
     (let sample_bytes = LENGTH('a) div 8;
          src_stride_bytes = ce_tile_w enc * ce_spp enc * sample_bytes;
          dst_stride = ce_data_w enc * ce_spp enc
      in if sample_bytes = 1 \<or> ce_byte_order enc = TiffLittleEndian
         then if src_stride_bytes = dst_stride * sample_bytes
              then let total_samples = ce_data_w enc * ce_data_h enc * ce_spp enc
                   in Option.bind (sub_slice 0 (total_samples * sample_bytes) src) (\<lambda>s.
                        if total_samples \<le> length dst then Some (le_samples sample_bytes s @ drop total_samples dst) else None)
              else fold_opt (copy_row from_le_bytes sample_bytes src_stride_bytes dst_stride src) [0..<ce_data_h enc] dst
         else fold_opt (copy_row (case ce_byte_order enc of TiffLittleEndian \<Rightarrow> from_le_bytes | TiffBigEndian \<Rightarrow> from_be_bytes)
                sample_bytes src_stride_bytes dst_stride src) [0..<ce_data_h enc] dst)"

text \<open>A sample type: undoing the predictor, and inverting a WhiteIsZero value.\<close>

record 's tiff_sample =
  ts_apply_predictor :: "'s list \<Rightarrow> usize \<Rightarrow> usize \<Rightarrow> usize \<Rightarrow> 's list option"
  ts_invert :: "'s \<Rightarrow> 's"

definition unsigned_sample :: "'a::len word tiff_sample" where
  "unsigned_sample = \<lparr> ts_apply_predictor = apply_horizontal_predictor, ts_invert = (\<lambda>x. - 1 - x) \<rparr>"

definition signed_sample :: "'a::len word tiff_sample" where
  "signed_sample = \<lparr> ts_apply_predictor = apply_horizontal_predictor, ts_invert = (\<lambda>x. x) \<rparr>"

definition u8_sample :: "arch \<Rightarrow> u8 tiff_sample" where
  "u8_sample arch = \<lparr> ts_apply_predictor = apply_horizontal_predictor_u8 arch, ts_invert = (\<lambda>x. 255 - x) \<rparr>"

definition u16_sample :: "arch \<Rightarrow> u16 tiff_sample" where
  "u16_sample arch = \<lparr> ts_apply_predictor = apply_horizontal_predictor_u16 arch, ts_invert = (\<lambda>x. 65535 - x) \<rparr>"

definition unpack_integer_samples ::
  "'a::len word tiff_sample \<Rightarrow> bytes \<Rightarrow> 'a word list \<Rightarrow> chunk_encoding \<Rightarrow> (rh3_error + 'a word list) option" where
  "unpack_integer_samples ts src dst enc =
     (case chunk_validate enc (length src) (length dst) (LENGTH('a) div 8) of
        Inl e \<Rightarrow> Some (Err e)
      | Inr _ \<Rightarrow>
          Option.bind (copy_samples src dst enc) (\<lambda>dst.
          Option.bind (if ce_predictor enc = HorizontalPredictor
                       then ts_apply_predictor ts dst (ce_data_w enc) (ce_data_h enc) (ce_spp enc) else Some dst) (\<lambda>dst.
            Some (Ok (if ce_photometric enc = WhiteIsZero then map (ts_invert ts) dst else dst)))))"

text \<open>\<open>decode\<close> undoes the predictor of one row, \<open>invert\<close> is \<open>1.0 - x\<close> and \<open>what\<close> names the type in messages.\<close>

definition unpack_float ::
  "(bytes \<Rightarrow> usize \<Rightarrow> usize \<Rightarrow> 'a::len word list option) \<Rightarrow> ('a word \<Rightarrow> 'a word) \<Rightarrow> string \<Rightarrow> bytes \<Rightarrow> 'a word list \<Rightarrow> chunk_encoding \<Rightarrow>
    (rh3_error + 'a word list) option" where
  "unpack_float decode invert what src dst enc =
     (let sample_bytes = LENGTH('a) div 8
      in case chunk_validate enc (length src) (length dst) sample_bytes of
           Inl e \<Rightarrow> Some (Err e)
         | Inr _ \<Rightarrow>
             let src_stride_bytes = ce_tile_w enc * ce_spp enc * sample_bytes;
                 dst_stride = ce_data_w enc * ce_spp enc;
                 white = (if ce_photometric enc = WhiteIsZero then map invert else (\<lambda>d. d))
             in case ce_predictor enc of
                  FloatingPointPredictor \<Rightarrow>
                    map_option Ok (fold_opt (\<lambda>r dst.
                      Option.bind (sub_slice (r * src_stride_bytes) ((r + 1) * src_stride_bytes) src) (\<lambda>s.
                      Option.bind (decode s dst_stride (ce_spp enc)) (\<lambda>d. map_row dst_stride (\<lambda>_. white d) r dst))) [0..<ce_data_h enc] dst)
                | NoPredictor \<Rightarrow> map_option (\<lambda>dst. Ok (white dst)) (copy_samples src dst enc)
                | HorizontalPredictor \<Rightarrow> Some (Err (InvalidMetadata (''horizontal predictor unsupported for '' @ what)))
                | UnknownPredictor _ \<Rightarrow> Some (Err (InvalidMetadata (''unsupported predictor for '' @ what))))"

text \<open>
  \<open>1.0 - x\<close> of an \<open>f32\<close> is the rounded \<open>f64\<close> difference: rounding twice is exact here, as 53 bits are
  more than twice 24 and two.
\<close>

definition unpack_f32 :: "arch \<Rightarrow> bytes \<Rightarrow> f32 list \<Rightarrow> chunk_encoding \<Rightarrow> (rh3_error + f32 list) option" where
  "unpack_f32 arch = unpack_float (decode_fp_predict_f32 arch) (\<lambda>x. f32_of_f64 (f64_sub f64_one (f64_of_f32 x))) ''f32''"

definition unpack_f64 :: "arch \<Rightarrow> bytes \<Rightarrow> f64 list \<Rightarrow> chunk_encoding \<Rightarrow> (rh3_error + f64 list) option" where
  "unpack_f64 arch = unpack_float (decode_fp_predict_f64 arch) (\<lambda>x. f64_sub f64_one x) ''f64''"

section \<open>Layouts\<close>

lemma chunk_validate_Ok:
  "chunk_validate enc sl dl sb = Ok u \<longleftrightarrow>
     0 < ce_spp enc \<and> 0 < ce_data_w enc \<and> 0 < ce_data_h enc \<and> ce_data_w enc \<le> ce_tile_w enc \<and>
     ce_tile_w enc * ce_spp enc \<le> usize_max \<and> ce_tile_w enc * ce_spp enc * sb \<le> usize_max \<and>
     ce_data_w enc * ce_spp enc \<le> usize_max \<and> ce_data_w enc * ce_spp enc * sb \<le> usize_max \<and>
     ce_data_w enc * ce_spp enc * ce_data_h enc \<le> usize_max \<and>
     ce_tile_w enc * ce_spp enc * sb * (ce_data_h enc - 1) \<le> usize_max \<and>
     (let required = ce_tile_w enc * ce_spp enc * sb * (ce_data_h enc - 1) +
        (if ce_predictor enc = FloatingPointPredictor then ce_tile_w enc * ce_spp enc * sb else ce_data_w enc * ce_spp enc * sb)
      in required \<le> usize_max \<and> required \<le> sl) \<and> ce_data_w enc * ce_spp enc * ce_data_h enc \<le> dl"
  by (auto simp: chunk_validate_def Let_def bind_eq_Some_conv not_less)

lemma chunk_validate_src:
  "chunk_validate enc sl dl sb = Ok u \<Longrightarrow> ce_tile_w enc * ce_spp enc * sb * (ce_data_h enc - 1) +
     (if ce_predictor enc = FloatingPointPredictor then ce_tile_w enc * ce_spp enc * sb else ce_data_w enc * ce_spp enc * sb) \<le> sl"
  by (simp add: chunk_validate_Ok Let_def split del: if_split)

lemma chunk_validate_Err: "chunk_validate enc sl dl sb = Err e \<Longrightarrow> e = invalid_chunk"
  by (auto simp: chunk_validate_def Let_def ok_or.simps split: if_splits option.splits elim!: ok_or.elims)

lemma sub_slice_Some: "a \<le> b \<Longrightarrow> b \<le> length xs \<Longrightarrow> sub_slice a b xs = Some (take (b - a) (drop a xs))"
  by (simp add: sub_slice_def)

text \<open>A loop over rows each of which replaces its own slice.\<close>

lemma fold_rows:
  assumes step: "\<And>r dst. r < h \<Longrightarrow> length dst = length data \<Longrightarrow> drop (r * stride) dst = drop (r * stride) data \<Longrightarrow>
      step r dst = Some (take (r * stride) dst @ x r @ drop ((r + 1) * stride) dst)"
    and len: "\<And>r. r < h \<Longrightarrow> length (x r) = stride" and h: "h * stride \<le> length data"
  shows "fold_opt step [0..<h] data = Some (concat (map x [0..<h]) @ drop (h * stride) data)"
proof -
  have "n \<le> h \<Longrightarrow> fold_opt step [0..<n] data = Some (concat (map x [0..<n]) @ drop (n * stride) data)" for n
  proof (induction n)
    case (Suc n)
    define dst where "dst = concat (map x [0..<n]) @ drop (n * stride) data"
    have "map (length \<circ> x) [0..<n] = map (\<lambda>_. stride) [0..<n]" using len Suc.prems by (intro map_cong) auto
    then have pre: "length (concat (map x [0..<n])) = n * stride"
      by (simp only: length_concat map_map) (simp add: sum_list_triv)
    have le: "Suc n * stride \<le> length data" using h Suc.prems by (metis mult_le_mono1 order_trans)
    then have "n * stride \<le> length data" by simp
    then have "length dst = length data" "drop (n * stride) dst = drop (n * stride) data" using pre by (simp_all add: dst_def)
    then have "step n dst = Some (take (n * stride) dst @ x n @ drop ((n + 1) * stride) dst)" using step Suc.prems by simp
    moreover have "take (n * stride) dst = concat (map x [0..<n])" using pre by (simp add: dst_def)
    moreover have "drop ((n + 1) * stride) dst = drop (Suc n * stride) data" using pre by (simp add: dst_def add.commute)
    moreover have "fold_opt step [0..<n] data = Some dst" using Suc by (simp add: dst_def)
    ultimately show ?case by (simp add: fold_opt_append)
  qed simp
  then show ?thesis by simp
qed

lemma map_row_in: "(r + 1) * stride \<le> length data \<Longrightarrow>
    map_row stride f r data = Some (take (r * stride) data @ f (take stride (drop (r * stride) data)) @ drop ((r + 1) * stride) data)"
  by (simp add: map_row_def)

lemma row_in: "r < h \<Longrightarrow> h * stride \<le> n \<Longrightarrow> (r + 1) * stride \<le> (n :: nat)"
  by (metis Suc_eq_plus1 Suc_leI mult_le_mono1 order_trans)

lemma row_le: "r < h \<Longrightarrow> r * stride \<le> stride * (h - 1 :: nat)"
  by (cases h) (simp_all add: mult.commute mult_le_mono less_Suc_eq_le)

text \<open>The samples of row \<open>r\<close>, as the copies decode them.\<close>

definition chunk_decode :: "chunk_encoding \<Rightarrow> bytes \<Rightarrow> 'a::len word" where
  "chunk_decode enc = (if ce_byte_order enc = TiffLittleEndian then from_le_bytes else from_be_bytes)"

definition src_row :: "nat \<Rightarrow> chunk_encoding \<Rightarrow> bytes \<Rightarrow> nat \<Rightarrow> bytes" where
  "src_row sb enc src r = take (ce_data_w enc * ce_spp enc * sb) (drop (r * (ce_tile_w enc * ce_spp enc * sb)) src)"

lemma length_src_row:
  "r * (ce_tile_w enc * ce_spp enc * sb) + ce_data_w enc * ce_spp enc * sb \<le> length src \<Longrightarrow>
    length (src_row sb enc src r) = ce_data_w enc * ce_spp enc * sb"
  by (simp add: src_row_def)

lemma length_groups_of [simp]: "length (groups_of w xs) = length xs div w"
  by (simp add: groups_of_def)

lemma groups_of_append:
  assumes len: "length xs = a * w" and w: "0 < w"
  shows "groups_of w (xs @ ys) = groups_of w xs @ groups_of w ys"
proof (rule nth_equalityI)
  show l: "length (groups_of w (xs @ ys)) = length (groups_of w xs @ groups_of w ys)" using len w by simp
  fix i assume i: "i < length (groups_of w (xs @ ys))"
  have nth: "groups_of w zs ! j = take w (drop (w * j) zs)" if "j < length zs div w" for zs :: "'a list" and j
    using that by (simp add: groups_of_def)
  show "groups_of w (xs @ ys) ! i = (groups_of w xs @ groups_of w ys) ! i"
  proof (cases "i < a")
    case True
    then have "w * i + w \<le> length xs" using len by (metis Suc_leI mult.commute mult_Suc_right mult_le_mono2 add.commute)
    then show ?thesis using True i w len nth [of i "xs @ ys"] nth [of i xs] by (simp add: nth_append)
  next
    case False
    then obtain j where j: "i = a + j" using le_Suc_ex not_less by blast
    have "drop (w * i) (xs @ ys) = drop (w * j) ys" using len by (simp add: j add_mult_distrib2 mult.commute)
    then show ?thesis using i w len nth [of i "xs @ ys"] nth [of j ys] by (simp add: nth_append j)
  qed
qed

lemma groups_of_rows:
  assumes w: "0 < w"
  shows "n * (k * w) \<le> length src \<Longrightarrow>
    groups_of w (take (n * (k * w)) src) = concat (map (\<lambda>r. groups_of w (take (k * w) (drop (r * (k * w)) src))) [0..<n])"
proof (induction n)
  case (Suc n)
  have "take (Suc n * (k * w)) src = take (n * (k * w)) src @ take (k * w) (drop (n * (k * w)) src)"
    using take_add [of "n * (k * w)" "k * w" src] by (simp add: add.commute)
  moreover have "length (take (n * (k * w)) src) = n * k * w" using Suc.prems by simp
  ultimately have "groups_of w (take (Suc n * (k * w)) src) = groups_of w (take (n * (k * w)) src) @ groups_of w (take (k * w) (drop (n * (k * w)) src))"
    using groups_of_append [OF _ w] by metis
  then show ?case using Suc by simp
qed (simp add: groups_of_def)

lemma from_be_1: "length bs = 1 \<Longrightarrow> from_le_bytes bs = from_be_bytes bs"
  by (cases bs) (simp_all add: from_be_bytes_def)

lemma copy_samples_ok:
  fixes dst :: "'a::len word list"
  assumes ok: "chunk_validate enc (length src) (length dst) sb = Ok ()" and sb: "sb = LENGTH('a) div 8" "0 < sb"
  shows "copy_samples src dst enc = Some (concat (map (\<lambda>r. map (chunk_decode enc) (groups_of sb (src_row sb enc src r))) [0..<ce_data_h enc]) @
    drop (ce_data_h enc * (ce_data_w enc * ce_spp enc)) dst)"
proof -
  define k where "k = ce_data_w enc * ce_spp enc"
  define stride where "stride = ce_tile_w enc * ce_spp enc * sb"
  define h where "h = ce_data_h enc"
  have h: "0 < h" and kd: "h * k \<le> length dst" and kst: "k * sb \<le> stride"
    using ok by (simp_all add: chunk_validate_Ok Let_def k_def stride_def h_def mult.commute mult_le_mono1)
  have "stride * (h - 1) + (if ce_predictor enc = FloatingPointPredictor then stride else k * sb) \<le> length src"
    using chunk_validate_src [OF ok] by (simp only: k_def stride_def h_def)
  then have src: "stride * (h - 1) + k * sb \<le> length src" using kst by (simp split: if_splits)
  have row: "r * stride + k * sb \<le> length src" if "r < h" for r
  proof -
    have "r * stride \<le> stride * (h - 1)" using that by (rule row_le)
    then show ?thesis using src by linarith
  qed
  have step: "copy_row dec sb stride k src r dst' = Some (take (r * k) dst' @ map dec (groups_of sb (src_row sb enc src r)) @ drop ((r + 1) * k) dst')"
    if "r < h" "length dst' = length dst" for dec :: "bytes \<Rightarrow> 'a word" and r dst'
  proof -
    have "(r + 1) * k \<le> length dst'" using row_in [OF that(1) kd] that(2) by simp
    then show ?thesis using row [OF that(1)]
      by (simp add: copy_row_def sub_slice_Some map_row_in src_row_def k_def [symmetric] stride_def [symmetric] mult.assoc [symmetric])
  qed
  have len: "length (map dec (groups_of sb (src_row sb enc src r))) = k" if "r < h" for dec :: "bytes \<Rightarrow> 'a word" and r
    using length_src_row [of r enc sb src] row [OF that] sb(2) by (simp add: k_def stride_def)
  have rows: "fold_opt (copy_row dec sb stride k src) [0..<h] dst =
      Some (concat (map (\<lambda>r. map dec (groups_of sb (src_row sb enc src r))) [0..<h]) @ drop (h * k) dst)" for dec :: "bytes \<Rightarrow> 'a word"
    using step len kd by (intro fold_rows) auto
  have same: "map dec (groups_of sb (src_row sb enc src r)) = map (chunk_decode enc) (groups_of sb (src_row sb enc src r))"
    if "\<And>bs. length bs = sb \<Longrightarrow> dec bs = chunk_decode enc bs" "r < h" for dec :: "bytes \<Rightarrow> 'a word" and r
  proof -
    have "length (src_row sb enc src r) = k * sb" using row [OF that(2)] by (simp add: src_row_def k_def stride_def)
    then have "length g = sb" if g: "g \<in> set (groups_of sb (src_row sb enc src r))" for g
    proof -
      obtain i where i: "i < k" "g = take sb (drop (sb * i) (src_row sb enc src r))"
        using g sb(2) unfolding groups_of_def \<open>length (src_row sb enc src r) = k * sb\<close> by auto
      have "sb * i + sb \<le> k * sb" using i(1) by (metis Suc_leI mult.commute mult_Suc_right mult_le_mono2 add.commute)
      then show ?thesis using i(2) \<open>length (src_row sb enc src r) = k * sb\<close> by simp
    qed
    then show ?thesis using that(1) by simp
  qed
  show ?thesis
  proof (cases "sb = 1 \<or> ce_byte_order enc = TiffLittleEndian")
    case native: True
    have dec: "from_le_bytes bs = (chunk_decode enc bs :: 'a word)" if "length bs = sb" for bs
      using native that from_be_1 [of bs] by (auto simp: chunk_decode_def)
    have decs: "concat (map (\<lambda>r. map from_le_bytes (groups_of sb (src_row sb enc src r))) [0..<h]) =
        (concat (map (\<lambda>r. map (chunk_decode enc) (groups_of sb (src_row sb enc src r))) [0..<h]) :: 'a word list)"
      using same [OF dec] by (intro arg_cong [where f = concat] map_cong) auto
    show ?thesis
    proof (cases "stride = k * sb")
      case True
      have total: "h * (k * sb) \<le> length src" using src h True by (cases h) (simp_all add: mult.commute)
      have "groups_of sb (take (h * (k * sb)) src) = concat (map (\<lambda>r. groups_of sb (src_row sb enc src r)) [0..<h])"
        using groups_of_rows [OF sb(2) total] unfolding src_row_def k_def [symmetric] stride_def [symmetric] True by simp
      then have "le_samples sb (take (h * (k * sb)) src) = (concat (map (\<lambda>r. map from_le_bytes (groups_of sb (src_row sb enc src r))) [0..<h]) :: 'a word list)"
        by (simp add: le_samples_def map_concat comp_def)
      then have le: "(le_samples sb (take (h * (k * sb)) src) :: 'a word list) =
          concat (map (\<lambda>r. map (chunk_decode enc) (groups_of sb (src_row sb enc src r))) [0..<h])" using decs by simp
      have count: "ce_data_w enc * ce_data_h enc * ce_spp enc = h * k" by (simp add: h_def k_def mult_ac)
      have "copy_samples src dst enc = Option.bind (sub_slice 0 (h * k * sb) src) (\<lambda>s.
          if h * k \<le> length dst then Some (le_samples sb s @ drop (h * k) dst) else None)"
        unfolding copy_samples_def Let_def sb(1) [symmetric] count k_def [symmetric] stride_def [symmetric] using native True by simp
      moreover have "sub_slice 0 (h * k * sb) src = Some (take (h * (k * sb)) src)" using total by (simp add: sub_slice_def mult.assoc)
      ultimately show ?thesis using kd le by (simp add: h_def [symmetric] k_def [symmetric])
    next
      case False
      then have "copy_samples src dst enc = fold_opt (copy_row from_le_bytes sb stride k src) [0..<h] dst"
        unfolding copy_samples_def Let_def sb(1) [symmetric] k_def [symmetric] stride_def [symmetric] h_def [symmetric] using native by simp
      then show ?thesis using rows [of from_le_bytes] decs by (simp add: h_def [symmetric] k_def [symmetric])
    qed
  next
    case False
    then have "(case ce_byte_order enc of TiffLittleEndian \<Rightarrow> from_le_bytes | TiffBigEndian \<Rightarrow> from_be_bytes) = (chunk_decode enc :: bytes \<Rightarrow> 'a word)"
      by (cases "ce_byte_order enc") (simp_all add: chunk_decode_def)
    then have "copy_samples src dst enc = fold_opt (copy_row (chunk_decode enc) sb stride k src) [0..<h] dst"
      unfolding copy_samples_def Let_def sb(1) [symmetric] k_def [symmetric] stride_def [symmetric] h_def [symmetric] using False by simp
    then show ?thesis using rows [of "chunk_decode enc"] by (simp add: h_def [symmetric] k_def [symmetric])
  qed
qed

definition sample_ok :: "'a::len word tiff_sample \<Rightarrow> bool" where
  "sample_ok ts \<longleftrightarrow> ts_apply_predictor ts = apply_horizontal_predictor \<and> (\<forall>x. ts_invert ts (ts_invert ts x) = x)"

lemma sample_types:
  "sample_ok unsigned_sample" "sample_ok signed_sample" "sample_ok (u8_sample arch)" "sample_ok (u16_sample arch)"
  using predictor_u8_arch predictor_u16_arch
  by (auto simp: sample_ok_def unsigned_sample_def signed_sample_def u8_sample_def u16_sample_def fun_eq_iff)

lemma apply_predictor_rows:
  assumes "h * (w * spp) \<le> length data"
  shows "apply_horizontal_predictor data w h spp =
    Some (concat (map (\<lambda>r. hp_cols spp spp (take (w * spp) (drop (r * (w * spp)) data))) [0..<h]) @ drop (h * (w * spp)) data)"
  unfolding apply_horizontal_predictor_def
proof (rule fold_rows)
  fix r dst assume r: "r < h" "length dst = length data" "drop (r * (w * spp)) dst = drop (r * (w * spp)) data"
  then show "map_row (w * spp) (hp_cols spp spp) r dst =
      Some (take (r * (w * spp)) dst @ hp_cols spp spp (take (w * spp) (drop (r * (w * spp)) data)) @ drop ((r + 1) * (w * spp)) dst)"
    using row_in [OF r(1) assms] by (simp add: map_row_in)
next
  fix r assume "r < h"
  from row_in [OF this assms] show "length (hp_cols spp spp (take (w * spp) (drop (r * (w * spp)) data))) = w * spp" by simp
qed (rule assms)

lemma length_concat_rows: "(\<And>r. r < h \<Longrightarrow> length (x r) = n) \<Longrightarrow> length (concat (map x [0..<h])) = h * n"
  by (induction h) simp_all

lemma copy_samples_length:
  fixes dst :: "'a::len word list"
  assumes ok: "chunk_validate enc (length src) (length dst) sb = Ok ()" and sb: "sb = LENGTH('a) div 8" "0 < sb"
  shows "\<exists>d. copy_samples src dst enc = Some d \<and> length d = length dst \<and> ce_data_h enc * (ce_data_w enc * ce_spp enc) \<le> length dst"
proof -
  define n where "n = ce_data_w enc * ce_spp enc"
  define stride where "stride = ce_tile_w enc * ce_spp enc * sb"
  have hd: "ce_data_h enc * n \<le> length dst" and h: "0 < ce_data_h enc" and n: "n * sb \<le> stride"
    using ok by (simp_all add: chunk_validate_Ok Let_def n_def stride_def mult.commute mult_le_mono1)
  have "stride * (ce_data_h enc - 1) + (if ce_predictor enc = FloatingPointPredictor then stride else n * sb) \<le> length src"
    using chunk_validate_src [OF ok] by (simp only: n_def stride_def)
  then have src: "stride * (ce_data_h enc - 1) + n * sb \<le> length src" using n by (simp split: if_splits)
  have "length (map (chunk_decode enc :: bytes \<Rightarrow> 'a word) (groups_of sb (src_row sb enc src r))) = n" if "r < ce_data_h enc" for r
  proof -
    have "r * stride \<le> stride * (ce_data_h enc - 1)" using that by (rule row_le)
    then have "r * stride + n * sb \<le> length src" using src by linarith
    then show ?thesis using length_src_row [of r enc sb src] sb(2) by (simp add: n_def stride_def)
  qed
  from length_concat_rows [OF this] show ?thesis using copy_samples_ok [OF ok sb] hd by (simp add: n_def)
qed

lemma fp_decode_ok:
  assumes "n * k \<le> length s" "0 < k"
  shows "\<exists>d. fp_predict k s n spp = Some (d :: 'a::len word list) \<and> length d = n"
proof -
  have "n \<le> length s div k" using assms by (metis div_le_mono div_mult_self_is_m)
  then have "planes_in_range k (hp_cols spp spp s) n" using assms(2) by (intro in_range_of_plane) simp_all
  then show ?thesis by (simp add: fp_predict_def Let_def)
qed

text \<open>The rows of a floating point predicted chunk, each decoded from all of its tile row.\<close>

lemma unpack_float_fp:
  fixes dst :: "'a::len word list"
  assumes ok: "chunk_validate enc (length src) (length dst) k = Ok ()" and k: "k = LENGTH('a) div 8" "0 < k"
    and fp: "ce_predictor enc = FloatingPointPredictor"
    and dec: "\<And>s n spp. n * k \<le> length s \<Longrightarrow> \<exists>d. decode s n spp = Some d \<and> length d = n"
    and white: "white = (if ce_photometric enc = WhiteIsZero then map invert else (\<lambda>d. d))"
    and n: "n = ce_data_w enc * ce_spp enc" and stride: "stride = ce_tile_w enc * ce_spp enc * k"
    and x: "x = (\<lambda>r. white (the (decode (take stride (drop (r * stride) src)) n (ce_spp enc))))"
  shows "unpack_float decode invert what src dst enc = Some (Ok (concat (map x [0..<ce_data_h enc]) @ drop (ce_data_h enc * n) dst)) \<and>
    (\<forall>r<ce_data_h enc. length (x r) = n) \<and> ce_data_h enc * n \<le> length dst"
proof -
  define h where "h = ce_data_h enc"
  have hd: "h * n \<le> length dst" and h: "0 < h" and nk: "n * k \<le> stride"
    using ok by (simp_all add: chunk_validate_Ok Let_def n stride h_def mult.commute mult_le_mono1)
  have "stride * (h - 1) + (if ce_predictor enc = FloatingPointPredictor then stride else ce_data_w enc * ce_spp enc * k) \<le> length src"
    using chunk_validate_src [OF ok] by (simp only: h_def stride)
  then have src: "h * stride \<le> length src" using h fp by (cases h) (simp_all add: mult.commute)
  have row: "\<exists>d. decode (take stride (drop (r * stride) src)) n (ce_spp enc) = Some d \<and> length d = n" if "r < h" for r
  proof -
    have "length (take stride (drop (r * stride) src)) = stride" using row_in [OF that src] by simp
    then show ?thesis using dec nk by simp
  qed
  have len: "length (x r) = n" if "r < h" for r using row [OF that] by (auto simp: x white)
  define step where "step = (\<lambda>r dst. Option.bind (sub_slice (r * stride) ((r + 1) * stride) src) (\<lambda>s.
      Option.bind (decode s n (ce_spp enc)) (\<lambda>d. map_row n (\<lambda>_. white d) r dst)))"
  have "step r dst' = Some (take (r * n) dst' @ x r @ drop ((r + 1) * n) dst')" if r: "r < h" "length dst' = length dst" for r dst'
  proof -
    obtain d where d: "decode (take stride (drop (r * stride) src)) n (ce_spp enc) = Some d" using row [OF r(1)] by blast
    have "sub_slice (r * stride) ((r + 1) * stride) src = Some (take stride (drop (r * stride) src))"
      using row_in [OF r(1) src] by (simp add: sub_slice_def)
    moreover have "x r = white d" by (simp add: x d)
    ultimately show ?thesis using row_in [OF r(1) hd] r(2) by (simp add: step_def d map_row_in)
  qed
  then have run: "fold_opt step [0..<h] dst = Some (concat (map x [0..<h]) @ drop (h * n) dst)"
    using len hd by (intro fold_rows) auto
  have ok': "chunk_validate enc (length src) (length dst) (LENGTH('a) div 8) = Inr ()" using ok k(1) by simp
  have "unpack_float decode invert what src dst enc = map_option Ok (fold_opt step [0..<h] dst)"
    unfolding unpack_float_def Let_def ok k(1) [symmetric] fp tiff_predictor.case sum.case step_def h_def n stride white by (rule refl)
  then show ?thesis using run len hd by (simp add: h_def)
qed

lemma unpack_float_total:
  fixes dst :: "'a::len word list"
  assumes k: "k = LENGTH('a) div 8" "0 < k"
    and dec: "\<And>s n spp. n * k \<le> length s \<Longrightarrow> \<exists>d. decode s n spp = Some d \<and> length d = n"
  shows "\<exists>r. unpack_float decode invert what src dst enc = Some r \<and> (\<forall>out. r = Ok out \<longrightarrow> length out = length dst)"
proof (cases "chunk_validate enc (length src) (length dst) k")
  case (Inl e)
  then show ?thesis using k by (simp add: unpack_float_def Let_def)
next
  case (Inr u)
  then have ok: "chunk_validate enc (length src) (length dst) k = Ok ()" by simp
  show ?thesis
  proof (cases "ce_predictor enc")
    case NoPredictor
    obtain d where "copy_samples src dst enc = Some d" "length d = length dst" using copy_samples_length [OF ok k] by blast
    then show ?thesis using ok NoPredictor k by (simp add: unpack_float_def Let_def)
  next
    case FloatingPointPredictor
    note fp = unpack_float_fp [where decode = decode and invert = invert and what = what, OF ok k FloatingPointPredictor dec refl refl refl refl]
    define x where "x = (\<lambda>r. (if ce_photometric enc = WhiteIsZero then map invert else (\<lambda>d. d))
      (the (decode (take (ce_tile_w enc * ce_spp enc * k) (drop (r * (ce_tile_w enc * ce_spp enc * k)) src)) (ce_data_w enc * ce_spp enc) (ce_spp enc))))"
    have "length (concat (map x [0..<ce_data_h enc])) = ce_data_h enc * (ce_data_w enc * ce_spp enc)"
      using fp unfolding x_def by (intro length_concat_rows) blast
    then show ?thesis using fp unfolding x_def [symmetric] by simp
  qed (use ok k in \<open>simp_all add: unpack_float_def Let_def\<close>)
qed

lemma decode_fp_arch:
  "decode_fp_predict_f32 arch s n spp = fp_predict 4 s n spp" "decode_fp_predict_f64 arch s n spp = fp_predict 8 s n spp"
  using neon_f32_scalar [of n s] neon_f64_scalar [of n s]
  by (auto simp: decode_fp_predict_f32_def decode_fp_predict_f64_def fp_predict_f32_def fp_predict_f64_def)

lemma unpack_integer_ok:
  fixes dst :: "'a::len word list"
  assumes ok: "chunk_validate enc (length src) (length dst) sb = Ok ()" and sb: "sb = LENGTH('a) div 8" "0 < sb" and ts: "sample_ok ts"
    and n: "n = ce_data_w enc * ce_spp enc" and h: "h = ce_data_h enc"
    and x: "x = (\<lambda>r. map (chunk_decode enc) (groups_of sb (src_row sb enc src r)) :: 'a word list)"
    and y: "y = (if ce_predictor enc = HorizontalPredictor then hp_cols (ce_spp enc) (ce_spp enc) else (\<lambda>row. row))"
    and len: "\<And>r. r < h \<Longrightarrow> length (x r) = n"
  shows "unpack_integer_samples ts src dst enc =
    Some (Ok ((if ce_photometric enc = WhiteIsZero then map (ts_invert ts) else (\<lambda>d. d)) (concat (map (\<lambda>r. y (x r)) [0..<h]) @ drop (h * n) dst)))"
proof -
  have copy: "copy_samples src dst enc = Some (concat (map x [0..<h]) @ drop (h * n) dst)"
    using copy_samples_ok [OF ok sb] by (simp add: x h n)
  have hn: "h * n \<le> length dst" using copy_samples_length [OF ok sb] by (auto simp: h n)
  have total: "length (concat (map x [0..<m])) = m * n" if "m \<le> h" for m using len that by (intro length_concat_rows) simp
  have row: "take n (drop (r * n) (concat (map x [0..<h]) @ drop (h * n) dst)) = x r" if "r < h" for r
  proof -
    have "[0..<h] = [0..<r] @ r # [Suc r..<h]" using that by (metis less_imp_le_nat upt_append upt_conv_Cons)
    then show ?thesis using total [of r] total [of h] len [OF that] that by simp
  qed
  have "apply_horizontal_predictor (concat (map x [0..<h]) @ drop (h * n) dst) (ce_data_w enc) h (ce_spp enc) =
      Some (concat (map (\<lambda>r. hp_cols (ce_spp enc) (ce_spp enc) (x r)) [0..<h]) @ drop (h * n) dst)"
  proof -
    define data where "data = concat (map x [0..<h]) @ drop (h * n) dst"
    have "h * (ce_data_w enc * ce_spp enc) \<le> length data" using total [of h] hn by (simp add: n data_def)
    note app = apply_predictor_rows [OF this, folded n]
    have "map (\<lambda>r. hp_cols (ce_spp enc) (ce_spp enc) (take n (drop (r * n) data))) [0..<h] = map (\<lambda>r. hp_cols (ce_spp enc) (ce_spp enc) (x r)) [0..<h]"
      using row by (intro map_cong) (auto simp: data_def)
    moreover have "drop (h * n) data = drop (h * n) dst" using total [of h] by (simp add: data_def)
    ultimately show ?thesis using app by (simp only: data_def)
  qed
  moreover have "chunk_validate enc (length src) (length dst) (LENGTH('a) div 8) = Inr ()" using ok sb(1) by simp
  ultimately show ?thesis using ts by (simp add: unpack_integer_samples_def copy sample_ok_def y h)
qed


section \<open>Round trips\<close>

text \<open>What a TIFF writer stores: the differences of a row, its samples as bytes, or its byte planes differenced.\<close>

definition hp_diff :: "usize \<Rightarrow> 'a::len word list \<Rightarrow> 'a word list" where
  "hp_diff spp row = map (\<lambda>i. if i < spp then row ! i else row ! i - row ! (i - spp)) [0..<length row]"

definition chunk_encode :: "chunk_encoding \<Rightarrow> 'a::len word \<Rightarrow> bytes" where
  "chunk_encode enc = (if ce_byte_order enc = TiffLittleEndian then to_le_bytes else to_be_bytes)"

definition integer_row :: "chunk_encoding \<Rightarrow> ('a::len word \<Rightarrow> 'a word) \<Rightarrow> 'a word list \<Rightarrow> bytes" where
  "integer_row enc invert row =
     (let row = (if ce_photometric enc = WhiteIsZero then map invert row else row);
          row = (if ce_predictor enc = HorizontalPredictor then hp_diff (ce_spp enc) row else row)
      in concat (map (chunk_encode enc) row))"

definition planes_row :: "nat \<Rightarrow> usize \<Rightarrow> 'a::len word list \<Rightarrow> bytes" where
  "planes_row k spp row = hp_diff spp (concat (map (\<lambda>b. map (\<lambda>x. to_be_bytes x ! b) row) [0..<k]))"

lemma hp_cols_diff: "0 < spp \<Longrightarrow> hp_cols spp spp (hp_diff spp row) = row"
proof (rule is_scan_unique [OF _ hp_cols_is_scan])
  show "is_scan spp (hp_diff spp row) row" by (simp add: is_scan_def hp_diff_def)
qed

lemma groups_of_concat: "(\<And>x. x \<in> set xs \<Longrightarrow> length x = w) \<Longrightarrow> 0 < w \<Longrightarrow> groups_of w (concat xs) = xs"
proof (induction xs)
  case (Cons x xs)
  have x: "length x = w" using Cons.prems(1) by simp
  then have "groups_of w x = [x]" using Cons.prems(2) by (simp add: groups_of_def)
  then show ?case using groups_of_append [of x 1 w "concat xs"] x Cons by simp
qed (simp add: groups_of_def)

lemma decode_encode: "8 dvd LENGTH('a::len) \<Longrightarrow> chunk_decode enc (chunk_encode enc x) = (x :: 'a word)"
  by (simp add: chunk_decode_def chunk_encode_def)

lemma length_chunk_encode: "length (chunk_encode enc (x :: 'a::len word)) = LENGTH('a) div 8"
  by (simp add: chunk_encode_def)

text \<open>Row \<open>r\<close> of a source whose rows have equal lengths.\<close>

lemma nth_row:
  assumes "\<And>x. x \<in> set rows \<Longrightarrow> length x = stride" "r < length rows"
  shows "take stride (drop (r * stride) (concat rows)) = rows ! r"
  using assms
proof (induction rows arbitrary: r)
  case (Cons x rows)
  then show ?case by (cases r) simp_all
qed simp

text \<open>
  C21. An integer image written as TIFF chunks prescribe comes back sample for sample: in either byte
  order, for every sample type and architecture, with or without horizontal differencing and inverted
  values, and whatever fills the columns of a tile beyond the image.
\<close>

theorem unpack_integer_roundtrip:
  fixes rows :: "'a::len word list list"
  assumes ts: "sample_ok ts" and len: "8 dvd LENGTH('a)" and sb: "sb = LENGTH('a) div 8"
    and dims: "0 < ce_spp enc" "0 < ce_data_w enc" "0 < ce_data_h enc" "ce_data_w enc \<le> ce_tile_w enc"
    and pred: "ce_predictor enc = NoPredictor \<or> ce_predictor enc = HorizontalPredictor"
    and rows: "length rows = ce_data_h enc" "\<forall>row\<in>set rows. length row = ce_data_w enc * ce_spp enc"
    and pads: "length pads = ce_data_h enc" "\<forall>pad\<in>set pads. length pad = (ce_tile_w enc - ce_data_w enc) * ce_spp enc * sb"
    and src: "src = concat (map2 (@) (map (integer_row enc (ts_invert ts)) rows) pads)" and small: "length src \<le> usize_max"
    and dst: "length dst = ce_data_h enc * (ce_data_w enc * ce_spp enc)"
  shows "unpack_integer_samples ts src dst enc = Some (Ok (concat rows))"
proof -
  define n where "n = ce_data_w enc * ce_spp enc"
  define h where "h = ce_data_h enc"
  define stride where "stride = ce_tile_w enc * ce_spp enc * sb"
  define pre where "pre = (\<lambda>row. let row = (if ce_photometric enc = WhiteIsZero then map (ts_invert ts) row else row)
      in if ce_predictor enc = HorizontalPredictor then hp_diff (ce_spp enc) row else row)"
  define blocks where "blocks = map2 (@) (map (integer_row enc (ts_invert ts)) rows) pads"
  have sb0: "0 < sb" using len sb by (metis dvd_div_eq_0_iff gr0I len_gt_0 less_numeral_extra(3))
  have int_row: "integer_row enc (ts_invert ts) row = concat (map (chunk_encode enc) (pre row))" for row
    by (simp add: integer_row_def pre_def Let_def)
  have pre_len: "length (pre row) = length row" for row by (simp add: pre_def Let_def hp_diff_def)
  have row_len: "length (integer_row enc (ts_invert ts) row) = length row * sb" for row
    by (simp add: int_row length_concat comp_def length_chunk_encode sum_list_triv pre_len sb)
  have rowr: "length (rows ! r) = n" if "r < h" for r using rows that by (simp add: n_def h_def)
  have blk: "blocks ! r = integer_row enc (ts_invert ts) (rows ! r) @ pads ! r" if "r < h" for r
    using that rows(1) pads(1) by (simp add: blocks_def h_def)
  have nst: "n * sb + (ce_tile_w enc - ce_data_w enc) * ce_spp enc * sb = stride"
    using dims(4) by (simp add: n_def stride_def add_mult_distrib [symmetric])
  have blen: "length b = stride" if "b \<in> set blocks" for b
  proof -
    obtain r where r: "r < h" "b = blocks ! r"
      using \<open>b \<in> set blocks\<close> rows(1) pads(1) by (auto simp: in_set_conv_nth blocks_def h_def)
    then have "length (pads ! r) = (ce_tile_w enc - ce_data_w enc) * ce_spp enc * sb" using pads by (simp add: h_def)
    then show ?thesis using r blk [OF r(1)] rowr [OF r(1)] nst by (simp add: row_len)
  qed
  have bcount: "length blocks = h" using rows(1) pads(1) by (simp add: blocks_def h_def)
  have srow: "src_row sb enc src r = integer_row enc (ts_invert ts) (rows ! r)" if r: "r < h" for r
  proof -
    have "take stride (drop (r * stride) src) = blocks ! r"
      unfolding src blocks_def [symmetric] using blen r bcount by (intro nth_row) auto
    then have "take (n * sb) (drop (r * stride) src) = take (n * sb) (blocks ! r)"
      using nst by (metis le_add1 min.absorb1 take_take)
    then show ?thesis using blk [OF r] rowr [OF r] by (simp add: src_row_def n_def [symmetric] stride_def [symmetric] row_len)
  qed
  have total: "length src = h * stride"
  proof -
    have "map length blocks = map (\<lambda>_. stride) blocks" using blen by simp
    then show ?thesis unfolding src blocks_def [symmetric] by (simp only: length_concat) (simp add: sum_list_triv bcount)
  qed
  have sizes: "ce_tile_w enc * ce_spp enc \<le> stride" "stride \<le> h * stride" "n \<le> n * sb" "n * sb \<le> stride" "n * h \<le> h * stride"
    "stride * (h - 1) + stride = h * stride"
  proof -
    show "ce_tile_w enc * ce_spp enc \<le> stride" "n \<le> n * sb" using sb0 by (simp_all add: stride_def)
    show "stride \<le> h * stride" using dims(3) by (simp add: h_def)
    show le: "n * sb \<le> stride" using nst by simp
    have "n \<le> stride" using le sb0 by (metis One_nat_def Suc_leI le_trans mult.right_neutral mult_le_mono2)
    then show "n * h \<le> h * stride" by (simp add: mult.commute)
    show "stride * (h - 1) + stride = h * stride" using dims(3) by (cases h) (simp_all add: h_def mult.commute)
  qed
  have cap: "n * h \<le> usize_max" using sizes(5) total small by linarith
  have ok: "chunk_validate enc (length src) (length dst) sb = Ok ()"
    unfolding chunk_validate_Ok Let_def n_def [symmetric] stride_def [symmetric] h_def [symmetric]
    using dims dst total small sizes cap pred by (auto simp: n_def [symmetric] h_def [symmetric] mult.commute)
  define x where "x = (\<lambda>r. map (chunk_decode enc) (groups_of sb (src_row sb enc src r)) :: 'a word list)"
  have x: "x r = pre (rows ! r)" if "r < h" for r
  proof -
    have "groups_of sb (src_row sb enc src r) = map (chunk_encode enc) (pre (rows ! r))"
      unfolding srow [OF that] int_row using sb0 by (intro groups_of_concat) (auto simp: length_chunk_encode sb)
    then show ?thesis by (simp add: x_def comp_def decode_encode [OF len])
  qed
  define y where "y = (if ce_predictor enc = HorizontalPredictor then hp_cols (ce_spp enc) (ce_spp enc) else (\<lambda>row :: 'a word list. row))"
  define inv where "inv = (if ce_photometric enc = WhiteIsZero then map (ts_invert ts) else (\<lambda>d. d))"
  have y: "y (x r) = inv (rows ! r)" if "r < h" for r
    unfolding x [OF that] by (simp add: y_def pre_def inv_def Let_def hp_cols_diff dims(1))
  have xlen: "length (x r) = n" if "r < h" for r using x [OF that] rowr [OF that] by (simp add: pre_len)
  have "unpack_integer_samples ts src dst enc = Some (Ok (inv (concat (map (\<lambda>r. y (x r)) [0..<h]) @ drop (h * n) dst)))"
    unfolding inv_def by (rule unpack_integer_ok [OF ok sb sb0 ts n_def h_def x_def y_def xlen])
  moreover have "concat (map (\<lambda>r. y (x r)) [0..<h]) = inv (concat rows)"
  proof -
    have "map (\<lambda>r. y (x r)) [0..<h] = map inv (map ((!) rows) [0..<h])" using y by simp
    also have "map ((!) rows) [0..<h] = rows" using rows(1) map_nth [of rows] by (simp add: h_def)
    finally show ?thesis by (simp add: inv_def map_concat)
  qed
  moreover have "drop (h * n) dst = []" using dst by (simp add: h_def n_def)
  moreover have "inv (inv row) = row" for row using ts by (simp add: inv_def sample_ok_def comp_def)
  ultimately show ?thesis by simp
qed

text \<open>The planes of a row, read back.\<close>

lemma planes_nth:
  assumes "b < k" "i < length row"
  shows "concat (map (\<lambda>b. map (\<lambda>x. to_be_bytes x ! b) row) [0..<k]) ! (length row * b + i) = to_be_bytes (row ! i) ! b"
  using assms(1)
proof (induction k)
  case (Suc k)
  have len: "length (concat (map (\<lambda>b. map (\<lambda>x. to_be_bytes x ! b) row) [0..<k])) = k * length row"
    by (intro length_concat_rows) simp
  show ?case
  proof (cases "b = k")
    case True
    then show ?thesis using len assms(2) by (simp add: nth_append mult.commute)
  next
    case False
    then have b: "b < k" using Suc.prems by simp
    then have "Suc b * length row \<le> k * length row" by (intro mult_le_mono1) simp
    then have "length row * b + i < k * length row" using assms(2) by (simp add: mult.commute)
    then show ?thesis using Suc.IH [OF b] len by (simp add: nth_append)
  qed
qed simp

lemma planes_sample:
  fixes row :: "'a::len word list"
  assumes k: "k = LENGTH('a) div 8" "8 dvd LENGTH('a)" "0 < k" and i: "i < length row"
    and P: "P = concat (map (\<lambda>b. map (\<lambda>x. to_be_bytes x ! b) row) [0..<k])"
  shows "plane_sample k P i = row ! i"
proof -
  have "length P = k * length row" unfolding P by (intro length_concat_rows) simp
  then have "length P div k = length row" using k(3) by simp
  then have "map (\<lambda>b. P ! (length P div k * b + i)) [0..<k] = map (\<lambda>b. to_be_bytes (row ! i) ! b) [0..<k]"
    using planes_nth [OF _ i] by (simp add: P)
  also have "\<dots> = to_be_bytes (row ! i)" using k(1) by (intro nth_equalityI) simp_all
  finally show ?thesis using k(2) by (simp add: plane_sample_def)
qed

lemma fp_predict_planes:
  fixes row :: "'a::len word list"
  assumes k: "k = LENGTH('a) div 8" "8 dvd LENGTH('a)" "0 < k" and spp: "0 < spp" and n: "n \<le> length row"
  shows "fp_predict k (planes_row k spp row) n spp = Some (take n row)"
proof -
  define P where "P = concat (map (\<lambda>b. map (\<lambda>x. to_be_bytes x ! b) row) [0..<k])"
  have "length P = k * length row" unfolding P_def by (intro length_concat_rows) simp
  then have "planes_in_range k P n" using n k(3) by (intro in_range_of_plane) simp_all
  moreover have "map (plane_sample k P) [0..<n] = take n row"
    using planes_sample [OF k _ P_def] n by (intro nth_equalityI) simp_all
  ultimately show ?thesis by (simp add: fp_predict_def planes_row_def hp_cols_diff [OF spp] P_def [symmetric] Let_def)
qed

lemma length_planes_row: "length (planes_row k spp row) = k * length row"
proof -
  have "length (concat (map (\<lambda>b. map (\<lambda>x. to_be_bytes x ! b) row) [0..<k])) = k * length row" by (intro length_concat_rows) simp
  then show ?thesis by (simp add: planes_row_def hp_diff_def)
qed

lemma unpack_float_roundtrip:
  fixes rows :: "'a::len word list list"
  assumes k: "k = LENGTH('a) div 8" "8 dvd LENGTH('a)" "0 < k" and dec: "\<And>s n spp. decode s n spp = fp_predict k s n spp"
    and dims: "0 < ce_spp enc" "0 < ce_data_w enc" "0 < ce_data_h enc" "ce_data_w enc \<le> ce_tile_w enc"
    and pred: "ce_predictor enc = FloatingPointPredictor" "ce_photometric enc \<noteq> WhiteIsZero"
    and rows: "length rows = ce_data_h enc" "\<forall>row\<in>set rows. length row = ce_tile_w enc * ce_spp enc"
    and src: "src = concat (map (planes_row k (ce_spp enc)) rows)" and small: "length src \<le> usize_max"
    and dst: "length dst = ce_data_h enc * (ce_data_w enc * ce_spp enc)"
  shows "unpack_float decode invert what src dst enc = Some (Ok (concat (map (take (ce_data_w enc * ce_spp enc)) rows)))"
proof -
  define n where "n = ce_data_w enc * ce_spp enc"
  define h where "h = ce_data_h enc"
  define stride where "stride = ce_tile_w enc * ce_spp enc * k"
  define x where "x = (\<lambda>r. (if ce_photometric enc = WhiteIsZero then map invert else (\<lambda>d. d))
    (the (decode (take stride (drop (r * stride) src)) n (ce_spp enc))))"
  have rowr: "length (rows ! r) = ce_tile_w enc * ce_spp enc" if "r < h" for r using rows that by (simp add: h_def)
  have blen: "length b = stride" if "b \<in> set (map (planes_row k (ce_spp enc)) rows)" for b
    using that rows by (auto simp: length_planes_row stride_def mult.commute)
  have total: "length src = h * stride"
  proof -
    have "map length (map (planes_row k (ce_spp enc)) rows) = map (\<lambda>_. stride) rows" using blen by simp
    then show ?thesis using rows(1) by (simp only: src length_concat) (simp add: sum_list_triv h_def)
  qed
  have nt: "n \<le> ce_tile_w enc * ce_spp enc" using dims(4) by (simp add: n_def)
  have sizes: "ce_tile_w enc * ce_spp enc \<le> stride" "stride \<le> h * stride" "n \<le> n * k" "n * k \<le> stride" "n * h \<le> h * stride"
    "stride * (h - 1) + stride = h * stride"
  proof -
    show st: "ce_tile_w enc * ce_spp enc \<le> stride" and "n \<le> n * k" using k(3) by (simp_all add: stride_def)
    show "stride \<le> h * stride" using dims(3) by (simp add: h_def)
    show "n * k \<le> stride" using nt by (simp add: stride_def)
    show "n * h \<le> h * stride" using order_trans [OF nt st] by (simp add: mult.commute)
    show "stride * (h - 1) + stride = h * stride" using dims(3) by (cases h) (simp_all add: h_def mult.commute)
  qed
  have cap: "n * h \<le> usize_max" using sizes(5) total small by linarith
  have ok: "chunk_validate enc (length src) (length dst) k = Ok ()"
    unfolding chunk_validate_Ok Let_def n_def [symmetric] stride_def [symmetric] h_def [symmetric]
    using dims dst total small sizes cap pred by (auto simp: n_def [symmetric] h_def [symmetric] mult.commute)
  have "n * k \<le> length s \<Longrightarrow> \<exists>d. decode s n spp = Some (d :: 'a word list) \<and> length d = n" for s n spp
    using fp_decode_ok [of n k s spp] k(3) dec by simp
  note run = unpack_float_fp [where decode = decode and invert = invert and what = what, OF ok k(1,3) pred(1) this refl n_def stride_def x_def]
  have x: "x r = take n (rows ! r)" if r: "r < h" for r
  proof -
    have "take stride (drop (r * stride) src) = planes_row k (ce_spp enc) (rows ! r)"
      unfolding src using nth_row [of "map (planes_row k (ce_spp enc)) rows" stride r] blen r rows(1) by (simp add: h_def)
    then show ?thesis using fp_predict_planes [OF k dims(1), of n "rows ! r"] nt rowr [OF r] pred(2) by (simp add: x_def dec)
  qed
  then have "map x [0..<h] = map (take n) (map ((!) rows) [0..<h])" by simp
  also have "map ((!) rows) [0..<h] = rows" using rows(1) map_nth [of rows] by (simp add: h_def)
  finally show ?thesis using run dst by (simp add: h_def n_def)
qed

text \<open>
  C28. Floating point images stored as byte planes with differences (predictor 3) come back bit for
  bit, for both widths and architectures; the columns of a tile beyond the image are left out.
\<close>

theorem unpack_planes_roundtrip:
  assumes dims: "0 < ce_spp enc" "0 < ce_data_w enc" "0 < ce_data_h enc" "ce_data_w enc \<le> ce_tile_w enc"
    and pred: "ce_predictor enc = FloatingPointPredictor" "ce_photometric enc \<noteq> WhiteIsZero"
    and rowsf: "length rowsf = ce_data_h enc" "\<forall>row\<in>set rowsf. length row = ce_tile_w enc * ce_spp enc"
    and rowsd: "length rowsd = ce_data_h enc" "\<forall>row\<in>set rowsd. length row = ce_tile_w enc * ce_spp enc"
    and small: "ce_data_h enc * (ce_tile_w enc * ce_spp enc * 8) \<le> usize_max"
    and dst: "length dstf = ce_data_h enc * (ce_data_w enc * ce_spp enc)" "length dstd = ce_data_h enc * (ce_data_w enc * ce_spp enc)"
  shows "unpack_f32 arch (concat (map (planes_row 4 (ce_spp enc)) rowsf)) dstf enc =
      Some (Ok (concat (map (take (ce_data_w enc * ce_spp enc)) rowsf))) \<and>
    unpack_f64 arch (concat (map (planes_row 8 (ce_spp enc)) rowsd)) dstd enc =
      Some (Ok (concat (map (take (ce_data_w enc * ce_spp enc)) rowsd)))"
proof
  have count: "length (concat (map (planes_row k (ce_spp enc)) rows)) = ce_data_h enc * (ce_tile_w enc * ce_spp enc * k)"
    if "length rows = ce_data_h enc" "\<forall>row\<in>set rows. length row = ce_tile_w enc * ce_spp enc" for k and rows :: "'b::len word list list"
  proof -
    have "map (length \<circ> planes_row k (ce_spp enc)) rows = map (\<lambda>_. ce_tile_w enc * ce_spp enc * k) rows"
      using that(2) by (simp add: length_planes_row mult.commute)
    then show ?thesis using that(1) by (simp only: length_concat map_map) (simp add: sum_list_triv)
  qed
  have "length (concat (map (planes_row 4 (ce_spp enc)) rowsf)) \<le> usize_max"
    using small unfolding count [OF rowsf] by (rule order_trans [rotated]) (intro mult_le_mono, simp_all)
  then show "unpack_f32 arch (concat (map (planes_row 4 (ce_spp enc)) rowsf)) dstf enc =
      Some (Ok (concat (map (take (ce_data_w enc * ce_spp enc)) rowsf)))"
    unfolding unpack_f32_def by (intro unpack_float_roundtrip [where k = 4]) (use dims pred rowsf dst in \<open>simp_all add: decode_fp_arch\<close>)
  show "unpack_f64 arch (concat (map (planes_row 8 (ce_spp enc)) rowsd)) dstd enc =
      Some (Ok (concat (map (take (ce_data_w enc * ce_spp enc)) rowsd)))"
    unfolding unpack_f64_def using small count [OF rowsd, of 8]
    by (intro unpack_float_roundtrip [where k = 8]) (use dims pred rowsd dst in \<open>simp_all add: decode_fp_arch\<close>)
qed

definition example_chunk :: "tiff_predictor \<Rightarrow> chunk_encoding" where
  "example_chunk p =
     \<lparr> ce_tile_w = 3, ce_data_w = 2, ce_data_h = 2, ce_spp = 1, ce_byte_order = TiffBigEndian, ce_predictor = p,
       ce_photometric = OtherPhotometric 1 \<rparr>"

definition example_rows :: "u16 list list" where
  "example_rows = [[10, 5], [7, 9]]"


theorem unpack_integer_roundtrip_witness:
  "unpack_integer_samples (u16_sample Aarch64)
     (concat (map2 (@) (map (integer_row (example_chunk HorizontalPredictor) (ts_invert (u16_sample Aarch64))) example_rows) [[1, 2], [3, 4]]))
     [0, 0, 0, 0] (example_chunk HorizontalPredictor) = Some (Ok [10, 5, 7, 9])"
proof -
  have "unpack_integer_samples (u16_sample Aarch64)
     (concat (map2 (@) (map (integer_row (example_chunk HorizontalPredictor) (ts_invert (u16_sample Aarch64))) example_rows) [[1, 2], [3, 4]]))
     [0, 0, 0, 0] (example_chunk HorizontalPredictor) = Some (Ok (concat example_rows))"
    by (rule unpack_integer_roundtrip [OF sample_types(4), where pads = "[[1, 2], [3, 4]]" and rows = example_rows, OF _ refl])
      (simp_all add: example_chunk_def example_rows_def integer_row_def hp_diff_def chunk_encode_def usize_max_def Let_def upt_rec)
  then show ?thesis by (simp add: example_rows_def)
qed

theorem unpack_planes_roundtrip_witness:
  "unpack_f32 Aarch64 (concat (map (planes_row 4 1) [[f32_of_f64 f64_one, 2, 3], [4, 5, 6]])) [0, 0, 0, 0] (example_chunk FloatingPointPredictor) =
    Some (Ok [f32_of_f64 f64_one, 2, 4, 5])"
  using unpack_planes_roundtrip [where enc = "example_chunk FloatingPointPredictor" and rowsf = "[[f32_of_f64 f64_one, 2, 3], [4, 5, 6]]"
      and rowsd = "[[1, 2, 3], [4, 5, 6]]" and dstf = "[0, 0, 0, 0]" and dstd = "[0, 0, 0, 0]" and arch = Aarch64]
  by (simp add: example_chunk_def usize_max_def)

end
