(* ===== verification/Fast_Hex.thy ===== *)
theory Fast_Hex
  imports Rust_Str
begin

text \<open>
  \<open>encoding/fast_hex.rs\<close>: a cell index as hexadecimal text and back. The formatter writes
  right-aligned into the caller's 16-byte buffer and returns the slice it filled; the
  parser trims, checks the length and folds the digits into a \<open>u64\<close>.
\<close>

section \<open>Formatting\<close>

definition HEX_CHARS :: bytes where
  "HEX_CHARS = [48, 49, 50, 51, 52, 53, 54, 55, 56, 57, 97, 98, 99, 100, 101, 102]"

text \<open>The \<open>while val > 0 && idx > 0\<close> loop: the index reached and the buffer.\<close>

fun hex_loop :: "nat \<Rightarrow> u64 \<Rightarrow> bytes \<Rightarrow> nat \<times> bytes" where
  "hex_loop 0 val buf = (0, buf)"
| "hex_loop (Suc i) val buf =
     (if val > 0
      then hex_loop i (drop_bit 4 val) (buf[i := HEX_CHARS ! unat (val AND 15)])
      else (Suc i, buf))"

text \<open>The buffer after the call and the slice returned.\<close>

definition fast_hex_u64 :: "u64 \<Rightarrow> bytes \<Rightarrow> bytes \<times> bytes" where
  "fast_hex_u64 val buf =
     (if val = 0 then (let b = buf[15 := 48] in (b, take 1 (drop 15 b)))
      else (let (idx, b) = hex_loop 16 val buf in (b, drop idx b)))"

section \<open>Parsing\<close>

definition hex_nibble :: "u8 \<Rightarrow> u64 option" where
  "hex_nibble b =
     (if 48 \<le> b \<and> b \<le> 57 then Some (ucast (b - 48))
      else if 97 \<le> b \<and> b \<le> 102 then Some (ucast (b - 97 + 10))
      else if 65 \<le> b \<and> b \<le> 70 then Some (ucast (b - 65 + 10))
      else None)"

fun parse_hex_loop :: "u64 \<Rightarrow> bytes \<Rightarrow> u64 option" where
  "parse_hex_loop val [] = Some val"
| "parse_hex_loop val (b # bs) =
     (case hex_nibble b of
        None \<Rightarrow> None
      | Some nibble \<Rightarrow> parse_hex_loop (push_bit 4 val OR nibble) bs)"

definition parse_hex_u64 :: "rstr \<Rightarrow> u64 option" where
  "parse_hex_u64 s =
     (let bs = as_bytes (trim s)
      in if bs = [] \<or> length bs > 16 then None else parse_hex_loop 0 bs)"

section \<open>Digits\<close>

text \<open>The reference: the base-16 digits of a number, most significant first, none for 0.\<close>

fun hex_digits :: "nat \<Rightarrow> nat list" where
  "hex_digits n = (if n = 0 then [] else hex_digits (n div 16) @ [n mod 16])"

declare hex_digits.simps [simp del]

definition hex_text :: "nat \<Rightarrow> bytes" where
  "hex_text n = map (\<lambda>d. HEX_CHARS ! d) (hex_digits n)"

lemma hex_digits_0 [simp]: "hex_digits 0 = []"
  by (simp add: hex_digits.simps)

lemma hex_digits_pos: "0 < n \<Longrightarrow> hex_digits n = hex_digits (n div 16) @ [n mod 16]"
  by (subst hex_digits.simps) simp

lemma hex_digits_eq_Nil [simp]: "hex_digits n = [] \<longleftrightarrow> n = 0"
  by (cases "n = 0") (simp_all add: hex_digits_pos)

lemma hex_digits_less: "d \<in> set (hex_digits n) \<Longrightarrow> d < 16"
proof (induction n rule: hex_digits.induct)
  case (1 n)
  then show ?case by (cases "n = 0") (auto simp: hex_digits_pos)
qed

lemma hex_digits_hd: "0 < n \<Longrightarrow> hd (hex_digits n) \<noteq> 0"
proof (induction n rule: hex_digits.induct)
  case (1 n)
  then show ?case
    by (cases "n div 16 = 0") (simp_all add: hex_digits_pos [of n])
qed

lemma length_hex_digits: "n < 16 ^ k \<Longrightarrow> length (hex_digits n) \<le> k"
proof (induction k arbitrary: n)
  case 0
  then show ?case by simp
next
  case (Suc k)
  then have "n div 16 < 16 ^ k"
    by (simp add: less_mult_imp_div_less mult.commute)
  with Suc.IH show ?case
    by (cases "n = 0") (auto simp: hex_digits_pos)
qed

lemma foldl_hex_digits: "foldl (\<lambda>a d. 16 * a + d) 0 (hex_digits n) = n"
proof (induction n rule: hex_digits.induct)
  case (1 n)
  then show ?case by (cases "n = 0") (auto simp: hex_digits_pos)
qed

section \<open>The formatter writes the digits\<close>

lemma hex_loop_digits:
  assumes "unat val < 16 ^ i" and "i \<le> length buf"
  shows "\<exists>j b. hex_loop i val buf = (j, b) \<and> j + length (hex_digits (unat val)) = i \<and>
           length b = length buf \<and> drop j b = hex_text (unat val) @ drop i buf"
  using assms
proof (induction i val buf rule: hex_loop.induct)
  case (1 val buf)
  then show ?case by (simp add: hex_text_def)
next
  case (2 i val buf)
  show ?case
  proof (cases "val > 0")
    case False
    then have "val = 0" by (simp add: word_gt_0)
    then show ?thesis by (simp add: hex_text_def)
  next
    case True
    let ?d = "unat (val AND 15)"
    let ?buf = "buf[i := HEX_CHARS ! ?d]"
    have pos: "0 < unat val"
      using True by (simp add: word_gt_0 unat_gt_0)
    have d: "?d = unat val mod 16"
      by (rule unat_and_15)
    have q: "unat (drop_bit 4 val) = unat val div 16"
      by (simp add: unat_drop_bit)
    have "unat (drop_bit 4 val) < 16 ^ i"
      using "2.prems"(1) by (simp add: q less_mult_imp_div_less mult.commute)
    moreover have "i \<le> length ?buf"
      using "2.prems"(2) by simp
    ultimately obtain j b where
      jb: "hex_loop i (drop_bit 4 val) ?buf = (j, b)"
        "j + length (hex_digits (unat val div 16)) = i" "length b = length buf"
        "drop j b = hex_text (unat val div 16) @ drop i ?buf"
      using "2.IH" [OF True] by (auto simp: q)
    have "drop i ?buf = HEX_CHARS ! (unat val mod 16) # drop (Suc i) buf"
      using "2.prems"(2) d by (simp add: Cons_nth_drop_Suc [symmetric])
    with jb True pos show ?thesis
      by (auto simp: hex_digits_pos hex_text_def)
  qed
qed

lemma length_hex_text [simp]: "length (hex_text n) = length (hex_digits n)"
  by (simp add: hex_text_def)

lemma fast_hex_u64_slice:
  assumes "length buf = 16"
  shows "snd (fast_hex_u64 val buf) = (if val = 0 then [48] else hex_text (unat val))"
proof (cases "val = 0")
  case True
  have "drop 15 (buf[15 := 48]) = [48]"
    using assms by (simp add: Cons_nth_drop_Suc [symmetric])
  with True show ?thesis by (simp add: fast_hex_u64_def)
next
  case False
  have "unat val < 16 ^ 16"
    using unat_u64_less [of val] by simp
  from hex_loop_digits [OF this, of buf] assms False show ?thesis
    by (auto simp: fast_hex_u64_def)
qed

section \<open>The parser reads them back\<close>

lemma hex_char_range:
  "d < 16 \<Longrightarrow> HEX_CHARS ! d \<in> {48, 49, 50, 51, 52, 53, 54, 55, 56, 57, 97, 98, 99, 100, 101, 102}"
  by (auto simp: HEX_CHARS_def less_Suc_eq numeral_eq_Suc)

lemma hex_nibble_char: "d < 16 \<Longrightarrow> hex_nibble (HEX_CHARS ! d) = Some (word_of_nat d)"
proof -
  have "\<forall>d\<in>set [0..<16]. hex_nibble (HEX_CHARS ! d) = Some (word_of_nat d)"
    by code_simp
  then show "d < 16 \<Longrightarrow> ?thesis" by simp
qed

lemma shift_nibble:
  assumes "d < 16"
  shows "push_bit 4 (v :: u64) OR word_of_nat d = 16 * v + word_of_nat d"
proof -
  have "push_bit 4 v AND word_of_nat d = 0"
  proof (rule bit_eqI)
    fix n
    assume "possible_bit TYPE(64 word) n"
    show "bit (push_bit 4 v AND word_of_nat d) n \<longleftrightarrow> bit (0 :: u64) n"
    proof (cases "n < 4")
      case True
      then show ?thesis by (simp add: bit_and_iff bit_push_bit_iff)
    next
      case False
      then have "16 \<le> (2::nat) ^ n"
        using power_increasing [of 4 n "2::nat"] by simp
      with assms have "\<not> bit d n"
        by (simp add: bit_iff_odd)
      then show ?thesis by (simp add: bit_and_iff bit_of_nat_iff)
    qed
  qed
  then have "push_bit 4 v OR word_of_nat d = push_bit 4 v + word_of_nat d"
    by (simp add: disjunctive_add_eq_or)
  then show ?thesis by (simp add: push_bit_eq_mult mult.commute)
qed

lemma parse_hex_loop_digits:
  "\<forall>d\<in>set ds. d < 16 \<Longrightarrow>
   parse_hex_loop v (map (\<lambda>d. HEX_CHARS ! d) ds) =
     Some (foldl (\<lambda>a d. 16 * a + word_of_nat d) v ds)"
  by (induction ds arbitrary: v) (simp_all add: hex_nibble_char shift_nibble)

lemma foldl_word_digits:
  "foldl (\<lambda>a d. 16 * a + word_of_nat d) (word_of_nat n) ds =
     (word_of_nat (foldl (\<lambda>a d. 16 * a + d) n ds) :: u64)"
proof (induction ds arbitrary: n)
  case (Cons d ds)
  have "16 * word_of_nat n + word_of_nat d = (word_of_nat (16 * n + d) :: u64)"
    by simp
  then show ?case
    by (simp only: foldl_Cons Cons.IH)
qed simp

lemma parse_hex_text: "parse_hex_loop 0 (hex_text n) = Some (word_of_nat n)"
  using foldl_word_digits [of 0 "hex_digits n"]
  by (simp add: hex_text_def parse_hex_loop_digits hex_digits_less foldl_hex_digits)

text \<open>The text of a cell index, as the callers make it with \<open>from_utf8\<close>: all its bytes are ASCII.\<close>

definition ascii_str :: "bytes \<Rightarrow> rstr" where
  "ascii_str bs = map unat bs"

lemma set_hex_text: "set (hex_text n) \<subseteq> set HEX_CHARS"
  by (auto simp: hex_text_def HEX_CHARS_def dest!: hex_digits_less hex_char_range)

lemma slice_chars: "length buf = 16 \<Longrightarrow> set (snd (fast_hex_u64 val buf)) \<subseteq> set HEX_CHARS"
  using set_hex_text by (auto simp: fast_hex_u64_slice HEX_CHARS_def)

lemma ascii_hex:
  assumes "set bs \<subseteq> set HEX_CHARS"
  shows "as_bytes (ascii_str bs) = bs" and "trim (ascii_str bs) = ascii_str bs"
proof -
  have "\<forall>b\<in>set HEX_CHARS. unat b < 128 \<and> \<not> is_whitespace (unat b)"
    by (simp add: HEX_CHARS_def is_whitespace_def)
  with assms have *: "\<forall>b\<in>set bs. unat b < 128 \<and> \<not> is_whitespace (unat b)"
    by blast
  then have "is_ascii (ascii_str bs)"
    by (auto simp: is_ascii_def ascii_str_def list_all_iff)
  then show "as_bytes (ascii_str bs) = bs"
    by (simp add: as_bytes_ascii ascii_str_def comp_def)
  show "trim (ascii_str bs) = ascii_str bs"
    using * by (intro trim_id) (auto simp: ascii_str_def)
qed

lemma hex_char_zero: "d < 16 \<Longrightarrow> HEX_CHARS ! d = 48 \<longleftrightarrow> d = 0"
proof -
  have "\<forall>d\<in>set [0..<16]. HEX_CHARS ! d = 48 \<longleftrightarrow> d = 0"
    by code_simp
  then show "d < 16 \<Longrightarrow> ?thesis" by simp
qed

lemma hd_hex_text: "0 < n \<Longrightarrow> hd (hex_text n) \<noteq> 48"
  using hex_digits_hd [of n] hex_digits_less [of "hd (hex_digits n)" n]
  by (simp add: hex_text_def hd_map hex_char_zero)

lemma foldl_hex_bound:
  "set ds \<subseteq> {..<16} \<Longrightarrow> foldl (\<lambda>a d. 16 * a + d) n ds < (n + 1) * (16 :: nat) ^ length ds"
proof (induction ds arbitrary: n)
  case (Cons d ds)
  then have "foldl (\<lambda>a d. 16 * a + d) (16 * n + d) ds < (16 * n + d + 1) * 16 ^ length ds"
    by simp
  also have "\<dots> \<le> (16 * (n + 1)) * 16 ^ length ds"
    using Cons.prems by (intro mult_right_mono) auto
  finally show ?case by (simp add: algebra_simps)
qed simp

lemma hex_nibble_Some: "hex_nibble b = Some w \<Longrightarrow> \<exists>d<16. w = word_of_nat d"
proof -
  assume h: "hex_nibble b = Some w"
  have "\<forall>n\<in>set [0..<256]. case hex_nibble (word_of_nat n) of None \<Rightarrow> True | Some x \<Rightarrow> unat x < 16"
    by code_simp
  then have "case hex_nibble (word_of_nat (unat b)) of None \<Rightarrow> True | Some x \<Rightarrow> unat x < 16"
    using unat_u8_less [of b] by (metis atLeastLessThan_iff set_upt zero_le)
  then have "unat w < 16"
    using h by simp
  then show ?thesis
    by (intro exI [of _ "unat w"]) simp
qed

lemma parse_hex_loop_Some:
  "parse_hex_loop v bs = Some w \<longleftrightarrow>
     (\<exists>ds. set ds \<subseteq> {..<16} \<and> map hex_nibble bs = map (\<lambda>d. Some (word_of_nat d)) ds \<and>
        w = foldl (\<lambda>a d. 16 * a + word_of_nat d) v ds)"
proof (induction bs arbitrary: v)
  case Nil
  then show ?case by auto
next
  case (Cons b bs)
  show ?case
  proof (cases "hex_nibble b")
    case None
    then show ?thesis by (auto simp: Cons_eq_map_conv)
  next
    case (Some x)
    then obtain d where d: "d < 16" "x = word_of_nat d"
      using hex_nibble_Some by blast
    have inj: "d' < 16 \<Longrightarrow> (word_of_nat d :: u64) = word_of_nat d' \<Longrightarrow> d' = d" for d'
      using d(1) by (simp add: word_of_nat_inj)
    have ex: "(\<exists>ds. P ds) \<longleftrightarrow> (\<exists>d' ds. P (d' # ds))" if "\<not> P []" for P :: "nat list \<Rightarrow> bool"
      using that by (metis list.exhaust)
    have "parse_hex_loop v (b # bs) = Some w \<longleftrightarrow>
        (\<exists>ds. set ds \<subseteq> {..<16} \<and> map hex_nibble bs = map (\<lambda>d. Some (word_of_nat d)) ds \<and>
           w = foldl (\<lambda>a d. 16 * a + word_of_nat d) (16 * v + word_of_nat d) ds)"
      using Some d by (simp add: Cons.IH shift_nibble)
    also have "\<dots> \<longleftrightarrow> (\<exists>d' ds. set (d' # ds) \<subseteq> {..<16} \<and>
        map hex_nibble (b # bs) = map (\<lambda>d. Some (word_of_nat d)) (d' # ds) \<and>
        w = foldl (\<lambda>a d. 16 * a + word_of_nat d) v (d' # ds))"
      using Some d inj by auto
    finally show ?thesis
      by (subst ex) simp_all
  qed
qed

lemma parse_hex_exact_aux:
  "parse_hex_u64 s = Some v \<longleftrightarrow>
     (\<exists>ds. ds \<noteq> [] \<and> length ds \<le> 16 \<and> set ds \<subseteq> {..<16} \<and>
        map hex_nibble (as_bytes (trim s)) = map (\<lambda>d. Some (word_of_nat d)) ds \<and>
        unat v = foldl (\<lambda>a d. 16 * a + d) 0 ds)"
proof -
  let ?bs = "as_bytes (trim s)"
  have val: "w = foldl (\<lambda>a d. 16 * a + word_of_nat d) 0 ds \<longleftrightarrow>
             unat w = foldl (\<lambda>a d. 16 * a + d) 0 ds"
    if "set ds \<subseteq> {..<16}" "length ds \<le> 16" for ds and w :: u64
  proof -
    let ?n = "foldl (\<lambda>a d. 16 * a + d) 0 ds"
    have "?n < 16 ^ length ds"
      using foldl_hex_bound [OF that(1), of 0] by simp
    also have "\<dots> \<le> 16 ^ 16"
      using that(2) by (intro power_increasing) auto
    finally have n: "unat (word_of_nat ?n :: u64) = ?n"
      by (simp add: unat_of_nat)
    have "foldl (\<lambda>a d. 16 * a + word_of_nat d) 0 ds = (word_of_nat ?n :: u64)"
      using foldl_word_digits [of 0 ds] by simp
    with n show ?thesis
      by (metis word_of_nat_unat)
  qed
  have len: "length ds = length ?bs"
    if "map hex_nibble ?bs = map (\<lambda>d. Some (word_of_nat d)) ds" for ds
    using that by (metis length_map)
  show ?thesis
  proof (cases "?bs = [] \<or> 16 < length ?bs")
    case True
    then have "parse_hex_u64 s = None"
      by (auto simp: parse_hex_u64_def)
    moreover have "\<not> (ds \<noteq> [] \<and> length ds \<le> 16)"
      if "map hex_nibble ?bs = map (\<lambda>d. Some (word_of_nat d)) ds" for ds
      using True len [OF that] by auto
    ultimately show ?thesis by auto
  next
    case False
    then have "parse_hex_u64 s = parse_hex_loop 0 ?bs"
      by (simp add: parse_hex_u64_def)
    moreover have "set ds \<subseteq> {..<16} \<and> map hex_nibble ?bs = map (\<lambda>d. Some (word_of_nat d)) ds \<and>
        v = foldl (\<lambda>a d. 16 * a + word_of_nat d) 0 ds \<longleftrightarrow>
      ds \<noteq> [] \<and> length ds \<le> 16 \<and> set ds \<subseteq> {..<16} \<and>
        map hex_nibble ?bs = map (\<lambda>d. Some (word_of_nat d)) ds \<and>
        unat v = foldl (\<lambda>a d. 16 * a + d) 0 ds" for ds
    proof (cases "map hex_nibble ?bs = map (\<lambda>d. Some (word_of_nat d)) ds")
      case True
      with False len [OF True] have "ds \<noteq> []" "length ds \<le> 16" by auto
      with val [of ds v] show ?thesis by metis
    qed simp
    ultimately show ?thesis
      by (simp only: parse_hex_loop_Some)
  qed
qed

section \<open>Properties\<close>

text \<open>
  The formatter's slice is the canonical lower-case hexadecimal text of the value (between 1
  and 16 hexadecimal digits, a leading \<open>0\<close> only for the value 0) and the parser reads it back,
  for every 64-bit value and every state of the caller's buffer.
\<close>

theorem hex_format_parse:
  assumes "length buf = 16"
  shows "let s = snd (fast_hex_u64 val buf) in
           1 \<le> length s \<and> length s \<le> 16 \<and> set s \<subseteq> set HEX_CHARS \<and>
           (hd s = 48 \<longleftrightarrow> val = 0) \<and> parse_hex_u64 (ascii_str s) = Some val"
proof -
  let ?s = "snd (fast_hex_u64 val buf)"
  have s: "?s = (if val = 0 then [48] else hex_text (unat val))"
    by (rule fast_hex_u64_slice [OF assms])
  have chars: "set ?s \<subseteq> set HEX_CHARS"
    by (rule slice_chars [OF assms])
  have len: "1 \<le> length ?s" "length ?s \<le> 16"
    using s length_hex_digits [of "unat val" 16] unat_u64_less [of val]
    by (auto simp: Suc_le_eq unat_gt_0 simp flip: length_greater_0_conv)
  have "parse_hex_loop 0 ?s = Some val"
    using s by (cases "val = 0") (simp_all add: parse_hex_text hex_nibble_def)
  then have "parse_hex_u64 (ascii_str ?s) = Some val"
    using len by (auto simp: parse_hex_u64_def ascii_hex [OF chars] Let_def)
  moreover have "hd ?s = 48 \<longleftrightarrow> val = 0"
    using s hd_hex_text [of "unat val"] by (auto simp: unat_gt_0)
  ultimately show ?thesis
    using len chars by (simp add: Let_def)
qed

theorem hex_format_parse_witness:
  "length (replicate 16 (7 :: u8)) = 16 \<and>
   parse_hex_u64 (ascii_str (snd (fast_hex_u64 0x8828308281fffff (replicate 16 7)))) = Some 0x8828308281fffff"
  using hex_format_parse [of "replicate 16 7" "0x8828308281fffff"]
  by (simp add: Let_def)

text \<open>
  What the parser accepts, exactly: after trimming, 1 to 16 bytes, each a hexadecimal digit
  of either case; the result is their value, with no wrap-around.
\<close>

theorem parse_hex_exact:
  "parse_hex_u64 s = Some v \<longleftrightarrow>
     (\<exists>ds. ds \<noteq> [] \<and> length ds \<le> 16 \<and> set ds \<subseteq> {..<16} \<and>
        map hex_nibble (as_bytes (trim s)) = map (\<lambda>d. Some (word_of_nat d)) ds \<and>
        unat v = foldl (\<lambda>a d. 16 * a + d) 0 ds)"
  by (rule parse_hex_exact_aux)

end
