(* ===== verification/Remap.thy ===== *)
theory Remap
  imports Rust_Str
begin

text \<open>
  The category remapper (\<open>aggregator/remap.rs\<close>): rules for single values and ranges, the dense
  lookup table built when every rule lies in \<open>0..65535\<close>, and the parser of the rule text. A
  category is an \<open>i64\<close>, kept as an integer since the code only compares and copies it.
\<close>

section \<open>Rules and the remapper\<close>

datatype unmapped_action = PassThrough | DropUnmapped | MapTo int

datatype remap_rule = Exact int "int option" | RangeRule int int "int option"

type_synonym range_rule = "int \<times> int \<times> int option"

record category_remapper =
  rm_lut :: "int option list option"
  rm_direct_map :: "int \<rightharpoonup> int option"
  rm_range_rules :: "range_rule list"
  rm_unmapped_action :: unmapped_action

text \<open>The state of the loop over the rules: the maps and the bounds of the mentioned values.\<close>

record rule_scan =
  sc_direct_map :: "int \<rightharpoonup> int option"
  sc_range_rules :: "range_rule list"
  sc_min :: int
  sc_max :: int
  sc_has_values :: bool

definition note_values :: "int \<Rightarrow> int \<Rightarrow> rule_scan \<Rightarrow> rule_scan" where
  "note_values s e st =
     (if sc_has_values st then st\<lparr> sc_min := min (sc_min st) s, sc_max := max (sc_max st) e \<rparr>
      else st\<lparr> sc_min := s, sc_max := e, sc_has_values := True \<rparr>)"

fun scan_rule :: "remap_rule \<Rightarrow> rule_scan \<Rightarrow> rule_scan" where
  "scan_rule (Exact src target) st =
     note_values src src (st\<lparr> sc_direct_map := (sc_direct_map st)(src \<mapsto> target) \<rparr>)"
| "scan_rule (RangeRule start e target) st =
     (let (s, e) = (if start \<le> e then (start, e) else (e, start))
      in note_values s e (st\<lparr> sc_range_rules := sc_range_rules st @ [(s, e, target)] \<rparr>))"

fun find_range :: "range_rule list \<Rightarrow> int \<Rightarrow> int option option" where
  "find_range [] cat = None"
| "find_range ((s, e, target) # rs) cat = (if cat \<ge> s \<and> cat \<le> e then Some target else find_range rs cat)"

fun unmapped :: "unmapped_action \<Rightarrow> int \<Rightarrow> int option" where
  "unmapped PassThrough cat = Some cat"
| "unmapped DropUnmapped cat = None"
| "unmapped (MapTo v) cat = Some v"

definition lut_entry :: "(int \<rightharpoonup> int option) \<Rightarrow> range_rule list \<Rightarrow> unmapped_action \<Rightarrow> int \<Rightarrow> int option" where
  "lut_entry direct_map range_rules act cat =
     (case direct_map cat of
        Some target \<Rightarrow> target
      | None \<Rightarrow> (case find_range range_rules cat of Some target \<Rightarrow> target | None \<Rightarrow> unmapped act cat))"

definition scan_start :: rule_scan where
  "scan_start = \<lparr> sc_direct_map = Map.empty, sc_range_rules = [], sc_min = 0, sc_max = 0, sc_has_values = False \<rparr>"

definition remapper_new :: "remap_rule list \<Rightarrow> unmapped_action \<Rightarrow> category_remapper" where
  "remapper_new rules act =
     (let st = fold scan_rule rules scan_start
      in \<lparr> rm_lut =
             (if sc_has_values st \<and> sc_min st \<ge> 0 \<and> sc_max st \<le> 65535
              then Some (map (\<lambda>i. lut_entry (sc_direct_map st) (sc_range_rules st) act (int i))
                          [0..<nat (sc_max st) + 1])
              else None),
           rm_direct_map = sc_direct_map st,
           rm_range_rules = sc_range_rules st,
           rm_unmapped_action = act \<rparr>)"

definition remap_fallback :: "category_remapper \<Rightarrow> int \<Rightarrow> int option" where
  "remap_fallback r cat =
     (case rm_direct_map r cat of
        Some target \<Rightarrow> target
      | None \<Rightarrow>
          (case find_range (rm_range_rules r) cat of
             Some target \<Rightarrow> target
           | None \<Rightarrow> unmapped (rm_unmapped_action r) cat))"

definition remap :: "category_remapper \<Rightarrow> int \<Rightarrow> int option" where
  "remap r cat =
     (case rm_lut r of
        Some lut \<Rightarrow> if cat \<ge> 0 \<and> nat cat < length lut then lut ! nat cat else remap_fallback r cat
      | None \<Rightarrow> remap_fallback r cat)"

section \<open>The rule text\<close>

definition bracketed :: "char \<Rightarrow> char \<Rightarrow> rstr \<Rightarrow> bool" where
  "bracketed a b s \<longleftrightarrow> starts_with s (lit [a]) \<and> ends_with s (lit [b])"

text \<open>\<open>&s[1..s.len() - 1]\<close> between two one-byte characters.\<close>

definition inside_of :: "rstr \<Rightarrow> rstr" where
  "inside_of s = take (length s - 2) (drop 1 s)"

fun split_entries_loop :: "rstr \<Rightarrow> bool \<Rightarrow> rstr \<Rightarrow> rstr list \<Rightarrow> rstr list" where
  "split_entries_loop current in_bracket [] entries = (if trim current \<noteq> [] then entries @ [current] else entries)"
| "split_entries_loop current in_bracket (ch # s) entries =
     (if ch = of_char (CHR ''['') then split_entries_loop (current @ [ch]) True s entries
      else if ch = of_char (CHR '']'') then split_entries_loop (current @ [ch]) False s entries
      else if (ch = of_char (CHR '','') \<or> ch = of_char (CHR '';'')) \<and> \<not> in_bracket
      then (if trim current \<noteq> [] then split_entries_loop [] in_bracket s (entries @ [current])
            else split_entries_loop current in_bracket s entries)
      else split_entries_loop (current @ [ch]) in_bracket s entries)"

definition split_entries :: "rstr \<Rightarrow> rstr list" where
  "split_entries s = split_entries_loop [] False s []"

definition is_fallback_token :: "rstr \<Rightarrow> bool" where
  "is_fallback_token s \<longleftrightarrow> to_ascii_lowercase s \<in> set (map lit [''else'', ''default'', ''*'', ''_''])"

definition clean_token :: "rstr \<Rightarrow> rstr" where
  "clean_token s =
     (let t = trim s
      in if (bracketed (CHR 0x22) (CHR 0x22) t \<or> bracketed (CHR 0x27) (CHR 0x27) t) \<and> length t \<ge> 2
         then trim (inside_of t) else t)"

definition parse_target :: "rstr \<Rightarrow> rh3_error + int option" where
  "parse_target s =
     (if to_ascii_lowercase s \<in> set (map lit [''null'', ''none'', ''nodata'', ''drop'', ''skip'']) then Ok None
      else case parse_i64 s of
             Some v \<Rightarrow> Ok (Some v)
           | None \<Rightarrow> Err (InvalidParameter ''Invalid target category: must be an integer or null''))"

text \<open>\<open>for part in parts { f(part, rules)?; }\<close>\<close>

fun fold_res :: "('a \<Rightarrow> 's \<Rightarrow> 'e + 's) \<Rightarrow> 'a list \<Rightarrow> 's \<Rightarrow> 'e + 's" where
  "fold_res f [] s = Ok s"
| "fold_res f (x # xs) s = bind_res (f x s) (fold_res f xs)"

lemma bind_res_cong: "r = r' \<Longrightarrow> (\<And>x. f x = g x) \<Longrightarrow> bind_res r f = bind_res r' g"
  by (cases r) auto

lemma fold_res_cong [fundef_cong]:
  "xs = ys \<Longrightarrow> s = t \<Longrightarrow> (\<And>x u. x \<in> set ys \<Longrightarrow> f x u = g x u) \<Longrightarrow> fold_res f xs s = fold_res g ys t"
proof (induction xs arbitrary: ys s t)
  case (Cons x xs)
  then have "fold_res f xs u = fold_res g xs u" for u by auto
  then show ?case using Cons.prems by (auto intro!: bind_res_cong)
qed auto

lemma length_trim: "length (trim s) \<le> length s"
  unfolding trim_def using length_dropWhile_le le_trans by (metis length_rev)

lemma length_inside_of: "length (inside_of s) \<le> length s - 2"
  by (simp add: inside_of_def)

lemma split_char_length: "w \<in> set (split_char d s) \<Longrightarrow> length w \<le> length s"
proof (induction s arbitrary: w)
  case (Cons c s)
  show ?case
  proof (cases "split_char d s")
    case (Cons v ws)
    then have "length v \<le> length s" "\<And>w. w \<in> set ws \<Longrightarrow> length w \<le> length s"
      using Cons.IH by auto
    then show ?thesis using Cons.prems \<open>split_char d s = v # ws\<close>
      by (auto split: if_splits intro: le_SucI)
  qed simp
qed simp

lemma bracketed_length: "bracketed (CHR ''['') (CHR '']'') s \<Longrightarrow> 2 \<le> length s"
proof (cases s)
  case (Cons c s')
  assume "bracketed (CHR ''['') (CHR '']'') s"
  then show ?thesis using Cons
    by (cases s') (auto simp: bracketed_def starts_with_def ends_with_def lit_def)
qed (simp add: bracketed_def starts_with_def lit_def)

text \<open>The loop that collapses nested wrappers of a single element.\<close>

function unwrap_brackets :: "rstr \<Rightarrow> rstr" where
  "unwrap_brackets s =
     (if bracketed (CHR ''['') (CHR '']'') s
      then (let inner = trim (inside_of s)
            in if \<not> (bracketed (CHR ''['') (CHR '']'') inner \<and> of_char (CHR '','') \<notin> set (inside_of inner))
               then s else unwrap_brackets inner)
      else s)"
  by pat_completeness auto
termination
proof (relation "measure length")
  fix s x assume "bracketed (CHR ''['') (CHR '']'') s" "x = trim (inside_of s)"
  then show "(x, s) \<in> measure length"
    using bracketed_length [of s] length_trim [of "inside_of s"] length_inside_of [of s] by simp
qed simp

declare unwrap_brackets.simps [simp del]

lemma length_unwrap_brackets: "length (unwrap_brackets s) \<le> length s"
proof (induction s rule: unwrap_brackets.induct)
  case (1 s)
  have "length (trim (inside_of s)) \<le> length s"
    using length_trim [of "inside_of s"] length_inside_of [of s] by simp
  then show ?case using 1 by (subst unwrap_brackets.simps) (auto simp: Let_def)
qed

definition parse_range :: "rstr \<Rightarrow> rstr \<Rightarrow> int option \<Rightarrow> remap_rule list \<Rightarrow> rh3_error + remap_rule list" where
  "parse_range left right target rules =
     (case parse_i64 (trim left) of
        None \<Rightarrow> Err (InvalidParameter ''Invalid range start'')
      | Some s \<Rightarrow>
          (case parse_i64 (trim right) of
             None \<Rightarrow> Err (InvalidParameter ''Invalid range end'')
           | Some e \<Rightarrow> Ok (rules @ [RangeRule s e target])))"

definition parse_single :: "rstr \<Rightarrow> int option \<Rightarrow> remap_rule list \<Rightarrow> rh3_error + remap_rule list" where
  "parse_single s target rules =
     (case parse_i64 s of
        None \<Rightarrow> Err (InvalidParameter ''Invalid category specification'')
      | Some v \<Rightarrow> Ok (rules @ [Exact v target]))"

text \<open>\<open>trimmed.get(1..)\<close> is \<open>None\<close> for no character and for a first one of several bytes.\<close>

definition hyphen_split :: "rstr \<Rightarrow> (rstr \<times> rstr) option" where
  "hyphen_split s =
     (case s of
        [] \<Rightarrow> None
      | c # rest \<Rightarrow>
          if c < 128 then map_option (\<lambda>p. (trim (take (p + 1) s), trim (drop (p + 2) s))) (find_str rest (lit ''-''))
          else None)"

definition parse_atom :: "rstr \<Rightarrow> int option \<Rightarrow> remap_rule list \<Rightarrow> rh3_error + remap_rule list" where
  "parse_atom s target rules =
     (case find_str s (lit ''..='') of
        Some pos \<Rightarrow> parse_range (take pos s) (drop (pos + 3) s) target rules
      | None \<Rightarrow>
          (case find_str s (lit ''..'') of
             Some pos \<Rightarrow> parse_range (take pos s) (drop (pos + 2) s) target rules
           | None \<Rightarrow>
               (case hyphen_split s of
                  None \<Rightarrow> parse_single s target rules
                | Some (left, right) \<Rightarrow>
                    (case (parse_i64 left, parse_i64 right) of
                       (Some a, Some e) \<Rightarrow> Ok (rules @ [RangeRule a e target])
                     | _ \<Rightarrow> parse_single s target rules))))"

function parse_source_rules :: "rstr \<Rightarrow> int option \<Rightarrow> remap_rule list \<Rightarrow> rh3_error + remap_rule list" where
  "parse_source_rules src target rules =
     (let trimmed = unwrap_brackets (trim src)
      in if bracketed (CHR ''['') (CHR '']'') trimmed
         then fold_res (\<lambda>part. parse_source_rules (trim part) target)
                (split_char (of_char (CHR '','')) (inside_of trimmed)) rules
         else parse_atom trimmed target rules)"
  by pat_completeness auto
termination
proof (relation "measure (\<lambda>(src, _). length src)")
  fix src :: rstr and target :: "int option" and rules u trimmed part
  assume t: "trimmed = unwrap_brackets (trim src)" "bracketed (CHR ''['') (CHR '']'') trimmed"
    and p: "part \<in> set (split_char (of_char (CHR '','')) (inside_of trimmed))"
  have "length (trim part) \<le> length (inside_of trimmed)"
    using split_char_length [OF p] length_trim [of part] by simp
  also have "\<dots> < length trimmed"
    using length_inside_of [of trimmed] bracketed_length [OF t(2)] by simp
  also have "length trimmed \<le> length src"
    using t(1) length_unwrap_brackets [of "trim src"] length_trim [of src] by simp
  finally show "((trim part, target, u), src, target, rules) \<in> measure (\<lambda>(src, _). length src)"
    by simp
qed simp

declare parse_source_rules.simps [simp del]

definition split_rule :: "rstr \<Rightarrow> (rstr \<times> rstr) option" where
  "split_rule item =
     (case find_str item (lit ''=>'') of
        Some pos \<Rightarrow> Some (take pos item, drop (pos + 2) item)
      | None \<Rightarrow>
          (case find_str item (lit ''->'') of
             Some pos \<Rightarrow> Some (take pos item, drop (pos + 2) item)
           | None \<Rightarrow>
               map_option (\<lambda>pos. (take pos item, drop (pos + 1) item)) (find_str item (lit '':''))))"

definition parse_entry ::
  "rstr \<Rightarrow> remap_rule list \<times> unmapped_action \<Rightarrow> rh3_error + (remap_rule list \<times> unmapped_action)" where
  "parse_entry entry st =
     (case st of (rules, act) \<Rightarrow>
       let item = trim entry
       in if item = [] then Ok (rules, act)
          else case split_rule item of
                 None \<Rightarrow> Err (InvalidParameter ''Invalid remap entry: missing : separator'')
               | Some (src_part, target_part) \<Rightarrow>
                   let src_str = clean_token src_part in
                   bind_res (parse_target (clean_token target_part)) (\<lambda>target.
                     if is_fallback_token src_str
                     then Ok (rules, case target of None \<Rightarrow> DropUnmapped | Some v \<Rightarrow> MapTo v)
                     else bind_res (parse_source_rules src_str target rules) (\<lambda>rules. Ok (rules, act))))"

definition strip_enclosing :: "rstr \<Rightarrow> rstr" where
  "strip_enclosing s =
     (if bracketed (CHR ''{'') (CHR ''}'') s \<or> bracketed (CHR ''['') (CHR '']'') s then trim (inside_of s) else s)"

definition remapper_parse :: "rstr \<Rightarrow> rh3_error + category_remapper" where
  "remapper_parse spec =
     (let trimmed = trim spec
      in if trimmed = [] then Err (InvalidParameter ''Remap specification cannot be empty'')
         else bind_res (fold_res parse_entry (split_entries (strip_enclosing trimmed)) ([], PassThrough))
                (\<lambda>(rules, act). Ok (remapper_new rules act)))"

section \<open>The meaning of a list of rules\<close>

text \<open>The last rule for exactly this value wins, then the first range that holds it, then the fallback.\<close>

fun exact_target :: "int \<Rightarrow> remap_rule list \<Rightarrow> int option option \<Rightarrow> int option option" where
  "exact_target cat [] found = found"
| "exact_target cat (Exact s t # rs) found = exact_target cat rs (if s = cat then Some t else found)"
| "exact_target cat (RangeRule a b t # rs) found = exact_target cat rs found"

fun range_target :: "int \<Rightarrow> remap_rule list \<Rightarrow> int option option" where
  "range_target cat [] = None"
| "range_target cat (Exact s t # rs) = range_target cat rs"
| "range_target cat (RangeRule a b t # rs) = (if min a b \<le> cat \<and> cat \<le> max a b then Some t else range_target cat rs)"

definition reference_remap :: "remap_rule list \<Rightarrow> unmapped_action \<Rightarrow> int \<Rightarrow> int option" where
  "reference_remap rules act cat =
     (case exact_target cat rules None of
        Some t \<Rightarrow> t
      | None \<Rightarrow> (case range_target cat rules of Some t \<Rightarrow> t | None \<Rightarrow> unmapped act cat))"

lemma note_values_maps [simp]:
  "sc_direct_map (note_values s e st) = sc_direct_map st"
  "sc_range_rules (note_values s e st) = sc_range_rules st"
  by (simp_all add: note_values_def)

lemma find_range_append:
  "find_range (xs @ ys) cat = (case find_range xs cat of None \<Rightarrow> find_range ys cat | Some t \<Rightarrow> Some t)"
  by (induction xs) auto

lemma scan_direct_map:
  "sc_direct_map (fold scan_rule rules st) cat = exact_target cat rules (sc_direct_map st cat)"
proof (induction rules arbitrary: st)
  case (Cons r rules)
  then show ?case by (cases r) (auto simp: Let_def)
qed simp

lemma scan_range_rules:
  "find_range (sc_range_rules (fold scan_rule rules st)) cat =
     (case find_range (sc_range_rules st) cat of None \<Rightarrow> range_target cat rules | Some t \<Rightarrow> Some t)"
proof (induction rules arbitrary: st)
  case (Cons r rules)
  show ?case
    by (cases r) (auto simp: Cons.IH find_range_append Let_def split: option.splits)
qed (simp split: option.splits)

lemma remapper_new_sel [simp]:
  "rm_direct_map (remapper_new rules act) = sc_direct_map (fold scan_rule rules scan_start)"
  "rm_range_rules (remapper_new rules act) = sc_range_rules (fold scan_rule rules scan_start)"
  "rm_unmapped_action (remapper_new rules act) = act"
  by (simp_all add: remapper_new_def Let_def)

lemma remap_fallback_new: "remap_fallback (remapper_new rules act) cat = reference_remap rules act cat"
  by (auto simp: remap_fallback_def scan_direct_map scan_range_rules reference_remap_def scan_start_def
      split: option.splits)

lemma lut_entry_fallback:
  "lut_entry (rm_direct_map r) (rm_range_rules r) (rm_unmapped_action r) cat = remap_fallback r cat"
  by (simp add: lut_entry_def remap_fallback_def)

lemma lut_entry_new:
  assumes "rm_lut (remapper_new rules act) = Some lut" "i < length lut"
  shows "lut ! i = remap_fallback (remapper_new rules act) (int i)"
proof -
  have "lut = map (\<lambda>i. lut_entry (rm_direct_map (remapper_new rules act)) (rm_range_rules (remapper_new rules act))
      (rm_unmapped_action (remapper_new rules act)) (int i)) [0..<length lut]"
    using assms(1) by (auto simp: remapper_new_def Let_def simp del: upt_Suc split: if_splits)
  then have "lut ! i = lut_entry (rm_direct_map (remapper_new rules act)) (rm_range_rules (remapper_new rules act))
      (rm_unmapped_action (remapper_new rules act)) (int i)"
    using assms(2) by (metis (no_types, lifting) add_0 diff_zero nth_map_upt)
  then show ?thesis by (simp only: lut_entry_fallback)
qed

lemma remap_new: "remap (remapper_new rules act) cat = reference_remap rules act cat"
  using lut_entry_new [of rules act] remap_fallback_new [of rules act]
  by (auto simp: remap_def split: option.splits)

section \<open>Ranges of categories\<close>

definition target_ok :: "int option \<Rightarrow> bool" where
  "target_ok t = (case t of None \<Rightarrow> True | Some v \<Rightarrow> i64_range v)"

fun rule_ok :: "remap_rule \<Rightarrow> bool" where
  "rule_ok (Exact s t) = (i64_range s \<and> target_ok t)"
| "rule_ok (RangeRule a b t) = (i64_range a \<and> i64_range b \<and> target_ok t)"

fun action_ok :: "unmapped_action \<Rightarrow> bool" where
  "action_ok (MapTo v) = i64_range v"
| "action_ok _ = True"

lemma parse_target_ok: "parse_target s = Ok t \<Longrightarrow> target_ok t"
  by (auto simp: parse_target_def target_ok_def parse_i64_range split: if_splits option.splits)

lemma parse_range_ok: "parse_range l r t rules = Ok rules' \<Longrightarrow> target_ok t \<Longrightarrow> list_all rule_ok rules \<Longrightarrow> list_all rule_ok rules'"
  by (auto simp: parse_range_def parse_i64_range split: option.splits)

lemma parse_single_ok: "parse_single s t rules = Ok rules' \<Longrightarrow> target_ok t \<Longrightarrow> list_all rule_ok rules \<Longrightarrow> list_all rule_ok rules'"
  by (auto simp: parse_single_def parse_i64_range split: option.splits)

lemma parse_atom_ok: "parse_atom s t rules = Ok rules' \<Longrightarrow> target_ok t \<Longrightarrow> list_all rule_ok rules \<Longrightarrow> list_all rule_ok rules'"
  by (auto simp: parse_atom_def parse_i64_range split: option.splits prod.splits
      intro: parse_range_ok parse_single_ok dest: parse_single_ok)

text \<open>What every step keeps, the loop keeps.\<close>

lemma fold_res_invariant:
  "fold_res f xs s = Ok s' \<Longrightarrow> P s \<Longrightarrow>
    (\<And>x u v. x \<in> set xs \<Longrightarrow> f x u = Ok v \<Longrightarrow> P u \<Longrightarrow> P v) \<Longrightarrow> P s'"
proof (induction xs arbitrary: s)
  case (Cons x xs)
  then obtain u where "f x s = Ok u" "fold_res f xs u = Ok s'" by auto
  then show ?case using Cons.IH [of u] Cons.prems by auto
qed simp

lemma parse_source_rules_ok:
  "parse_source_rules src t rules = Ok rules' \<Longrightarrow> target_ok t \<Longrightarrow> list_all rule_ok rules \<Longrightarrow> list_all rule_ok rules'"
proof (induction src t rules arbitrary: rules' rule: parse_source_rules.induct)
  case (1 src t rules)
  show ?case
  proof (cases "bracketed (CHR ''['') (CHR '']'') (unwrap_brackets (trim src))")
    case True
    then have "fold_res (\<lambda>part. parse_source_rules (trim part) t)
        (split_char (of_char (CHR '','')) (inside_of (unwrap_brackets (trim src)))) rules = Ok rules'"
      using "1.prems"(1) by (subst (asm) parse_source_rules.simps) (simp add: Let_def)
    then show ?thesis
      by (rule fold_res_invariant) (use 1 True in auto)
  next
    case False
    then have "parse_atom (unwrap_brackets (trim src)) t rules = Ok rules'"
      using "1.prems"(1) by (subst (asm) parse_source_rules.simps) (simp add: Let_def)
    then show ?thesis using "1.prems" by (blast intro: parse_atom_ok)
  qed
qed

definition parse_state_ok :: "remap_rule list \<times> unmapped_action \<Rightarrow> bool" where
  "parse_state_ok st \<longleftrightarrow> list_all rule_ok (fst st) \<and> action_ok (snd st)"

lemma parse_entry_ok: "parse_entry e st = Ok st' \<Longrightarrow> parse_state_ok st \<Longrightarrow> parse_state_ok st'"
  by (cases st, auto simp: parse_entry_def parse_state_ok_def Let_def target_ok_def
      split: if_splits option.splits dest!: parse_target_ok)
    (erule parse_source_rules_ok, simp_all add: target_ok_def)+

lemma remapper_parse_rules:
  assumes "remapper_parse spec = Ok r"
  obtains rules act where "r = remapper_new rules act" "list_all rule_ok rules" "action_ok act"
proof -
  obtain rules act where ra: "fold_res parse_entry (split_entries (strip_enclosing (trim spec))) ([], PassThrough) = Ok (rules, act)"
      "r = remapper_new rules act"
    using assms by (auto simp: remapper_parse_def Let_def split: if_splits)
  have "parse_state_ok (rules, act)"
    using fold_res_invariant [OF ra(1), of parse_state_ok] parse_entry_ok by (simp add: parse_state_ok_def)
  then show ?thesis using that ra(2) by (simp add: parse_state_ok_def)
qed

lemma exact_target_ok:
  "exact_target cat rules found = Some t \<Longrightarrow> list_all rule_ok rules \<Longrightarrow> (\<And>t. found = Some t \<Longrightarrow> target_ok t) \<Longrightarrow> target_ok t"
  by (induction cat rules found rule: exact_target.induct) (auto split: if_splits)

lemma range_target_ok: "range_target cat rules = Some t \<Longrightarrow> list_all rule_ok rules \<Longrightarrow> target_ok t"
  by (induction cat rules rule: range_target.induct) (auto split: if_splits)

lemma unmapped_ok: "unmapped act cat = Some v \<Longrightarrow> action_ok act \<Longrightarrow> i64_range cat \<Longrightarrow> i64_range v"
  by (cases act) auto

lemma reference_remap_ok:
  "reference_remap rules act cat = Some v \<Longrightarrow> list_all rule_ok rules \<Longrightarrow> action_ok act \<Longrightarrow> i64_range cat \<Longrightarrow> i64_range v"
  by (auto simp: reference_remap_def split: option.splits
      dest!: exact_target_ok range_target_ok dest: unmapped_ok simp: target_ok_def)

section \<open>Properties\<close>

text \<open>
  C39. The lookup table changes nothing: for every list of rules, every fallback action and every
  category, also a negative one or one above the table, \<open>remap\<close> gives what the rules mean, where
  the last rule for exactly that value wins over any range, the first range that holds it (with
  its ends in either order) over later ones, and the fallback action decides otherwise.
\<close>

theorem remap_meaning: "remap (remapper_new rules act) cat = reference_remap rules act cat"
  by (rule remap_new)

text \<open>
  Whatever text it was parsed from, a remapper takes an \<open>i64\<close> category to an \<open>i64\<close> category or
  drops it: no number outside the type gets through the parser of values, ranges and lists.
\<close>

theorem remapper_parse_typed:
  assumes "remapper_parse spec = Ok r" "i64_range cat" "remap r cat = Some v"
  shows "i64_range v"
proof -
  obtain rules act where "r = remapper_new rules act" "list_all rule_ok rules" "action_ok act"
    using remapper_parse_rules [OF assms(1)] .
  then show ?thesis
    using reference_remap_ok [of rules act cat v] assms(2,3) by (simp add: remap_new)
qed


text \<open>The text \<open>5:7\<close>.\<close>

definition sample_spec :: rstr where
  "sample_spec = [53, 58, 55]"


lemmas str_eval =
  trim_def is_whitespace_def split_rule_def lit_def starts_with_def ends_with_def clean_token_def bracketed_def
  is_fallback_token_def to_ascii_lowercase_def ascii_lower_def Let_def split_entries_def strip_enclosing_def

lemma sample_entry: "parse_entry sample_spec ([], PassThrough) = Ok ([Exact 5 (Some 7)], PassThrough)"
proof -
  have strs: "trim sample_spec = [53, 58, 55]" "trim [53::nat] = [53]" "split_rule [53, 58, 55] = Some ([53], [55])"
    "clean_token [53] = [53]" "clean_token [55] = [55]" "\<not> is_fallback_token [53]"
    "\<not> bracketed (CHR ''['') (CHR '']'') [53]"
    by (simp_all add: str_eval sample_spec_def)
  have br: "unwrap_brackets [53] = [53]"
    by (subst unwrap_brackets.simps) (simp add: strs)
  have "parse_target [55] = Ok (Some 7)"
    by (simp add: parse_target_def to_ascii_lowercase_def ascii_lower_def lit_def parse_i64_def Let_def
        parse_unsigned_def digit_val_def i64_range_def)
  moreover have "parse_atom [53] (Some 7) [] = Ok [Exact 5 (Some 7)]"
    by (simp add: parse_atom_def hyphen_split_def lit_def starts_with_def parse_single_def parse_i64_def Let_def
        parse_unsigned_def digit_val_def i64_range_def)
  then have "parse_source_rules [53] (Some 7) [] = Ok [Exact 5 (Some 7)]"
    by (subst parse_source_rules.simps) (simp add: strs br)
  ultimately show ?thesis by (simp add: parse_entry_def strs)
qed

theorem remapper_parse_typed_witness:
  "\<exists>r. remapper_parse sample_spec = Ok r \<and> remap r 5 = Some 7 \<and> i64_range 7"
proof -
  have "trim sample_spec \<noteq> []" "split_entries (strip_enclosing (trim sample_spec)) = [sample_spec]"
    by (simp_all add: str_eval sample_spec_def)
  then have p: "remapper_parse sample_spec = Ok (remapper_new [Exact 5 (Some 7)] PassThrough)"
    by (simp add: remapper_parse_def sample_entry)
  have r: "remap (remapper_new [Exact 5 (Some 7)] PassThrough) 5 = Some 7"
    by (simp add: remap_new reference_remap_def)
  show ?thesis
    using p r remapper_parse_typed [OF p _ r] by (auto simp: i64_range_def)
qed

end
