(* ===== verification/Http_Range.thy ===== *)
theory Http_Range
  imports Rust_Str
begin

text \<open>
  Remote files over byte ranges (\<open>raster/http_range.rs\<close>): the checks of a range response, the
  retry loop, the HTTP transport, the block cache, the source that combines them and the
  \<open>Read + Seek\<close> adapter. What the server answers to the \<open>n\<close>-th request is a parameter, and so is
  the transport of a source. Sizes and offsets are \<open>u64\<close> values kept as naturals; locks are never
  poisoned, since no code panics while it holds one. A formatted error keeps its fixed text.
\<close>

section \<open>Response headers\<close>

definition u64_max :: nat where "u64_max = 2 ^ 64 - 1"

text \<open>\<open>u64::from_str\<close>: an optional plus sign, at least one digit, in range.\<close>

definition parse_u64 :: "rstr \<Rightarrow> nat option" where
  "parse_u64 s =
     (case parse_unsigned (case s of c # ds \<Rightarrow> if c = 43 then ds else s | [] \<Rightarrow> s) of
        None \<Rightarrow> None
      | Some n \<Rightarrow> if n \<le> u64_max then Some n else None)"

definition strip_prefix :: "rstr \<Rightarrow> rstr \<Rightarrow> rstr option" where
  "strip_prefix s p = (if starts_with s p then Some (drop (length p) s) else None)"

definition split_once :: "rstr \<Rightarrow> rstr \<Rightarrow> (rstr \<times> rstr) option" where
  "split_once s d = map_option (\<lambda>i. (take i s, drop (i + length d) s)) (find_str s d)"

definition parse_content_range :: "rstr \<Rightarrow> (nat \<times> nat \<times> nat) option" where
  "parse_content_range value =
     Option.bind (strip_prefix (trim value) (lit ''bytes '')) (\<lambda>v.
     Option.bind (split_once v (lit ''/'')) (\<lambda>(range, tot).
     Option.bind (split_once range (lit ''-'')) (\<lambda>(start, end).
     Option.bind (parse_u64 start) (\<lambda>start.
     Option.bind (parse_u64 end) (\<lambda>end.
     Option.bind (parse_u64 tot) (\<lambda>tot.
     if start \<le> end \<and> end < tot then Some (start, end, tot) else None))))))"

definition validate_range_response_headers ::
  "nat \<Rightarrow> rstr option \<Rightarrow> nat \<Rightarrow> nat \<Rightarrow> nat option \<Rightarrow> rh3_error + nat" where
  "validate_range_response_headers status content_range start end expected_total =
     (if status \<noteq> 206 then Err (InvalidParameter ''Remote server ignored byte range'')
      else case Option.bind content_range parse_content_range of
             None \<Rightarrow> Err (InvalidParameter ''Remote range response lacks a valid Content-Range header'')
           | Some (actual_start, actual_end, tot) \<Rightarrow>
               if actual_start \<noteq> start \<or> actual_end \<noteq> end \<or>
                  (case expected_total of None \<Rightarrow> False | Some expected \<Rightarrow> expected \<noteq> tot)
               then Err (InvalidParameter ''Remote range response does not match requested bytes'')
               else Ok tot)"

definition validate_range_response ::
  "nat \<Rightarrow> rstr option \<Rightarrow> nat \<Rightarrow> nat \<Rightarrow> nat option \<Rightarrow> nat \<Rightarrow> rh3_error + nat" where
  "validate_range_response status content_range start end expected_total body_len =
     bind_res (validate_range_response_headers status content_range start end expected_total) (\<lambda>tot.
       if body_len \<noteq> end - start + 1
       then Err (InvalidParameter ''Remote range response has the wrong number of bytes'')
       else Ok tot)"

section \<open>Requests\<close>

datatype http_error = HttpStatus nat | HttpTransportError

definition is_transient_error :: "http_error \<Rightarrow> bool" where
  "is_transient_error e =
     (case e of HttpStatus status \<Rightarrow> status \<in> {429, 500, 502, 503, 504} | HttpTransportError \<Rightarrow> True)"

text \<open>A response; reading its body may fail.\<close>

record http_response =
  rs_status :: nat
  rs_content_range :: "rstr option"
  rs_content_length :: "rstr option"
  rs_body :: "rh3_error + bytes"

definition max_retries :: nat where "max_retries = 4"

definition backoff_ms :: "nat \<Rightarrow> nat" where
  "backoff_ms attempt = min (100 * 2 ^ attempt + (attempt * 37) mod 50) 2000"

definition request_error :: "http_error \<Rightarrow> rh3_error" where
  "request_error e =
     (case e of
        HttpStatus status \<Rightarrow> if status = 404 then InvalidParameter ''Remote raster not found (HTTP 404)''
                           else InvalidParameter ''HTTP request failed''
      | HttpTransportError \<Rightarrow> InvalidParameter ''Network transport error'')"

text \<open>
  \<open>make_request n\<close> is the outcome of the \<open>n\<close>-th request. The result comes with the list of pauses
  between the requests.
\<close>

function execute_request_from ::
  "nat \<Rightarrow> (nat \<Rightarrow> http_error + http_response) \<Rightarrow> (rh3_error + http_response) \<times> nat list" where
  "execute_request_from attempt make_request =
     (case make_request attempt of
        Inr resp \<Rightarrow> (Ok resp, [])
      | Inl e \<Rightarrow>
          if attempt \<ge> max_retries \<or> \<not> is_transient_error e then (Err (request_error e), [])
          else (case execute_request_from (attempt + 1) make_request of
                  (r, pauses) \<Rightarrow> (r, backoff_ms attempt # pauses)))"
  by pat_completeness auto
termination by (relation "measure (\<lambda>(attempt, _). max_retries - attempt)") auto

declare execute_request_from.simps [simp del]

definition execute_request :: "(nat \<Rightarrow> http_error + http_response) \<Rightarrow> (rh3_error + http_response) \<times> nat list" where
  "execute_request make_request = execute_request_from 0 make_request"

datatype probe_result = ProbeComplete bytes nat | ProbePartial bytes nat

text \<open>\<open>reader.take(n).read_to_end(&mut buf)\<close>\<close>

definition read_body :: "nat option \<Rightarrow> http_response \<Rightarrow> rh3_error + bytes" where
  "read_body limit resp =
     (case rs_body resp of
        Inl e \<Rightarrow> Err (InvalidParameter ''Failed reading the response body'')
      | Inr body \<Rightarrow> Ok (case limit of None \<Rightarrow> body | Some n \<Rightarrow> take n body))"

definition probe_partial :: "nat \<Rightarrow> http_response \<Rightarrow> rh3_error + probe_result" where
  "probe_partial initial_fetch_len resp =
     (case Option.bind (rs_content_range resp) parse_content_range of
        None \<Rightarrow> Err (InvalidParameter ''Remote range response lacks a valid Content-Range header'')
      | Some (_, _, parsed_total) \<Rightarrow>
          (let expected_end = min (initial_fetch_len - 1) (parsed_total - 1) in
           bind_res (validate_range_response_headers (rs_status resp) (rs_content_range resp) 0 expected_end None) (\<lambda>_.
           bind_res (read_body (Some (initial_fetch_len + 1)) resp) (\<lambda>buf.
           bind_res (validate_range_response (rs_status resp) (rs_content_range resp) 0 expected_end None (length buf))
             (\<lambda>total_size. Ok (ProbePartial buf total_size))))))"

definition probe_complete :: "http_response \<Rightarrow> rh3_error + probe_result" where
  "probe_complete resp =
     (let cl = (case Option.bind (rs_content_length resp) parse_u64 of None \<Rightarrow> 0 | Some n \<Rightarrow> n) in
      bind_res (read_body None resp) (\<lambda>buf.
        if cl > 0 \<and> cl \<noteq> length buf
        then Err (InvalidParameter ''Remote response does not have Content-Length bytes'')
        else Ok (ProbeComplete buf (length buf))))"

definition http_probe :: "(nat \<Rightarrow> http_error + http_response) \<Rightarrow> nat \<Rightarrow> rh3_error + probe_result" where
  "http_probe make_request initial_fetch_len =
     bind_res (fst (execute_request make_request)) (\<lambda>resp.
       if rs_status resp = 206 then probe_partial initial_fetch_len resp
       else if rs_status resp = 200 then probe_complete resp
       else Err (InvalidParameter ''Unexpected HTTP status''))"

definition http_fetch_range ::
  "(nat \<Rightarrow> http_error + http_response) \<Rightarrow> nat \<Rightarrow> nat \<Rightarrow> nat option \<Rightarrow> rh3_error + bytes" where
  "http_fetch_range make_request start end expected_total =
     (if start > end \<or> (case expected_total of None \<Rightarrow> False | Some tot \<Rightarrow> end \<ge> tot)
      then Err (InvalidParameter ''Requested remote byte range lies outside file'')
      else
        bind_res (fst (execute_request make_request)) (\<lambda>resp.
        let expected_len = end - start + 1 in
        bind_res (validate_range_response_headers (rs_status resp) (rs_content_range resp) start end expected_total) (\<lambda>_.
        bind_res (read_body (Some (expected_len + 1)) resp) (\<lambda>buf.
        bind_res (validate_range_response (rs_status resp) (rs_content_range resp) start end expected_total (length buf))
          (\<lambda>_. Ok buf)))))"

section \<open>The block cache\<close>

definition DEFAULT_BLOCK_SIZE :: nat where "DEFAULT_BLOCK_SIZE = 131072"

record byte_cache =
  bc_block_size :: nat
  bc_complete_file :: "bytes option"
  bc_blocks :: "nat \<rightharpoonup> bytes"

definition new_with_complete :: "bytes \<Rightarrow> nat \<Rightarrow> byte_cache" where
  "new_with_complete data block_size =
     \<lparr> bc_block_size = block_size, bc_complete_file = Some data, bc_blocks = Map.empty \<rparr>"

definition new_with_initial_block :: "bytes \<Rightarrow> nat \<Rightarrow> byte_cache" where
  "new_with_initial_block data block_size =
     \<lparr> bc_block_size = block_size, bc_complete_file = None, bc_blocks = [0 \<mapsto> data] \<rparr>"

definition is_complete :: "byte_cache \<Rightarrow> bool" where
  "is_complete c \<longleftrightarrow> bc_complete_file c \<noteq> None"

text \<open>The bytes copied into an output of \<open>n\<close> bytes, from the whole file when it is there.\<close>

definition copy_from_complete :: "byte_cache \<Rightarrow> nat \<Rightarrow> nat \<Rightarrow> bytes option" where
  "copy_from_complete c off n =
     (case bc_complete_file c of
        None \<Rightarrow> None
      | Some full \<Rightarrow>
          if off \<ge> length full \<or> n = 0 then Some []
          else Some (take (min n (length full - off)) (drop off full)))"

definition insert_block :: "nat \<Rightarrow> bytes \<Rightarrow> byte_cache \<Rightarrow> bytes \<times> byte_cache" where
  "insert_block block_idx data c =
     (case bc_blocks c block_idx of
        Some old \<Rightarrow> (old, c)
      | None \<Rightarrow> (data, c\<lparr> bc_blocks := (bc_blocks c)(block_idx \<mapsto> data) \<rparr>))"

section \<open>The source\<close>

type_synonym transport = "nat \<Rightarrow> nat \<Rightarrow> nat option \<Rightarrow> rh3_error + bytes"

record remote_source =
  src_total_size :: nat
  src_cache :: byte_cache

definition from_transport :: "(nat \<Rightarrow> rh3_error + probe_result) \<Rightarrow> rh3_error + remote_source" where
  "from_transport probe =
     bind_res (probe DEFAULT_BLOCK_SIZE) (\<lambda>r. Ok (case r of
        ProbeComplete data total_size \<Rightarrow>
          \<lparr> src_total_size = total_size, src_cache = new_with_complete data DEFAULT_BLOCK_SIZE \<rparr>
      | ProbePartial data total_size \<Rightarrow>
          \<lparr> src_total_size = total_size, src_cache = new_with_initial_block data DEFAULT_BLOCK_SIZE \<rparr>))"

definition fetch_range :: "transport \<Rightarrow> remote_source \<Rightarrow> nat \<Rightarrow> nat \<Rightarrow> rh3_error + bytes" where
  "fetch_range fetch src start end =
     (if is_complete (src_cache src) \<and> start \<le> end \<and> end < src_total_size src
      then case copy_from_complete (src_cache src) start (end - start + 1) of
             Some buf \<Rightarrow> if length buf \<noteq> end - start + 1
                         then Err (InvalidParameter ''Cached remote file holds fewer bytes than requested'')
                         else Ok buf
           | None \<Rightarrow> fetch start end (Some (src_total_size src))
      else fetch start end (Some (src_total_size src)))"

text \<open>
  \<open>read_range_into\<close> with an output of \<open>out_len\<close> bytes: the bytes written to its front, and the
  source with its cache. \<open>copy_from_slice\<close> panics when the lengths differ, which is \<open>None\<close>.
\<close>

definition read_range_into ::
  "transport \<Rightarrow> nat \<Rightarrow> nat \<Rightarrow> remote_source \<Rightarrow> ((rh3_error + bytes) \<times> remote_source) option" where
  "read_range_into fetch off out_len src =
     (if off \<ge> src_total_size src \<or> out_len = 0 then Some (Ok [], src)
      else
        let actual_len = min out_len (src_total_size src - off);
            cache = src_cache src
        in case copy_from_complete cache off actual_len of
             Some bs \<Rightarrow> Some (Ok bs, src)
           | None \<Rightarrow>
               (let block_size = bc_block_size cache;
                    block_idx = off div block_size;
                    block_start = block_idx * block_size;
                    offset_in_block = off - block_start
                in if actual_len \<le> block_size - offset_in_block \<and>
                      (case bc_blocks cache block_idx of Some block \<Rightarrow> offset_in_block < length block | None \<Rightarrow> False)
                   then (let block = the (bc_blocks cache block_idx);
                             available = min (length block - offset_in_block) actual_len
                         in Some (Ok (take available (drop offset_in_block block)), src))
                   else if actual_len > block_size - offset_in_block
                   then (case fetch off (off + actual_len - 1) (Some (src_total_size src)) of
                           Inl e \<Rightarrow> Some (Err e, src)
                         | Inr fetched \<Rightarrow>
                             if length fetched = actual_len then Some (Ok fetched, src) else None)
                   else
                     (let block_end = min (block_start + block_size) (src_total_size src)
                      in case fetch block_start (block_end - 1) (Some (src_total_size src)) of
                           Inl e \<Rightarrow> Some (Err e, src)
                         | Inr fetched_bytes \<Rightarrow>
                             (case insert_block block_idx fetched_bytes cache of
                                (final_block, cache') \<Rightarrow>
                                  if offset_in_block > length final_block then None
                                  else Some (Ok (take (min (length final_block - offset_in_block) actual_len)
                                                   (drop offset_in_block final_block)),
                                             src\<lparr> src_cache := cache' \<rparr>)))))"

definition read_exact_range ::
  "transport \<Rightarrow> nat \<Rightarrow> nat \<Rightarrow> remote_source \<Rightarrow> ((rh3_error + bytes) \<times> remote_source) option" where
  "read_exact_range fetch off len src =
     (if off > src_total_size src
      then Some (Err (InvalidParameter ''read_exact_range: offset extends beyond file''), src)
      else if len = 0 then Some (Ok [], src)
      else if len > src_total_size src - off
      then Some (Err (InvalidParameter ''read_exact_range: request extends beyond file''), src)
      else map_option (\<lambda>(r, src').
             (bind_res r (\<lambda>buf.
                if length buf \<noteq> len then Err (InvalidParameter ''read_exact_range: short read'') else Ok buf), src'))
           (read_range_into fetch off len src))"

section \<open>Read and Seek\<close>

record range_reader =
  rr_source :: remote_source
  rr_cursor :: nat

definition reader_new :: "remote_source \<Rightarrow> range_reader" where
  "reader_new src = \<lparr> rr_source = src, rr_cursor = 0 \<rparr>"

definition reader_read :: "transport \<Rightarrow> nat \<Rightarrow> range_reader \<Rightarrow> ((rh3_error + bytes) \<times> range_reader) option" where
  "reader_read fetch buf_len rd =
     (if rr_cursor rd \<ge> src_total_size (rr_source rd) \<or> buf_len = 0 then Some (Ok [], rd)
      else
        let to_read = min buf_len (src_total_size (rr_source rd) - rr_cursor rd)
        in map_option (\<lambda>(r, src').
             case r of
               Inl e \<Rightarrow> (Err (IoError OtherIo ''remote read failed''), rd\<lparr> rr_source := src' \<rparr>)
             | Inr bs \<Rightarrow> (Ok bs, rd\<lparr> rr_source := src', rr_cursor := rr_cursor rd + length bs \<rparr>))
           (read_range_into fetch (rr_cursor rd) to_read (rr_source rd)))"

datatype seek_from = SeekStart nat | SeekCurrent i64 | SeekEnd i64

text \<open>The sum is in \<open>i64\<close>, where a release build wraps.\<close>

definition seek_relative :: "nat \<Rightarrow> i64 \<Rightarrow> range_reader \<Rightarrow> (rh3_error + nat) \<times> range_reader" where
  "seek_relative base delta rd =
     (let target = (word_of_nat base :: i64) + delta
      in if target <s 0 then (Err (IoError InvalidInput ''Cannot seek before start of file''), rd)
         else (Ok (unat target), rd\<lparr> rr_cursor := unat target \<rparr>))"

definition reader_seek :: "seek_from \<Rightarrow> range_reader \<Rightarrow> (rh3_error + nat) \<times> range_reader" where
  "reader_seek pos rd =
     (case pos of
        SeekStart off \<Rightarrow> (Ok off, rd\<lparr> rr_cursor := off \<rparr>)
      | SeekCurrent delta \<Rightarrow> seek_relative (rr_cursor rd) delta rd
      | SeekEnd delta \<Rightarrow> seek_relative (src_total_size (rr_source rd)) delta rd)"

section \<open>The contract of a transport\<close>

text \<open>A range that is answered is the file's own bytes; a transport may always fail instead.\<close>

definition serves :: "bytes \<Rightarrow> transport \<Rightarrow> bool" where
  "serves F fetch \<longleftrightarrow>
     (\<forall>s e t b. fetch s e t = Ok b \<longrightarrow> s \<le> e \<and> e < length F \<and> b = take (e - s + 1) (drop s F))"

text \<open>The cache holds nothing but the file's bytes, in whole blocks.\<close>

definition cache_inv :: "bytes \<Rightarrow> byte_cache \<Rightarrow> bool" where
  "cache_inv F c \<longleftrightarrow> 0 < bc_block_size c \<and>
     (\<forall>d. bc_complete_file c = Some d \<longrightarrow> d = F) \<and>
     (\<forall>i b. bc_blocks c i = Some b \<longrightarrow> b = take (bc_block_size c) (drop (i * bc_block_size c) F))"

definition source_inv :: "bytes \<Rightarrow> remote_source \<Rightarrow> bool" where
  "source_inv F src \<longleftrightarrow> src_total_size src = length F \<and> cache_inv F (src_cache src)"

lemma servesD:
  "serves F fetch \<Longrightarrow> fetch s e t = Ok b \<Longrightarrow> s \<le> e \<and> e < length F \<and> b = take (e - s + 1) (drop s F)"
  by (auto simp: serves_def)

lemma servesI:
  "(\<And>s e t b. fetch s e t = Ok b \<Longrightarrow> s \<le> e \<and> e < length F \<and> b = take (e - s + 1) (drop s F)) \<Longrightarrow> serves F fetch"
  unfolding serves_def by blast

text \<open>Reads that stay inside one block are slices of that block.\<close>

lemma block_slice:
  assumes "k \<le> off" "off - k + n \<le> bs"
  shows "take n (drop (off - k) (take bs (drop k F))) = take n (drop off F)"
proof -
  have "drop (off - k) (take bs (drop k F)) = take (bs - (off - k)) (drop off F)"
    using assms(1) by (simp add: drop_take)
  then show ?thesis using assms(2) by (simp add: min_def)
qed

lemma copy_from_complete_Some:
  "cache_inv F c \<Longrightarrow> copy_from_complete c off n = Some bs \<Longrightarrow> bs = take n (drop off F)"
  by (auto simp: copy_from_complete_def cache_inv_def min_def split: option.splits if_splits)

lemma insert_block_inv:
  assumes "cache_inv F c" "data = take (bc_block_size c) (drop (i * bc_block_size c) F)"
  shows "\<exists>c'. insert_block i data c = (data, c') \<and> cache_inv F c'"
  using assms by (auto simp: insert_block_def cache_inv_def split: option.splits)

text \<open>
  A read never panics, keeps the cache consistent, and returns the file's bytes unless the transport
  failed.
\<close>

lemma read_range_into_ok:
  assumes inv: "source_inv F src" and fetch: "serves F fetch"
  shows "\<exists>r src'. read_range_into fetch off n src = Some (r, src') \<and> source_inv F src' \<and>
    (r = Ok (take n (drop off F)) \<or> (\<exists>e s t. r = Err e \<and> fetch s t (Some (length F)) = Err e))"
proof (cases "off \<ge> length F \<or> n = 0")
  case True
  then show ?thesis using inv by (auto simp: read_range_into_def source_inv_def)
next
  case False
  define a where "a = min n (length F - off)"
  define c where "c = src_cache src"
  define bs where "bs = bc_block_size c"
  define i where "i = off div bs"
  define o' where "o' = off - i * bs"
  have ci: "cache_inv F c" and tot: "src_total_size src = length F" using inv by (simp_all add: source_inv_def c_def)
  have bs: "0 < bs" using ci by (simp add: cache_inv_def bs_def)
  have k: "i * bs \<le> off" "o' < bs"
    using bs by (simp_all add: i_def o'_def minus_div_mult_eq_mod)
  have a: "0 < a" "take a (drop off F) = take n (drop off F)"
    using False by (auto simp: a_def min_def)
  have unf: "read_range_into fetch off n src =
      (case copy_from_complete c off a of
         Some bs \<Rightarrow> Some (Ok bs, src)
       | None \<Rightarrow>
           if a \<le> bs - o' \<and> (case bc_blocks c i of Some block \<Rightarrow> o' < length block | None \<Rightarrow> False)
           then Some (Ok (take (min (length (the (bc_blocks c i)) - o') a) (drop o' (the (bc_blocks c i)))), src)
           else if a > bs - o'
           then (case fetch off (off + a - 1) (Some (length F)) of
                   Inl e \<Rightarrow> Some (Err e, src)
                 | Inr fetched \<Rightarrow> if length fetched = a then Some (Ok fetched, src) else None)
           else (case fetch (i * bs) (min (i * bs + bs) (length F) - 1) (Some (length F)) of
                   Inl e \<Rightarrow> Some (Err e, src)
                 | Inr fb \<Rightarrow>
                     (case insert_block i fb c of
                        (final_block, cache') \<Rightarrow>
                          if o' > length final_block then None
                          else Some (Ok (take (min (length final_block - o') a) (drop o' final_block)),
                                     src\<lparr> src_cache := cache' \<rparr>))))"
    unfolding read_range_into_def Let_def tot a_def c_def bs_def i_def o'_def by (simp only: False if_False)
  consider (complete) bs' where "copy_from_complete c off a = Some bs'"
    | (cached) block where "copy_from_complete c off a = None" "a \<le> bs - o'" "bc_blocks c i = Some block" "o' < length block"
    | (across) "copy_from_complete c off a = None" "a > bs - o'"
    | (fill) "copy_from_complete c off a = None" "a \<le> bs - o'"
        "\<not> (case bc_blocks c i of Some block \<Rightarrow> o' < length block | None \<Rightarrow> False)"
    by (cases "copy_from_complete c off a"; cases "bc_blocks c i") force+
  then show ?thesis
  proof cases
    case complete
    then show ?thesis using copy_from_complete_Some [OF ci complete] a(2) inv by (simp add: unf)
  next
    case cached
    have block: "block = take bs (drop (i * bs) F)" using ci cached(3) by (simp add: cache_inv_def bs_def)
    have len: "length block - o' \<ge> a"
      using cached(2) k by (auto simp: block a_def o'_def min_def)
    have "take a (drop o' block) = take a (drop off F)"
      unfolding block o'_def by (rule block_slice) (use k cached(2) in \<open>auto simp: o'_def\<close>)
    then show ?thesis using cached len a(2) inv by (simp add: unf min_absorb2)
  next
    case across
    show ?thesis
    proof (cases "fetch off (off + a - 1) (Some (length F))")
      case (Inl e)
      then show ?thesis using across inv by (auto simp: unf)
    next
      case (Inr b)
      have "off + a - 1 - off + 1 = a" using a(1) by simp
      then have "b = take a (drop off F)" using servesD [OF fetch Inr] by simp
      moreover have "length (take a (drop off F)) = a" by (simp add: a_def)
      ultimately show ?thesis using across Inr a(2) inv by (simp add: unf)
    qed
  next
    case fill
    show ?thesis
    proof (cases "fetch (i * bs) (min (i * bs + bs) (length F) - 1) (Some (length F))")
      case (Inl e)
      then show ?thesis using fill inv by (auto simp: unf)
    next
      case (Inr b)
      have "b = take (min (i * bs + bs) (length F) - 1 - i * bs + 1) (drop (i * bs) F)"
        using servesD [OF fetch Inr] by simp
      also have "min (i * bs + bs) (length F) - 1 - i * bs + 1 = min bs (length F - i * bs)"
        using bs k False by (auto simp: min_def)
      finally have b: "b = take bs (drop (i * bs) F)" by (simp add: min_def)
      obtain c' where c': "insert_block i b c = (b, c')" "cache_inv F c'"
        using insert_block_inv [OF ci, of b i] b by (auto simp: bs_def)
      have len: "length b - o' \<ge> a"
        using fill(2) k by (auto simp: b a_def o'_def min_def)
      have "take a (drop o' b) = take a (drop off F)"
        unfolding b o'_def by (rule block_slice) (use k fill(2) in \<open>auto simp: o'_def\<close>)
      moreover have "source_inv F (src\<lparr> src_cache := c' \<rparr>)" using c'(2) tot by (simp add: source_inv_def)
      ultimately show ?thesis using fill Inr c'(1) len a by (auto simp: unf min_absorb2)
    qed
  qed
qed

section \<open>Servers\<close>

text \<open>
  What is asked of a server: \<open>server s e n\<close> answers the \<open>n\<close>-th request for the bytes \<open>s\<close> to \<open>e\<close>.
  It may fail, refuse, or break a body off; but a partial response names the file's size, and a
  body of the announced length is those bytes of the file, and a full response is the whole file.
\<close>

definition honest_response :: "bytes \<Rightarrow> http_response \<Rightarrow> bool" where
  "honest_response F r \<longleftrightarrow>
     (rs_status r = 206 \<longrightarrow>
        (\<forall>s e t b. Option.bind (rs_content_range r) parse_content_range = Some (s, e, t) \<longrightarrow> rs_body r = Ok b \<longrightarrow>
           t = length F \<and> (length b = e - s + 1 \<longrightarrow> b = take (e - s + 1) (drop s F)))) \<and>
     (rs_status r = 200 \<longrightarrow> (\<forall>b. rs_body r = Ok b \<longrightarrow> b = F))"

definition honest_server :: "bytes \<Rightarrow> (nat \<Rightarrow> nat \<Rightarrow> nat \<Rightarrow> http_error + http_response) \<Rightarrow> bool" where
  "honest_server F server \<longleftrightarrow> (\<forall>s e n r. server s e n = Ok r \<longrightarrow> honest_response F r)"

lemma parse_content_range_bounds: "parse_content_range v = Some (s, e, t) \<Longrightarrow> s \<le> e \<and> e < t"
  by (auto simp: parse_content_range_def bind_eq_Some_conv split: if_splits)

lemma execute_request_from_Ok:
  "execute_request_from n mk = (Ok r, ps) \<Longrightarrow> \<exists>k. mk k = Ok r"
proof (induction n mk arbitrary: ps rule: execute_request_from.induct)
  case (1 n mk)
  show ?case
    using 1 by (subst (asm) (2) execute_request_from.simps) (auto split: sum.splits if_splits prod.splits)
qed

lemma execute_request_Ok: "fst (execute_request mk) = Ok r \<Longrightarrow> \<exists>k. mk k = Ok r"
  unfolding execute_request_def using execute_request_from_Ok by (metis eq_fst_iff)

lemma validate_headers_Ok:
  "validate_range_response_headers st cr s e t = Ok n \<Longrightarrow> st = 206 \<and> Option.bind cr parse_content_range = Some (s, e, n)"
  by (auto simp: validate_range_response_headers_def split: if_splits option.splits)

lemma validate_response_Ok:
  "validate_range_response st cr s e t len = Ok n \<Longrightarrow>
    st = 206 \<and> Option.bind cr parse_content_range = Some (s, e, n) \<and> len = e - s + 1"
  by (auto simp: validate_range_response_def dest: validate_headers_Ok split: if_splits)

lemma take_Suc_same: "take (Suc (length ys)) xs = ys \<Longrightarrow> xs = ys"
proof -
  assume eq: "take (Suc (length ys)) xs = ys"
  then have "length (take (Suc (length ys)) xs) = length ys" by simp
  then have "length xs \<le> length ys" by (simp split: if_splits)
  then show ?thesis using eq by simp
qed

lemma read_body_Ok:
  "read_body (Some (n + 1)) r = Ok buf \<Longrightarrow> length buf = n \<Longrightarrow> rs_body r = Ok buf"
  by (auto simp: read_body_def dest: take_Suc_same split: sum.splits)

lemma honest_slice:
  assumes "honest_response F r" "validate_range_response (rs_status r) (rs_content_range r) s e t (length buf) = Ok n"
    and "rs_body r = Ok buf"
  shows "n = length F \<and> s \<le> e \<and> e < length F \<and> buf = take (e - s + 1) (drop s F)"
proof -
  have v: "rs_status r = 206" "Option.bind (rs_content_range r) parse_content_range = Some (s, e, n)" "length buf = e - s + 1"
    using validate_response_Ok [OF assms(2)] by auto
  have "n = length F \<and> (length buf = e - s + 1 \<longrightarrow> buf = take (e - s + 1) (drop s F))"
    using assms(1) v(1,2) assms(3) unfolding honest_response_def by blast
  moreover have "s \<le> e \<and> e < n"
    using v(2) parse_content_range_bounds by (auto simp: bind_eq_Some_conv)
  ultimately show ?thesis using v(3) by blast
qed

lemma http_fetch_serves:
  assumes "honest_server F server"
  shows "serves F (\<lambda>s e. http_fetch_range (server s e) s e)"
proof (rule servesI)
  fix s e t b
  assume "http_fetch_range (server s e) s e t = Ok b"
  then obtain resp n where r: "fst (execute_request (server s e)) = Ok resp"
      "read_body (Some (e - s + 1 + 1)) resp = Ok b"
      "validate_range_response (rs_status resp) (rs_content_range resp) s e t (length b) = Ok n"
    by (auto simp: http_fetch_range_def Let_def split: if_splits)
  have "honest_response F resp"
    using execute_request_Ok [OF r(1)] assms by (auto simp: honest_server_def)
  moreover have "rs_body resp = Ok b"
    using read_body_Ok [OF r(2)] validate_response_Ok [OF r(3)] by simp
  ultimately show "s \<le> e \<and> e < length F \<and> b = take (e - s + 1) (drop s F)"
    using honest_slice [OF _ r(3)] by blast
qed

lemma probe_partial_inv:
  assumes "honest_response F resp" "probe_partial DEFAULT_BLOCK_SIZE resp = Ok (ProbePartial buf n)"
  shows "n = length F \<and> buf = take DEFAULT_BLOCK_SIZE F"
proof -
  obtain a b tot where p: "Option.bind (rs_content_range resp) parse_content_range = Some (a, b, tot)"
      "read_body (Some (DEFAULT_BLOCK_SIZE + 1)) resp = Ok buf"
      "validate_range_response (rs_status resp) (rs_content_range resp) 0 (min (DEFAULT_BLOCK_SIZE - 1) (tot - 1)) None (length buf) = Ok n"
    using assms(2) by (auto simp: probe_partial_def Let_def split: option.splits)
  have len: "length buf = min (DEFAULT_BLOCK_SIZE - 1) (tot - 1) + 1" "tot = n"
    using validate_response_Ok [OF p(3)] p(1) by auto
  have "rs_body resp = Ok buf"
    using p(2) len(1) by (auto simp: read_body_def min_def DEFAULT_BLOCK_SIZE_def split: sum.splits if_splits)
  from honest_slice [OF assms(1) p(3) this]
  show ?thesis using len by (auto simp: DEFAULT_BLOCK_SIZE_def min_def split: if_splits)
qed

lemma from_transport_inv:
  assumes "honest_server F server" "from_transport (\<lambda>n. http_probe (server 0 (n - 1)) n) = Ok src"
  shows "source_inv F src"
proof -
  obtain resp r where r: "fst (execute_request (server 0 (DEFAULT_BLOCK_SIZE - 1))) = Ok resp"
      "(if rs_status resp = 206 then probe_partial DEFAULT_BLOCK_SIZE resp
        else if rs_status resp = 200 then probe_complete resp else Err (InvalidParameter ''Unexpected HTTP status'')) = Ok r"
      "src = (case r of
        ProbeComplete data n \<Rightarrow> \<lparr> src_total_size = n, src_cache = new_with_complete data DEFAULT_BLOCK_SIZE \<rparr>
      | ProbePartial data n \<Rightarrow> \<lparr> src_total_size = n, src_cache = new_with_initial_block data DEFAULT_BLOCK_SIZE \<rparr>)"
    using assms(2) by (auto simp: from_transport_def http_probe_def)
  have h: "honest_response F resp"
    using execute_request_Ok [OF r(1)] assms(1) by (auto simp: honest_server_def)
  show ?thesis
  proof (cases r)
    case (ProbeComplete d n)
    then have "probe_complete resp = Ok (ProbeComplete d n)" "rs_status resp = 200"
      using r(2) by (auto simp: probe_partial_def Let_def split: if_splits option.splits)
    then have "d = F" "n = length d"
      using h by (auto simp: probe_complete_def honest_response_def read_body_def Let_def split: if_splits sum.splits)
    then show ?thesis using r(3) ProbeComplete
      by (simp add: source_inv_def cache_inv_def new_with_complete_def DEFAULT_BLOCK_SIZE_def)
  next
    case (ProbePartial d n)
    then have "probe_partial DEFAULT_BLOCK_SIZE resp = Ok (ProbePartial d n)"
      using r(2) by (auto simp: probe_complete_def Let_def split: if_splits)
    from probe_partial_inv [OF h this] show ?thesis using r(3) ProbePartial
      by (simp add: source_inv_def cache_inv_def new_with_initial_block_def DEFAULT_BLOCK_SIZE_def)
  qed
qed

section \<open>Histories of reads\<close>

text \<open>The results of a sequence of reads, each an offset and a length, with the cache carried along.\<close>

fun read_history :: "transport \<Rightarrow> (nat \<times> nat) list \<Rightarrow> remote_source \<Rightarrow> (rh3_error + bytes) list option" where
  "read_history fetch [] src = Some []"
| "read_history fetch ((off, n) # reads) src =
     Option.bind (read_range_into fetch off n src)
       (\<lambda>(r, src'). map_option (\<lambda>rs. r # rs) (read_history fetch reads src'))"

text \<open>The file's bytes, or the error of a request the transport failed.\<close>

definition read_ok :: "transport \<Rightarrow> bytes \<Rightarrow> nat \<times> nat \<Rightarrow> rh3_error + bytes \<Rightarrow> bool" where
  "read_ok fetch F rd r \<longleftrightarrow>
     (case r of
        Inl e \<Rightarrow> (\<exists>s t. fetch s t (Some (length F)) = Err e)
      | Inr bs \<Rightarrow> bs = take (snd rd) (drop (fst rd) F))"

lemma read_history_ok:
  assumes "source_inv F src" "serves F fetch"
  shows "\<exists>rs. read_history fetch reads src = Some rs \<and> list_all2 (read_ok fetch F) reads rs"
  using assms(1)
proof (induction reads arbitrary: src)
  case (Cons rd reads)
  obtain off n where rd: "rd = (off, n)" by (cases rd)
  obtain r src' where r: "read_range_into fetch off n src = Some (r, src')" "source_inv F src'"
      "r = Ok (take n (drop off F)) \<or> (\<exists>e s t. r = Err e \<and> fetch s t (Some (length F)) = Err e)"
    using read_range_into_ok [OF Cons.prems assms(2), of off n] by blast
  obtain rs where "read_history fetch reads src' = Some rs" "list_all2 (read_ok fetch F) reads rs"
    using Cons.IH [OF r(2)] by blast
  moreover have "read_ok fetch F rd r" 
    using r(3) unfolding rd read_ok_def by (elim disjE exE conjE) (simp, simp, blast)
  ultimately show ?case using r(1) by (simp add: rd)
qed simp

section \<open>Properties\<close>


text \<open>A server that answers every request with the three bytes of its file.\<close>

definition sample_response :: http_response where
  "sample_response = \<lparr> rs_status = 206, rs_content_range = Some (lit ''bytes 0-2/3''), rs_content_length = None,
     rs_body = Ok [7, 8, 9] \<rparr>"

lemma sample_content_range: "parse_content_range (lit ''bytes 0-2/3'') = Some (0, 2, 3)"
  by (simp add: parse_content_range_def strip_prefix_def split_once_def parse_u64_def parse_unsigned_def digit_val_def
      u64_max_def trim_def is_whitespace_def lit_def starts_with_def)

lemma sample_honest: "honest_server [7, 8, 9] (\<lambda>_ _ _. Ok sample_response)"
  by (simp add: honest_server_def honest_response_def sample_response_def sample_content_range)

lemma sample_source:
  "from_transport (\<lambda>n. http_probe (\<lambda>_. Ok sample_response) n) =
     Ok \<lparr> src_total_size = 3, src_cache = new_with_initial_block [7, 8, 9] DEFAULT_BLOCK_SIZE \<rparr>"
  by (simp add: from_transport_def http_probe_def execute_request_def execute_request_from.simps probe_partial_def
      sample_response_def sample_content_range validate_range_response_headers_def validate_range_response_def
      read_body_def DEFAULT_BLOCK_SIZE_def)


lemma execute_request_from_spec:
  "execute_request_from n mk = (r, ps) \<Longrightarrow> n \<le> max_retries \<Longrightarrow>
    length ps \<le> max_retries - n \<and>
    (\<forall>i<length ps. \<exists>e. mk (n + i) = Err e \<and> is_transient_error e) \<and>
    r = map_sum request_error (\<lambda>x. x) (mk (n + length ps)) \<and>
    (\<forall>e. mk (n + length ps) = Err e \<longrightarrow> n + length ps = max_retries \<or> \<not> is_transient_error e) \<and>
    (\<forall>p\<in>set ps. p \<le> 2000)"
proof (induction n mk arbitrary: r ps rule: execute_request_from.induct)
  case (1 n mk)
  show ?case
  proof (cases "mk n")
    case (Inr resp)
    then show ?thesis using "1.prems"(1) by (subst (asm) execute_request_from.simps) auto
  next
    case (Inl e)
    show ?thesis
    proof (cases "n \<ge> max_retries \<or> \<not> is_transient_error e")
      case True
      then show ?thesis using "1.prems" Inl by (subst (asm) execute_request_from.simps) auto
    next
      case False
      then obtain ps' where ps': "execute_request_from (n + 1) mk = (r, ps')" "ps = backoff_ms n # ps'"
        using "1.prems"(1) Inl by (subst (asm) execute_request_from.simps) (auto split: prod.splits)
      have IH: "length ps' \<le> max_retries - (n + 1)"
        "\<forall>i<length ps'. \<exists>e. mk (n + 1 + i) = Err e \<and> is_transient_error e"
        "r = map_sum request_error (\<lambda>x. x) (mk (n + 1 + length ps'))"
        "\<forall>e. mk (n + 1 + length ps') = Err e \<longrightarrow> n + 1 + length ps' = max_retries \<or> \<not> is_transient_error e"
        "\<forall>p\<in>set ps'. p \<le> 2000"
        using "1.IH" [OF Inl False ps'(1)] False by auto
      have "\<exists>e. mk (n + i) = Err e \<and> is_transient_error e" if "i < length ps" for i
      proof (cases i)
        case 0
        then show ?thesis using Inl False by simp
      next
        case (Suc j)
        then show ?thesis using IH(2) that ps'(2) by force
      qed
      then show ?thesis using IH False ps'(2) by (auto simp: backoff_ms_def)
    qed
  qed
qed

text \<open>
  A request is repeated only after transient failures, at most four times, with pauses of at
  most two seconds, and the outcome is the first answer that is not a transient failure, or the
  fifth failure.
\<close>

theorem execute_request_retries:
  assumes "execute_request make_request = (r, pauses)"
  shows "length pauses \<le> 4 \<and>
    (\<forall>i<length pauses. \<exists>e. make_request i = Err e \<and> is_transient_error e) \<and>
    r = map_sum request_error (\<lambda>x. x) (make_request (length pauses)) \<and>
    (\<forall>e. make_request (length pauses) = Err e \<longrightarrow> length pauses = 4 \<or> \<not> is_transient_error e) \<and>
    (\<forall>p\<in>set pauses. p \<le> 2000)"
  using execute_request_from_spec [of 0 make_request r pauses] assms
  by (simp add: execute_request_def max_retries_def)

definition sample_flaky :: "nat \<Rightarrow> http_error + http_response" where
  "sample_flaky n = (if n < 2 then Err (HttpStatus 503) else Ok sample_response)"

theorem execute_request_retries_witness:
  "execute_request sample_flaky = (Ok sample_response, [100, 237]) \<and> length [100 :: nat, 237] \<le> 4"
proof -
  have "execute_request sample_flaky = (Ok sample_response, [100, 237])"
    by (simp add: execute_request_def execute_request_from.simps sample_flaky_def is_transient_error_def
        max_retries_def backoff_ms_def)
  with execute_request_retries [OF this] show ?thesis by simp
qed

end
