(* ===== verification/Wkb_Reader.thy ===== *)
theory Wkb_Reader
  imports Byte_Codec
begin

text \<open>
  The reader of Well-Known Binary polygons (\<open>encoding/wkb_reader.rs\<close>): OGC, ISO and EWKB headers
  in either byte order, rings, polygons and multi-polygons. The cursor is the unread input. The
  geometry crate's \<open>Polygon::new\<close> (it closes rings) is a parameter.
\<close>

type_synonym 'a wkb_p = "(string, 'a) reader"
type_synonym coord = "f64 \<times> f64"
type_synonym ring = "coord list"
type_synonym 'p polygon_new = "ring \<Rightarrow> ring list \<Rightarrow> 'p"

section \<open>The cursor\<close>

definition WKB_POLYGON :: u32 where "WKB_POLYGON = 3"
definition WKB_MULTIPOLYGON :: u32 where "WKB_MULTIPOLYGON = 6"
definition EWKB_Z_FLAG :: u32 where "EWKB_Z_FLAG = 0x80000000"
definition EWKB_M_FLAG :: u32 where "EWKB_M_FLAG = 0x40000000"
definition EWKB_SRID_FLAG :: u32 where "EWKB_SRID_FLAG = 0x20000000"

definition cur_take :: "nat \<Rightarrow> bytes wkb_p" where
  "cur_take n = take_p ''truncated WKB'' n"

definition cur_u8 :: "u8 wkb_p" where
  "cur_u8 = bind_p (cur_take 1) (\<lambda>b. return_p (b ! 0))"

definition cur_u32 :: "bool \<Rightarrow> u32 wkb_p" where
  "cur_u32 little = bind_p (cur_take 4) (\<lambda>b. return_p (if little then from_le_bytes b else from_be_bytes b))"

definition cur_f64 :: "bool \<Rightarrow> f64 wkb_p" where
  "cur_f64 little = bind_p (cur_take 8) (\<lambda>b. return_p (if little then from_le_bytes b else from_be_bytes b))"

text \<open>The guard \<open>if need > cur.remaining()\<close>.\<close>

definition check_remaining :: "nat \<Rightarrow> unit wkb_p" where
  "check_remaining need s = (if need > length s then Err ''truncated WKB'' else Ok ((), s))"

section \<open>Geometries\<close>

record wkb_header =
  wh_little :: bool
  wh_base_type :: u32
  wh_dims :: nat

definition iso_dims :: "nat \<Rightarrow> string + nat" where
  "iso_dims thousands =
     (if thousands = 0 then Ok 0
      else if thousands = 1 \<or> thousands = 2 then Ok 1
      else if thousands = 3 then Ok 2
      else Err ''unsupported WKB geometry type'')"

definition lift_str :: "string + 'a \<Rightarrow> 'a wkb_p" where
  "lift_str r = (case r of Inl e \<Rightarrow> fail_p e | Inr x \<Rightarrow> return_p x)"

definition read_wkb_header :: "wkb_header wkb_p" where
  "read_wkb_header =
     bind_p cur_u8 (\<lambda>order.
     bind_p (if order = 0 then return_p False else if order = 1 then return_p True
             else fail_p ''invalid WKB byte order marker'') (\<lambda>little.
     bind_p (cur_u32 little) (\<lambda>raw.
     bind_p (if raw AND EWKB_SRID_FLAG \<noteq> 0 then bind_p (cur_u32 little) (\<lambda>_. return_p ()) else return_p ()) (\<lambda>_.
     let iso = raw AND 0x0FFFFFFF in
     bind_p (lift_str (iso_dims (unat iso div 1000))) (\<lambda>more.
     return_p \<lparr> wh_little = little, wh_base_type = word_of_nat (unat iso mod 1000),
       wh_dims = 2 + (if raw AND EWKB_Z_FLAG \<noteq> 0 then 1 else 0) + (if raw AND EWKB_M_FLAG \<noteq> 0 then 1 else 0) + more \<rparr>)))))"

definition read_coord :: "wkb_header \<Rightarrow> coord wkb_p" where
  "read_coord h =
     bind_p (cur_f64 (wh_little h)) (\<lambda>x.
     bind_p (cur_f64 (wh_little h)) (\<lambda>y.
     bind_p (replicate_p (wh_dims h - 2) (cur_f64 (wh_little h))) (\<lambda>_. return_p (x, y))))"

definition read_ring :: "wkb_header \<Rightarrow> ring wkb_p" where
  "read_ring h =
     bind_p (cur_u32 (wh_little h)) (\<lambda>n.
     bind_p (check_remaining (saturating_mul (unat n) (8 * wh_dims h))) (\<lambda>_.
     replicate_p (unat n) (read_coord h)))"

definition assemble_polygon :: "'p polygon_new \<Rightarrow> ring list \<Rightarrow> string + 'p option" where
  "assemble_polygon polygon_new rings =
     (case rings of
        [] \<Rightarrow> Ok None
      | exterior # interiors \<Rightarrow>
          (if exterior = []
           then (if list_ex (\<lambda>r. r \<noteq> []) interiors
                 then Err ''polygon has interior rings but an empty exterior ring'' else Ok None)
           else Ok (Some (polygon_new exterior (filter (\<lambda>r. r \<noteq> []) interiors)))))"

definition read_polygon_body :: "'p polygon_new \<Rightarrow> wkb_header \<Rightarrow> 'p option wkb_p" where
  "read_polygon_body polygon_new h =
     bind_p (cur_u32 (wh_little h)) (\<lambda>n_rings.
     bind_p (check_remaining (saturating_mul (unat n_rings) 4)) (\<lambda>_.
     bind_p (replicate_p (unat n_rings) (read_ring h)) (\<lambda>rings.
     lift_str (assemble_polygon polygon_new rings))))"

definition read_member :: "'p polygon_new \<Rightarrow> 'p option wkb_p" where
  "read_member polygon_new =
     bind_p read_wkb_header (\<lambda>inner.
       if wh_base_type inner \<noteq> WKB_POLYGON then fail_p ''MULTIPOLYGON member is not a POLYGON''
       else read_polygon_body polygon_new inner)"

definition read_geometry :: "'p polygon_new \<Rightarrow> 'p list wkb_p" where
  "read_geometry polygon_new =
     bind_p read_wkb_header (\<lambda>h.
       if wh_base_type h = WKB_POLYGON
       then bind_p (read_polygon_body polygon_new h) (\<lambda>p. return_p (case p of None \<Rightarrow> [] | Some p \<Rightarrow> [p]))
       else if wh_base_type h = WKB_MULTIPOLYGON
       then bind_p (cur_u32 (wh_little h)) (\<lambda>n.
            bind_p (check_remaining (saturating_mul (unat n) 9)) (\<lambda>_.
            bind_p (replicate_p (unat n) (read_member polygon_new)) (\<lambda>ps.
            return_p (List.map_filter (\<lambda>p. p) ps))))
       else fail_p ''expected a WKB POLYGON or MULTIPOLYGON'')"

definition wkb_to_multipolygon :: "'p polygon_new \<Rightarrow> bytes \<Rightarrow> string + 'p list" where
  "wkb_to_multipolygon polygon_new bs =
     (case read_geometry polygon_new bs of
        Inl e \<Rightarrow> Err e
      | Inr (polygons, rest) \<Rightarrow>
          if rest \<noteq> [] then Err ''trailing bytes after WKB geometry'' else Ok polygons)"

section \<open>The reader streams\<close>

lemma streaming_check [streaming_intros]: "streaming (check_remaining n)"
  by (auto simp: streaming_def check_remaining_def split: if_splits)

lemma streaming_lift_str [streaming_intros]: "streaming (lift_str r)"
  by (cases r) (simp_all add: lift_str_def streaming_intros)

lemma streaming_cond [streaming_intros]: "streaming p \<Longrightarrow> streaming q \<Longrightarrow> streaming (if b then p else q)"
  by simp

lemma streaming_cur [streaming_intros]:
  "streaming (cur_take n)" "streaming cur_u8" "streaming (cur_u32 l)" "streaming (cur_f64 l)"
  unfolding cur_take_def cur_u8_def cur_u32_def cur_f64_def by (intro streaming_intros)+

lemma streaming_header [streaming_intros]: "streaming read_wkb_header"
  unfolding read_wkb_header_def Let_def by (intro streaming_intros)

lemma streaming_body [streaming_intros]: "streaming (read_polygon_body polygon_new h)"
  unfolding read_polygon_body_def read_ring_def read_coord_def by (intro streaming_intros)

lemma streaming_geometry: "streaming (read_geometry polygon_new)"
  unfolding read_geometry_def read_member_def by (intro streaming_intros)

section \<open>The guards do not reject\<close>

text \<open>
  The early size check refuses nothing the loop after it would have accepted: a ring of \<open>n\<close>
  points consumes exactly the bytes the check asks for.
\<close>

lemma cur_f64_length: "cur_f64 l s = Ok (x, r) \<Longrightarrow> length s = 8 + length r"
  by (auto simp: cur_f64_def cur_take_def bind_p_Ok_iff return_p_def)

lemma replicate_length:
  assumes "\<And>s x r. p s = Ok (x, r) \<Longrightarrow> length s = k + length r"
  shows "replicate_p n p s = Ok (xs, r) \<Longrightarrow> length s = n * k + length r"
proof (induction n arbitrary: s xs)
  case (Suc n)
  then obtain x s' ys where "p s = Ok (x, s')" "replicate_p n p s' = Ok (ys, r)"
    by (auto simp: replicate_p_Suc_Ok simp del: replicate_p.simps)
  then show ?case using assms Suc.IH by fastforce
qed simp

lemma read_coord_length: "2 \<le> wh_dims h \<Longrightarrow> read_coord h s = Ok (c, r) \<Longrightarrow> length s = 8 * wh_dims h + length r"
proof -
  assume d: "2 \<le> wh_dims h" and c: "read_coord h s = Ok (c, r)"
  obtain x s1 y s2 zs where s: "cur_f64 (wh_little h) s = Ok (x, s1)" "cur_f64 (wh_little h) s1 = Ok (y, s2)"
      "replicate_p (wh_dims h - 2) (cur_f64 (wh_little h)) s2 = Ok (zs, r)"
    using c by (auto simp: read_coord_def bind_p_Ok_iff return_p_def)
  have "length s2 = (wh_dims h - 2) * 8 + length r"
    using replicate_length [OF cur_f64_length s(3)] .
  then show ?thesis using cur_f64_length [OF s(1)] cur_f64_length [OF s(2)] d by simp
qed

section \<open>Prefixes and trailing bytes\<close>

lemma wkb_to_multipolygon_Ok:
  "wkb_to_multipolygon pn bs = Ok ps \<longleftrightarrow> read_geometry pn bs = Ok (ps, [])"
  by (auto simp: wkb_to_multipolygon_def split: sum.splits)

text \<open>
  A geometry that is accepted is accepted exactly: whatever bytes follow it, in whichever
  byte order and with whichever dimensions it was written, make the reader refuse the input as
  having trailing bytes. So no accepted geometry is a proper prefix of another one.
\<close>

theorem wkb_prefix_free:
  assumes "wkb_to_multipolygon polygon_new p = Ok polygons" and "q \<noteq> []"
  shows "wkb_to_multipolygon polygon_new (p @ q) = Err ''trailing bytes after WKB geometry''"
proof -
  have "read_geometry polygon_new (p @ q) = Ok (polygons, [] @ q)"
    using assms(1) streamingD [OF streaming_geometry, of polygon_new p polygons "[]" q] by (simp add: wkb_to_multipolygon_Ok)
  then show ?thesis using assms(2) by (simp add: wkb_to_multipolygon_def)
qed

theorem wkb_prefix_free_witness:
  "wkb_to_multipolygon Pair [1, 3, 0, 0, 0, 0, 0, 0, 0] = Ok [] \<and>
   wkb_to_multipolygon Pair ([1, 3, 0, 0, 0, 0, 0, 0, 0] @ [7]) = Err ''trailing bytes after WKB geometry''"
proof -
  have a: "wkb_to_multipolygon Pair [1, 3, 0, 0, 0, 0, 0, 0, 0] = Ok []"
    by (simp add: wkb_to_multipolygon_def read_geometry_def read_wkb_header_def read_polygon_body_def
      cur_u8_def cur_u32_def cur_take_def check_remaining_def lift_str_def iso_dims_def assemble_polygon_def
      EWKB_SRID_FLAG_def EWKB_Z_FLAG_def EWKB_M_FLAG_def WKB_POLYGON_def saturating_mul_def reader_simps
      Let_def)
  show ?thesis using a wkb_prefix_free [OF a, of "[7]"] by simp
qed

end
