(* ===== verification/Wkb.thy ===== *)
theory Wkb
  imports Wkb_Reader Float64
begin

text \<open>
  The Well-Known Binary writer for H3 cells (\<open>encoding/wkb.rs\<close>): rings, the writer over a buffer of
  fixed capacity, the clipping at the antimeridian, the polar caps, and the bounding box of a written
  geometry. A cell's boundary (longitude and latitude of each vertex) and the two pole cells of its
  resolution come from the H3 library and are parameters. A point and an array are their contents up
  to the code's \<open>len\<close> or \<open>pos\<close>; writing past the capacity panics, which is \<open>None\<close>.
\<close>

section \<open>Rings\<close>

definition MAX_CELL_VERTICES :: nat where "MAX_CELL_VERTICES = 10"
definition MAX_RING_POINTS :: nat where "MAX_RING_POINTS = 2 * MAX_CELL_VERTICES + 3"

definition polygon_bytes :: "nat \<Rightarrow> nat" where
  "polygon_bytes points = 1 + 4 + 4 + 4 + 16 * points"

definition WKB_BUF_LEN :: nat where
  "WKB_BUF_LEN = 1 + 4 + 4 + 2 * polygon_bytes MAX_RING_POINTS"

definition pt_eq :: "coord \<Rightarrow> coord \<Rightarrow> bool" where
  "pt_eq p q \<longleftrightarrow> f64_eq (fst p) (fst q) \<and> f64_eq (snd p) (snd q)"

definition ring_push :: "coord \<Rightarrow> ring \<Rightarrow> ring option" where
  "ring_push p r =
     (if length r > 0 \<and> pt_eq (r ! (length r - 1)) p then Some r
      else if length r < MAX_RING_POINTS then Some (r @ [p]) else None)"

definition ring_points :: "ring \<Rightarrow> coord list" where
  "ring_points r = (if length r > 1 \<and> pt_eq (hd r) (last r) then take (length r - 1) r else r)"

definition ring_is_area :: "ring \<Rightarrow> bool" where
  "ring_is_area r \<longleftrightarrow> length (ring_points r) \<ge> 3"

section \<open>The writer\<close>

type_synonym wkb_writer = bytes

definition put :: "bytes \<Rightarrow> wkb_writer \<Rightarrow> wkb_writer option" where
  "put bs w = (if length w + length bs \<le> WKB_BUF_LEN then Some (w @ bs) else None)"

definition put_header :: "u32 \<Rightarrow> u32 \<Rightarrow> wkb_writer \<Rightarrow> wkb_writer option" where
  "put_header geometry_type n w =
     Option.bind (put [1] w) (\<lambda>w.
     Option.bind (put (to_le_bytes geometry_type) w)
       (put (to_le_bytes n)))"

definition put_point :: "coord \<Rightarrow> wkb_writer \<Rightarrow> wkb_writer option" where
  "put_point p w = Option.bind (put (to_le_bytes (fst p)) w) (put (to_le_bytes (snd p)))"

definition put_polygon :: "ring \<Rightarrow> wkb_writer \<Rightarrow> wkb_writer option" where
  "put_polygon r w =
     (let pts = ring_points r in
      Option.bind (put_header WKB_POLYGON 1 w) (\<lambda>w.
      Option.bind (put (to_le_bytes (word_of_nat (length pts + 1) :: u32)) w) (\<lambda>w.
      if pts = [] then None else fold_opt put_point (pts @ take 1 pts) w)))"

section \<open>Clipping at the antimeridian\<close>

definition f64_180 :: f64 where "f64_180 = 0x4066800000000000"
definition f64_neg_180 :: f64 where "f64_neg_180 = 0xC066800000000000"
definition f64_360 :: f64 where "f64_360 = 0x4076800000000000"
definition f64_90 :: f64 where "f64_90 = 0x4056800000000000"
definition f64_neg_90 :: f64 where "f64_neg_90 = 0xC056800000000000"

definition clip_inside :: "bool \<Rightarrow> coord \<Rightarrow> bool" where
  "clip_inside keep_east p = (if keep_east then f64_le f64_180 (fst p) else f64_le (fst p) f64_180)"

definition crossing :: "coord \<Rightarrow> coord \<Rightarrow> coord" where
  "crossing a b =
     (let t = f64_div (f64_sub f64_180 (fst a)) (f64_sub (fst b) (fst a))
      in (f64_180, f64_add (snd a) (f64_mul t (f64_sub (snd b) (snd a)))))"

definition clip_step :: "bool \<Rightarrow> coord \<Rightarrow> coord \<Rightarrow> ring \<Rightarrow> ring option" where
  "clip_step keep_east prev cur out =
     (case (clip_inside keep_east prev, clip_inside keep_east cur) of
        (True, True) \<Rightarrow> ring_push cur out
      | (True, False) \<Rightarrow> ring_push (crossing prev cur) out
      | (False, True) \<Rightarrow> Option.bind (ring_push (crossing prev cur) out) (ring_push cur)
      | (False, False) \<Rightarrow> Some out)"

definition clip_at_180 :: "coord list \<Rightarrow> bool \<Rightarrow> ring option" where
  "clip_at_180 r keep_east =
     fold_opt (\<lambda>i. clip_step keep_east (r ! ((i + length r - 1) mod length r)) (r ! i)) [0..<length r] []"

section \<open>Polar caps\<close>

definition wrap_lng :: "f64 \<Rightarrow> f64" where
  "wrap_lng d = (if f64_lt f64_180 d then f64_sub d f64_360
                 else if f64_le d f64_neg_180 then f64_add d f64_360 else d)"

definition lng_turn :: "f64 list \<Rightarrow> f64" where
  "lng_turn lngs =
     (let n = length lngs in
      foldl f64_add 0 (map (\<lambda>i. wrap_lng (f64_sub (lngs ! ((i + 1) mod n)) (lngs ! i))) [0..<n]))"

definition wkb_cap_order :: "f64 list \<Rightarrow> nat \<Rightarrow> nat" where
  "wkb_cap_order lngs i = (if f64_le 0 (lng_turn lngs) then i else length lngs - 1 - i)"

text \<open>The position, in eastward order, where the edge over the antimeridian starts.\<close>

definition cap_start :: "f64 list \<Rightarrow> nat" where
  "cap_start lngs =
     (let n = length lngs; order = wkb_cap_order lngs
      in case find (\<lambda>i. let a = lngs ! order i in
             f64_lt f64_180 (f64_add a (wrap_lng (f64_sub (lngs ! order ((i + 1) mod n)) a)))) [0..<n] of
           Some i \<Rightarrow> i
         | None \<Rightarrow> n - 1)"

definition cap_vertex :: "f64 list \<Rightarrow> f64 list \<Rightarrow> nat \<Rightarrow> nat \<Rightarrow> coord" where
  "cap_vertex lngs lats k step =
     (let n = length lngs; i = wkb_cap_order lngs ((k + step) mod n); l = lngs ! i
      in (if step = 1 \<and> f64_eq l f64_180 then f64_neg_180
          else if step = n \<and> f64_eq l f64_neg_180 then f64_180 else l, lats ! i))"

definition cap_cross_lat :: "f64 list \<Rightarrow> f64 list \<Rightarrow> nat \<Rightarrow> f64" where
  "cap_cross_lat lngs lats k =
     (let n = length lngs;
          a = wkb_cap_order lngs k; b = wkb_cap_order lngs ((k + 1) mod n);
          b_lng = f64_add (lngs ! a) (wrap_lng (f64_sub (lngs ! b) (lngs ! a)));
          t = f64_div (f64_sub f64_180 (lngs ! a)) (f64_sub b_lng (lngs ! a))
      in f64_add (lats ! a) (f64_mul t (f64_sub (lats ! b) (lats ! a))))"

definition wkb_polar_cap :: "f64 list \<Rightarrow> f64 list \<Rightarrow> bool \<Rightarrow> ring option" where
  "wkb_polar_cap lngs lats north =
     (let n = length lngs; k = cap_start lngs;
          cross_lat = cap_cross_lat lngs lats k;
          pole = (if north then f64_90 else f64_neg_90)
      in map_option (\<lambda>r. if north then r else rev r)
           (Option.bind (ring_push (f64_neg_180, cross_lat) [])
              (\<lambda>r. Option.bind (fold_opt (\<lambda>step. ring_push (cap_vertex lngs lats k step)) [1..<n + 1] r)
                (fold_opt ring_push [(f64_180, cross_lat), (f64_180, pole), (f64_neg_180, pole)]))))"

section \<open>Cells\<close>

text \<open>The two loops that bring a longitude within 180 degrees of the previous one.\<close>

partial_function (option) lower_lng :: "f64 \<Rightarrow> f64 \<Rightarrow> f64 option" where
  "lower_lng prev l = (if f64_lt f64_180 (f64_sub l prev) then lower_lng prev (f64_sub l f64_360) else Some l)"

partial_function (option) raise_lng :: "f64 \<Rightarrow> f64 \<Rightarrow> f64 option" where
  "raise_lng prev l = (if f64_lt (f64_sub l prev) f64_neg_180 then raise_lng prev (f64_add l f64_360) else Some l)"

fun unwrap_lngs :: "f64 \<Rightarrow> f64 list \<Rightarrow> f64 list option" where
  "unwrap_lngs prev [] = Some []"
| "unwrap_lngs prev (l # ls) =
     Option.bind (Option.bind (lower_lng prev l) (raise_lng prev))
       (\<lambda>l'. map_option (\<lambda>ls'. l' # ls') (unwrap_lngs l' ls))"

text \<open>The part after the unwrapping: shift, cut at the meridian, write the pieces.\<close>

definition split_rings :: "f64 list \<Rightarrow> f64 list \<Rightarrow> (ring \<times> ring \<times> ring) option" where
  "split_rings lngs lats =
     (let shift = (if list_ex (\<lambda>l. f64_lt l f64_neg_180) lngs then f64_360 else 0) in
      Option.bind (fold_opt (\<lambda>i. ring_push (f64_add (lngs ! i) shift, lats ! i)) [0..<length lngs] []) (\<lambda>r.
      Option.bind (clip_at_180 (ring_points r) False) (\<lambda>west.
      Option.bind (clip_at_180 (ring_points r) True) (\<lambda>east.
      Some (r, west, map (\<lambda>p. (f64_sub (fst p) f64_360, snd p)) east)))))"

definition write_pieces :: "ring \<times> ring \<times> ring \<Rightarrow> wkb_writer \<Rightarrow> wkb_writer option" where
  "write_pieces parts w =
     (case parts of (r, west, east) \<Rightarrow>
        (case (ring_is_area west, ring_is_area east) of
           (True, True) \<Rightarrow>
             Option.bind (put_header WKB_MULTIPOLYGON 2 w) (\<lambda>w. Option.bind (put_polygon west w) (put_polygon east))
         | (True, False) \<Rightarrow> put_polygon west w
         | (False, True) \<Rightarrow> put_polygon east w
         | (False, False) \<Rightarrow> put_polygon r w))"

definition lng_span :: "coord list \<Rightarrow> f64" where
  "lng_span boundary =
     f64_sub (foldl f64_max f64_neg_inf (map fst boundary)) (foldl f64_min f64_inf (map fst boundary))"

definition cell_to_wkb :: "('c \<Rightarrow> coord list) \<Rightarrow> ('c \<Rightarrow> 'c \<times> 'c) \<Rightarrow> 'c \<Rightarrow> bytes option" where
  "cell_to_wkb boundary_of pole_cells cell =
     (let boundary = boundary_of cell; n = length boundary;
          lngs = map fst boundary; lats = map snd boundary; poles = pole_cells cell
      in if n > MAX_CELL_VERTICES then None
         else if f64_le (lng_span boundary) f64_180
         then Option.bind (put_header WKB_POLYGON 1 []) (\<lambda>w.
              Option.bind (put (to_le_bytes (word_of_nat (n + 1) :: u32)) w) (\<lambda>w.
              if n = 0 then None else fold_opt (\<lambda>i. put_point (boundary ! i)) ([0..<n] @ [0]) w))
         else if cell = fst poles \<or> cell = snd poles
         then Option.bind (wkb_polar_cap lngs lats (cell = fst poles)) (\<lambda>r. put_polygon r [])
         else Option.bind (map_option (\<lambda>ls. hd lngs # ls) (unwrap_lngs (hd lngs) (tl lngs)))
              (\<lambda>lngs. Option.bind (split_rings lngs lats) (\<lambda>parts. write_pieces parts [])))"

section \<open>Bounds of a written geometry\<close>

type_synonym wkb_bounds = "f64 \<times> f64 \<times> f64 \<times> f64"

definition u32_at :: "bytes \<Rightarrow> nat \<Rightarrow> u32 option" where
  "u32_at wkb pos = (if pos + 4 \<le> length wkb then Some (from_le_bytes (take 4 (drop pos wkb))) else None)"

definition f64_at :: "bytes \<Rightarrow> nat \<Rightarrow> f64 option" where
  "f64_at wkb pos = (if pos + 8 \<le> length wkb then Some (from_le_bytes (take 8 (drop pos wkb))) else None)"

definition extend_point :: "coord \<Rightarrow> wkb_bounds \<Rightarrow> wkb_bounds" where
  "extend_point p b =
     (case (p, b) of ((x, y), (x0, y0, x1, y1)) \<Rightarrow> (f64_min x0 x, f64_min y0 y, f64_max x1 x, f64_max y1 y))"

fun extend_points :: "bytes \<Rightarrow> nat \<Rightarrow> nat \<Rightarrow> wkb_bounds \<Rightarrow> nat option \<times> wkb_bounds" where
  "extend_points wkb 0 pos b = (Some pos, b)"
| "extend_points wkb (Suc n) pos b =
     (case (f64_at wkb pos, f64_at wkb (pos + 8)) of
        (Some x, Some y) \<Rightarrow> extend_points wkb n (pos + 16) (extend_point (x, y) b)
      | _ \<Rightarrow> (None, b))"

fun extend_rings :: "bytes \<Rightarrow> nat \<Rightarrow> nat \<Rightarrow> wkb_bounds \<Rightarrow> nat option \<times> wkb_bounds" where
  "extend_rings wkb 0 pos b = (Some pos, b)"
| "extend_rings wkb (Suc n) pos b =
     (case u32_at wkb pos of
        None \<Rightarrow> (None, b)
      | Some points \<Rightarrow>
          (case extend_points wkb (unat points) (pos + 4) b of
             (None, b') \<Rightarrow> (None, b')
           | (Some pos', b') \<Rightarrow> extend_rings wkb n pos' b'))"

definition byte_at :: "bytes \<Rightarrow> nat \<Rightarrow> u8 option" where
  "byte_at wkb pos = (if pos < length wkb then Some (wkb ! pos) else None)"

definition extend_polygon :: "bytes \<Rightarrow> nat \<Rightarrow> wkb_bounds \<Rightarrow> nat option \<times> wkb_bounds" where
  "extend_polygon wkb pos b =
     (if byte_at wkb pos \<noteq> Some 1 \<or> u32_at wkb (pos + 1) \<noteq> Some WKB_POLYGON then (None, b)
      else case u32_at wkb (pos + 5) of
             None \<Rightarrow> (None, b)
           | Some rings \<Rightarrow> extend_rings wkb (unat rings) (pos + 9) b)"

fun extend_parts :: "bytes \<Rightarrow> nat \<Rightarrow> nat \<Rightarrow> wkb_bounds \<Rightarrow> wkb_bounds" where
  "extend_parts wkb 0 pos b = b"
| "extend_parts wkb (Suc n) pos b =
     (case extend_polygon wkb pos b of
        (Some pos', b') \<Rightarrow> extend_parts wkb n pos' b'
      | (None, b') \<Rightarrow> b')"

definition extend_wkb_bounds :: "bytes \<Rightarrow> wkb_bounds \<Rightarrow> wkb_bounds" where
  "extend_wkb_bounds wkb b =
     (if byte_at wkb 0 = Some 1 \<and> u32_at wkb 1 = Some WKB_POLYGON then snd (extend_polygon wkb 0 b)
      else if byte_at wkb 0 = Some 1 \<and> u32_at wkb 1 = Some WKB_MULTIPOLYGON
      then (case u32_at wkb 5 of None \<Rightarrow> b | Some parts \<Rightarrow> extend_parts wkb (unat parts) 9 b)
      else b)"

section \<open>What the writer writes\<close>

definition point_enc :: "coord \<Rightarrow> bytes" where
  "point_enc p = to_le_bytes (fst p) @ to_le_bytes (snd p)"

definition header_enc :: "u32 \<Rightarrow> u32 \<Rightarrow> bytes" where
  "header_enc t c = [1] @ to_le_bytes t @ to_le_bytes c"

definition closed :: "coord list \<Rightarrow> coord list" where
  "closed pts = pts @ take 1 pts"

definition polygon_enc :: "coord list \<Rightarrow> bytes" where
  "polygon_enc pts = header_enc WKB_POLYGON 1 @ to_le_bytes (word_of_nat (length pts + 1) :: u32) @
     concat (map point_enc (closed pts))"

definition geometry_enc :: "coord list list \<Rightarrow> bytes" where
  "geometry_enc rings =
     (case rings of [r] \<Rightarrow> polygon_enc r
      | _ \<Rightarrow> header_enc WKB_MULTIPOLYGON (word_of_nat (length rings)) @ concat (map polygon_enc rings))"

lemma put_put: "Option.bind (put a w) (put b) = put (a @ b) w"
  by (auto simp: put_def Option.bind_def split: option.splits)

lemma put_bind_assoc: "Option.bind (put a w) (\<lambda>w. Option.bind (put b w) f) = Option.bind (put (a @ b) w) f"
  by (simp add: put_put [symmetric])

lemma put_header_eq: "put_header t c = put (header_enc t c)"
  by (rule ext) (simp add: put_header_def header_enc_def put_put put_bind_assoc del: append.simps)

lemma put_point_eq: "put_point p = put (point_enc p)"
  by (rule ext) (simp add: put_point_def point_enc_def put_put)

lemma put_nil: "length w \<le> WKB_BUF_LEN \<Longrightarrow> put [] w = Some w"
  by (simp add: put_def)

lemma fold_put_points:
  "length w \<le> WKB_BUF_LEN \<Longrightarrow> fold_opt put_point pts w = put (concat (map point_enc pts)) w"
proof (induction pts arbitrary: w)
  case (Cons p pts)
  show ?case
    using Cons.IH
    by (auto simp: put_point_eq put_def Option.bind_def split: option.splits if_splits)
qed (simp add: put_nil)

lemma put_then_points:
  "Option.bind (put a w) (fold_opt put_point pts) = put (a @ concat (map point_enc pts)) w"
  using fold_put_points [of "w @ a" pts] by (auto simp: put_def Option.bind_def)

lemma put_polygon_eq:
  "ring_points r \<noteq> [] \<Longrightarrow> put_polygon r = put (polygon_enc (ring_points r))"
  by (rule ext) (simp add: put_polygon_def Let_def put_header_eq put_bind_assoc put_then_points
      polygon_enc_def closed_def)

lemma length_point_enc [simp]: "length (point_enc p) = 16"
  by (simp add: point_enc_def)

lemma length_polygon_enc: "pts \<noteq> [] \<Longrightarrow> length (polygon_enc pts) = polygon_bytes (length pts + 1)"
  by (cases pts) (simp_all add: polygon_enc_def header_enc_def polygon_bytes_def closed_def
      concat_map_length_const [where k = 16])

section \<open>Sizes\<close>

lemma ring_push_ok:
  assumes "length r < MAX_RING_POINTS"
  obtains r' where "ring_push p r = Some r'" "r' \<noteq> []" "length r' \<le> length r + 1"
  using assms by (cases "length r > 0 \<and> pt_eq (r ! (length r - 1)) p") (auto simp: ring_push_def)

text \<open>A loop whose steps each add at most \<open>k\<close> points stays within the ring while there is room for all of them.\<close>

lemma fold_opt_room:
  assumes "\<And>x s. x \<in> set xs \<Longrightarrow> length s + k \<le> m \<Longrightarrow> \<exists>s'. f x s = Some s' \<and> length s' \<le> length s + k"
    and "length s + k * length xs \<le> m"
  shows "\<exists>s'. fold_opt f xs s = Some s' \<and> length s' \<le> length s + k * length xs"
  using assms
proof (induction xs arbitrary: s)
  case (Cons x xs)
  have "length s + k \<le> m" using Cons.prems(2) by simp
  then obtain s' where s': "f x s = Some s'" "length s' \<le> length s + k"
    using Cons.prems(1) [of x s] by auto
  moreover have "\<exists>s''. fold_opt f xs s' = Some s'' \<and> length s'' \<le> length s' + k * length xs"
    using Cons.prems s' by (intro Cons.IH) auto
  ultimately show ?case by fastforce
qed simp

lemma push_room: "length r + 1 \<le> MAX_RING_POINTS \<Longrightarrow> \<exists>r'. ring_push p r = Some r' \<and> length r' \<le> length r + 1"
  using ring_push_ok [of r p] by auto

lemma clip_step_room:
  assumes "length r + 2 \<le> MAX_RING_POINTS"
  shows "\<exists>r'. clip_step e a b r = Some r' \<and> length r' \<le> length r + 2"
proof -
  obtain r1 where r1: "ring_push b r = Some r1" "length r1 \<le> length r + 1"
    using push_room [of r b] assms by auto
  obtain r2 where r2: "ring_push (crossing a b) r = Some r2" "length r2 \<le> length r + 1"
    using push_room [of r "crossing a b"] assms by auto
  moreover obtain r3 where "ring_push b r2 = Some r3" "length r3 \<le> length r2 + 1"
    using push_room [of r2 b] r2 assms by auto
  ultimately show ?thesis using r1
    by (cases "clip_inside e a"; cases "clip_inside e b") (auto simp: clip_step_def)
qed

lemma clip_room:
  assumes "length r \<le> MAX_CELL_VERTICES"
  shows "\<exists>c. clip_at_180 r e = Some c \<and> length c \<le> 2 * MAX_CELL_VERTICES"
proof -
  have "\<exists>c. clip_at_180 r e = Some c \<and> length c \<le> length ([] :: ring) + 2 * length [0..<length r]"
    unfolding clip_at_180_def
    by (rule fold_opt_room [where m = MAX_RING_POINTS])
      (use assms clip_step_room in \<open>auto simp: MAX_RING_POINTS_def\<close>)
  then show ?thesis using assms by auto
qed

lemma ring_points_length: "length (ring_points r) \<le> length r"
  by (simp add: ring_points_def)

lemma ring_points_nonempty: "r \<noteq> [] \<Longrightarrow> ring_points r \<noteq> []"
  by (cases r) (auto simp: ring_points_def)

lemma ring_area_nonempty: "ring_is_area r \<Longrightarrow> ring_points r \<noteq> []"
  by (auto simp: ring_is_area_def)

lemma fold_push_nonempty:
  "fold_opt ring_push ps r = Some r' \<Longrightarrow> ps \<noteq> [] \<or> r \<noteq> [] \<Longrightarrow> r' \<noteq> []"
proof (induction ps arbitrary: r)
  case (Cons p ps)
  then obtain r1 where r1: "ring_push p r = Some r1" "fold_opt ring_push ps r1 = Some r'"
    by (auto simp: bind_eq_Some_conv)
  have "r1 \<noteq> []" using r1(1) by (auto simp: ring_push_def split: if_splits)
  then show ?case using Cons.IH [OF r1(2)] by simp
qed simp

lemma fold_push_room:
  assumes "length r + length ps \<le> MAX_RING_POINTS"
  shows "\<exists>r'. fold_opt ring_push ps r = Some r' \<and> length r' \<le> length r + length ps"
  using fold_opt_room [where f = ring_push and k = 1 and m = MAX_RING_POINTS and xs = ps and s = r]
    push_room assms by auto

lemma wkb_polar_cap_room:
  assumes "length lngs \<le> MAX_CELL_VERTICES"
  shows "\<exists>r. wkb_polar_cap lngs lats north = Some r \<and> r \<noteq> [] \<and> length r < MAX_RING_POINTS"
proof -
  define k where "k = cap_start lngs"
  define c where "c = cap_cross_lat lngs lats k"
  define pole where "pole = (if north then f64_90 else f64_neg_90)"
  define ps where "ps = map (cap_vertex lngs lats k) [Suc 0..<Suc (length lngs)]"
  obtain r1 where r1: "ring_push (f64_neg_180, c) [] = Some r1" "length r1 \<le> 1"
    using push_room [of "[]"] by (auto simp: MAX_RING_POINTS_def)
  have "length ps = length lngs" by (simp add: ps_def del: upt_Suc)
  then have ps: "length ps \<le> 10" using assms by (simp add: MAX_CELL_VERTICES_def)
  obtain r2 where r2: "fold_opt ring_push ps r1 = Some r2" "length r2 \<le> length r1 + length ps"
    using fold_push_room [of r1 ps] r1 ps by (auto simp: MAX_RING_POINTS_def MAX_CELL_VERTICES_def)
  obtain r3 where r3: "fold_opt ring_push [(f64_180, c), (f64_180, pole), (f64_neg_180, pole)] r2 = Some r3"
      "length r3 \<le> length r2 + 3"
    using fold_push_room [of r2 "[(f64_180, c), (f64_180, pole), (f64_neg_180, pole)]"] r1 r2 ps
    by (auto simp: MAX_RING_POINTS_def MAX_CELL_VERTICES_def)
  have "r3 \<noteq> []" by (rule fold_push_nonempty [OF r3(1)]) simp
  moreover have "wkb_polar_cap lngs lats north = Some (if north then r3 else rev r3)"
    using r1(1) r2(1) r3(1)
    by (simp add: wkb_polar_cap_def Let_def fold_opt_map [where f = ring_push and g = "cap_vertex lngs lats k"] k_def [symmetric] c_def [symmetric]
        pole_def [symmetric] ps_def [symmetric] del: upt_Suc fold_opt.simps)
  ultimately show ?thesis
    using r1 r2 r3 ps by (auto simp: MAX_RING_POINTS_def MAX_CELL_VERTICES_def)
qed

lemma split_rings_room:
  assumes "lngs \<noteq> []" "length lngs \<le> MAX_CELL_VERTICES"
  shows "\<exists>r west east. split_rings lngs lats = Some (r, west, east) \<and> r \<noteq> [] \<and>
    length r < MAX_RING_POINTS \<and> length west < MAX_RING_POINTS \<and> length east < MAX_RING_POINTS"
proof -
  define shift where "shift = (if list_ex (\<lambda>l. f64_lt l f64_neg_180) lngs then f64_360 else 0)"
  define ps where "ps = map (\<lambda>i. (f64_add (lngs ! i) shift, lats ! i)) [0..<length lngs]"
  obtain r where r: "fold_opt ring_push ps [] = Some r" "length r \<le> length ps"
    using fold_push_room [of "[]" ps] assms by (auto simp: ps_def MAX_RING_POINTS_def)
  have "r \<noteq> []" by (rule fold_push_nonempty [OF r(1)]) (use assms in \<open>simp add: ps_def\<close>)
  have len: "length (ring_points r) \<le> MAX_CELL_VERTICES"
    using ring_points_length [of r] r assms by (simp add: ps_def)
  obtain west where west: "clip_at_180 (ring_points r) False = Some west" "length west \<le> 2 * MAX_CELL_VERTICES"
    using clip_room [OF len] by blast
  obtain east where east: "clip_at_180 (ring_points r) True = Some east" "length east \<le> 2 * MAX_CELL_VERTICES"
    using clip_room [OF len] by blast
  have "split_rings lngs lats = Some (r, west, map (\<lambda>p. (f64_sub (fst p) f64_360, snd p)) east)"
    using r(1) west(1) east(1)
    by (simp add: split_rings_def Let_def shift_def [symmetric] fold_opt_map [where f = ring_push and g = "\<lambda>i. (f64_add (lngs ! i) shift, lats ! i)"] ps_def [symmetric])
  then show ?thesis
    using \<open>r \<noteq> []\<close> r west east assms by (simp add: ps_def MAX_RING_POINTS_def)
qed

section \<open>Written cells\<close>

text \<open>The rings a cell is written as, once its longitudes are unwrapped.\<close>

definition piece_rings :: "ring \<times> ring \<times> ring \<Rightarrow> coord list list" where
  "piece_rings parts =
     (case parts of (r, west, east) \<Rightarrow>
        map ring_points
          (if ring_is_area west \<and> ring_is_area east then [west, east]
           else if ring_is_area west then [west]
           else if ring_is_area east then [east] else [r]))"

definition good_rings :: "coord list list \<Rightarrow> bool" where
  "good_rings rings \<longleftrightarrow>
     (length rings = 1 \<or> length rings = 2) \<and> (\<forall>r\<in>set rings. r \<noteq> [] \<and> length r < MAX_RING_POINTS)"

lemma put_empty_ok: "length a \<le> WKB_BUF_LEN \<Longrightarrow> put a [] = Some a"
  by (simp add: put_def)

lemma good_rings_two:
  "good_rings rings \<Longrightarrow> (\<exists>r. rings = [r]) \<or> (\<exists>r s. rings = [r, s])"
  by (auto simp: good_rings_def length_Suc_conv numeral_2_eq_2)

lemma good_rings_length:
  assumes "good_rings rings"
  shows "length (geometry_enc rings) \<le> WKB_BUF_LEN"
proof -
  have "length (polygon_enc r) \<le> polygon_bytes MAX_RING_POINTS" if "r \<in> set rings" for r
    using that assms by (auto simp: good_rings_def length_polygon_enc polygon_bytes_def)
  note len = this
  from good_rings_two [OF assms] show ?thesis
  proof (elim disjE exE)
    fix r assume "rings = [r]"
    then show ?thesis using len [of r] by (simp add: geometry_enc_def WKB_BUF_LEN_def)
  next
    fix r s assume "rings = [r, s]"
    then show ?thesis using len [of r] len [of s]
      by (simp add: geometry_enc_def header_enc_def WKB_BUF_LEN_def)
  qed
qed

lemma good_rings_put: "good_rings rings \<Longrightarrow> put (geometry_enc rings) [] = Some (geometry_enc rings)"
  by (simp add: good_rings_length put_empty_ok)

lemma piece_rings_good:
  assumes "r \<noteq> []" "length r < MAX_RING_POINTS" "length west < MAX_RING_POINTS" "length east < MAX_RING_POINTS"
  shows "good_rings (piece_rings (r, west, east))"
  using assms ring_points_length ring_points_nonempty ring_area_nonempty le_less_trans
  unfolding good_rings_def piece_rings_def by (auto split: if_splits) (blast | metis)+

lemma write_pieces_eq:
  assumes "r \<noteq> []"
  shows "write_pieces (r, west, east) [] = put (geometry_enc (piece_rings (r, west, east))) []"
  using ring_points_nonempty [OF assms] ring_area_nonempty
  by (cases "ring_is_area west"; cases "ring_is_area east")
    (auto simp: write_pieces_def piece_rings_def put_polygon_eq put_header_eq put_put put_bind_assoc geometry_enc_def)

text \<open>
  The loops that unwrap the longitudes are needed only for a cell that spans more than half the
  globe and holds no pole; for any other cell nothing has to be assumed of them.
\<close>

definition cell_unwraps :: "('c \<Rightarrow> coord list) \<Rightarrow> ('c \<Rightarrow> 'c \<times> 'c) \<Rightarrow> 'c \<Rightarrow> bool" where
  "cell_unwraps boundary_of pole_cells cell \<longleftrightarrow>
     f64_le (lng_span (boundary_of cell)) f64_180 \<or>
     cell = fst (pole_cells cell) \<or> cell = snd (pole_cells cell) \<or>
     unwrap_lngs (fst (hd (boundary_of cell))) (tl (map fst (boundary_of cell))) \<noteq> None"

lemma unwrap_lngs_length: "unwrap_lngs p ls = Some us \<Longrightarrow> length us = length ls"
  by (induction ls arbitrary: p us) (auto simp: bind_eq_Some_conv)

lemma put_boundary:
  assumes "boundary \<noteq> []"
  shows "Option.bind (put_header WKB_POLYGON 1 []) (\<lambda>w.
      Option.bind (put (to_le_bytes (word_of_nat (length boundary + 1) :: u32)) w) (\<lambda>w.
      fold_opt (\<lambda>i. put_point (boundary ! i)) ([0..<length boundary] @ [0]) w)) = put (polygon_enc boundary) []"
proof -
  have "map ((!) boundary) ([0..<length boundary] @ [0]) = closed boundary"
    using assms map_nth [of boundary] by (cases boundary) (auto simp: closed_def simp del: upt_Suc)
  then have "fold_opt (\<lambda>i. put_point (boundary ! i)) ([0..<length boundary] @ [0]) = fold_opt put_point (closed boundary)"
    using fold_opt_map [where f = put_point and g = "(!) boundary" and xs = "[0..<length boundary] @ [0]"]
    by (intro ext) simp
  then show ?thesis
    by (simp add: put_header_eq put_put put_then_points polygon_enc_def)
qed

lemma cell_to_wkb_enc:
  assumes "boundary_of cell \<noteq> []" "length (boundary_of cell) \<le> MAX_CELL_VERTICES"
    and "cell_unwraps boundary_of pole_cells cell"
  shows "\<exists>rings. good_rings rings \<and> cell_to_wkb boundary_of pole_cells cell = Some (geometry_enc rings) \<and>
    (f64_le (lng_span (boundary_of cell)) f64_180 \<longrightarrow> rings = [boundary_of cell])"
proof -
  define b where "b = boundary_of cell"
  have b: "b \<noteq> []" "length b \<le> MAX_CELL_VERTICES" using assms by (simp_all add: b_def)
  consider (plain) "f64_le (lng_span b) f64_180"
    | (pole) "\<not> f64_le (lng_span b) f64_180" "cell = fst (pole_cells cell) \<or> cell = snd (pole_cells cell)"
    | (split) us where "\<not> f64_le (lng_span b) f64_180" "\<not> (cell = fst (pole_cells cell) \<or> cell = snd (pole_cells cell))"
        "unwrap_lngs (fst (hd b)) (tl (map fst b)) = Some us"
    using assms(3) by (auto simp: cell_unwraps_def b_def)
  then show ?thesis
  proof cases
    case plain
    have g: "good_rings [b]" using b by (simp add: good_rings_def MAX_RING_POINTS_def)
    then have "cell_to_wkb boundary_of pole_cells cell = Some (geometry_enc [b])"
      using plain b put_boundary [OF b(1)] good_rings_put [OF g]
      by (simp add: cell_to_wkb_def Let_def b_def [symmetric] geometry_enc_def del: upt_Suc)
    then show ?thesis using g by (auto simp: b_def)
  next
    case pole
    obtain r where r: "wkb_polar_cap (map fst b) (map snd b) (cell = fst (pole_cells cell)) = Some r"
        "r \<noteq> []" "length r < MAX_RING_POINTS"
      using wkb_polar_cap_room [of "map fst b"] b by auto
    have g: "good_rings [ring_points r]"
      using r ring_points_nonempty ring_points_length [of r] by (simp add: good_rings_def)
    then have "cell_to_wkb boundary_of pole_cells cell = Some (geometry_enc [ring_points r])"
      using pole b r good_rings_put [OF g] ring_points_nonempty [OF r(2)]
      by (simp add: cell_to_wkb_def Let_def b_def [symmetric] geometry_enc_def put_polygon_eq)
    then show ?thesis using g pole by (auto simp: b_def)
  next
    case split
    define ls where "ls = fst (hd b) # us"
    have ls: "ls \<noteq> []" "length ls \<le> MAX_CELL_VERTICES"
      using unwrap_lngs_length [OF split(3)] b by (auto simp: ls_def)
    obtain r west east where s: "split_rings ls (map snd b) = Some (r, west, east)" "r \<noteq> []"
        "length r < MAX_RING_POINTS" "length west < MAX_RING_POINTS" "length east < MAX_RING_POINTS"
      using split_rings_room [OF ls] by blast
    have g: "good_rings (piece_rings (r, west, east))"
      using s by (intro piece_rings_good)
    have "cell_to_wkb boundary_of pole_cells cell = write_pieces (r, west, east) []"
      using split b s(1) by (simp add: cell_to_wkb_def Let_def b_def [symmetric] hd_map ls_def)
    then show ?thesis
      using g s(2) split by (auto simp: write_pieces_eq good_rings_put b_def)
  qed
qed

section \<open>Reading it back\<close>

definition written_header :: "u32 \<Rightarrow> wkb_header" where
  "written_header t = \<lparr> wh_little = True, wh_base_type = t, wh_dims = 2 \<rparr>"

lemma written_header_sel [simp]:
  "wh_little (written_header t) = True" "wh_base_type (written_header t) = t" "wh_dims (written_header t) = 2"
  by (simp_all add: written_header_def)

lemma cur_u32_append [simp]: "cur_u32 True (to_le_bytes x @ rest) = Ok (x, rest)"
  by (simp add: cur_u32_def cur_take_def bind_p_Ok return_p_def)

lemma cur_f64_append [simp]: "cur_f64 True (to_le_bytes x @ rest) = Ok (x, rest)"
  by (simp add: cur_f64_def cur_take_def bind_p_Ok return_p_def)

lemma cur_u8_Cons [simp]: "cur_u8 (b # rest) = Ok (b, rest)"
  by (simp add: cur_u8_def cur_take_def reader_simps)

lemma read_written_header:
  assumes "t = WKB_POLYGON \<or> t = WKB_MULTIPOLYGON"
  shows "read_wkb_header (1 # to_le_bytes t @ rest) = Ok (written_header t, rest)"
  using assms
  by (auto simp: read_wkb_header_def bind_p_Ok return_p_def lift_str_def iso_dims_def written_header_def
      WKB_POLYGON_def WKB_MULTIPOLYGON_def EWKB_SRID_FLAG_def EWKB_Z_FLAG_def EWKB_M_FLAG_def Let_def)

interpretation wkb_points: byte_codec point_enc "read_coord (written_header t)" "\<lambda>_. True" for t :: u32
  by unfold_locales (simp add: point_enc_def read_coord_def bind_p_Ok return_p_def)

definition ring_enc :: "coord list \<Rightarrow> bytes" where
  "ring_enc pts = to_le_bytes (word_of_nat (length pts) :: u32) @ concat (map point_enc pts)"

lemma polygon_enc_ring: "pts \<noteq> [] \<Longrightarrow> polygon_enc pts = header_enc WKB_POLYGON 1 @ ring_enc (closed pts)"
  by (cases pts) (simp_all add: polygon_enc_def ring_enc_def closed_def)

lemma unat_small_u32: "n < 2 ^ 32 \<Longrightarrow> unat (word_of_nat n :: u32) = n"
  by (rule unat_word_of_nat_id) simp

interpretation wkb_rings: byte_codec ring_enc "read_ring (written_header t)" "\<lambda>pts. length pts < 2 ^ 32" for t :: u32
proof unfold_locales
  fix pts :: "coord list" and rest
  assume "length pts < 2 ^ 32"
  then have n: "unat (word_of_nat (length pts) :: u32) = length pts" by (rule unat_small_u32)
  have c: "check_remaining (saturating_mul (length pts) 16) (concat (map point_enc pts) @ rest)
      = Ok ((), concat (map point_enc pts) @ rest)"
    by (simp add: check_remaining_def saturating_mul_def concat_map_length_const [where k = 16])
  show "read_ring (written_header t) (ring_enc pts @ rest) = Ok (pts, rest)"
    using wkb_points.list_roundtrip [of pts t rest]
    by (simp add: read_ring_def ring_enc_def bind_p_Ok n c)
qed

lemma closed_nonempty: "pts \<noteq> [] \<Longrightarrow> closed pts \<noteq> []"
  by (simp add: closed_def)

definition ring_ok :: "coord list \<Rightarrow> bool" where
  "ring_ok pts \<longleftrightarrow> pts \<noteq> [] \<and> length pts < MAX_RING_POINTS"

lemma ring_ok_small: "ring_ok pts \<Longrightarrow> length (closed pts) < 2 ^ 32"
  by (cases pts) (simp_all add: ring_ok_def closed_def MAX_RING_POINTS_def MAX_CELL_VERTICES_def)

lemma read_written_body:
  assumes "ring_ok pts"
  shows "read_polygon_body pn (written_header t) (to_le_bytes (1 :: u32) @ ring_enc (closed pts) @ rest)
    = Ok (Some (pn (closed pts) []), rest)"
proof -
  have c: "check_remaining (saturating_mul 1 4) (ring_enc (closed pts) @ rest) = Ok ((), ring_enc (closed pts) @ rest)"
    by (simp add: check_remaining_def saturating_mul_def ring_enc_def usize_max_def)
  have r: "read_ring (written_header t) (ring_enc (closed pts) @ rest) = Ok (closed pts, rest)"
    using wkb_rings.roundtrip [OF ring_ok_small [OF assms]] .
  have "closed pts \<noteq> []" using assms by (simp add: ring_ok_def closed_nonempty)
  then show ?thesis
    using c by (simp add: read_polygon_body_def bind_p_Ok r lift_str_def assemble_polygon_def return_p_def)
qed

lemma polygon_enc_append:
  "ring_ok pts \<Longrightarrow> polygon_enc pts @ rest =
    1 # to_le_bytes WKB_POLYGON @ to_le_bytes (1 :: u32) @ ring_enc (closed pts) @ rest"
  by (simp add: polygon_enc_ring ring_ok_def header_enc_def)

lemma read_written_member:
  "ring_ok pts \<Longrightarrow> read_member pn (polygon_enc pts @ rest) = Ok (Some (pn (closed pts) []), rest)"
  by (simp add: polygon_enc_append read_member_def bind_p_Ok read_written_header read_written_body)

lemma replicate_members:
  "\<forall>r\<in>set rings. ring_ok r \<Longrightarrow>
    replicate_p (length rings) (read_member pn) (concat (map polygon_enc rings) @ rest)
      = Ok (map (\<lambda>r. Some (pn (closed r) [])) rings, rest)"
  by (induction rings) (simp_all add: read_written_member)

lemma read_written_geometry:
  assumes "good_rings rings"
  shows "wkb_to_multipolygon pn (geometry_enc rings) = Ok (map (\<lambda>r. pn (closed r) []) rings)"
proof -
  have ok: "\<forall>r\<in>set rings. ring_ok r" using assms by (simp add: good_rings_def ring_ok_def)
  from good_rings_two [OF assms] show ?thesis
  proof (elim disjE exE)
    fix r assume r: "rings = [r]"
    then have "ring_ok r" using ok by simp
    then have "read_geometry pn (polygon_enc r @ []) = Ok ([pn (closed r) []], [])"
      unfolding polygon_enc_append [OF \<open>ring_ok r\<close>]
      using read_written_body [of r pn WKB_POLYGON "[]"]
      by (simp add: read_geometry_def bind_p_Ok read_written_header return_p_def)
    then show ?thesis using r by (simp add: wkb_to_multipolygon_def geometry_enc_def)
  next
    fix r s assume rs: "rings = [r, s]"
    define body where "body = concat (map polygon_enc rings)"
    have ge: "geometry_enc rings = 1 # to_le_bytes WKB_MULTIPOLYGON @ to_le_bytes (2 :: u32) @ body"
      using rs by (simp add: geometry_enc_def header_enc_def body_def)
    have c: "check_remaining (saturating_mul 2 9) body = Ok ((), body)"
      using ok rs length_polygon_enc [of r] length_polygon_enc [of s]
      by (simp add: check_remaining_def saturating_mul_def ring_ok_def polygon_bytes_def usize_max_def body_def)
    have m: "replicate_p 2 (read_member pn) body = Ok (map (\<lambda>r. Some (pn (closed r) [])) rings, [])"
      using replicate_members [OF ok, of pn "[]"] rs by (simp add: body_def numeral_2_eq_2)
    have t: "List.map_filter (\<lambda>p. p) (map (\<lambda>r. Some (pn (closed r) [])) rings) = map (\<lambda>r. pn (closed r) []) rings"
      using rs by (simp add: List.map_filter_def)
    have "WKB_MULTIPOLYGON \<noteq> WKB_POLYGON" by (simp add: WKB_POLYGON_def WKB_MULTIPOLYGON_def)
    then have "read_geometry pn (geometry_enc rings) = Ok (map (\<lambda>r. pn (closed r) []) rings, [])"
      unfolding ge by (simp add: read_geometry_def bind_p_Ok read_written_header return_p_def c m t)
    then show ?thesis by (simp add: wkb_to_multipolygon_def)
  qed
qed

section \<open>The bounds of what was written\<close>

text \<open>The reader by offsets sees what stands after the bytes before the offset.\<close>

lemma f64_at_append [simp]: "n = length p \<Longrightarrow> f64_at (p @ to_le_bytes x @ rest) n = Some x"
  by (simp add: f64_at_def)

lemma u32_at_append [simp]: "n = length p \<Longrightarrow> u32_at (p @ to_le_bytes x @ rest) n = Some x"
  by (simp add: u32_at_def)

lemma extend_points_enc:
  "pos = length p \<Longrightarrow> extend_points (p @ concat (map point_enc pts) @ rest) (length pts) pos b
    = (Some (pos + 16 * length pts), fold extend_point pts b)"
proof (induction pts arbitrary: p pos b)
  case (Cons c pts)
  have x: "f64_at (p @ concat (map point_enc (c # pts)) @ rest) pos = Some (fst c)"
    using f64_at_append [of pos p "fst c"] Cons.prems by (simp add: point_enc_def)
  have y: "f64_at (p @ concat (map point_enc (c # pts)) @ rest) (pos + 8) = Some (snd c)"
    using f64_at_append [of "pos + 8" "p @ to_le_bytes (fst c)" "snd c"] Cons.prems by (simp add: point_enc_def)
  have "extend_points ((p @ point_enc c) @ concat (map point_enc pts) @ rest) (length pts) (pos + 16) (extend_point c b)
      = (Some (pos + 16 + 16 * length pts), fold extend_point pts (extend_point c b))"
    by (rule Cons.IH) (simp add: Cons.prems)
  then show ?case using x y by (cases c) simp
qed simp

lemma extend_polygon_enc:
  assumes "ring_ok pts" "pos = length p"
  shows "extend_polygon (p @ polygon_enc pts @ rest) pos b
    = (Some (pos + length (polygon_enc pts)), fold extend_point (closed pts) b)"
proof -
  define w where "w = p @ polygon_enc pts @ rest"
  define n :: u32 where "n = word_of_nat (length (closed pts))"
  have n: "unat n = length (closed pts)"
    unfolding n_def by (rule unat_small_u32 [OF ring_ok_small [OF assms(1)]])
  have w: "w = p @ [1] @ to_le_bytes WKB_POLYGON @ to_le_bytes (1 :: u32) @ to_le_bytes n @
      concat (map point_enc (closed pts)) @ rest"
    unfolding w_def polygon_enc_append [OF assms(1)] by (simp add: ring_enc_def n_def)
  have "byte_at w pos = Some 1" using assms(2) by (simp add: w byte_at_def)
  moreover have "u32_at w (pos + 1) = Some WKB_POLYGON"
    using u32_at_append [of "pos + 1" "p @ [1]" WKB_POLYGON] assms(2) by (simp add: w)
  moreover have "u32_at w (pos + 5) = Some 1"
    using u32_at_append [of "pos + 5" "p @ [1] @ to_le_bytes WKB_POLYGON" "1 :: u32"] assms(2) by (simp add: w)
  moreover have "u32_at w (pos + 9) = Some n"
    using u32_at_append [of "pos + 9" "p @ [1] @ to_le_bytes WKB_POLYGON @ to_le_bytes (1 :: u32)" n] assms(2)
    by (simp add: w)
  moreover have "extend_points w (length (closed pts)) (pos + 13) b
      = (Some (pos + 13 + 16 * length (closed pts)), fold extend_point (closed pts) b)"
    using extend_points_enc [of "pos + 13" "p @ [1] @ to_le_bytes WKB_POLYGON @ to_le_bytes (1 :: u32) @ to_le_bytes n"
        "closed pts" rest b] assms(2) by (simp add: w)
  moreover have "pos + 13 + 16 * length (closed pts) = pos + length (polygon_enc pts)"
    using assms(1) by (cases pts) (simp_all add: length_polygon_enc ring_ok_def closed_def polygon_bytes_def)
  ultimately show ?thesis
    unfolding w_def [symmetric] by (simp add: extend_polygon_def n add.commute [of 13 pos])
qed

lemma extend_parts_enc:
  "\<forall>r\<in>set rings. ring_ok r \<Longrightarrow> pos = length p \<Longrightarrow>
    extend_parts (p @ concat (map polygon_enc rings) @ rest) (length rings) pos b
      = fold extend_point (concat (map closed rings)) b"
proof (induction rings arbitrary: p pos b)
  case (Cons r rings)
  have "extend_polygon (p @ polygon_enc r @ concat (map polygon_enc rings) @ rest) pos b
      = (Some (pos + length (polygon_enc r)), fold extend_point (closed r) b)"
    by (rule extend_polygon_enc) (use Cons.prems in simp_all)
  moreover have "extend_parts ((p @ polygon_enc r) @ concat (map polygon_enc rings) @ rest) (length rings)
      (pos + length (polygon_enc r)) (fold extend_point (closed r) b)
      = fold extend_point (concat (map closed rings)) (fold extend_point (closed r) b)"
    by (rule Cons.IH) (use Cons.prems in simp_all)
  ultimately show ?case by simp
qed simp

lemma extend_written_geometry:
  assumes "good_rings rings"
  shows "extend_wkb_bounds (geometry_enc rings) b = fold extend_point (concat (map closed rings)) b"
proof -
  have ok: "\<forall>r\<in>set rings. ring_ok r" using assms by (simp add: good_rings_def ring_ok_def)
  from good_rings_two [OF assms] show ?thesis
  proof (elim disjE exE)
    fix r assume r: "rings = [r]"
    then have rr: "ring_ok r" using ok by simp
    have "byte_at (polygon_enc r @ []) 0 = Some 1" "u32_at (polygon_enc r @ []) 1 = Some WKB_POLYGON"
      unfolding polygon_enc_append [OF rr]
      using u32_at_append [of 1 "[1]" WKB_POLYGON] by (simp_all add: byte_at_def)
    then show ?thesis
      using extend_polygon_enc [OF rr, of 0 "[]" "[]" b] r
      by (simp add: extend_wkb_bounds_def geometry_enc_def)
  next
    fix r s assume rs: "rings = [r, s]"
    define body where "body = concat (map polygon_enc rings)"
    have ge: "geometry_enc rings = [1] @ to_le_bytes WKB_MULTIPOLYGON @ to_le_bytes (2 :: u32) @ body"
      using rs by (simp add: geometry_enc_def header_enc_def body_def)
    have "byte_at (geometry_enc rings) 0 = Some 1" "u32_at (geometry_enc rings) 1 = Some WKB_MULTIPOLYGON"
      using u32_at_append [of 1 "[1]" WKB_MULTIPOLYGON] by (simp_all add: ge byte_at_def)
    moreover have "u32_at (geometry_enc rings) 5 = Some 2"
      using u32_at_append [of 5 "[1] @ to_le_bytes WKB_MULTIPOLYGON" "2 :: u32"] by (simp add: ge)
    moreover have "extend_parts (geometry_enc rings) 2 9 b = fold extend_point (concat (map closed rings)) b"
    proof -
      have "extend_parts (([1] @ to_le_bytes WKB_MULTIPOLYGON @ to_le_bytes (2 :: u32)) @ body @ []) (length rings) 9 b
          = fold extend_point (concat (map closed rings)) b"
        unfolding body_def by (rule extend_parts_enc [OF ok]) simp
      moreover have "length rings = 2" using rs by simp
      ultimately show ?thesis by (simp only: ge append_assoc append_Nil2)
    qed
    moreover have "WKB_MULTIPOLYGON \<noteq> WKB_POLYGON" by (simp add: WKB_POLYGON_def WKB_MULTIPOLYGON_def)
    ultimately show ?thesis by (simp add: extend_wkb_bounds_def)
  qed
qed

section \<open>Properties\<close>


text \<open>
  C20. What is written for a cell can be read back and measured: the reader accepts the bytes and
  finds one or two rings, each the written points closed with their first one (the cell's own
  vertices when the cell does not span more than half the globe), and the bounding box grows by
  exactly the points of those rings.
\<close>

theorem cell_wkb_readable:
  assumes "boundary_of cell \<noteq> []" "length (boundary_of cell) \<le> MAX_CELL_VERTICES"
    and "cell_unwraps boundary_of pole_cells cell"
  shows "\<exists>out rings. cell_to_wkb boundary_of pole_cells cell = Some out \<and>
    wkb_to_multipolygon polygon_new out = Ok (map (\<lambda>r. polygon_new (r @ [hd r]) []) rings) \<and>
    extend_wkb_bounds out box = fold extend_point (concat (map (\<lambda>r. r @ [hd r]) rings)) box \<and>
    (length rings = 1 \<or> length rings = 2) \<and> (\<forall>r\<in>set rings. r \<noteq> [] \<and> length r < 23) \<and>
    (f64_le (lng_span (boundary_of cell)) f64_180 \<longrightarrow> rings = [boundary_of cell])"
proof -
  obtain rings where rings: "good_rings rings" "cell_to_wkb boundary_of pole_cells cell = Some (geometry_enc rings)"
      "f64_le (lng_span (boundary_of cell)) f64_180 \<longrightarrow> rings = [boundary_of cell]"
    using cell_to_wkb_enc [of boundary_of cell pole_cells] assms by blast
  have cl: "\<forall>r\<in>set rings. closed r = r @ [hd r]"
    using rings(1) by (auto simp: good_rings_def closed_def take_Suc)
  then have cl': "map closed rings = map (\<lambda>r. r @ [hd r]) rings" by simp
  show ?thesis
    using rings read_written_geometry [OF rings(1), of polygon_new] extend_written_geometry [OF rings(1), of box]
    by (intro exI [of _ "geometry_enc rings"] exI [of _ rings])
      (simp add: cl cl' good_rings_def MAX_RING_POINTS_def MAX_CELL_VERTICES_def)
qed

text \<open>A triangle across the antimeridian, with vertices at 179, -179 and 179 degrees, and one that is not.\<close>

definition sample_boundary :: "nat \<Rightarrow> coord list" where
  "sample_boundary c =
     (if c = 2 then [(0x4066600000000000, 0), (0xC066600000000000, 0), (0x4066600000000000, 0x3FF0000000000000)]
      else [(0, 0), (0x3FF0000000000000, 0), (0, 0x3FF0000000000000)])"

definition sample_poles :: "nat \<Rightarrow> nat \<times> nat" where
  "sample_poles c = (0, 1)"

lemma sample_lower:
  "lower_lng 0x4066600000000000 0xC066600000000000 = Some 0xC066600000000000"
  "lower_lng 0x4066A00000000000 0x4066600000000000 = Some 0x4066600000000000"
proof -
  have "\<not> f64_lt f64_180 (f64_sub 0xC066600000000000 0x4066600000000000)"
    "\<not> f64_lt f64_180 (f64_sub 0x4066600000000000 0x4066A00000000000)"
    by (simp_all add: f64_eval f64_180_def)
  then show "lower_lng 0x4066600000000000 0xC066600000000000 = Some 0xC066600000000000"
    "lower_lng 0x4066A00000000000 0x4066600000000000 = Some 0x4066600000000000"
    by (subst lower_lng.simps, simp only: if_False)+
qed

lemma sample_raise:
  "raise_lng 0x4066600000000000 0xC066600000000000 = Some 0x4066A00000000000"
  "raise_lng 0x4066A00000000000 0x4066600000000000 = Some 0x4066600000000000"
proof -
  have c: "f64_lt (f64_sub 0xC066600000000000 0x4066600000000000) f64_neg_180"
    "f64_add 0xC066600000000000 f64_360 = 0x4066A00000000000"
    "\<not> f64_lt (f64_sub 0x4066A00000000000 0x4066600000000000) f64_neg_180"
    "\<not> f64_lt (f64_sub 0x4066600000000000 0x4066A00000000000) f64_neg_180"
    by (simp_all add: f64_eval f64_neg_180_def f64_360_def)
  have "raise_lng 0x4066600000000000 0x4066A00000000000 = Some 0x4066A00000000000"
    by (subst raise_lng.simps) (simp only: c if_False)
  then show "raise_lng 0x4066600000000000 0xC066600000000000 = Some 0x4066A00000000000"
    by (subst raise_lng.simps) (simp only: c if_True)
  show "raise_lng 0x4066A00000000000 0x4066600000000000 = Some 0x4066600000000000"
    by (subst raise_lng.simps) (simp only: c if_False)
qed

lemma sample_unwraps: "cell_unwraps sample_boundary sample_poles 2"
  by (simp add: cell_unwraps_def sample_boundary_def sample_lower sample_raise)


theorem cell_wkb_readable_witness:
  "\<exists>out rings. cell_to_wkb sample_boundary sample_poles 2 = Some out \<and>
    wkb_to_multipolygon Pair out = Ok (map (\<lambda>r. (r @ [hd r], [])) rings) \<and>
    extend_wkb_bounds out (0, 0, 0, 0) = fold extend_point (concat (map (\<lambda>r. r @ [hd r]) rings)) (0, 0, 0, 0) \<and>
    (length rings = 1 \<or> length rings = 2) \<and> (\<forall>r\<in>set rings. r \<noteq> [] \<and> length r < 23) \<and>
    (f64_le (lng_span (sample_boundary 2)) f64_180 \<longrightarrow> rings = [sample_boundary 2])"
  by (rule cell_wkb_readable) (simp_all add: sample_unwraps sample_boundary_def MAX_CELL_VERTICES_def)

end
