(* ===== verification/Varint.thy ===== *)
theory Varint
  imports Byte_Codec
begin

text \<open>
  Protobuf-style varints, as \<open>write_varint\<close> of \<open>pmtiles/writer.rs\<close> and of \<open>pmtiles/mvt.rs\<close>
  write them, with a reference reader: the pair is a byte codec for every 64-bit value.
\<close>

section \<open>The writer\<close>

text \<open>The \<open>while val >= 0x80\<close> loop with the last byte after it.\<close>

function varint_loop :: "u64 \<Rightarrow> bytes" where
  "varint_loop val =
     (if val \<ge> 0x80 then ucast ((val AND 0x7F) OR 0x80) # varint_loop (drop_bit 7 val)
      else [ucast (val AND 0x7F)])"
  by pat_completeness auto
termination
proof (relation "measure unat")
  fix val :: u64
  assume "val \<ge> 0x80"
  then have "0x80 \<le> unat val" by (simp add: word_le_nat_alt)
  then show "(drop_bit 7 val, val) \<in> measure unat" by (simp add: unat_drop_bit)
qed simp

declare varint_loop.simps [simp del]

definition write_varint :: "u64 \<Rightarrow> bytes" where
  "write_varint val = (if val < 0x80 then [ucast val] else varint_loop val)"

section \<open>The reference reader\<close>

fun read_varint :: "(unit, u64) reader" where
  "read_varint [] = Err ()"
| "read_varint (b # bs) =
     (if b < 0x80 then Ok (ucast b, bs)
      else case read_varint bs of
             Inl e \<Rightarrow> Err e
           | Inr (v, rest) \<Rightarrow> Ok (ucast (b AND 0x7F) OR push_bit 7 v, rest))"

section \<open>The codec\<close>

lemma byte_less: "(b :: u8) < 0x80 \<longleftrightarrow> unat b < 128"
  by (simp add: word_less_nat_alt)

lemma low_seven: "unat (val AND 0x7F :: u64) = unat val mod 128"
  using unat_and_127 [of val] by simp

lemma bit_128: "bit (0x80 :: 'a::len word) n \<longleftrightarrow> n = 7 \<and> 7 < LENGTH('a)"
proof -
  have "(0x80 :: 'a word) = push_bit 7 1" by (simp add: push_bit_eq_mult)
  then show ?thesis by (simp only: bit_push_bit_iff bit_1_iff) auto
qed

lemma bit_127: "bit (0x7F :: 'a::len word) n \<longleftrightarrow> n < 7 \<and> n < LENGTH('a)"
proof -
  have "(0x7F :: 'a word) = mask 7" by (simp add: mask_eq_exp_minus_1)
  then show ?thesis by (simp only: bit_mask_iff) auto
qed

lemma cont_byte:
  fixes val :: u64
  defines "b \<equiv> ucast ((val AND 0x7F) OR 0x80) :: u8"
  shows "\<not> b < 0x80" and "ucast (b AND 0x7F) = val AND 0x7F"
proof -
  have "bit b 7" by (simp add: b_def bit_ucast_iff bit_or_iff bit_128)
  then have "bit (unat b) 7" by (simp add: bit_unsigned_iff)
  then have "odd (unat b div 128)" by (simp add: bit_iff_odd)
  then show "\<not> b < 0x80" by (auto simp: byte_less)
  show "ucast (b AND 0x7F) = val AND 0x7F"
  proof (rule bit_eqI)
    fix n
    show "bit (ucast (b AND 0x7F) :: u64) n \<longleftrightarrow> bit (val AND 0x7F) n"
      using bit_127 [where 'a = 8, of n] bit_127 [where 'a = 64, of n] bit_128 [where 'a = 64, of n]
      by (auto simp: b_def bit_ucast_iff bit_and_iff bit_or_iff)
  qed
qed

lemma split_seven: "(val AND 0x7F) OR push_bit 7 (drop_bit 7 val) = (val :: u64)"
proof (rule bit_eqI)
  fix n
  assume "possible_bit TYPE(64 word) n"
  then show "bit ((val AND 0x7F) OR push_bit 7 (drop_bit 7 val)) n \<longleftrightarrow> bit val n"
    using bit_127 [where 'a = 64, of n]
    by (cases "n < 7") (auto simp: bit_or_iff bit_and_iff bit_push_bit_iff bit_drop_bit_eq)
qed

lemma small_byte: "\<not> val \<ge> 0x80 \<Longrightarrow> ucast (ucast (val :: u64) :: u8) = val \<and> (ucast val :: u8) < 0x80"
proof -
  assume "\<not> val \<ge> 0x80"
  then have v: "unat val < 128" by (simp add: word_le_nat_alt)
  then have u: "unat (ucast val :: u8) = unat val"
    using unat_ucast_mod [of val, where 'b = 8] by simp
  then have "unat (ucast (ucast val :: u8) :: u64) = unat val"
    using v unat_ucast_mod [of "ucast val :: u8", where 'b = 64] by simp
  with u v show ?thesis by (metis byte_less word_unat_eq_iff)
qed

lemma and_seven_small: "\<not> val \<ge> 0x80 \<Longrightarrow> (val AND 0x7F) = (val :: u64)"
proof -
  assume "\<not> val \<ge> 0x80"
  then have "unat val < 128" by (simp add: word_le_nat_alt)
  then show ?thesis by (simp add: word_unat_eq_iff low_seven)
qed

lemma read_varint_loop: "read_varint (varint_loop val @ rest) = Ok (val, rest)"
proof (induction val rule: varint_loop.induct)
  case (1 val)
  show ?case
  proof (cases "val \<ge> 0x80")
    case True
    then show ?thesis
      using "1.IH" [OF True] cont_byte [of val] split_seven [of val]
      by (simp add: varint_loop.simps [of val])
  next
    case False
    then show ?thesis
      using small_byte [OF False] and_seven_small [OF False]
      by (simp add: varint_loop.simps [of val])
  qed
qed

lemma read_write_varint: "read_varint (write_varint val @ rest) = Ok (val, rest)"
  using read_varint_loop [of val rest] small_byte [of val]
  by (auto simp: write_varint_def)

interpretation varint: byte_codec write_varint read_varint "\<lambda>_. True"
  by unfold_locales (rule read_write_varint)

lemma length_varint_loop: "unat val < 128 ^ n \<Longrightarrow> 0 < n \<Longrightarrow> length (varint_loop val) \<le> n"
proof (induction val arbitrary: n rule: varint_loop.induct)
  case (1 val)
  show ?case
  proof (cases "val \<ge> 0x80")
    case True
    then have v: "128 \<le> unat val" by (simp add: word_le_nat_alt)
    obtain m where m: "n = Suc m" "0 < m"
      using "1.prems" v by (cases n; cases "n - 1") auto
    have "unat (drop_bit 7 val) < 128 ^ m"
      using "1.prems" m by (simp add: unat_drop_bit less_mult_imp_div_less mult.commute)
    then show ?thesis
      using "1.IH" [OF True, of m] m True by (simp add: varint_loop.simps [of val])
  qed (use "1.prems" in \<open>simp add: varint_loop.simps [of val]\<close>)
qed

lemma length_write_varint: "1 \<le> length (write_varint val)" "length (write_varint val) \<le> 10"
proof -
  show "1 \<le> length (write_varint val)"
    by (auto simp: write_varint_def varint_loop.simps [of val])
  have "unat val < 128 ^ 10" using unat_u64_less [of val] by simp
  from length_varint_loop [OF this] show "length (write_varint val) \<le> 10"
    by (simp add: write_varint_def)
qed

section \<open>Properties\<close>

text \<open>
  Every 64-bit value is written in 1 to 10 bytes, and the bytes decode to the value from any
  position of a stream, leaving the rest unread: no varint is a prefix of another.
\<close>

theorem varint_roundtrip:
  "read_varint (write_varint val @ rest) = Ok (val, rest) \<and>
   length (write_varint val) \<in> {1..10} \<and>
   (write_varint v @ r = write_varint w @ s \<longleftrightarrow> v = w \<and> r = s)"
  using read_write_varint length_write_varint [of val] varint.enc_prefix_free by auto

end
