(* ===== verification/Pm_Directory.thy ===== *)
theory Pm_Directory
  imports Varint
begin

text \<open>
  The directories of a PMTiles archive (\<open>pmtiles/writer.rs\<close>): \<open>Entry\<close>, \<open>encode_directory\<close> and
  \<open>build_leaf_directories\<close>, with a reference reader of the format (decode a directory, find the
  entry of a tile, follow a leaf pointer). The gzip compressor (libdeflater) is a parameter.
\<close>

section \<open>Entries and their encoding\<close>

record dir_entry =
  de_tile_id :: u64
  de_offset :: u64
  de_length :: u32
  de_run_length :: u32

text \<open>The four loops of \<open>encode_directory\<close>.\<close>

fun dir_id_bytes :: "u64 \<Rightarrow> dir_entry list \<Rightarrow> bytes" where
  "dir_id_bytes last_id [] = []"
| "dir_id_bytes last_id (e # es) = write_varint (de_tile_id e - last_id) @ dir_id_bytes (de_tile_id e) es"

fun dir_run_bytes :: "dir_entry list \<Rightarrow> bytes" where
  "dir_run_bytes [] = []"
| "dir_run_bytes (e # es) = write_varint (ucast (de_run_length e)) @ dir_run_bytes es"

fun dir_length_bytes :: "dir_entry list \<Rightarrow> bytes" where
  "dir_length_bytes [] = []"
| "dir_length_bytes (e # es) = write_varint (ucast (de_length e)) @ dir_length_bytes es"

fun dir_offset_bytes :: "dir_entry option \<Rightarrow> dir_entry list \<Rightarrow> bytes" where
  "dir_offset_bytes prev [] = []"
| "dir_offset_bytes prev (e # es) =
     (case prev of
        Some p \<Rightarrow>
          (if de_offset e = de_offset p + ucast (de_length p) then write_varint 0
           else write_varint (de_offset e + 1))
      | None \<Rightarrow> write_varint (de_offset e + 1)) @ dir_offset_bytes (Some e) es"

definition directory_bytes :: "dir_entry list \<Rightarrow> bytes" where
  "directory_bytes entries =
     write_varint (word_of_nat (length entries)) @ dir_id_bytes 0 entries @ dir_run_bytes entries
       @ dir_length_bytes entries @ dir_offset_bytes None entries"

type_synonym gzip = "bytes \<Rightarrow> rh3_error + bytes"

definition encode_directory :: "gzip \<Rightarrow> dir_entry list \<Rightarrow> rh3_error + bytes" where
  "encode_directory gzip_compress entries = gzip_compress (directory_bytes entries)"

section \<open>Leaf directories\<close>

text \<open>\<open>slice::chunks\<close>, which panics on a chunk size of zero (\<open>None\<close> below).\<close>

function chunks :: "nat \<Rightarrow> 'a list \<Rightarrow> 'a list list" where
  "chunks n xs = (if n = 0 \<or> xs = [] then [] else take n xs # chunks n (drop n xs))"
  by pat_completeness auto
termination by (relation "measure (\<lambda>(n, xs). length xs)") auto

declare chunks.simps [simp del]

fun leaf_loop ::
  "gzip \<Rightarrow> dir_entry list list \<Rightarrow> dir_entry list \<Rightarrow> bytes \<Rightarrow> u64 \<Rightarrow> rh3_error + (dir_entry list \<times> bytes)" where
  "leaf_loop gzip_compress [] root_pointers all_leaf_bytes off = Ok (root_pointers, all_leaf_bytes)"
| "leaf_loop gzip_compress (chunk # cs) root_pointers all_leaf_bytes off =
     (case encode_directory gzip_compress chunk of
        Inl e \<Rightarrow> Err e
      | Inr leaf_bytes \<Rightarrow>
          (let leaf_len = word_of_nat (length leaf_bytes) :: u32
           in leaf_loop gzip_compress cs
                (root_pointers @
                   [\<lparr> de_tile_id = de_tile_id (hd chunk), de_offset = off, de_length = leaf_len, de_run_length = 0 \<rparr>])
                (all_leaf_bytes @ leaf_bytes) (off + ucast leaf_len)))"

definition build_leaf_directories ::
  "gzip \<Rightarrow> dir_entry list \<Rightarrow> nat \<Rightarrow> (rh3_error + (bytes \<times> bytes)) option" where
  "build_leaf_directories gzip_compress entries leaf_size =
     (if leaf_size = 0 then None
      else Some (bind_res (leaf_loop gzip_compress (chunks leaf_size entries) [] [] 0)
                  (\<lambda>(root_pointers, all_leaf_bytes).
                     bind_res (encode_directory gzip_compress root_pointers)
                       (\<lambda>root_bytes. Ok (root_bytes, all_leaf_bytes)))))"

section \<open>A reference reader\<close>

text \<open>The sections back as values, the ids and offsets by running sums.\<close>

fun sum_ids :: "u64 \<Rightarrow> u64 list \<Rightarrow> u64 list" where
  "sum_ids last_id [] = []"
| "sum_ids last_id (d # ds) = (last_id + d) # sum_ids (last_id + d) ds"

fun entries_of :: "dir_entry option \<Rightarrow> u64 list \<Rightarrow> u64 list \<Rightarrow> u64 list \<Rightarrow> u64 list \<Rightarrow> dir_entry list" where
  "entries_of prev (i # ids) (r # rs) (l # ls) (v # vs) =
     (let off = (case prev of
                   Some p \<Rightarrow> (if v = 0 then de_offset p + ucast (de_length p) else v - 1)
                 | None \<Rightarrow> v - 1);
          e = \<lparr> de_tile_id = i, de_offset = off, de_length = ucast l, de_run_length = ucast r \<rparr>
      in e # entries_of (Some e) ids rs ls vs)"
| "entries_of prev _ _ _ _ = []"

definition decode_directory :: "(unit, dir_entry list) reader" where
  "decode_directory =
     bind_p read_varint (\<lambda>n.
     bind_p (replicate_p (unat n) read_varint) (\<lambda>ds.
     bind_p (replicate_p (unat n) read_varint) (\<lambda>rs.
     bind_p (replicate_p (unat n) read_varint) (\<lambda>ls.
     bind_p (replicate_p (unat n) read_varint) (\<lambda>vs.
     return_p (entries_of None (sum_ids 0 ds) rs ls vs))))))"

text \<open>The last entry at or before a tile id.\<close>

fun find_entry :: "dir_entry list \<Rightarrow> u64 \<Rightarrow> dir_entry option" where
  "find_entry [] t = None"
| "find_entry (e # es) t =
     (case find_entry es t of Some r \<Rightarrow> Some r | None \<Rightarrow> if de_tile_id e \<le> t then Some e else None)"

definition byte_slice :: "bytes \<Rightarrow> nat \<Rightarrow> nat \<Rightarrow> bytes" where
  "byte_slice b off len = take len (drop off b)"

text \<open>Decode the directory in a slice of the archive; \<open>gunzip\<close> is the decompressor.\<close>

definition dir_at :: "(bytes \<Rightarrow> bytes option) \<Rightarrow> bytes \<Rightarrow> nat \<Rightarrow> nat \<Rightarrow> dir_entry list option" where
  "dir_at gunzip b off len =
     (case gunzip (byte_slice b off len) of
        None \<Rightarrow> None
      | Some raw \<Rightarrow> (case decode_directory raw of Inr (es, _) \<Rightarrow> Some es | Inl _ \<Rightarrow> None))"

text \<open>
  The entry that covers a tile: from the root, through at most one leaf. \<open>leaves\<close> is the leaf
  section.
\<close>

definition covers :: "dir_entry \<Rightarrow> u64 \<Rightarrow> bool" where
  "covers e t \<longleftrightarrow> t < de_tile_id e + ucast (de_run_length e)"

definition leaf_entry :: "(bytes \<Rightarrow> bytes option) \<Rightarrow> bytes \<Rightarrow> dir_entry list \<Rightarrow> u64 \<Rightarrow> dir_entry option" where
  "leaf_entry gunzip leaves root t =
     (case find_entry root t of
        None \<Rightarrow> None
      | Some e \<Rightarrow>
          (if de_run_length e \<noteq> 0 then (if covers e t then Some e else None)
           else (case dir_at gunzip leaves (unat (de_offset e)) (unat (de_length e)) of
                   None \<Rightarrow> None
                 | Some es \<Rightarrow>
                     (case find_entry es t of
                        None \<Rightarrow> None
                      | Some e' \<Rightarrow> if covers e' t then Some e' else None))))"

section \<open>Directory round trip\<close>

fun id_deltas :: "u64 \<Rightarrow> dir_entry list \<Rightarrow> u64 list" where
  "id_deltas last_id [] = []"
| "id_deltas last_id (e # es) = (de_tile_id e - last_id) # id_deltas (de_tile_id e) es"

fun offset_codes :: "dir_entry option \<Rightarrow> dir_entry list \<Rightarrow> u64 list" where
  "offset_codes prev [] = []"
| "offset_codes prev (e # es) =
     (case prev of
        Some p \<Rightarrow> (if de_offset e = de_offset p + ucast (de_length p) then 0 else de_offset e + 1)
      | None \<Rightarrow> de_offset e + 1) # offset_codes (Some e) es"

lemma id_bytes_deltas: "dir_id_bytes l es = concat (map write_varint (id_deltas l es))"
  by (induction es arbitrary: l) auto

lemma run_bytes_map: "dir_run_bytes es = concat (map write_varint (map (\<lambda>e. ucast (de_run_length e)) es))"
  by (induction es) auto

lemma length_bytes_map: "dir_length_bytes es = concat (map write_varint (map (\<lambda>e. ucast (de_length e)) es))"
  by (induction es) auto

lemma offset_bytes_codes: "dir_offset_bytes p es = concat (map write_varint (offset_codes p es))"
  by (induction es arbitrary: p) (auto split: option.splits)

lemma length_id_deltas [simp]: "length (id_deltas l es) = length es"
  by (induction es arbitrary: l) auto

lemma length_offset_codes [simp]: "length (offset_codes p es) = length es"
  by (induction es arbitrary: p) auto

lemma sum_id_deltas: "sum_ids l (id_deltas l es) = map de_tile_id es"
  by (induction es arbitrary: l) auto

lemma unat_ucast_u32 [simp]: "unat (ucast (x :: u32) :: u64) = unat x"
  using unat_u32_less [of x] unat_ucast_mod [of x, where 'b = 64] by simp

lemma ucast_up_u32 [simp]: "ucast (ucast (x :: u32) :: u64) = x"
  using unat_u32_less [of x] unat_ucast_mod [of "ucast x :: u64", where 'b = 32]
  by (simp add: word_unat_eq_iff)

lemma ucast_unat_u32: "ucast (x :: u32) = (word_of_nat (unat x) :: u64)"
  by (simp add: word_unat_eq_iff unat_word_of_nat_id del: word_of_nat_unat)

lemma unat_Suc_u64: "unat ((a :: u64) + 1) = (if a = - 1 then 0 else Suc (unat a))"
proof -
  have "unat a < 2 ^ 64" by (rule unat_u64_less)
  moreover have "a = - 1 \<longleftrightarrow> unat a = 2 ^ 64 - 1"
    by (simp add: word_unat_eq_iff unsigned_minus_1_eq_mask mask_eq_exp_minus_1)
  ultimately show ?thesis by (simp add: unat_word_ariths)
qed

lemma word_below_Suc: "t < (a :: u64) + 1 \<Longrightarrow> t \<le> a"
  by (auto simp: word_less_nat_alt word_le_nat_alt unat_Suc_u64 split: if_splits)

lemma word_less_Suc: "(a :: u64) \<noteq> - 1 \<Longrightarrow> a < a + 1"
  by (simp add: word_less_nat_alt unat_Suc_u64)

lemma entry_eta [simp]:
  "off = de_offset e \<Longrightarrow>
   \<lparr> de_tile_id = de_tile_id e, de_offset = off, de_length = de_length e, de_run_length = de_run_length e \<rparr> = e"
  by simp

text \<open>The code for a far offset is its successor, so the greatest offset has no code.\<close>

definition offset_ok :: "dir_entry \<Rightarrow> bool" where
  "offset_ok e \<longleftrightarrow> de_offset e \<noteq> - 1"

lemma entries_of_codes:
  "list_all offset_ok es \<Longrightarrow>
   entries_of p (map de_tile_id es) (map (\<lambda>e. ucast (de_run_length e)) es) (map (\<lambda>e. ucast (de_length e)) es)
     (offset_codes p es) = es"
  by (induction es arbitrary: p)
    (auto simp: offset_ok_def eq_neg_iff_add_eq_0 Let_def split: option.splits)

lemma read_varints: "n = length vs \<Longrightarrow> replicate_p n read_varint (concat (map write_varint vs) @ rest) = Ok (vs, rest)"
  using varint.list_roundtrip by simp

lemma decode_directory_bytes:
  assumes "length es < 2 ^ 64" "list_all offset_ok es"
  shows "decode_directory (directory_bytes es @ rest) = Ok (es, rest)"
proof -
  have "unat (word_of_nat (length es) :: u64) = length es"
    using assms(1) by (intro unat_word_of_nat_id) simp
  then show ?thesis
    using entries_of_codes [OF assms(2), of None] sum_id_deltas [of 0 es]
    by (simp add: decode_directory_def directory_bytes_def bind_p_def return_p_def read_write_varint
        id_bytes_deltas run_bytes_map length_bytes_map offset_bytes_codes read_varints del: map_map)
qed

section \<open>Finding an entry\<close>

lemma find_entry_append:
  "find_entry (xs @ ys) t = (case find_entry ys t of Some r \<Rightarrow> Some r | None \<Rightarrow> find_entry xs t)"
  by (induction xs) (auto split: option.splits)

lemma find_entry_None: "find_entry es t = None \<longleftrightarrow> (\<forall>e\<in>set es. \<not> de_tile_id e \<le> t)"
  by (induction es) (auto split: option.splits)

abbreviation ids_sorted :: "dir_entry list \<Rightarrow> bool" where
  "ids_sorted es \<equiv> sorted (map de_tile_id es)"

lemma find_entry_sorted:
  "ids_sorted es \<Longrightarrow> find_entry es t = Some e \<Longrightarrow>
     e \<in> set es \<and> de_tile_id e \<le> t \<and> (\<forall>e'\<in>set es. de_tile_id e' \<le> t \<longrightarrow> de_tile_id e' \<le> de_tile_id e)"
proof (induction es)
  case (Cons a es)
  show ?case
  proof (cases "find_entry es t")
    case None
    then show ?thesis using Cons.prems find_entry_None [of es t] by (auto split: if_splits)
  next
    case (Some r)
    then show ?thesis using Cons by auto
  qed
qed simp

text \<open>A pointer stands for a chunk when the leaf section holds the chunk's directory where it points.\<close>

definition points_to :: "(bytes \<Rightarrow> bytes option) \<Rightarrow> bytes \<Rightarrow> dir_entry list \<Rightarrow> dir_entry \<Rightarrow> bool" where
  "points_to gunzip leaves c p \<longleftrightarrow>
     c \<noteq> [] \<and> de_tile_id p = de_tile_id (hd c) \<and> de_run_length p = 0 \<and>
     dir_at gunzip leaves (unat (de_offset p)) (unat (de_length p)) = Some c"

lemma find_through_pointers:
  assumes "list_all2 (points_to gunzip leaves) cs ps" "\<forall>c\<in>set cs. ids_sorted c"
  shows "(find_entry ps t = None \<and> find_entry (concat cs) t = None) \<or>
    (\<exists>p c. find_entry ps t = Some p \<and> points_to gunzip leaves c p \<and> find_entry (concat cs) t = find_entry c t
       \<and> find_entry c t \<noteq> None)"
  using assms
proof (induction cs ps rule: list_all2_induct)
  case (Cons c cs p ps)
  show ?case
  proof (cases "find_entry ps t")
    case None
    then have none: "find_entry (concat cs) t = None" using Cons by auto
    show ?thesis
    proof (cases "de_tile_id p \<le> t")
      case True
      then have "find_entry c t \<noteq> None"
        using Cons.hyps unfolding find_entry_None points_to_def by (metis hd_in_set)
      then show ?thesis using None none True Cons.hyps by (auto simp: find_entry_append)
    next
      case False
      have "\<forall>e\<in>set c. de_tile_id (hd c) \<le> de_tile_id e"
        using Cons.prems by (cases c) auto
      then have "find_entry c t = None"
        using False Cons.hyps unfolding find_entry_None points_to_def by (metis order_trans)
      then show ?thesis using None none False by (auto simp: find_entry_append)
    qed
  next
    case (Some q)
    then show ?thesis using Cons by (auto simp: find_entry_append)
  qed
qed simp

section \<open>Chunks\<close>

lemma concat_chunks: "0 < n \<Longrightarrow> concat (chunks n xs) = xs"
proof (induction n xs rule: chunks.induct)
  case (1 n xs)
  then show ?case by (cases "xs = []") (simp_all add: chunks.simps [of n xs] chunks.simps [of n "[]"])
qed

lemma chunks_bounds: "c \<in> set (chunks n xs) \<Longrightarrow> c \<noteq> [] \<and> length c \<le> n"
proof (induction n xs rule: chunks.induct)
  case (1 n xs)
  then show ?case by (cases "n = 0 \<or> xs = []") (auto simp: chunks.simps [of n xs])
qed

lemma length_chunks: "length (chunks n xs) \<le> length xs"
proof (induction n xs rule: chunks.induct)
  case (1 n xs)
  then show ?case by (cases "n = 0 \<or> xs = []") (auto simp: chunks.simps [of n xs] Suc_le_eq neq_Nil_conv)
qed

lemma sorted_chunks:
  assumes "0 < n" "ids_sorted es" "c \<in> set (chunks n es)"
  shows "ids_sorted c"
proof -
  obtain ys zs where "concat (chunks n es) = ys @ c @ zs"
    using split_list [OF assms(3)] by auto
  then have "es = ys @ c @ zs" using concat_chunks [OF assms(1)] by metis
  then show ?thesis using assms(2) by (simp add: sorted_append)
qed

section \<open>The compressor's contract\<close>

text \<open>
  What the archive relies on: the decompressor inverts the compressor, and the output is bounded
  (libdeflate's bound is far below this one).
\<close>

definition gzip_contract :: "gzip \<Rightarrow> (bytes \<Rightarrow> bytes option) \<Rightarrow> bool" where
  "gzip_contract gzip_compress gunzip \<longleftrightarrow>
     (\<forall>b c. gzip_compress b = Ok c \<longrightarrow> gunzip c = Some b \<and> length c \<le> 2 * length b + 1024)"

lemma gzip_contractD:
  "gzip_contract gz gunzip \<Longrightarrow> gz b = Ok c \<Longrightarrow> gunzip c = Some b \<and> length c \<le> 2 * length b + 1024"
  by (simp add: gzip_contract_def)

lemma length_varints: "length (concat (map write_varint vs)) \<le> 10 * length vs"
  using length_write_varint(2) by (induction vs) (auto intro: add_mono)

lemma length_directory_bytes: "length (directory_bytes es) \<le> 10 + 40 * length es"
  using length_write_varint(2) [of "word_of_nat (length es)"]
    length_varints [of "id_deltas 0 es"] length_varints [of "map (\<lambda>e. ucast (de_run_length e)) es"]
    length_varints [of "map (\<lambda>e. ucast (de_length e)) es"] length_varints [of "offset_codes None es"]
  by (simp add: directory_bytes_def id_bytes_deltas run_bytes_map length_bytes_map offset_bytes_codes del: map_map)

section \<open>Two levels are one directory\<close>

lemma slice_append: "length b = n \<Longrightarrow> byte_slice (a @ b @ c) (length a) n = b"
  by (simp add: byte_slice_def)

lemma dir_at_slice:
  assumes "gzip_contract gz gunzip" "encode_directory gz es = Ok b"
    and "length es < 2 ^ 64" "list_all offset_ok es"
  shows "dir_at gunzip (pre @ b @ suf) (length pre) (length b) = Some es"
  using gzip_contractD [OF assms(1), of "directory_bytes es" b] assms(2-)
    decode_directory_bytes [OF assms(3,4), of "[]"]
  by (simp add: dir_at_def slice_append encode_directory_def)

lemma leaf_loop_points:
  assumes "gzip_contract gz gunzip"
    and "leaf_loop gz cs ptrs bs off = Ok (root, leaves)"
    and "\<forall>c\<in>set cs. c \<noteq> [] \<and> length c \<le> 4096 \<and> list_all offset_ok c"
    and "off = word_of_nat (length bs)" "length leaves < 2 ^ 64 - 1"
  shows "\<exists>new more. root = ptrs @ new \<and> leaves = bs @ more \<and> list_all2 (points_to gunzip leaves) cs new
    \<and> list_all offset_ok new"
  using assms(2-)
proof (induction cs arbitrary: ptrs bs off)
  case (Cons c cs)
  obtain b where b: "encode_directory gz c = Ok b"
    using Cons.prems(1) by (cases "encode_directory gz c") auto
  let ?len = "word_of_nat (length b) :: u32"
  let ?p = "\<lparr> de_tile_id = de_tile_id (hd c), de_offset = off, de_length = ?len, de_run_length = 0 \<rparr>"
  have small: "length b \<le> 330000"
  proof -
    have "length b \<le> 2 * length (directory_bytes c) + 1024"
      using gzip_contractD [OF assms(1)] b by (simp add: encode_directory_def)
    moreover have "40 * length c \<le> 163840" using Cons.prems(2) by simp
    ultimately show ?thesis using length_directory_bytes [of c] by linarith
  qed
  then have len: "unat ?len = length b" by (intro unat_word_of_nat_id) simp
  have off': "off + ucast ?len = word_of_nat (length (bs @ b))"
    using len Cons.prems(3) ucast_unat_u32 [of ?len] by simp
  have "leaf_loop gz cs (ptrs @ [?p]) (bs @ b) (off + ucast ?len) = Ok (root, leaves)"
    using Cons.prems(1) b by (simp add: Let_def)
  then obtain new more where new: "root = (ptrs @ [?p]) @ new" "leaves = (bs @ b) @ more"
      "list_all2 (points_to gunzip leaves) cs new" "list_all offset_ok new"
    using Cons.IH [of "ptrs @ [?p]" "bs @ b" "off + ucast ?len"] Cons.prems(2,4) off' by auto
  have ob: "unat off = length bs"
    using Cons.prems(3,4) new(2) by (auto intro!: unat_word_of_nat_id)
  have "unat off < 2 ^ 64 - 1" using ob Cons.prems(4) new(2) by simp
  then have "off \<noteq> - 1" by (auto simp: unsigned_minus_1_eq_mask mask_eq_exp_minus_1)
  moreover have "dir_at gunzip leaves (length bs) (length b) = Some c"
    using dir_at_slice [OF assms(1) b, of bs more] Cons.prems(2) new(2) by auto
  ultimately have "points_to gunzip leaves c ?p \<and> offset_ok ?p"
    using Cons.prems(2) ob len by (simp add: points_to_def offset_ok_def)
  then show ?case using new by auto
qed auto

definition flat_entry :: "dir_entry list \<Rightarrow> u64 \<Rightarrow> dir_entry option" where
  "flat_entry es t = (case find_entry es t of None \<Rightarrow> None | Some e \<Rightarrow> if covers e t then Some e else None)"

lemma leaf_entry_flat:
  assumes "list_all (\<lambda>e. de_run_length e \<noteq> 0) es" "ids_sorted es"
  shows "leaf_entry gunzip leaves es t = flat_entry es t"
  using find_entry_sorted [OF assms(2), of t] assms(1)
  by (auto simp: leaf_entry_def flat_entry_def list_all_iff split: option.splits)

lemma leaf_entry_pointers:
  assumes "list_all2 (points_to gunzip leaves) cs ps" "\<forall>c\<in>set cs. ids_sorted c"
  shows "leaf_entry gunzip leaves ps t = flat_entry (concat cs) t"
  using find_through_pointers [OF assms, of t]
  by (auto simp: leaf_entry_def flat_entry_def points_to_def split: option.splits)

lemma build_leaf_directories_lookup:
  assumes "gzip_contract gz gunzip" "0 < n" "n \<le> 4096"
    and "build_leaf_directories gz es n = Some (Ok (root_bytes, leaves))"
    and "ids_sorted es" "list_all offset_ok es" "length es < 2 ^ 64" "length leaves < 2 ^ 64 - 1"
  shows "\<exists>root. dir_at gunzip (pre @ root_bytes @ suf) (length pre) (length root_bytes) = Some root \<and>
    (\<forall>t. leaf_entry gunzip leaves root t = flat_entry es t)"
proof -
  obtain root where root: "leaf_loop gz (chunks n es) [] [] 0 = Ok (root, leaves)"
      "encode_directory gz root = Ok root_bytes"
    using assms(2,4) by (auto simp: build_leaf_directories_def)
  have cs: "\<forall>c\<in>set (chunks n es). c \<noteq> [] \<and> length c \<le> 4096 \<and> list_all offset_ok c"
  proof
    fix c
    assume c: "c \<in> set (chunks n es)"
    then have "set c \<subseteq> set es" using concat_chunks [OF assms(2), of es] by (metis UN_upper set_concat)
    then show "c \<noteq> [] \<and> length c \<le> 4096 \<and> list_all offset_ok c"
      using chunks_bounds [OF c] assms(3,6) by (auto simp: list_all_iff)
  qed
  have pts: "list_all2 (points_to gunzip leaves) (chunks n es) root \<and> list_all offset_ok root"
    using leaf_loop_points [OF assms(1) root(1) cs] assms(8) by simp
  then have "length root < 2 ^ 64"
    using list_all2_lengthD length_chunks [of n es] assms(7) by force
  then have "dir_at gunzip (pre @ root_bytes @ suf) (length pre) (length root_bytes) = Some root"
    using dir_at_slice [OF assms(1) root(2)] pts by simp
  moreover have "leaf_entry gunzip leaves root t = flat_entry es t" for t
    using leaf_entry_pointers [of gunzip leaves "chunks n es" root t] pts sorted_chunks [OF assms(2,5)]
      concat_chunks [OF assms(2), of es] by simp
  ultimately show ?thesis by blast
qed

section \<open>Properties\<close>

text \<open>
  C27. Splitting a directory into leaves changes nothing a reader sees: for every sorted directory
  and every leaf size up to 4096, looking a tile id up through the root pointers and the leaf
  they lead to gives the same entry, or the same absence, as looking it up in the unsplit
  directory.
\<close>

theorem leaf_directories_equivalent:
  assumes "gzip_contract gz gunzip" "0 < n" "n \<le> 4096"
    and "sorted (map de_tile_id es)" "\<forall>e\<in>set es. de_offset e \<noteq> - 1" "length es < 2 ^ 64"
    and "build_leaf_directories gz es n = Some (Ok (root_bytes, leaves))" "length leaves < 2 ^ 64 - 1"
  shows "\<exists>root. dir_at gunzip root_bytes 0 (length root_bytes) = Some root \<and>
    (\<forall>t. leaf_entry gunzip leaves root t = flat_entry es t)"
  using build_leaf_directories_lookup [OF assms(1-3) assms(7) assms(4) _ assms(6,8), of "[]" "[]"] assms(5)
  by (simp add: list_all_iff offset_ok_def)

definition sample_directory :: "dir_entry list" where
  "sample_directory =
     map (\<lambda>i. \<lparr> de_tile_id = word_of_nat i, de_offset = word_of_nat (10 * i), de_length = 10, de_run_length = 1 \<rparr>)
       [0, 1, 5]"

lemma sample_leaves:
  "build_leaf_directories Ok sample_directory 2 =
     Some (Ok ([2, 0, 5, 0, 0, 9, 5, 1, 0], [2, 0, 1, 1, 1, 10, 10, 1, 0, 1, 5, 1, 10, 51]))"
  by code_simp

theorem leaf_directories_equivalent_witness:
  "\<exists>root_bytes leaves root. build_leaf_directories Ok sample_directory 2 = Some (Ok (root_bytes, leaves)) \<and>
    dir_at Some root_bytes 0 (length root_bytes) = Some root \<and>
    (\<forall>t. leaf_entry Some leaves root t = flat_entry sample_directory t)"
proof -
  have "\<exists>root. dir_at Some [2, 0, 5, 0, 0, 9, 5, 1, 0] 0 (length ([2, 0, 5, 0, 0, 9, 5, 1, 0] :: bytes)) = Some root \<and>
    (\<forall>t. leaf_entry Some [2, 0, 1, 1, 1, 10, 10, 1, 0, 1, 5, 1, 10, 51] root t = flat_entry sample_directory t)"
    by (rule leaf_directories_equivalent [OF _ _ _ _ _ _ sample_leaves])
      (simp_all add: gzip_contract_def sample_directory_def)
  then show ?thesis using sample_leaves by blast
qed

end
