(* ===== verification/Hilbert.thy ===== *)
theory Hilbert
  imports Rust_Prelude
begin

text \<open>
  The PMTiles tile numbering of \<open>pmtiles/writer.rs\<close>: \<open>zxy_to_tile_id\<close> walks the Hilbert curve
  from the largest quadrant down, \<open>tile_id_to_zxy\<close> from the smallest up. The 64-bit values are
  naturals; the shifts and sums that would overflow (zoom 32 and above) are \<open>None\<close>.
\<close>

section \<open>Tile to number\<close>

text \<open>One turn of the \<open>while s > 0\<close> loop: the digit added and the coordinates in the quadrant.\<close>

definition quadrant_bit :: "nat \<Rightarrow> nat \<Rightarrow> nat" where
  "quadrant_bit t s = (if t AND s > 0 then 1 else 0)"

definition rotate_in :: "nat \<Rightarrow> nat \<Rightarrow> nat \<Rightarrow> nat \<times> nat \<Rightarrow> nat \<times> nat" where
  "rotate_in s rx ry = (\<lambda>(lx, ly).
     if ry = 0
     then (let (lx, ly) = (if rx = 1 then (s - 1 - lx, s - 1 - ly) else (lx, ly)) in (ly, lx))
     else (lx, ly))"

function hilbert_loop :: "nat \<Rightarrow> nat \<Rightarrow> nat \<Rightarrow> nat \<Rightarrow> nat" where
  "hilbert_loop s tx ty d =
     (if s > 0
      then (let rx = quadrant_bit tx s; ry = quadrant_bit ty s;
                (lx, ly) = rotate_in s rx ry (tx AND (s - 1), ty AND (s - 1))
            in hilbert_loop (s div 2) lx ly (d + s * s * ((3 * rx) XOR ry)))
      else d)"
  by pat_completeness auto
termination by (relation "measure (\<lambda>(s, _). s)") auto

declare hilbert_loop.simps [simp del]

definition tile_id_base :: "nat \<Rightarrow> nat" where
  "tile_id_base z = (2 ^ (2 * z) - 1) div 3"

definition zxy_to_tile_id :: "nat \<Rightarrow> nat \<Rightarrow> nat \<Rightarrow> nat option" where
  "zxy_to_tile_id z x y =
     (if z = 0 then Some 0
      else if z \<ge> 32 then None
      else Some (tile_id_base z + hilbert_loop (2 ^ (z - 1)) x y 0))"

section \<open>Number to tile\<close>

fun bit_length :: "nat \<Rightarrow> nat" where
  "bit_length n = (if n = 0 then 0 else Suc (bit_length (n div 2)))"

declare bit_length.simps [simp del]

definition leading_zeros :: "nat \<Rightarrow> nat" where
  "leading_zeros c = 64 - bit_length c"

definition tile_id_to_z :: "nat \<Rightarrow> nat option" where
  "tile_id_to_z i =
     (let c = 3 * i + 1
      in if c \<ge> 2 ^ 64 then None else Some ((63 - leading_zeros c) div 2))"

definition rotate_out :: "nat \<Rightarrow> nat \<Rightarrow> nat \<Rightarrow> nat \<times> nat \<Rightarrow> nat \<times> nat" where
  "rotate_out s rx ry = (\<lambda>(x, y).
     if ry = 0
     then (let (x, y) = (if rx = 1 then (s - 1 - x, s - 1 - y) else (x, y)) in (y, x))
     else (x, y))"

text \<open>The loop \<open>while s < 1 << z\<close>: \<open>s\<close> doubles from 1, so it runs \<open>z\<close> times; \<open>n\<close> counts the turns left.\<close>

fun unhilbert_loop :: "nat \<Rightarrow> nat \<Rightarrow> nat \<Rightarrow> nat \<Rightarrow> nat \<Rightarrow> nat \<times> nat" where
  "unhilbert_loop 0 s t x y = (x, y)"
| "unhilbert_loop (Suc n) s t x y =
     (let rx = 1 AND (t div 2); ry = 1 AND (t XOR rx);
          (x', y') = rotate_out s rx ry (x, y)
      in unhilbert_loop n (2 * s) (t div 4) (x' + s * rx) (y' + s * ry))"

definition tile_id_to_zxy :: "nat \<Rightarrow> (nat \<times> nat \<times> nat) option" where
  "tile_id_to_zxy i =
     (if i = 0 then Some (0, 0, 0)
      else (case tile_id_to_z i of
              None \<Rightarrow> None
            | Some z \<Rightarrow> (let (x, y) = unhilbert_loop z 1 (i - tile_id_base z) 0 0 in Some (z, x, y))))"

section \<open>The curve as a recursion on the zoom\<close>

text \<open>The digit of a quadrant and back.\<close>

definition quad_digit :: "nat \<Rightarrow> nat \<Rightarrow> nat" where
  "quad_digit rx ry = (3 * rx) XOR ry"

lemma quad_digit_simps [simp]:
  "quad_digit 0 0 = 0" "quad_digit 0 (Suc 0) = 1" "quad_digit (Suc 0) (Suc 0) = 2" "quad_digit (Suc 0) 0 = 3"
  by (simp_all add: quad_digit_def)

fun hil :: "nat \<Rightarrow> nat \<Rightarrow> nat \<Rightarrow> nat" where
  "hil 0 x y = 0"
| "hil (Suc k) x y =
     (let rx = x div 2 ^ k mod 2; ry = y div 2 ^ k mod 2;
          (lx, ly) = rotate_in (2 ^ k) rx ry (x mod 2 ^ k, y mod 2 ^ k)
      in quad_digit rx ry * 4 ^ k + hil k lx ly)"

fun unhil :: "nat \<Rightarrow> nat \<Rightarrow> nat \<times> nat" where
  "unhil 0 t = (0, 0)"
| "unhil (Suc k) t =
     (let d = t div 4 ^ k mod 4; rx = d div 2; ry = (if d = 1 \<or> d = 2 then 1 else 0);
          (x, y) = rotate_out (2 ^ k) rx ry (unhil k t)
      in (x + 2 ^ k * rx, y + 2 ^ k * ry))"

lemma and_bit_pow: "(t :: nat) AND 2 ^ k = (if bit t k then 2 ^ k else 0)"
  by (rule bit_eqI) (auto simp: bit_and_iff bit_exp_iff)

lemma quadrant_bit_pow: "quadrant_bit t (2 ^ k) = t div 2 ^ k mod 2"
  by (auto simp: quadrant_bit_def and_bit_pow bit_iff_odd mod2_eq_if)

lemma and_low: "(t :: nat) AND (2 ^ k - 1) = t mod 2 ^ k"
proof -
  have "t AND mask k = take_bit k t" by (simp add: take_bit_eq_mask)
  then show ?thesis by (simp add: mask_eq_exp_minus_1 take_bit_eq_mod)
qed

lemma hilbert_loop_step:
  assumes l: "rotate_in (2 ^ k) (x div 2 ^ k mod 2) (y div 2 ^ k mod 2) (x mod 2 ^ k, y mod 2 ^ k) = (lx, ly)"
  shows "hilbert_loop (2 ^ k) x y d =
    hilbert_loop (2 ^ k div 2) lx ly (d + 4 ^ k * quad_digit (x div 2 ^ k mod 2) (y div 2 ^ k mod 2))"
proof -
  have "(2 ^ k :: nat) * 2 ^ k = 4 ^ k"
    by (simp add: power_mult_distrib [symmetric])
  then show ?thesis
    using l by (subst hilbert_loop.simps) (simp add: quadrant_bit_pow and_low [unfolded One_nat_def] quad_digit_def Let_def)
qed

lemma hilbert_loop_hil: "hilbert_loop (2 ^ k) x y d = d + hil (Suc k) x y"
proof (induction k arbitrary: x y d)
  case 0
  obtain lx ly where l: "rotate_in (2 ^ 0) (x div 2 ^ 0 mod 2) (y div 2 ^ 0 mod 2) (x mod 2 ^ 0, y mod 2 ^ 0) = (lx, ly)"
    by fastforce
  show ?case
    using hilbert_loop_step [OF l, of d] l by (simp add: hilbert_loop.simps [of 0] Let_def)
next
  case (Suc k)
  obtain lx ly where l: "rotate_in (2 ^ Suc k) (x div 2 ^ Suc k mod 2) (y div 2 ^ Suc k mod 2)
      (x mod 2 ^ Suc k, y mod 2 ^ Suc k) = (lx, ly)"
    by fastforce
  have "hilbert_loop (2 ^ Suc k) x y d =
      d + 4 ^ Suc k * quad_digit (x div 2 ^ Suc k mod 2) (y div 2 ^ Suc k mod 2) + hil (Suc k) lx ly"
    using hilbert_loop_step [OF l, of d] Suc.IH by simp
  then show ?case
    using l by (simp only: hil.simps(2) [of "Suc k"] Let_def) simp
qed


section \<open>The recursions invert each other\<close>

lemma rotate_bounds:
  "rotate_in s rx ry (x, y) = (a, b) \<Longrightarrow> x < s \<Longrightarrow> y < s \<Longrightarrow> a < s \<and> b < s"
  "rotate_out s rx ry (x, y) = (a, b) \<Longrightarrow> x < s \<Longrightarrow> y < s \<Longrightarrow> a < s \<and> b < s"
  by (auto simp: rotate_in_def rotate_out_def split: if_splits)

lemma rotate_inverse:
  "rotate_in s rx ry (x, y) = (a, b) \<Longrightarrow> x < s \<Longrightarrow> y < s \<Longrightarrow> rotate_out s rx ry (a, b) = (x, y)"
  "rotate_out s rx ry (x, y) = (a, b) \<Longrightarrow> x < s \<Longrightarrow> y < s \<Longrightarrow> rotate_in s rx ry (a, b) = (x, y)"
  by (auto simp: rotate_in_def rotate_out_def split: if_splits)

lemma binary_digit_cases: "(n :: nat) mod 2 = 0 \<or> n mod 2 = Suc 0"
  by presburger

lemma quad_digit_less: "rx \<in> {0, Suc 0} \<Longrightarrow> ry \<in> {0, Suc 0} \<Longrightarrow> quad_digit rx ry < 4"
  by auto

lemma hil_less: "hil k x y < 4 ^ k"
proof (induction k arbitrary: x y)
  case (Suc k)
  obtain lx ly where l: "rotate_in (2 ^ k) (x div 2 ^ k mod 2) (y div 2 ^ k mod 2) (x mod 2 ^ k, y mod 2 ^ k) = (lx, ly)"
    by fastforce
  have "quad_digit (x div 2 ^ k mod 2) (y div 2 ^ k mod 2) < 4"
    by (rule quad_digit_less) (use binary_digit_cases in auto)
  then have "quad_digit (x div 2 ^ k mod 2) (y div 2 ^ k mod 2) * 4 ^ k + 4 ^ k \<le> 4 * 4 ^ k"
    using mult_le_mono1 [of "Suc (quad_digit (x div 2 ^ k mod 2) (y div 2 ^ k mod 2))" 4 "4 ^ k"] by simp
  moreover have "hil (Suc k) x y = quad_digit (x div 2 ^ k mod 2) (y div 2 ^ k mod 2) * 4 ^ k + hil k lx ly"
    using l by simp
  ultimately show ?case
    using Suc.IH [of lx ly] unfolding power_Suc by linarith
qed simp

lemma unhil_less: "unhil k t = (x, y) \<Longrightarrow> x < 2 ^ k \<and> y < 2 ^ k"
proof (induction k arbitrary: x y)
  case (Suc k)
  obtain u v where uv: "unhil k t = (u, v)" by fastforce
  define rx where "rx = t div 4 ^ k mod 4 div 2"
  define ry where "ry = (if t div 4 ^ k mod 4 = 1 \<or> t div 4 ^ k mod 4 = 2 then 1 else 0 :: nat)"
  obtain a b where ab: "rotate_out (2 ^ k) rx ry (u, v) = (a, b)" by fastforce
  have "t div 4 ^ k mod 4 < 4" by simp
  then have "rx \<le> 1" by (simp add: rx_def)
  moreover have "ry \<le> 1" by (simp add: ry_def)
  moreover have "a < 2 ^ k \<and> b < 2 ^ k"
    using rotate_bounds(2) [OF ab] Suc.IH [OF uv] by blast
  moreover have "x = a + 2 ^ k * rx" "y = b + 2 ^ k * ry"
    using Suc.prems uv ab by (simp_all add: Let_def rx_def ry_def)
  ultimately show ?case
    by (auto simp: le_Suc_eq)
qed simp

lemma unhil_cong: "t mod 4 ^ k = u mod 4 ^ k \<Longrightarrow> unhil k t = unhil k u"
proof (induction k)
  case (Suc k)
  have "t mod (4 ^ k * 4) = u mod (4 ^ k * 4)" using Suc.prems by (simp add: mult.commute)
  then have "4 ^ k * (t div 4 ^ k mod 4) + t mod 4 ^ k = 4 ^ k * (u div 4 ^ k mod 4) + u mod 4 ^ k"
    by (simp only: mod_mult2_eq)
  moreover have *: "t mod 4 ^ k = u mod 4 ^ k"
    using Suc.prems by (metis mod_mod_cancel le_imp_power_dvd le_SucI order_refl)
  ultimately have "t div 4 ^ k mod 4 = u div 4 ^ k mod 4" by simp
  then show ?case using Suc.IH [OF *] by simp
qed simp

lemma unhil_hil: "x < 2 ^ k \<Longrightarrow> y < 2 ^ k \<Longrightarrow> unhil k (hil k x y) = (x, y)"
proof (induction k arbitrary: x y)
  case (Suc k)
  define rx where "rx = x div 2 ^ k mod 2"
  define ry where "ry = y div 2 ^ k mod 2"
  obtain lx ly where l: "rotate_in (2 ^ k) rx ry (x mod 2 ^ k, y mod 2 ^ k) = (lx, ly)" by fastforce
  have less: "lx < 2 ^ k \<and> ly < 2 ^ k" by (rule rotate_bounds(1) [OF l]) simp_all
  have undo: "rotate_out (2 ^ k) rx ry (lx, ly) = (x mod 2 ^ k, y mod 2 ^ k)"
    by (rule rotate_inverse(1) [OF l]) simp_all
  let ?d = "quad_digit rx ry" and ?t = "hil (Suc k) x y"
  have t: "?t = ?d * 4 ^ k + hil k lx ly"
    using l by (simp add: rx_def ry_def)
  have bits: "rx \<in> {0, Suc 0}" "ry \<in> {0, Suc 0}"
    using binary_digit_cases by (auto simp: rx_def ry_def)
  then have d: "?d < 4" by (rule quad_digit_less)
  have dig: "?t div 4 ^ k mod 4 = ?d"
    unfolding t using hil_less [of k lx ly] d by simp
  have digits: "?d div 2 = rx" "(if ?d = 1 \<or> ?d = 2 then 1 else 0) = ry"
    using bits by auto
  have low: "unhil k ?t = (lx, ly)"
    using unhil_cong [of ?t k "hil k lx ly"] Suc.IH [of lx ly] less unfolding t by simp
  have xy: "x = x mod 2 ^ k + 2 ^ k * rx" "y = y mod 2 ^ k + 2 ^ k * ry"
  proof -
    have "x div 2 ^ k < 2" "y div 2 ^ k < 2"
      using Suc.prems by (simp_all add: less_mult_imp_div_less)
    then show "x = x mod 2 ^ k + 2 ^ k * rx" "y = y mod 2 ^ k + 2 ^ k * ry"
      by (simp_all add: rx_def ry_def)
  qed
  have "unhil (Suc k) ?t = (x mod 2 ^ k + 2 ^ k * rx, y mod 2 ^ k + 2 ^ k * ry)"
    unfolding unhil.simps Let_def dig digits low undo by simp
  then show ?case using xy by simp
qed simp

lemma hil_unhil: "unhil k t = (x, y) \<Longrightarrow> hil k x y = t mod 4 ^ k"
proof (induction k arbitrary: x y)
  case (Suc k)
  obtain u v where uv: "unhil k t = (u, v)" by fastforce
  define d where "d = t div 4 ^ k mod 4"
  define rx where "rx = d div 2"
  define ry where "ry = (if d = 1 \<or> d = 2 then 1 else 0 :: nat)"
  obtain a b where ab: "rotate_out (2 ^ k) rx ry (u, v) = (a, b)" by fastforce
  have uvl: "u < 2 ^ k" "v < 2 ^ k" using unhil_less [OF uv] by simp_all
  have abl: "a < 2 ^ k" "b < 2 ^ k" using rotate_bounds(2) [OF ab uvl] by simp_all
  have undo: "rotate_in (2 ^ k) rx ry (a, b) = (u, v)" by (rule rotate_inverse(2) [OF ab uvl])
  have d4: "d \<in> {0, 1, 2, 3}" by (auto simp: d_def)
  then have bits: "rx \<in> {0, 1}" "ry \<in> {0, 1}" "quad_digit rx ry = d"
    by (auto simp: rx_def ry_def)
  have x: "x = a + 2 ^ k * rx" and y: "y = b + 2 ^ k * ry"
    using Suc.prems uv ab by (simp_all add: Let_def rx_def ry_def d_def)
  have dx: "x div 2 ^ k mod 2 = rx" "x mod 2 ^ k = a" and dy: "y div 2 ^ k mod 2 = ry" "y mod 2 ^ k = b"
    using abl bits(1,2) by (auto simp: x y)
  have "hil (Suc k) x y = d * 4 ^ k + t mod 4 ^ k"
    unfolding hil.simps Let_def dx dy undo bits(3) using Suc.IH [OF uv] by simp
  also have "\<dots> = t mod 4 ^ Suc k"
    using mod_mult2_eq [of t "4 ^ k" 4] by (simp add: d_def mult.commute)
  finally show ?case .
qed simp

section \<open>The loops run the recursions\<close>

lemma and_1_mod: "Suc 0 AND (n :: nat) = n mod 2"
  using one_and_eq [of n] by simp

lemma xor_mod_2: "((n :: nat) XOR m) mod 2 = (n + m) mod 2"
  using even_xor_iff [of n m] even_add [of n m] by (simp only: mod2_eq_if)

lemma second_digit: "Suc 0 AND ((n :: nat) XOR (n div 2 mod 2)) = (if n mod 4 = 1 \<or> n mod 4 = 2 then 1 else 0)"
  unfolding and_1_mod xor_mod_2 by presburger

lemma unhilbert_loop_unhil:
  "unhilbert_loop n (2 ^ j) (t div 4 ^ j) (fst (unhil j t)) (snd (unhil j t)) = unhil (j + n) t"
proof (induction n arbitrary: j)
  case (Suc n)
  obtain x y where xy: "unhil j t = (x, y)" by fastforce
  define d where "d = t div 4 ^ j mod 4"
  have "(m :: nat) div 2 mod 2 = m mod 4 div 2" for m by presburger
  then have rx': "t div 4 ^ j div 2 mod 2 = d div 2" by (simp only: d_def)
  have rx: "Suc 0 AND (t div 4 ^ j div 2) = d div 2"
    unfolding and_1_mod using rx' .
  have ry: "Suc 0 AND (t div 4 ^ j XOR (d div 2)) = (if d = 1 \<or> d = 2 then 1 else 0)"
    using second_digit [of "t div 4 ^ j"] unfolding rx' d_def .
  have dv: "t div 4 ^ j div 4 = t div 4 ^ Suc j"
    by (simp add: div_mult2_eq [symmetric] mult.commute)
  obtain a b where ab: "rotate_out (2 ^ j) (d div 2) (if d = 1 \<or> d = 2 then 1 else 0) (x, y) = (a, b)"
    by fastforce
  have u: "unhil (Suc j) t = (a + 2 ^ j * (d div 2), b + 2 ^ j * (if d = 1 \<or> d = 2 then 1 else 0))"
    using ab unfolding unhil.simps Let_def xy d_def [symmetric] by simp
  show ?case
    using Suc.IH [of "Suc j"] ab
    unfolding unhilbert_loop.simps Let_def One_nat_def rx ry dv xy fst_conv snd_conv u
    by (simp add: power_Suc [symmetric] del: power_Suc)
qed simp


section \<open>Zoom levels\<close>

lemma three_base: "3 * tile_id_base z + 1 = 4 ^ z"
proof -
  have "(4 :: nat) ^ z mod 3 = 1" by (induction z) (auto simp: mod_mult_right_eq [symmetric])
  then have "3 * ((4 ^ z - 1) div 3) + 1 = (4 :: nat) ^ z" by presburger
  then show ?thesis by (simp add: tile_id_base_def power_mult)
qed

lemma bit_length_bounds: "n > 0 \<Longrightarrow> 2 ^ (bit_length n - 1) \<le> n \<and> n < 2 ^ bit_length n \<and> bit_length n > 0"
proof (induction n rule: bit_length.induct)
  case (1 n)
  show ?case
  proof (cases "n div 2 = 0")
    case True
    then show ?thesis using 1 by (simp add: bit_length.simps [of n] bit_length.simps [of 0])
  next
    case False
    then obtain m where m: "bit_length (n div 2) = Suc m"
      using 1 by (cases "bit_length (n div 2)") auto
    have "2 ^ m \<le> n div 2 \<and> n div 2 < 2 ^ Suc m" using 1 False m by simp
    then show ?thesis using 1(2) m by (auto simp: bit_length.simps [of n])
  qed
qed

lemma bit_length_unique: "2 ^ k \<le> n \<Longrightarrow> n < 2 ^ Suc k \<Longrightarrow> bit_length n = Suc k"
proof -
  assume n: "2 ^ k \<le> n" "n < 2 ^ Suc k"
  have "0 < n" using n(1) by (rule order.strict_trans2 [rotated]) simp
  then have b: "2 ^ (bit_length n - 1) \<le> n" "n < 2 ^ bit_length n" "bit_length n > 0"
    using bit_length_bounds by blast+
  have "k < bit_length n" using le_less_trans [OF n(1) b(2)] by simp
  moreover have "bit_length n - 1 < Suc k" using le_less_trans [OF b(1) n(2)] by (rule power_less_imp_less_exp [rotated]) simp
  ultimately show ?thesis by simp
qed

text \<open>The numbers of level \<open>z\<close> are those whose triple plus one lies between two powers of four.\<close>

lemma tile_id_to_z_level:
  assumes "z \<le> 31" "t < 4 ^ z"
  shows "tile_id_to_z (tile_id_base z + t) = Some z"
proof -
  let ?c = "3 * (tile_id_base z + t) + 1"
  have c: "?c = 4 ^ z + 3 * t" using three_base [of z] by simp
  then have lo: "2 ^ (2 * z) \<le> ?c" and hi: "?c < 2 ^ (2 * z + 2)"
    using assms(2) by (simp_all add: power_mult)
  have "(2 :: nat) ^ (2 * z + 2) \<le> 2 ^ 64" using assms(1) by (intro power_increasing) simp_all
  then have "?c < 2 ^ 64" using hi by linarith
  moreover have "bit_length ?c = 2 * z + 1 \<or> bit_length ?c = 2 * z + 2"
  proof (cases "?c < 2 ^ Suc (2 * z)")
    case True
    then show ?thesis using bit_length_unique [OF lo True] by simp
  next
    case False
    then show ?thesis using bit_length_unique [of "Suc (2 * z)" ?c] hi by simp
  qed
  ultimately show ?thesis using assms(1) by (auto simp: tile_id_to_z_def leading_zeros_def Let_def)
qed

lemma level_of:
  assumes "i < tile_id_base 32"
  obtains z t where "z \<le> 31" "t < 4 ^ z" "i = tile_id_base z + t"
proof -
  define z where "z = (LEAST z. i < tile_id_base (Suc z))"
  have ex: "i < tile_id_base (Suc 31)" using assms by simp
  have hi: "i < tile_id_base (Suc z)" unfolding z_def using LeastI [of "\<lambda>z. i < tile_id_base (Suc z)", OF ex] .
  have z: "z \<le> 31" unfolding z_def using Least_le [of "\<lambda>z. i < tile_id_base (Suc z)", OF ex] .
  have lo: "tile_id_base z \<le> i"
  proof (cases z)
    case 0 then show ?thesis by (simp add: tile_id_base_def)
  next
    case (Suc w)
    then have "\<not> i < tile_id_base (Suc w)"
      using not_less_Least [of w "\<lambda>z. i < tile_id_base (Suc z)"] by (simp add: z_def)
    then show ?thesis using Suc by simp
  qed
  have "3 * tile_id_base (Suc z) + 1 = 4 * (3 * tile_id_base z + 1)"
    unfolding three_base by simp
  then have "tile_id_base (Suc z) = tile_id_base z + (3 * tile_id_base z + 1)" by simp
  then have "i - tile_id_base z < 4 ^ z" using hi lo three_base [of z] by linarith
  then show ?thesis using that z lo by simp
qed

lemma unhilbert_loop_start: "unhilbert_loop z 1 t 0 0 = unhil z t"
  using unhilbert_loop_unhil [of z 0 t] by simp

lemma zxy_to_tile_id_hil: "z < 32 \<Longrightarrow> zxy_to_tile_id z x y = Some (tile_id_base z + hil z x y)"
proof (cases z)
  case (Suc k)
  assume "z < 32"
  then show ?thesis
    using Suc hilbert_loop_hil [of k x y 0] by (simp add: zxy_to_tile_id_def del: hil.simps)
qed (simp add: zxy_to_tile_id_def tile_id_base_def)

lemma tile_id_to_zxy_unhil:
  assumes "z \<le> 31" "t < 4 ^ z"
  shows "tile_id_to_zxy (tile_id_base z + t) = (case unhil z t of (x, y) \<Rightarrow> Some (z, x, y))"
proof (cases "tile_id_base z + t = 0")
  case True
  then have "z = 0" using three_base [of z] by (cases z) auto
  then show ?thesis using True by (simp add: tile_id_to_zxy_def)
next
  case False
  then show ?thesis
    using tile_id_to_z_level [OF assms] by (auto simp: tile_id_to_zxy_def unhilbert_loop_start [unfolded One_nat_def])
qed

section \<open>Properties\<close>

text \<open>
  C35. The two directions of the tile numbering agree: for every zoom up to 31 and every tile of
  that zoom, decoding the number \<open>zxy_to_tile_id\<close> gives returns the tile.
\<close>

theorem tile_id_roundtrip:
  assumes "z \<le> 31" "x < 2 ^ z" "y < 2 ^ z"
  shows "Option.bind (zxy_to_tile_id z x y) tile_id_to_zxy = Some (z, x, y)"
  using assms zxy_to_tile_id_hil [of z x y] tile_id_to_zxy_unhil [of z "hil z x y"] hil_less [of z x y] unhil_hil [of x z y]
  by simp

lemma tile_id_roundtrip_witness:
  "Option.bind (zxy_to_tile_id 3 5 2) tile_id_to_zxy = Some (3, 5, 2)"
  by (rule tile_id_roundtrip) simp_all

text \<open>
  C36. Every number below the first one of zoom 32 is the number of exactly one tile: it decodes to a
  tile inside its zoom, and encoding that tile gives the number back, so the directory's tile
  ids are a bijection with the tiles of the pyramid.
\<close>

theorem tile_id_surjective:
  assumes "i < (4 ^ 32 - 1) div 3"
  shows "\<exists>z x y. tile_id_to_zxy i = Some (z, x, y) \<and> z \<le> 31 \<and> x < 2 ^ z \<and> y < 2 ^ z
    \<and> zxy_to_tile_id z x y = Some i"
proof -
  have "i < tile_id_base 32" using assms by (simp add: tile_id_base_def)
  then obtain z t where zt: "z \<le> 31" "t < 4 ^ z" "i = tile_id_base z + t" by (rule level_of)
  obtain x y where xy: "unhil z t = (x, y)" by fastforce
  show ?thesis
    using zt tile_id_to_zxy_unhil [OF zt(1,2)] xy unhil_less [OF xy] hil_unhil [OF xy] zxy_to_tile_id_hil [of z x y]
    by auto
qed

lemma tile_id_surjective_witness:
  "\<exists>z x y. tile_id_to_zxy 77 = Some (z, x, y) \<and> z \<le> 31 \<and> x < 2 ^ z \<and> y < 2 ^ z
    \<and> zxy_to_tile_id z x y = Some 77"
  by (rule tile_id_surjective) simp

end
