(* ===== verification/Pmtiles_Writer.thy ===== *)
theory Pmtiles_Writer
  imports Pm_Directory Hilbert Float64 Rust_Str
begin

text \<open>
  The PMTiles archive builder (\<open>pmtiles/writer.rs\<close>): \<open>PmtilesWriter\<close> spills tiles in the order
  they come, \<open>finish_into\<close> sorts their entries by tile id, writes the header, the directories,
  the metadata and the tiles. The spill file and the output are their bytes (the calls that fail
  only because a disk does are left out); the gzip compressor is a parameter.
\<close>

section \<open>The writer\<close>

record spill_entry =
  se_tile_id :: u64
  se_spill_offset :: u64
  se_length :: u32

record pmtiles_writer =
  pw_spill_file :: bytes
  pw_entries :: "spill_entry list"
  pw_current_spill_offset :: u64
  pw_min_zoom :: u8
  pw_max_zoom :: u8
  pw_min_lon :: f64
  pw_min_lat :: f64
  pw_max_lon :: f64
  pw_max_lat :: f64
  pw_metadata_json :: rstr

type_synonym bbox = "f64 \<times> f64 \<times> f64 \<times> f64"

definition pw_new :: "u8 \<Rightarrow> u8 \<Rightarrow> bbox \<Rightarrow> rstr \<Rightarrow> pmtiles_writer" where
  "pw_new min_zoom max_zoom bb metadata_json =
     (case bb of (b0, b1, b2, b3) \<Rightarrow>
        \<lparr> pw_spill_file = [], pw_entries = [], pw_current_spill_offset = 0,
          pw_min_zoom = min_zoom, pw_max_zoom = max_zoom,
          pw_min_lon = b0, pw_min_lat = b1, pw_max_lon = b2, pw_max_lat = b3,
          pw_metadata_json = metadata_json \<rparr>)"

definition pw_set_metadata :: "bbox \<Rightarrow> rstr \<Rightarrow> pmtiles_writer \<Rightarrow> pmtiles_writer" where
  "pw_set_metadata bb metadata_json w =
     (case bb of (b0, b1, b2, b3) \<Rightarrow>
        w\<lparr> pw_min_lon := b0, pw_min_lat := b1, pw_max_lon := b2, pw_max_lat := b3,
           pw_metadata_json := metadata_json \<rparr>)"

text \<open>\<open>None\<close> is the overflow of the tile number's shift.\<close>

definition add_compressed_tile :: "nat \<Rightarrow> nat \<Rightarrow> nat \<Rightarrow> bytes \<Rightarrow> pmtiles_writer \<Rightarrow> pmtiles_writer option" where
  "add_compressed_tile z x y compressed_data w =
     (let len = word_of_nat (length compressed_data) :: u32
      in case zxy_to_tile_id z x y of
           None \<Rightarrow> None
         | Some tile_id \<Rightarrow>
             Some (w\<lparr> pw_spill_file := pw_spill_file w @ compressed_data,
                      pw_entries := pw_entries w @
                        [\<lparr> se_tile_id = word_of_nat tile_id, se_spill_offset = pw_current_spill_offset w,
                           se_length = len \<rparr>],
                      pw_current_spill_offset := pw_current_spill_offset w + ucast len \<rparr>))"

definition add_tile ::
  "gzip \<Rightarrow> nat \<Rightarrow> nat \<Rightarrow> nat \<Rightarrow> bytes \<Rightarrow> pmtiles_writer \<Rightarrow> (rh3_error + pmtiles_writer) option" where
  "add_tile gzip_compress z x y uncompressed_mvt w =
     (case gzip_compress uncompressed_mvt of
        Inl e \<Rightarrow> Some (Err e)
      | Inr compressed \<Rightarrow> map_option Ok (add_compressed_tile z x y compressed w))"

definition tile_count :: "pmtiles_writer \<Rightarrow> usize" where
  "tile_count w = length (pw_entries w)"

section \<open>Finishing\<close>

fun directory_of :: "spill_entry list \<Rightarrow> u64 \<Rightarrow> dir_entry list" where
  "directory_of [] off = []"
| "directory_of (e # es) off =
     \<lparr> de_tile_id = se_tile_id e, de_offset = off, de_length = se_length e, de_run_length = 1 \<rparr>
       # directory_of es (off + ucast (se_length e))"

fun final_offset :: "spill_entry list \<Rightarrow> u64 \<Rightarrow> u64" where
  "final_offset [] off = off"
| "final_offset (e # es) off = final_offset es (off + ucast (se_length e))"

definition MAX_ENTRIES_PER_LEAF :: nat where
  "MAX_ENTRIES_PER_LEAF = 4096"

text \<open>The root and leaf sections: one directory when it fits the first request, two levels otherwise.\<close>

definition choose_directories :: "gzip \<Rightarrow> dir_entry list \<Rightarrow> (rh3_error + (bytes \<times> bytes)) option" where
  "choose_directories gzip_compress directory_entries =
     (if length directory_entries \<le> MAX_ENTRIES_PER_LEAF
      then (case encode_directory gzip_compress directory_entries of
              Inl e \<Rightarrow> Some (Err e)
            | Inr root_bytes \<Rightarrow>
                (if length root_bytes \<le> 16257 then Some (Ok (root_bytes, []))
                 else build_leaf_directories gzip_compress directory_entries MAX_ENTRIES_PER_LEAF))
      else build_leaf_directories gzip_compress directory_entries MAX_ENTRIES_PER_LEAF)"

definition wrap_lon :: "f64 \<Rightarrow> f64" where
  "wrap_lon lon = f64_sub (f64_rem_euclid (f64_add lon (f64_of_int 180)) (f64_of_int 360)) (f64_of_int 180)"

definition center_lon :: "f64 \<Rightarrow> f64 \<Rightarrow> f64" where
  "center_lon min_lon max_lon =
     (if f64_le min_lon max_lon then f64_div (f64_add min_lon max_lon) (f64_of_int 2)
      else (let span = f64_add (f64_sub (f64_of_int 180) min_lon) (f64_add max_lon (f64_of_int 180))
            in wrap_lon (f64_add min_lon (f64_mul span 0x3FE0000000000000))))"

definition header_lons :: "f64 \<Rightarrow> f64 \<Rightarrow> f64 \<times> f64" where
  "header_lons min_lon max_lon =
     (if f64_le min_lon max_lon then (min_lon, max_lon) else (f64_of_int (- 180), f64_of_int 180))"

definition e7 :: "f64 \<Rightarrow> bytes" where
  "e7 v = to_le_bytes (f64_to_i32 (f64_mul v (f64_of_int 10000000)))"

definition u64_bytes :: "nat \<Rightarrow> bytes" where
  "u64_bytes n = to_le_bytes (word_of_nat n :: u64)"

definition pm_magic :: bytes where
  "pm_magic = as_bytes (lit ''PMTiles'')"

definition pm_header :: "pmtiles_writer \<Rightarrow> bytes \<Rightarrow> bytes \<Rightarrow> bytes \<Rightarrow> u64 \<Rightarrow> nat \<Rightarrow> nat \<Rightarrow> bytes" where
  "pm_header w root_dir_bytes metadata_bytes leaf_dirs_bytes tile_data_length entries directory_entries =
     (let root_dir_offset = 127;
          root_dir_length = length root_dir_bytes;
          json_metadata_offset = root_dir_offset + root_dir_length;
          json_metadata_length = length metadata_bytes;
          leaf_dirs_offset = json_metadata_offset + json_metadata_length;
          leaf_dirs_length = length leaf_dirs_bytes;
          tile_data_offset = leaf_dirs_offset + leaf_dirs_length;
          center_zoom = (pw_min_zoom w + pw_max_zoom w) div 2;
          clon = center_lon (pw_min_lon w) (pw_max_lon w);
          clat = f64_div (f64_add (pw_min_lat w) (pw_max_lat w)) (f64_of_int 2);
          (header_min_lon, header_max_lon) = header_lons (pw_min_lon w) (pw_max_lon w)
      in pm_magic @ [3] @
         u64_bytes root_dir_offset @ u64_bytes root_dir_length @
         u64_bytes json_metadata_offset @ u64_bytes json_metadata_length @
         u64_bytes leaf_dirs_offset @ u64_bytes leaf_dirs_length @
         u64_bytes tile_data_offset @ to_le_bytes tile_data_length @
         u64_bytes entries @ u64_bytes directory_entries @ u64_bytes entries @
         [1, 2, 2, 1] @ [pw_min_zoom w, pw_max_zoom w] @
         e7 header_min_lon @ e7 (pw_min_lat w) @ e7 header_max_lon @ e7 (pw_max_lat w) @
         [center_zoom] @ e7 clon @ e7 clat)"

text \<open>The tiles, copied from the mapped spill file in tile id order.\<close>

fun stream_tiles :: "bytes \<Rightarrow> spill_entry list \<Rightarrow> bytes \<Rightarrow> rh3_error + bytes" where
  "stream_tiles mmap [] out = Ok out"
| "stream_tiles mmap (e # es) out =
     (let start = unat (se_spill_offset e); stop = start + unat (se_length e)
      in if stop > length mmap then Err (IoError UnexpectedEof ''Spill file truncated'')
         else stream_tiles mmap es (out @ take (stop - start) (drop start mmap)))"

definition finish_into :: "gzip \<Rightarrow> pmtiles_writer \<Rightarrow> (rh3_error + bytes) option" where
  "finish_into gzip_compress w =
     (let entries = sort_key se_tile_id (pw_entries w);
          directory_entries = directory_of entries 0;
          final_tile_offset = final_offset entries 0
      in case choose_directories gzip_compress directory_entries of
           None \<Rightarrow> None
         | Some (Inl e) \<Rightarrow> Some (Err e)
         | Some (Inr (root_dir_bytes, leaf_dirs_bytes)) \<Rightarrow>
             (case gzip_compress (as_bytes (pw_metadata_json w)) of
                Inl e \<Rightarrow> Some (Err e)
              | Inr metadata_bytes \<Rightarrow>
                  (let out = pm_header w root_dir_bytes metadata_bytes leaf_dirs_bytes final_tile_offset
                               (length entries) (length directory_entries)
                             @ root_dir_bytes @ metadata_bytes @ leaf_dirs_bytes
                   in if pw_current_spill_offset w > 0
                      then Some (stream_tiles (pw_spill_file w) entries out)
                      else Some (Ok out))))"

section \<open>A reference reader of the archive\<close>

definition u64_at :: "bytes \<Rightarrow> nat \<Rightarrow> nat" where
  "u64_at b i = unat (from_le_bytes (take 8 (drop i b)) :: u64)"

definition archive_tile :: "(bytes \<Rightarrow> bytes option) \<Rightarrow> bytes \<Rightarrow> u64 \<Rightarrow> bytes option" where
  "archive_tile gunzip b t =
     (case dir_at gunzip b (u64_at b 8) (u64_at b 16) of
        None \<Rightarrow> None
      | Some root \<Rightarrow>
          (case leaf_entry gunzip (byte_slice b (u64_at b 40) (u64_at b 48)) root t of
             None \<Rightarrow> None
           | Some e \<Rightarrow> Some (byte_slice b (u64_at b 56 + unat (de_offset e)) (unat (de_length e)))))"

section \<open>The header's layout\<close>

lemma length_e7 [simp]: "length (e7 v) = 4"
  by (simp add: e7_def)

lemma length_u64_bytes [simp]: "length (u64_bytes n) = 8"
  by (simp add: u64_bytes_def)

lemma length_pm_magic [simp]: "length pm_magic = 7"
  by (simp add: pm_magic_def lit_def as_bytes_def utf8_char_def)

lemma length_pm_header [simp]: "length (pm_header w r mb l t n d) = 127"
  by (simp add: pm_header_def Let_def split: prod.splits)

lemma u64_at_field: "length pre = i \<Longrightarrow> n < 2 ^ 64 \<Longrightarrow> u64_at (pre @ u64_bytes n @ suf) i = n"
  by (simp add: u64_at_def u64_bytes_def unat_word_of_nat_id)

lemma header_fields:
  assumes "127 + length r + length mb + length l < 2 ^ 64"
  shows "u64_at (pm_header w r mb l t n d @ rest) 8 = 127"
    and "u64_at (pm_header w r mb l t n d @ rest) 16 = length r"
    and "u64_at (pm_header w r mb l t n d @ rest) 40 = 127 + length r + length mb"
    and "u64_at (pm_header w r mb l t n d @ rest) 48 = length l"
    and "u64_at (pm_header w r mb l t n d @ rest) 56 = 127 + length r + length mb + length l"
proof -
  let ?f = "u64_bytes 127 @ u64_bytes (length r) @ u64_bytes (127 + length r) @ u64_bytes (length mb) @
    u64_bytes (127 + length r + length mb) @ u64_bytes (length l) @ u64_bytes (127 + length r + length mb + length l)"
  have "\<exists>more. pm_header w r mb l t n d @ rest = (pm_magic @ [3]) @ ?f @ more"
    by (cases "header_lons (pw_min_lon w) (pw_max_lon w)") (simp add: pm_header_def Let_def)
  then obtain more where h: "pm_header w r mb l t n d @ rest = (pm_magic @ [3]) @ ?f @ more" ..
  show "u64_at (pm_header w r mb l t n d @ rest) 8 = 127"
    unfolding h append_assoc using u64_at_field [of "pm_magic @ [3]" 8] by simp
  show "u64_at (pm_header w r mb l t n d @ rest) 16 = length r"
    unfolding h using u64_at_field [of "pm_magic @ [3] @ u64_bytes 127" 16 "length r"] assms by simp
  show "u64_at (pm_header w r mb l t n d @ rest) 40 = 127 + length r + length mb"
    unfolding h using assms u64_at_field [of "pm_magic @ [3] @ u64_bytes 127 @ u64_bytes (length r) @
      u64_bytes (127 + length r) @ u64_bytes (length mb)" 40 "127 + length r + length mb"] by simp
  show "u64_at (pm_header w r mb l t n d @ rest) 48 = length l"
    unfolding h using assms u64_at_field [of "pm_magic @ [3] @ u64_bytes 127 @ u64_bytes (length r) @
      u64_bytes (127 + length r) @ u64_bytes (length mb) @ u64_bytes (127 + length r + length mb)" 48 "length l"] by simp
  show "u64_at (pm_header w r mb l t n d @ rest) 56 = 127 + length r + length mb + length l"
    unfolding h using assms u64_at_field [of "pm_magic @ [3] @ u64_bytes 127 @ u64_bytes (length r) @
      u64_bytes (127 + length r) @ u64_bytes (length mb) @ u64_bytes (127 + length r + length mb) @
      u64_bytes (length l)" 56 "127 + length r + length mb + length l"] by simp
qed

section \<open>Tile data\<close>

definition content :: "bytes \<Rightarrow> spill_entry \<Rightarrow> bytes" where
  "content mmap e = byte_slice mmap (unat (se_spill_offset e)) (unat (se_length e))"

definition in_spill :: "bytes \<Rightarrow> spill_entry \<Rightarrow> bool" where
  "in_spill mmap e \<longleftrightarrow> unat (se_spill_offset e) + unat (se_length e) \<le> length mmap"

lemma length_content: "in_spill mmap e \<Longrightarrow> length (content mmap e) = unat (se_length e)"
  by (simp add: in_spill_def content_def byte_slice_def)

lemma stream_tiles_content:
  "\<forall>e\<in>set es. in_spill mmap e \<Longrightarrow> stream_tiles mmap es out = Ok (out @ concat (map (content mmap) es))"
  by (induction es arbitrary: out) (auto simp: Let_def in_spill_def content_def byte_slice_def)

lemma final_offset_sum: "final_offset es off = off + word_of_nat (sum_list (map (\<lambda>e. unat (se_length e)) es))"
  by (induction es arbitrary: off) simp_all

lemma slice_shift: "byte_slice (pre @ b) (length pre + off) n = byte_slice b off n"
  by (simp add: byte_slice_def)

lemma directory_of_content:
  assumes "\<forall>e\<in>set es. in_spill mmap e" "d \<in> set (directory_of es (word_of_nat (length pre)))"
    and "length pre + length (concat (map (content mmap) es)) < 2 ^ 64"
  shows "de_run_length d = 1 \<and> unat (de_offset d) \<le> length pre + length (concat (map (content mmap) es)) \<and>
    (\<exists>e\<in>set es. de_tile_id d = se_tile_id e \<and>
      byte_slice (pre @ concat (map (content mmap) es)) (unat (de_offset d)) (unat (de_length d)) = content mmap e)"
  using assms
proof (induction es arbitrary: pre)
  case (Cons e es)
  let ?c = "content mmap e"
  have len: "length ?c = unat (se_length e)" using Cons.prems(1) length_content by simp
  have "word_of_nat (length pre) + ucast (se_length e) = (word_of_nat (length (pre @ ?c)) :: u64)"
    by (simp add: len)
  then consider "d = \<lparr> de_tile_id = se_tile_id e, de_offset = word_of_nat (length pre), de_length = se_length e, de_run_length = 1 \<rparr>"
    | "d \<in> set (directory_of es (word_of_nat (length (pre @ ?c))))"
    using Cons.prems(2) by auto
  then show ?case
  proof cases
    case 1
    moreover have "unat (word_of_nat (length pre) :: u64) = length pre"
      using Cons.prems(3) by (intro unat_word_of_nat_id) simp
    ultimately show ?thesis using len slice_append [of ?c "unat (se_length e)" pre] by simp
  next
    case 2
    then show ?thesis using Cons.IH [OF _ 2] Cons.prems(1,3) by auto
  qed
qed simp

lemma directory_of_ids [simp]: "map de_tile_id (directory_of es off) = map se_tile_id es"
  by (induction es arbitrary: off) auto

lemma length_directory_of [simp]: "length (directory_of es off) = length es"
  by (induction es arbitrary: off) auto

lemma sort_key_perm [simp]: "set (sort_key f xs) = set xs" "length (sort_key f xs) = length xs"
  by simp_all

section \<open>Looking a tile up\<close>

lemma covers_one: "de_run_length d = 1 \<Longrightarrow> de_tile_id d \<le> t \<Longrightarrow> covers d t \<Longrightarrow> de_tile_id d = t"
proof -
  assume d: "de_run_length d = 1" "de_tile_id d \<le> t" "covers d t"
  have "ucast (1 :: u32) = (1 :: u64)" by simp
  then have "t < de_tile_id d + 1" using d(1,3) by (simp add: covers_def)
  then have "t \<le> de_tile_id d" by (rule word_below_Suc)
  then show "de_tile_id d = t" using d(2) by simp
qed

lemma covers_self: "de_run_length d = 1 \<Longrightarrow> de_tile_id d \<noteq> - 1 \<Longrightarrow> covers d (de_tile_id d)"
  using word_less_Suc [of "de_tile_id d"] by (simp add: covers_def)

lemma flat_entry_directory:
  assumes "ids_sorted es" "\<forall>d\<in>set es. de_run_length d = 1"
  shows "(flat_entry es t = None \<longrightarrow> t \<noteq> - 1 \<longrightarrow> t \<notin> de_tile_id ` set es) \<and>
    (\<forall>d. flat_entry es t = Some d \<longrightarrow> d \<in> set es \<and> de_tile_id d = t)"
proof (intro conjI allI impI)
  fix d
  assume "flat_entry es t = Some d"
  then have "find_entry es t = Some d" "covers d t" by (auto simp: flat_entry_def split: option.splits if_splits)
  then show "d \<in> set es" "de_tile_id d = t"
    using find_entry_sorted [OF assms(1)] covers_one assms(2) by blast+
next
  assume none: "flat_entry es t = None" "t \<noteq> - 1"
  show "t \<notin> de_tile_id ` set es"
  proof
    assume "t \<in> de_tile_id ` set es"
    then obtain e where e: "e \<in> set es" "de_tile_id e = t" by auto
    then obtain d where d: "find_entry es t = Some d"
      using find_entry_None [of es t] by (cases "find_entry es t") auto
    then have "d \<in> set es" "de_tile_id d = t"
      using find_entry_sorted [OF assms(1) d] e by (auto intro: order.antisym)
    then have "covers d t" using covers_self [of d] assms(2) none(2) by auto
    then show False using none(1) d by (simp add: flat_entry_def)
  qed
qed

lemma choose_directories_lookup:
  assumes "gzip_contract gz gunzip" "choose_directories gz es = Some (Ok (root_bytes, leaves))"
    and "ids_sorted es" "list_all offset_ok es" "length es < 2 ^ 64" "length leaves < 2 ^ 64 - 1"
    and "\<forall>d\<in>set es. de_run_length d = 1"
  shows "\<exists>root. dir_at gunzip (pre @ root_bytes @ suf) (length pre) (length root_bytes) = Some root \<and>
    (\<forall>t. leaf_entry gunzip leaves root t = flat_entry es t)"
proof (cases "length es \<le> MAX_ENTRIES_PER_LEAF \<and> encode_directory gz es = Ok root_bytes \<and> leaves = []")
  case True
  then have "dir_at gunzip (pre @ root_bytes @ suf) (length pre) (length root_bytes) = Some es"
    using dir_at_slice [OF assms(1)] assms(4,5) by blast
  moreover have "leaf_entry gunzip leaves es t = flat_entry es t" for t
    using leaf_entry_flat [OF _ assms(3)] assms(7) by (simp add: list_all_iff)
  ultimately show ?thesis by blast
next
  case False
  then have "build_leaf_directories gz es MAX_ENTRIES_PER_LEAF = Some (Ok (root_bytes, leaves))"
    using assms(2) by (auto simp: choose_directories_def split: if_splits sum.splits)
  then show ?thesis
    using build_leaf_directories_lookup [OF assms(1), of MAX_ENTRIES_PER_LEAF es root_bytes leaves] assms(3-6)
    by (simp add: MAX_ENTRIES_PER_LEAF_def)
qed

section \<open>Adding tiles\<close>

type_synonym tile = "nat \<times> nat \<times> nat \<times> bytes"

fun add_tiles :: "tile list \<Rightarrow> pmtiles_writer \<Rightarrow> pmtiles_writer option" where
  "add_tiles [] w = Some w"
| "add_tiles ((z, x, y, data) # ts) w =
     (case add_compressed_tile z x y data w of None \<Rightarrow> None | Some w' \<Rightarrow> add_tiles ts w')"

definition tile_ok :: "tile \<Rightarrow> bool" where
  "tile_ok t = (case t of (z, x, y, data) \<Rightarrow> z \<le> 31 \<and> x < 2 ^ z \<and> y < 2 ^ z \<and> length data < 2 ^ 32)"

abbreviation tile_data :: "tile \<Rightarrow> bytes" where
  "tile_data t \<equiv> snd (snd (snd t))"

definition tile_number :: "nat \<Rightarrow> nat \<Rightarrow> nat \<Rightarrow> u64" where
  "tile_number z x y = word_of_nat (the (zxy_to_tile_id z x y))"

definition stored :: "bytes \<Rightarrow> tile \<Rightarrow> spill_entry \<Rightarrow> bool" where
  "stored mmap t e = (case t of (z, x, y, data) \<Rightarrow>
     se_tile_id e = tile_number z x y \<and> in_spill mmap e \<and> content mmap e = data)"

definition writer_inv :: "tile list \<Rightarrow> pmtiles_writer \<Rightarrow> bool" where
  "writer_inv ts w \<longleftrightarrow>
     pw_spill_file w = concat (map tile_data ts) \<and>
     pw_current_spill_offset w = word_of_nat (length (pw_spill_file w)) \<and>
     list_all2 (stored (pw_spill_file w)) ts (pw_entries w)"

lemma stored_append: "stored mmap t e \<Longrightarrow> stored (mmap @ suf) t e"
  by (auto simp: stored_def in_spill_def content_def byte_slice_def)

lemma tile_number_id:
  assumes "z \<le> 31" "x < 2 ^ z" "y < 2 ^ z"
  shows "\<exists>i. zxy_to_tile_id z x y = Some i \<and> i < 2 ^ 63 \<and> tile_number z x y = word_of_nat i"
proof -
  have i: "zxy_to_tile_id z x y = Some (tile_id_base z + hil z x y)"
    using assms zxy_to_tile_id_hil by simp
  have "(4 :: nat) ^ z \<le> 4 ^ 31" using assms(1) by (intro power_increasing) simp_all
  moreover have "3 * a + 1 = p \<Longrightarrow> h < p \<Longrightarrow> 3 * (a + h) < 4 * p" for a h p :: nat
    by simp
  from this [OF three_base [of z] hil_less [of z x y]]
  have "3 * (tile_id_base z + hil z x y) < 4 * 4 ^ z" .
  ultimately have "tile_id_base z + hil z x y < 2 ^ 63" by simp
  then show ?thesis using i by (simp add: tile_number_def)
qed

lemma tile_number_inj:
  assumes "z \<le> 31" "x < 2 ^ z" "y < 2 ^ z" "z' \<le> 31" "x' < 2 ^ z'" "y' < 2 ^ z'"
    and "tile_number z x y = tile_number z' x' y'"
  shows "z = z' \<and> x = x' \<and> y = y'"
proof -
  obtain i where i: "zxy_to_tile_id z x y = Some i" "i < 2 ^ 63" "tile_number z x y = word_of_nat i"
    using tile_number_id [OF assms(1-3)] by blast
  obtain j where j: "zxy_to_tile_id z' x' y' = Some j" "j < 2 ^ 63" "tile_number z' x' y' = word_of_nat j"
    using tile_number_id [OF assms(4-6)] by blast
  have "word_of_nat i = (word_of_nat j :: u64)" using assms(7) i(3) j(3) by (simp only:)
  then have "i = j" using i(2) j(2) by (subst (asm) word_of_nat_inj) simp_all
  then have zx: "tile_id_base z + hil z x y = tile_id_base z' + hil z' x' y'"
    using i(1) j(1) assms(1,4) zxy_to_tile_id_hil [of z x y] zxy_to_tile_id_hil [of z' x' y'] by simp
  have dec: "tile_id_to_zxy (tile_id_base z + hil z x y) = Some (z, x, y)"
    if "z \<le> 31" "x < 2 ^ z" "y < 2 ^ z" for z x y
    using that tile_id_to_zxy_unhil [of z "hil z x y"] hil_less [of z x y] unhil_hil [of x z y] by simp
  have "Some (z, x, y) = Some (z', x', y')"
    unfolding dec [OF assms(1-3), symmetric] dec [OF assms(4-6), symmetric] zx ..
  then show ?thesis by simp
qed

lemma add_compressed_tile_inv:
  assumes "writer_inv ts w" "tile_ok (z, x, y, data)" "length (pw_spill_file w) < 2 ^ 64"
  shows "\<exists>w'. add_compressed_tile z x y data w = Some w' \<and> writer_inv (ts @ [(z, x, y, data)]) w'"
proof -
  obtain i where i: "zxy_to_tile_id z x y = Some i" "tile_number z x y = word_of_nat i"
    using tile_number_id [of z x y] assms(2) by (auto simp: tile_ok_def)
  let ?len = "word_of_nat (length data) :: u32"
  have len: "unat ?len = length data" using assms(2) by (intro unat_word_of_nat_id) (simp add: tile_ok_def)
  have cur: "unat (pw_current_spill_offset w) = length (pw_spill_file w)"
    using assms(1,3) unat_word_of_nat_id [where 'a = 64, of "length (pw_spill_file w)"] by (simp add: writer_inv_def)
  let ?e = "\<lparr> se_tile_id = word_of_nat i, se_spill_offset = pw_current_spill_offset w, se_length = ?len \<rparr>"
  have st: "stored (pw_spill_file w @ data) (z, x, y, data) ?e"
    using cur len i slice_append [of data "length data" "pw_spill_file w" "[]"]
    by (simp add: stored_def in_spill_def content_def)
  have "list_all2 (stored (pw_spill_file w @ data)) ts (pw_entries w)"
    using assms(1) unfolding writer_inv_def by (blast intro: list_all2_mono stored_append)
  moreover have "pw_current_spill_offset w + ucast ?len = word_of_nat (length (pw_spill_file w @ data))"
    using assms(1) len ucast_unat_u32 [of ?len] by (simp add: writer_inv_def)
  ultimately show ?thesis
    using assms(1) st i by (simp add: add_compressed_tile_def writer_inv_def list_all2_appendI)
qed

lemma add_tiles_inv:
  assumes "writer_inv us w" "\<forall>t\<in>set ts. tile_ok t" "sum_list (map (length \<circ> tile_data) (us @ ts)) < 2 ^ 64"
  shows "\<exists>w'. add_tiles ts w = Some w' \<and> writer_inv (us @ ts) w'"
  using assms
proof (induction ts arbitrary: us w)
  case (Cons t ts)
  obtain z x y data where t: "t = (z, x, y, data)" by (cases t)
  have "length (pw_spill_file w) = sum_list (map (length \<circ> tile_data) us)"
    using Cons.prems(1) by (simp add: writer_inv_def length_concat comp_def)
  then have "length (pw_spill_file w) < 2 ^ 64" using Cons.prems(3) by (simp add: comp_def)
  then obtain w' where w': "add_compressed_tile z x y data w = Some w'" "writer_inv (us @ [t]) w'"
    using add_compressed_tile_inv [OF Cons.prems(1), of z x y data] Cons.prems(2) t by auto
  then show ?case using Cons.IH [OF w'(2)] Cons.prems(2,3) t by auto
qed simp

lemma writer_inv_new: "writer_inv [] (pw_new zmin zmax bb js)"
  by (cases bb) (simp add: writer_inv_def pw_new_def)

lemma writer_in_spill: "writer_inv ts w \<Longrightarrow> e \<in> set (pw_entries w) \<Longrightarrow> in_spill (pw_spill_file w) e"
proof -
  assume w: "writer_inv ts w" "e \<in> set (pw_entries w)"
  then obtain i where "i < length (pw_entries w)" "pw_entries w ! i = e" by (auto simp: in_set_conv_nth)
  then have "stored (pw_spill_file w) (ts ! i) e"
    using w(1) by (auto simp: writer_inv_def list_all2_conv_all_nth)
  then show "in_spill (pw_spill_file w) e" by (simp add: stored_def split: prod.splits)
qed

section \<open>The finished archive\<close>

lemma all_ok_result: "\<forall>b. \<exists>c. gz b = Ok c \<Longrightarrow> \<exists>r l. choose_directories gz es = Some (Ok (r, l))"
proof -
  assume gz: "\<forall>b. \<exists>c. gz b = Ok c"
  then have enc: "\<exists>b. encode_directory gz es = Ok b" for es by (simp add: encode_directory_def)
  have "\<exists>r l. leaf_loop gz cs ps bs off = Ok (r, l)" for cs ps bs off
  proof (induction cs arbitrary: ps bs off)
    case (Cons c cs)
    obtain b where "encode_directory gz c = Ok b" using enc by blast
    then show ?case using Cons.IH by (simp add: Let_def)
  qed simp
  then have "\<exists>r l. build_leaf_directories gz es MAX_ENTRIES_PER_LEAF = Some (Ok (r, l))"
    using enc by (simp add: build_leaf_directories_def MAX_ENTRIES_PER_LEAF_def) (metis bind_res.simps(2) case_prod_conv)
  then show ?thesis using enc [of es] by (auto simp: choose_directories_def)
qed

lemma finish_into_ok:
  assumes "writer_inv ts w" "\<forall>b. \<exists>c. gz b = Ok c" "length (pw_spill_file w) < 2 ^ 64"
  shows "\<exists>r mb l archive. finish_into gz w = Some (Ok archive) \<and>
    choose_directories gz (directory_of (sort_key se_tile_id (pw_entries w)) 0) = Some (Ok (r, l)) \<and>
    archive = pm_header w r mb l (final_offset (sort_key se_tile_id (pw_entries w)) 0) (length (pw_entries w)) (length (pw_entries w))
      @ r @ mb @ l @ concat (map (content (pw_spill_file w)) (sort_key se_tile_id (pw_entries w)))"
proof -
  let ?es = "sort_key se_tile_id (pw_entries w)"
  obtain r l where rl: "choose_directories gz (directory_of ?es 0) = Some (Ok (r, l))"
    using all_ok_result [OF assms(2)] by blast
  obtain mb where mb: "gz (as_bytes (pw_metadata_json w)) = Ok mb" using assms(2) by blast
  have sp: "\<forall>e\<in>set ?es. in_spill (pw_spill_file w) e"
    using writer_in_spill [OF assms(1)] by simp
  have empty: "concat (map (content (pw_spill_file w)) ?es) = []" if "\<not> pw_current_spill_offset w > 0"
  proof -
    have "unat (pw_current_spill_offset w) = length (pw_spill_file w)"
      using assms(1,3) unat_word_of_nat_id [where 'a = 64, of "length (pw_spill_file w)"] by (simp add: writer_inv_def)
    then have "pw_spill_file w = []" using that by (simp add: word_less_nat_alt)
    then show ?thesis by (simp add: content_def byte_slice_def)
  qed
  show ?thesis
    using rl mb stream_tiles_content [OF sp] empty
    by (auto simp: finish_into_def Let_def)
qed

lemma archive_tile_content:
  assumes "gzip_contract gz gunzip" "choose_directories gz (directory_of es 0) = Some (Ok (r, l))"
    and "sorted (map se_tile_id es)" "length es < 2 ^ 64" "\<forall>e\<in>set es. in_spill mmap e"
    and archive: "archive = pm_header w r mb l fo n d @ r @ mb @ l @ concat (map (content mmap) es)"
    and "length archive < 2 ^ 64" "t \<noteq> - 1"
  shows "(archive_tile gunzip archive t = None \<and> t \<notin> se_tile_id ` set es) \<or>
    (\<exists>e\<in>set es. se_tile_id e = t \<and> archive_tile gunzip archive t = Some (content mmap e))"
proof -
  let ?D = "directory_of es 0" and ?data = "concat (map (content mmap) es)"
  have total: "127 + length r + length mb + length l + length ?data < 2 ^ 64"
    using assms(7) archive by simp
  have D: "de_run_length d = 1 \<and> offset_ok d \<and> (\<exists>e\<in>set es. de_tile_id d = se_tile_id e \<and>
      byte_slice ?data (unat (de_offset d)) (unat (de_length d)) = content mmap e)" if "d \<in> set ?D" for d
  proof -
    have *: "de_run_length d = 1 \<and> unat (de_offset d) \<le> length ?data \<and> (\<exists>e\<in>set es. de_tile_id d = se_tile_id e \<and>
        byte_slice ?data (unat (de_offset d)) (unat (de_length d)) = content mmap e)"
      using directory_of_content [OF assms(5), of d "[]"] that total by simp
    then have "unat (de_offset d) < 2 ^ 64 - 1" using total by linarith
    then have "offset_ok d" by (auto simp: offset_ok_def unsigned_minus_1_eq_mask mask_eq_exp_minus_1)
    then show ?thesis using * by blast
  qed
  have "ids_sorted ?D" "\<forall>d\<in>set ?D. de_run_length d = 1" "list_all offset_ok ?D" "length l < 2 ^ 64 - 1"
    using assms(3) D total by (simp_all add: list_all_iff)
  note facts = this
  obtain root where root: "dir_at gunzip archive 127 (length r) = Some root"
      "leaf_entry gunzip l root t = flat_entry ?D t"
    using choose_directories_lookup [OF assms(1,2) facts(1,3) _ facts(4,2),
        of "pm_header w r mb l fo n d" "mb @ l @ ?data"] assms(4) archive by auto
  have fields: "u64_at archive 8 = 127" "u64_at archive 16 = length r" "u64_at archive 40 = 127 + length r + length mb"
    "u64_at archive 48 = length l" "u64_at archive 56 = 127 + length r + length mb + length l"
    using header_fields [of r mb l w fo n d] total archive by simp_all
  have leaves: "byte_slice archive (127 + length r + length mb) (length l) = l"
    using slice_append [of l "length l" "pm_header w r mb l fo n d @ r @ mb" ?data] archive by (simp add: add.assoc)
  have shift: "byte_slice archive (127 + length r + length mb + length l + off) k = byte_slice ?data off k" for off k
    using slice_shift [of "pm_header w r mb l fo n d @ r @ mb @ l" ?data off k] archive by (simp add: add.assoc)
  have at: "archive_tile gunzip archive t = (case flat_entry ?D t of None \<Rightarrow> None
      | Some e \<Rightarrow> Some (byte_slice ?data (unat (de_offset e)) (unat (de_length e))))"
    by (simp only: archive_tile_def fields root(1) leaves root(2) shift option.case)
  show ?thesis
  proof (cases "flat_entry ?D t")
    case None
    then have "t \<notin> de_tile_id ` set ?D" using flat_entry_directory [OF facts(1,2)] assms(8) by blast
    then have "t \<notin> se_tile_id ` set es" by (metis directory_of_ids image_set)
    then show ?thesis using None at by simp
  next
    case (Some d)
    then have "d \<in> set ?D" "de_tile_id d = t" using flat_entry_directory [OF facts(1,2)] by blast+
    then show ?thesis using Some at D [of d] by force
  qed
qed

section \<open>Properties\<close>

lemma writer_ids_below:
  assumes "writer_inv ts w" "\<forall>t\<in>set ts. tile_ok t" "e \<in> set (pw_entries w)"
  shows "\<exists>z x y data. (z, x, y, data) \<in> set ts \<and> se_tile_id e = tile_number z x y \<and> content (pw_spill_file w) e = data"
proof -
  obtain i where i: "i < length (pw_entries w)" "pw_entries w ! i = e" using assms(3) by (auto simp: in_set_conv_nth)
  then have "stored (pw_spill_file w) (ts ! i) e" "i < length ts"
    using assms(1) by (auto simp: writer_inv_def list_all2_conv_all_nth)
  moreover obtain z x y data where "ts ! i = (z, x, y, data)" by (cases "ts ! i")
  ultimately show ?thesis using nth_mem [of i ts] by (auto simp: stored_def)
qed

lemma writer_ids_distinct:
  assumes "writer_inv ts w" "\<forall>t\<in>set ts. tile_ok t" "distinct (map (\<lambda>(z, x, y, data). (z, x, y)) ts)"
  shows "distinct (map se_tile_id (pw_entries w))"
proof -
  have len: "length (pw_entries w) = length ts"
    using assms(1) list_all2_lengthD unfolding writer_inv_def by fastforce
  have "se_tile_id (pw_entries w ! i) \<noteq> se_tile_id (pw_entries w ! j)" if ij: "i < length ts" "j < length ts" "i \<noteq> j" for i j
  proof
    assume eq: "se_tile_id (pw_entries w ! i) = se_tile_id (pw_entries w ! j)"
    obtain z x y d z' x' y' d' where t: "ts ! i = (z, x, y, d)" "ts ! j = (z', x', y', d')"
      by (metis prod_cases4)
    have st: "stored (pw_spill_file w) (ts ! k) (pw_entries w ! k)" if "k < length ts" for k
      using assms(1) that by (auto simp: writer_inv_def list_all2_conv_all_nth)
    have "tile_number z x y = tile_number z' x' y'"
      using st [OF ij(1)] st [OF ij(2)] eq t by (simp add: stored_def)
    moreover have "tile_ok (z, x, y, d)" "tile_ok (z', x', y', d')"
      using assms(2) t ij(1,2) by (metis nth_mem)+
    ultimately have "(z, x, y) = (z', x', y')"
      using tile_number_inj [of z x y z' x' y'] by (simp add: tile_ok_def)
    moreover have "(case ts ! i of (z, x, y, data) \<Rightarrow> (z, x, y)) \<noteq> (case ts ! j of (z, x, y, data) \<Rightarrow> (z, x, y))"
      using assms(3) ij by (simp add: distinct_conv_nth)
    ultimately show False by (simp add: t)
  qed
  then show ?thesis using len by (simp add: distinct_conv_nth)
qed

lemma few_tiles:
  assumes "distinct ids" "\<forall>i\<in>set ids. unat (i :: u64) < 2 ^ 63"
  shows "length ids < 2 ^ 64"
proof -
  have "inj_on unat (set ids)" by (intro inj_onI) (simp add: word_unat_eq_iff)
  moreover have "unat ` set ids \<subseteq> {..<2 ^ 63}" using assms(2) by auto
  ultimately have "card (set ids) \<le> card {..<2 ^ 63 :: nat}"
    by (metis card_image card_mono finite_lessThan)
  then show ?thesis using assms(1) by (simp add: distinct_card)
qed

definition tile_table :: "tile list \<Rightarrow> (nat \<times> nat \<times> nat \<rightharpoonup> bytes)" where
  "tile_table ts = map_of (map (\<lambda>(z, x, y, data). ((z, x, y), data)) ts)"

lemma tile_table_eq:
  assumes "distinct (map (\<lambda>(z, x, y, data). (z, x, y)) ts)"
  shows "tile_table ts (z, x, y) = Some data \<longleftrightarrow> (z, x, y, data) \<in> set ts"
proof -
  have keys: "map fst (map (\<lambda>(z, x, y, data). ((z, x, y), data)) ts) = map (\<lambda>(z, x, y, data). (z, x, y)) ts"
    by auto
  show ?thesis
    using assms unfolding tile_table_def by (subst map_of_eq_Some_iff) (unfold keys, auto simp: image_iff split: prod.splits)
qed

text \<open>
  C6. An archive gives back the tiles that were put into it. Whatever the zoom range, bounds and
  metadata, and in whatever order distinct tiles are added: every add succeeds, finishing
  produces an archive without error, and a reader that follows the PMTiles layout (header,
  root directory, at most one leaf directory, tile data) finds for every tile address exactly
  the bytes added for it, and nothing for an address that was not added. This holds on both
  sides of the directory split. The compressor is assumed to succeed and to be undone by the
  decompressor; tiles are shorter than 4 GiB and the archive fits 64-bit offsets.
\<close>

theorem archive_returns_tiles:
  assumes "gzip_contract gz gunzip" "\<forall>b. \<exists>c. gz b = Ok c"
    and "\<forall>t\<in>set ts. tile_ok t" "distinct (map (\<lambda>(z, x, y, data). (z, x, y)) ts)"
    and "sum_list (map (length \<circ> tile_data) ts) < 2 ^ 64"
  shows "\<exists>w archive. add_tiles ts (pw_new zmin zmax bb js) = Some w \<and> tile_count w = length ts \<and>
    finish_into gz w = Some (Ok archive) \<and>
    (length archive < 2 ^ 64 \<longrightarrow>
      (\<forall>z x y. z \<le> 31 \<longrightarrow> x < 2 ^ z \<longrightarrow> y < 2 ^ z \<longrightarrow>
         archive_tile gunzip archive (tile_number z x y) = tile_table ts (z, x, y)))"
proof -
  obtain w where w: "add_tiles ts (pw_new zmin zmax bb js) = Some w" and inv: "writer_inv ts w"
    using add_tiles_inv [OF writer_inv_new [of zmin zmax bb js], of ts] assms(3,5) by auto
  have "length (pw_spill_file w) = sum_list (map (length \<circ> tile_data) ts)"
    using inv by (simp add: writer_inv_def length_concat comp_def)
  then have "length (pw_spill_file w) < 2 ^ 64" using assms(5) by simp
  then obtain r mb l archive where fin: "finish_into gz w = Some (Ok archive)"
    and dirs: "choose_directories gz (directory_of (sort_key se_tile_id (pw_entries w)) 0) = Some (Ok (r, l))"
    and archive: "archive = pm_header w r mb l (final_offset (sort_key se_tile_id (pw_entries w)) 0)
      (length (pw_entries w)) (length (pw_entries w)) @ r @ mb @ l
      @ concat (map (content (pw_spill_file w)) (sort_key se_tile_id (pw_entries w)))"
    using finish_into_ok [OF inv assms(2)] by blast
  let ?es = "sort_key se_tile_id (pw_entries w)"
  have spill: "\<forall>e\<in>set ?es. in_spill (pw_spill_file w) e"
    using writer_in_spill [OF inv] by simp
  have small: "unat (tile_number z x y) < 2 ^ 63" if "z \<le> 31" "x < 2 ^ z" "y < 2 ^ z" for z x y
    using tile_number_id [OF that] unat_word_of_nat_id [where 'a = 64] by fastforce
  have "\<forall>i\<in>set (map se_tile_id (pw_entries w)). unat i < 2 ^ 63"
    using writer_ids_below [OF inv assms(3)] small assms(3) by (fastforce simp: tile_ok_def)
  then have few: "length ?es < 2 ^ 64"
    using few_tiles [OF writer_ids_distinct [OF inv assms(3,4)]] by simp
  have "archive_tile gunzip archive (tile_number z x y) = tile_table ts (z, x, y)"
    if len: "length archive < 2 ^ 64" and t: "z \<le> 31" "x < 2 ^ z" "y < 2 ^ z" for z x y
  proof -
    have top: "tile_number z x y \<noteq> - 1"
      using small [OF t] by (auto simp: unsigned_minus_1_eq_mask mask_eq_exp_minus_1)
    have "sorted (map se_tile_id ?es)" by simp
    from archive_tile_content [OF assms(1) dirs this few spill archive len top]
    consider "archive_tile gunzip archive (tile_number z x y) = None" "tile_number z x y \<notin> se_tile_id ` set (pw_entries w)"
      | e where "e \<in> set (pw_entries w)" "se_tile_id e = tile_number z x y"
          "archive_tile gunzip archive (tile_number z x y) = Some (content (pw_spill_file w) e)"
      by auto
    then show ?thesis
    proof cases
      case 1
      have "(z, x, y, data) \<notin> set ts" for data
      proof
        assume "(z, x, y, data) \<in> set ts"
        then obtain i where "i < length ts" "ts ! i = (z, x, y, data)" by (auto simp: in_set_conv_nth)
        then have "i < length (pw_entries w)" "stored (pw_spill_file w) (z, x, y, data) (pw_entries w ! i)"
          using inv by (auto simp: writer_inv_def list_all2_conv_all_nth)
        then have "pw_entries w ! i \<in> set (pw_entries w)" "se_tile_id (pw_entries w ! i) = tile_number z x y"
          by (simp_all add: stored_def)
        then show False using 1(2) by (metis image_eqI)
      qed
      then show ?thesis using 1(1) tile_table_eq [OF assms(4)] by (metis not_Some_eq)
    next
      case 2
      obtain z' x' y' d where d: "(z', x', y', d) \<in> set ts" "se_tile_id e = tile_number z' x' y'"
          "content (pw_spill_file w) e = d"
        using writer_ids_below [OF inv assms(3) 2(1)] by blast
      have "z' = z \<and> x' = x \<and> y' = y"
        using tile_number_inj [of z' x' y' z x y] d(1,2) 2(2) t assms(3) by (auto simp: tile_ok_def)
      then have "tile_table ts (z, x, y) = Some d" using tile_table_eq [OF assms(4)] d(1) by blast
      then show ?thesis using 2(3) d(3) by simp
    qed
  qed
  moreover have "tile_count w = length ts"
    using inv list_all2_lengthD unfolding writer_inv_def tile_count_def by fastforce
  ultimately show ?thesis using w fin by blast
qed

lemma archive_returns_tiles_witness:
  "\<exists>w archive. add_tiles [(1, 0, 1, [1, 2, 3]), (0, 0, 0, [9])] (pw_new 0 1 (0, 0, 0, 0) []) = Some w \<and>
    tile_count w = length [(1, 0, 1, [1, 2, 3]), (0 :: nat, 0 :: nat, 0 :: nat, [9 :: u8])] \<and>
    finish_into Ok w = Some (Ok archive) \<and>
    (length archive < 2 ^ 64 \<longrightarrow>
      (\<forall>z x y. z \<le> 31 \<longrightarrow> x < 2 ^ z \<longrightarrow> y < 2 ^ z \<longrightarrow>
         archive_tile Some archive (tile_number z x y) =
         tile_table [(1, 0, 1, [1, 2, 3]), (0, 0, 0, [9])] (z, x, y)))"
  by (rule archive_returns_tiles) (simp_all add: gzip_contract_def tile_ok_def)

end
