(* ===== verification/Utf8.thy ===== *)
theory Utf8
  imports Rust_Str
begin

text \<open>
  Decoding UTF-8: \<open>String::from_utf8\<close>, which rejects an ill-formed sequence, and
  \<open>String::from_utf8_lossy\<close>, which replaces each maximal ill-formed prefix by \<open>U+FFFD\<close>.
\<close>

definition in_range :: "nat \<Rightarrow> nat \<Rightarrow> bytes \<Rightarrow> nat \<Rightarrow> bool" where
  "in_range lo hi bs i \<longleftrightarrow> i < length bs \<and> lo \<le> unat (bs ! i) \<and> unat (bs ! i) \<le> hi"

abbreviation cont_at :: "bytes \<Rightarrow> nat \<Rightarrow> bool" where
  "cont_at \<equiv> in_range 128 191"

abbreviation low_six :: "bytes \<Rightarrow> nat \<Rightarrow> nat" where
  "low_six bs i \<equiv> unat (bs ! i) - 128"

text \<open>The next scalar value, or nothing, with the number of bytes it takes (at least one).\<close>

definition utf8_step :: "bytes \<Rightarrow> rchar option \<times> nat" where
  "utf8_step bs =
     (let n = unat (bs ! 0) in
      if n < 128 then (Some n, 1)
      else if 194 \<le> n \<and> n < 224 then
        (if cont_at bs 1 then (Some ((n - 192) * 64 + low_six bs 1), 2) else (None, 1))
      else if 224 \<le> n \<and> n < 240 then
        (if in_range (if n = 224 then 160 else 128) (if n = 237 then 159 else 191) bs 1
         then (if cont_at bs 2 then (Some ((n - 224) * 4096 + low_six bs 1 * 64 + low_six bs 2), 3) else (None, 2))
         else (None, 1))
      else if 240 \<le> n \<and> n < 245 then
        (if in_range (if n = 240 then 144 else 128) (if n = 244 then 143 else 191) bs 1
         then (if cont_at bs 2
               then (if cont_at bs 3
                     then (Some ((n - 240) * 262144 + low_six bs 1 * 4096 + low_six bs 2 * 64 + low_six bs 3), 4)
                     else (None, 3))
               else (None, 2))
         else (None, 1))
      else (None, 1))"

lemma utf8_step_pos: "0 < snd (utf8_step bs)"
  by (simp add: utf8_step_def Let_def)

function utf8_chunks :: "bytes \<Rightarrow> rchar option list" where
  "utf8_chunks bs =
     (if bs = [] then []
      else (case utf8_step bs of (c, k) \<Rightarrow> c # utf8_chunks (drop k bs)))"
  by pat_completeness auto
termination
proof (relation "measure length")
  fix bs :: bytes and c k
  assume bs: "bs \<noteq> []" and step: "(c, k) = utf8_step bs"
  have "snd (utf8_step bs) = k" using step by (metis snd_conv)
  then have "0 < k" using utf8_step_pos [of bs] by simp
  then show "(drop k bs, bs) \<in> measure length" using bs by simp
qed simp

declare utf8_chunks.simps [simp del]

definition from_utf8 :: "bytes \<Rightarrow> rstr option" where
  "from_utf8 bs = those (utf8_chunks bs)"

definition from_utf8_lossy :: "bytes \<Rightarrow> rstr" where
  "from_utf8_lossy bs = map (\<lambda>c. case c of Some c \<Rightarrow> c | None \<Rightarrow> 0xFFFD) (utf8_chunks bs)"

section \<open>Decoding what was encoded\<close>

definition scalar :: "rchar \<Rightarrow> bool" where
  "scalar c \<longleftrightarrow> c < 0xD800 \<or> (0xE000 \<le> c \<and> c < 0x110000)"

definition rstr_ok :: "rstr \<Rightarrow> bool" where
  "rstr_ok s \<longleftrightarrow> list_all scalar s"

lemma unat_word8: "n < 256 \<Longrightarrow> unat (word_of_nat n :: u8) = n"
  by (intro unat_word_of_nat_id) simp

lemma utf8_step_two:
  assumes "194 \<le> a" "a < 224" "128 \<le> b" "b < 192"
  shows "utf8_step (word_of_nat a # word_of_nat b # bs) = (Some ((a - 192) * 64 + (b - 128)), 2)"
  using assms by (simp add: utf8_step_def in_range_def unat_word8)

lemma utf8_step_three:
  assumes "224 \<le> a" "a < 240" "128 \<le> b" "b < 192" "128 \<le> c" "c < 192" "a = 224 \<Longrightarrow> 160 \<le> b" "a = 237 \<Longrightarrow> b \<le> 159"
  shows "utf8_step (word_of_nat a # word_of_nat b # word_of_nat c # bs) =
    (Some ((a - 224) * 4096 + (b - 128) * 64 + (c - 128)), 3)"
  using assms by (simp add: utf8_step_def in_range_def unat_word8)

lemma utf8_step_four:
  assumes "240 \<le> a" "a < 245" "128 \<le> b" "b < 192" "128 \<le> c" "c < 192" "128 \<le> d" "d < 192"
    "a = 240 \<Longrightarrow> 144 \<le> b" "a = 244 \<Longrightarrow> b \<le> 143"
  shows "utf8_step (word_of_nat a # word_of_nat b # word_of_nat c # word_of_nat d # bs) =
    (Some ((a - 240) * 262144 + (b - 128) * 4096 + (c - 128) * 64 + (d - 128)), 4)"
  using assms by (simp add: utf8_step_def in_range_def unat_word8)

lemma utf8_step_char:
  assumes "scalar c"
  shows "utf8_step (utf8_char c @ bs) = (Some c, length (utf8_char c))"
proof -
  consider "c < 128" | "128 \<le> c" "c < 2048" | "2048 \<le> c" "c < 65536" | "65536 \<le> c" "c < 1114112"
    using assms by (force simp: scalar_def)
  then show ?thesis
  proof cases
    case 1
    then show ?thesis by (simp add: utf8_char_def utf8_step_def unat_word8)
  next
    case 2
    define a b where "a = 192 + c div 64" and "b = 128 + c mod 64"
    have u: "utf8_char c = [word_of_nat a, word_of_nat b]" using 2 by (simp add: utf8_char_def a_def b_def)
    have "194 \<le> a" "a < 224" "128 \<le> b" "b < 192" using 2 by (auto simp: a_def b_def)
    moreover have "(a - 192) * 64 + (b - 128) = c" by (simp add: a_def b_def)
    ultimately show ?thesis using utf8_step_two [of a b bs] by (simp add: u)
  next
    case 3
    define a b d where "a = 224 + c div 4096" and "b = 128 + c div 64 mod 64" and "d = 128 + c mod 64"
    have u: "utf8_char c = [word_of_nat a, word_of_nat b, word_of_nat d]"
      using 3 by (simp add: utf8_char_def a_def b_def d_def)
    have r: "224 \<le> a" "a < 240" "128 \<le> b" "b < 192" "128 \<le> d" "d < 192"
      using less_mult_imp_div_less [of c 16 4096] 3 by (simp_all add: a_def b_def d_def)
    have e0: "160 \<le> b" if "a = 224"
    proof -
      have "c div 64 < 64" using that less_mult_imp_div_less [of c 64 64] by (simp add: a_def div_eq_0_iff)
      moreover have "32 \<le> c div 64" using div_le_mono [OF 3(1), of 64] by simp
      ultimately show ?thesis by (simp add: b_def)
    qed
    have ed: "b \<le> 159" if "a = 237"
    proof -
      have d: "c div 64 div 64 = 13" using that by (simp add: a_def div_mult2_eq [symmetric])
      have "14 \<le> c div 4096" if "0xE000 \<le> c" using div_le_mono [OF that, of 4096] by simp
      then have "c < 0xD800" using assms that by (auto simp: scalar_def a_def)
      then have "c div 64 < 864" by (simp add: less_mult_imp_div_less)
      moreover have "c div 64 = 64 * 13 + c div 64 mod 64" using d by (metis mult_div_mod_eq)
      ultimately show ?thesis by (simp add: b_def)
    qed
    have "c div 64 = c div 4096 * 64 + c div 64 mod 64"
      using div_mult_mod_eq [of "c div 64" 64] by (simp add: div_mult2_eq [symmetric])
    then have "c = (c div 4096 * 64 + c div 64 mod 64) * 64 + c mod 64"
      using div_mult_mod_eq [of c 64] by simp
    then have "(a - 224) * 4096 + (b - 128) * 64 + (d - 128) = c" by (simp add: a_def b_def d_def)
    then show ?thesis using utf8_step_three [OF r e0 ed, of bs] by (simp add: u)
  next
    case 4
    define a b d e where "a = 240 + c div 262144" and "b = 128 + c div 4096 mod 64"
      and "d = 128 + c div 64 mod 64" and "e = 128 + c mod 64"
    have u: "utf8_char c = [word_of_nat a, word_of_nat b, word_of_nat d, word_of_nat e]"
      using 4 by (simp add: utf8_char_def a_def b_def d_def e_def)
    have r: "240 \<le> a" "a < 245" "128 \<le> b" "b < 192" "128 \<le> d" "d < 192" "128 \<le> e" "e < 192"
      using less_mult_imp_div_less [of c 5 262144] 4 by (simp_all add: a_def b_def d_def e_def)
    have f0: "144 \<le> b" if "a = 240"
    proof -
      have "c div 4096 < 64" using that by (simp add: a_def div_eq_0_iff less_mult_imp_div_less)
      moreover have "16 \<le> c div 4096" using div_le_mono [OF 4(1), of 4096] by simp
      ultimately show ?thesis by (simp add: b_def)
    qed
    have f4: "b \<le> 143" if "a = 244"
    proof -
      have d: "c div 4096 div 64 = 4" using that by (simp add: a_def div_mult2_eq [symmetric])
      have "c div 4096 < 272" using 4 by (simp add: less_mult_imp_div_less)
      moreover have "c div 4096 = 64 * 4 + c div 4096 mod 64" using d by (metis mult_div_mod_eq)
      ultimately show ?thesis by (simp add: b_def)
    qed
    have "c div 4096 = c div 262144 * 64 + c div 4096 mod 64"
      using div_mult_mod_eq [of "c div 4096" 64] by (simp add: div_mult2_eq [symmetric])
    moreover have "c div 64 = c div 4096 * 64 + c div 64 mod 64"
      using div_mult_mod_eq [of "c div 64" 64] by (simp add: div_mult2_eq [symmetric])
    ultimately have "c = ((c div 262144 * 64 + c div 4096 mod 64) * 64 + c div 64 mod 64) * 64 + c mod 64"
      using div_mult_mod_eq [of c 64] by simp
    then have "(a - 240) * 262144 + (b - 128) * 4096 + (d - 128) * 64 + (e - 128) = c"
      by (simp add: a_def b_def d_def e_def)
    then show ?thesis using utf8_step_four [OF r f0 f4, of bs] by (simp add: u)
  qed
qed

lemma utf8_chunks_as_bytes: "rstr_ok s \<Longrightarrow> utf8_chunks (as_bytes s) = map Some s"
proof (induction s)
  case (Cons c s)
  then have c: "scalar c" "rstr_ok s" by (simp_all add: rstr_ok_def)
  then show ?case
    using utf8_step_char [OF c(1), of "as_bytes s"] Cons.IH
    by (subst utf8_chunks.simps) simp
qed (simp add: utf8_chunks.simps)

lemma those_map_Some: "those (map Some xs) = Some xs"
  by (induction xs) simp_all

lemma from_utf8_as_bytes [simp]: "rstr_ok s \<Longrightarrow> from_utf8 (as_bytes s) = Some s"
  by (simp add: from_utf8_def utf8_chunks_as_bytes those_map_Some)

lemma from_utf8_lossy_as_bytes [simp]: "rstr_ok s \<Longrightarrow> from_utf8_lossy (as_bytes s) = s"
  by (simp add: from_utf8_lossy_def utf8_chunks_as_bytes comp_def)

lemma from_utf8_eq: "as_bytes s = b \<Longrightarrow> rstr_ok s \<Longrightarrow> from_utf8 b = Some s"
  by auto

lemma as_bytes_inj: "rstr_ok s \<Longrightarrow> rstr_ok t \<Longrightarrow> as_bytes s = as_bytes t \<longleftrightarrow> s = t"
  by (metis from_utf8_as_bytes option.inject)

end
