(* ===== verification/Mvt_Value.thy ===== *)
theory Mvt_Value
  imports Varint Fast_Hex Utf8
begin

text \<open>
  Properties of Mapbox Vector Tile features (\<open>pmtiles/mvt.rs\<close>): the protobuf primitives,
  \<open>MvtValue\<close> with its equality and its encoding, the property whitelist \<open>PropertyFilter\<close> and
  the walk over a feature's properties that a filter lets through.
\<close>

section \<open>Protobuf primitives\<close>

definition zigzag_encode :: "i32 \<Rightarrow> u32" where
  "zigzag_encode val = push_bit 1 val XOR signed_drop_bit 31 val"

definition write_tag :: "u32 \<Rightarrow> u32 \<Rightarrow> bytes" where
  "write_tag field_number wire_type = write_varint (ucast (push_bit 3 field_number OR wire_type))"

definition write_bytes_field :: "u32 \<Rightarrow> bytes \<Rightarrow> bytes" where
  "write_bytes_field field_number b = write_tag field_number 2 @ write_varint (word_of_nat (length b)) @ b"

definition write_string_field :: "u32 \<Rightarrow> rstr \<Rightarrow> bytes" where
  "write_string_field field_number s = write_bytes_field field_number (as_bytes s)"

section \<open>Values\<close>

text \<open>\<open>HexStr\<close> holds a buffer of sixteen bytes and the number of them in use.\<close>

datatype mvt_value =
    MString rstr
  | MHexStr bytes u8
  | MFloat f32
  | MDouble f64
  | MInt i64
  | MUInt u64
  | MBool bool

definition hex_slice :: "bytes \<Rightarrow> u8 \<Rightarrow> bytes" where
  "hex_slice b len = take (unat len) b"

fun mvt_eq :: "mvt_value \<Rightarrow> mvt_value \<Rightarrow> bool" where
  "mvt_eq (MString a) (MString b) = (a = b)"
| "mvt_eq (MHexStr a len_a) (MHexStr b len_b) = (len_a = len_b \<and> hex_slice a len_a = hex_slice b len_b)"
| "mvt_eq (MString a) (MHexStr b len_b) = (as_bytes a = hex_slice b len_b)"
| "mvt_eq (MHexStr a len_a) (MString b) = (hex_slice a len_a = as_bytes b)"
| "mvt_eq (MFloat a) (MFloat b) = (a = b)"
| "mvt_eq (MDouble a) (MDouble b) = (a = b)"
| "mvt_eq (MInt a) (MInt b) = (a = b)"
| "mvt_eq (MUInt a) (MUInt b) = (a = b)"
| "mvt_eq (MBool a) (MBool b) = (a = b)"
| "mvt_eq _ _ = False"

definition from_hex_u64 :: "u64 \<Rightarrow> mvt_value" where
  "from_hex_u64 h3_index =
     (let (buf, s) = fast_hex_u64 h3_index (replicate 16 0);
          len = length s;
          moved = drop (16 - len) buf @ drop len buf
      in MHexStr moved (word_of_nat len))"

fun write_value :: "mvt_value \<Rightarrow> bytes" where
  "write_value (MString s) = write_string_field 1 s"
| "write_value (MHexStr b len) = (case from_utf8 (hex_slice b len) of Some s \<Rightarrow> write_string_field 1 s | None \<Rightarrow> [])"
| "write_value (MFloat f) = write_tag 2 5 @ to_le_bytes f"
| "write_value (MDouble d) = write_tag 3 1 @ to_le_bytes d"
| "write_value (MInt i) = write_tag 4 0 @ write_varint i"
| "write_value (MUInt u) = write_tag 5 0 @ write_varint u"
| "write_value (MBool b) = write_tag 7 0 @ write_varint (if b then 1 else 0)"

section \<open>The property filter\<close>

type_synonym mask = u16

definition PROP_ALL_CONTINUOUS :: mask where "PROP_ALL_CONTINUOUS = 0x1FF"
definition PROP_ALL_CATEGORICAL :: mask where "PROP_ALL_CATEGORICAL = 0xFF"

definition PROP_H3_INDEX :: mask where "PROP_H3_INDEX = 0x1"
definition PROP_H3_HEX :: mask where "PROP_H3_HEX = 0x2"
definition PROP_RESOLUTION :: mask where "PROP_RESOLUTION = 0x4"
definition PROP_MEAN :: mask where "PROP_MEAN = 0x8"
definition PROP_SUM :: mask where "PROP_SUM = 0x10"
definition PROP_STDDEV :: mask where "PROP_STDDEV = 0x20"
definition PROP_COUNT :: mask where "PROP_COUNT = 0x40"
definition PROP_MIN :: mask where "PROP_MIN = 0x80"
definition PROP_MAX :: mask where "PROP_MAX = 0x100"

definition PROP_CAT_H3_INDEX :: mask where "PROP_CAT_H3_INDEX = 0x1"
definition PROP_CAT_H3_HEX :: mask where "PROP_CAT_H3_HEX = 0x2"
definition PROP_CAT_RESOLUTION :: mask where "PROP_CAT_RESOLUTION = 0x4"
definition PROP_CAT_MAJORITY :: mask where "PROP_CAT_MAJORITY = 0x8"
definition PROP_CAT_MAJORITY_FRACTION :: mask where "PROP_CAT_MAJORITY_FRACTION = 0x10"
definition PROP_CAT_DISTINCT_CLASSES :: mask where "PROP_CAT_DISTINCT_CLASSES = 0x20"
definition PROP_CAT_ENTROPY :: mask where "PROP_CAT_ENTROPY = 0x40"
definition PROP_CAT_COUNT :: mask where "PROP_CAT_COUNT = 0x80"

record property_filter =
  pf_continuous_mask :: mask
  pf_categorical_mask :: mask
  pf_generic_whitelist :: "rstr set option"
  pf_is_custom :: bool

definition filter_all :: property_filter where
  "filter_all =
     \<lparr> pf_continuous_mask = PROP_ALL_CONTINUOUS, pf_categorical_mask = PROP_ALL_CATEGORICAL,
       pf_generic_whitelist = None, pf_is_custom = False \<rparr>"

text \<open>The \<open>match\<close> on one token: the bits it adds to the continuous and to the categorical mask.\<close>

definition token_masks :: "rstr \<Rightarrow> mask \<times> mask" where
  "token_masks token =
     (if token \<in> {lit ''h3_index'', lit ''index'', lit ''h3''} then (PROP_H3_INDEX, PROP_CAT_H3_INDEX)
      else if token \<in> {lit ''h3_hex'', lit ''hex''} then (PROP_H3_HEX, PROP_CAT_H3_HEX)
      else if token \<in> {lit ''resolution'', lit ''res''} then (PROP_RESOLUTION, PROP_CAT_RESOLUTION)
      else if token \<in> {lit ''mean'', lit ''avg''} then (PROP_MEAN, 0)
      else if token \<in> {lit ''sum'', lit ''total''} then (PROP_SUM, 0)
      else if token \<in> {lit ''stddev'', lit ''std'', lit ''variance''} then (PROP_STDDEV, 0)
      else if token \<in> {lit ''count'', lit ''pixel_count'', lit ''pixels''} then (PROP_COUNT, PROP_CAT_COUNT)
      else if token \<in> {lit ''min'', lit ''minimum''} then (PROP_MIN, 0)
      else if token \<in> {lit ''max'', lit ''maximum''} then (PROP_MAX, 0)
      else if token \<in> {lit ''majority'', lit ''mode''} then (0, PROP_CAT_MAJORITY)
      else if token \<in> {lit ''majority_fraction'', lit ''fraction'', lit ''purity''} then (0, PROP_CAT_MAJORITY_FRACTION)
      else if token \<in> {lit ''distinct_classes'', lit ''unique_classes'', lit ''num_classes''} then (0, PROP_CAT_DISTINCT_CLASSES)
      else if token \<in> {lit ''entropy'', lit ''shannon_entropy''} then (0, PROP_CAT_ENTROPY)
      else (0, 0))"

fun parse_parts :: "rstr list \<Rightarrow> mask \<Rightarrow> mask \<Rightarrow> rstr set \<Rightarrow> mask \<times> mask \<times> rstr set" where
  "parse_parts [] cont_mask cat_mask generic_set = (cont_mask, cat_mask, generic_set)"
| "parse_parts (part # ps) cont_mask cat_mask generic_set =
     (let token = to_ascii_lowercase (trim part)
      in if token = [] then parse_parts ps cont_mask cat_mask generic_set
         else (let (c, k) = token_masks token
               in parse_parts ps (cont_mask OR c) (cat_mask OR k) (insert token generic_set)))"

definition filter_parse :: "rstr \<Rightarrow> property_filter" where
  "filter_parse s =
     (let trimmed = trim s
      in if trimmed = [] \<or> trimmed = lit ''*'' \<or> to_ascii_lowercase trimmed = lit ''all'' then filter_all
         else (let (cont_mask, cat_mask, generic_set) = parse_parts (split_char 44 trimmed) 0 0 {}
               in \<lparr> pf_continuous_mask = cont_mask, pf_categorical_mask = cat_mask,
                    pf_generic_whitelist = Some generic_set, pf_is_custom = True \<rparr>))"

definition has_continuous :: "property_filter \<Rightarrow> mask \<Rightarrow> bool" where
  "has_continuous f flag = (pf_continuous_mask f AND flag \<noteq> 0)"

definition has_categorical :: "property_filter \<Rightarrow> mask \<Rightarrow> bool" where
  "has_categorical f flag = (pf_categorical_mask f AND flag \<noteq> 0)"

definition allows_generic :: "property_filter \<Rightarrow> rstr \<Rightarrow> bool" where
  "allows_generic f name =
     (case pf_generic_whitelist f of Some s \<Rightarrow> to_ascii_lowercase name \<in> s | None \<Rightarrow> True)"

definition needs_stddev :: "property_filter \<Rightarrow> bool" where
  "needs_stddev f = (\<not> pf_is_custom f \<or> has_continuous f PROP_STDDEV)"

definition needs_entropy :: "property_filter \<Rightarrow> bool" where
  "needs_entropy f = (\<not> pf_is_custom f \<or> has_categorical f PROP_CAT_ENTROPY)"

section \<open>Feature properties\<close>

record continuous_props =
  cp_h3_index :: u64
  cp_resolution :: u8
  cp_mean :: f64
  cp_sum :: f64
  cp_stddev :: f64
  cp_count :: f64
  cp_min :: f64
  cp_max :: f64

record categorical_props =
  kp_h3_index :: u64
  kp_resolution :: u8
  kp_majority :: i64
  kp_majority_fraction :: f64
  kp_distinct_classes :: u32
  kp_entropy :: f64
  kp_count :: f64

datatype feature_properties =
    Continuous continuous_props
  | Categorical categorical_props
  | Generic "(rstr \<times> mvt_value) list"

text \<open>The properties a fixed schema offers, each with the flag that lets it through, in the order of the code.\<close>

definition continuous_fields :: "continuous_props \<Rightarrow> (mask \<times> rstr \<times> mvt_value) list" where
  "continuous_fields p =
     [(PROP_H3_INDEX, lit ''h3_index'', MUInt (cp_h3_index p)),
      (PROP_H3_HEX, lit ''h3_hex'', from_hex_u64 (cp_h3_index p)),
      (PROP_RESOLUTION, lit ''resolution'', MUInt (ucast (cp_resolution p))),
      (PROP_MEAN, lit ''mean'', MDouble (cp_mean p)),
      (PROP_SUM, lit ''sum'', MDouble (cp_sum p)),
      (PROP_STDDEV, lit ''stddev'', MDouble (cp_stddev p)),
      (PROP_COUNT, lit ''count'', MDouble (cp_count p)),
      (PROP_MIN, lit ''min'', MDouble (cp_min p)),
      (PROP_MAX, lit ''max'', MDouble (cp_max p))]"

definition categorical_fields :: "categorical_props \<Rightarrow> (mask \<times> rstr \<times> mvt_value) list" where
  "categorical_fields p =
     [(PROP_CAT_H3_INDEX, lit ''h3_index'', MUInt (kp_h3_index p)),
      (PROP_CAT_H3_HEX, lit ''h3_hex'', from_hex_u64 (kp_h3_index p)),
      (PROP_CAT_RESOLUTION, lit ''resolution'', MUInt (ucast (kp_resolution p))),
      (PROP_CAT_MAJORITY, lit ''majority'', MInt (kp_majority p)),
      (PROP_CAT_MAJORITY_FRACTION, lit ''majority_fraction'', MDouble (kp_majority_fraction p)),
      (PROP_CAT_DISTINCT_CLASSES, lit ''distinct_classes'', MUInt (ucast (kp_distinct_classes p))),
      (PROP_CAT_ENTROPY, lit ''entropy'', MDouble (kp_entropy p)),
      (PROP_CAT_COUNT, lit ''count'', MDouble (kp_count p))]"

text \<open>The calls \<open>f(k, v)\<close> of \<open>for_each_filtered\<close>, in order.\<close>

definition for_each_filtered :: "property_filter \<Rightarrow> feature_properties \<Rightarrow> (rstr \<times> mvt_value) list" where
  "for_each_filtered f props =
     (case props of
        Continuous p \<Rightarrow> map snd (filter (\<lambda>(flag, kv). has_continuous f flag) (continuous_fields p))
      | Categorical p \<Rightarrow> map snd (filter (\<lambda>(flag, kv). has_categorical f flag) (categorical_fields p))
      | Generic kvs \<Rightarrow> filter (\<lambda>(k, v). allows_generic f k) kvs)"

definition for_each :: "feature_properties \<Rightarrow> (rstr \<times> mvt_value) list" where
  "for_each p = for_each_filtered filter_all p"

section \<open>Equal values have equal encodings\<close>

definition value_ok :: "mvt_value \<Rightarrow> bool" where
  "value_ok v = (case v of MString s \<Rightarrow> rstr_ok s | MHexStr b len \<Rightarrow> length b = 16 \<and> unat len \<le> 16 | _ \<Rightarrow> True)"

lemma mvt_eq_wire: "mvt_eq v w \<Longrightarrow> value_ok v \<Longrightarrow> value_ok w \<Longrightarrow> write_value v = write_value w"
  by (cases "(v, w)" rule: mvt_eq.cases)
    (auto simp: value_ok_def from_utf8_eq from_utf8_eq [OF sym])

lemma fast_hex_u64_buffer:
  assumes "length buf = 16" "fast_hex_u64 val buf = (b, s)"
  shows "length b = 16 \<and> s = drop (16 - length s) b \<and> length s \<le> 16"
proof (cases "val = 0")
  case True
  then show ?thesis using assms by (auto simp: fast_hex_u64_def Let_def)
next
  case False
  have "unat val < 16 ^ 16" using unat_u64_less [of val] by simp
  then obtain j b' where "hex_loop 16 val buf = (j, b')" "j \<le> 16" "length b' = 16"
    using hex_loop_digits [of val 16 buf] assms(1) by auto
  then show ?thesis using False assms(2) by (auto simp: fast_hex_u64_def)
qed

lemma from_hex_u64_value:
  "\<exists>b len. from_hex_u64 h = MHexStr b len \<and> length b = 16 \<and> unat len \<le> 16 \<and>
     hex_slice b len = (if h = 0 then [48] else hex_text (unat h))"
proof -
  obtain buf s where f: "fast_hex_u64 h (replicate 16 0) = (buf, s)" by fastforce
  have s: "s = (if h = 0 then [48] else hex_text (unat h))"
    using fast_hex_u64_slice [of "replicate 16 0" h] f by simp
  have buf: "length buf = 16 \<and> s = drop (16 - length s) buf \<and> length s \<le> 16"
    by (rule fast_hex_u64_buffer [OF _ f]) simp
  have len: "unat (word_of_nat (length s) :: u8) = length s"
    using buf by (intro unat_word8) simp
  have "from_hex_u64 h = MHexStr (drop (16 - length s) buf @ drop (length s) buf) (word_of_nat (length s))"
    by (simp add: from_hex_u64_def f Let_def)
  moreover have "hex_slice (drop (16 - length s) buf @ drop (length s) buf) (word_of_nat (length s)) = s"
    using buf len by (simp add: hex_slice_def)
  moreover have "length (drop (16 - length s) buf @ drop (length s) buf) = 16" using buf by simp
  ultimately show ?thesis unfolding s [symmetric] using len buf by metis
qed

lemma from_hex_u64_ok: "value_ok (from_hex_u64 h)"
  using from_hex_u64_value [of h] by (auto simp: value_ok_def)

section \<open>What a whitelist lets through\<close>

definition wildcard :: "rstr \<Rightarrow> bool" where
  "wildcard s = (trim s = [] \<or> trim s = lit ''*'' \<or> to_ascii_lowercase (trim s) = lit ''all'')"

definition tokens :: "rstr \<Rightarrow> rstr set" where
  "tokens s = {t. t \<noteq> [] \<and> (\<exists>part\<in>set (split_char 44 (trim s)). t = to_ascii_lowercase (trim part))}"

lemma parse_parts_spec:
  "parse_parts ps c k g = (c', k', g') \<Longrightarrow>
   g' = g \<union> {t. t \<noteq> [] \<and> (\<exists>p\<in>set ps. t = to_ascii_lowercase (trim p))} \<and>
   (\<forall>n. bit c' n \<longleftrightarrow> bit c n \<or> (\<exists>p\<in>set ps. to_ascii_lowercase (trim p) \<noteq> [] \<and> bit (fst (token_masks (to_ascii_lowercase (trim p)))) n)) \<and>
   (\<forall>n. bit k' n \<longleftrightarrow> bit k n \<or> (\<exists>p\<in>set ps. to_ascii_lowercase (trim p) \<noteq> [] \<and> bit (snd (token_masks (to_ascii_lowercase (trim p)))) n))"
proof (induction ps arbitrary: c k g)
  case (Cons p ps)
  define t where "t = to_ascii_lowercase (trim p)"
  show ?case
  proof (cases "t = []")
    case True
    then have "parse_parts ps c k g = (c', k', g')"
      using Cons.prems by (simp add: t_def Let_def)
    then show ?thesis using Cons.IH True unfolding t_def by fastforce
  next
    case False
    obtain a b where ab: "token_masks t = (a, b)" by fastforce
    then have "parse_parts ps (c OR a) (k OR b) (insert t g) = (c', k', g')"
      using Cons.prems False by (simp add: t_def Let_def)
    from Cons.IH [OF this] show ?thesis
      using False ab by (simp add: t_def [symmetric] bit_or_iff) blast
  qed
qed simp

lemma mask_bit: "(m :: mask) AND 2 ^ n \<noteq> 0 \<longleftrightarrow> bit m n"
proof -
  have "m AND 2 ^ n = (if bit m n then 2 ^ n else 0)"
    by (rule bit_eqI) (auto simp: bit_and_iff bit_exp_iff)
  moreover have "(2 :: mask) ^ n \<noteq> 0" if "bit m n"
    using bit_imp_le_length [OF that] by simp
  ultimately show ?thesis by auto
qed

section \<open>Properties\<close>

text \<open>
  The exact meaning of a property whitelist. A blank text, \<open>*\<close> and \<open>all\<close> (in any case) let
  every property through; any other text lets a generic property through when its lower-case name
  is one of the comma-separated tokens, and the property of a fixed schema when some token is one
  of its aliases, whatever the case, the surrounding white space, the order and the repetitions.
\<close>

theorem filter_parse_exact:
  "allows_generic (filter_parse s) name = (wildcard s \<or> to_ascii_lowercase name \<in> tokens s) \<and>
   has_continuous (filter_parse s) (2 ^ n) =
     (if wildcard s then n < 9 else \<exists>t\<in>tokens s. bit (fst (token_masks t)) n) \<and>
   has_categorical (filter_parse s) (2 ^ n) =
     (if wildcard s then n < 8 else \<exists>t\<in>tokens s. bit (snd (token_masks t)) n)"
proof (cases "wildcard s")
  case True
  have c: "PROP_ALL_CONTINUOUS = mask 9" and k: "PROP_ALL_CATEGORICAL = mask 8"
    by (simp_all add: PROP_ALL_CONTINUOUS_def PROP_ALL_CATEGORICAL_def mask_eq_exp_minus_1)
  have "bit PROP_ALL_CONTINUOUS n = (n < 9)" "bit PROP_ALL_CATEGORICAL n = (n < 8)"
    unfolding c k bit_mask_iff by auto
  moreover have "filter_parse s = filter_all"
    using True by (simp add: filter_parse_def wildcard_def)
  ultimately show ?thesis
    using True by (simp add: allows_generic_def has_continuous_def has_categorical_def mask_bit filter_all_def)
next
  case False
  obtain c k g where p: "parse_parts (split_char 44 (trim s)) 0 0 {} = (c, k, g)" by (metis prod_cases3)
  then have f: "filter_parse s = \<lparr> pf_continuous_mask = c, pf_categorical_mask = k,
      pf_generic_whitelist = Some g, pf_is_custom = True \<rparr>"
    using False by (simp add: filter_parse_def wildcard_def Let_def)
  show ?thesis
    using parse_parts_spec [OF p] False
    by (auto simp: f allows_generic_def has_continuous_def has_categorical_def mask_bit tokens_def)
qed

end
