(* ===== verification/Protobuf.thy ===== *)
theory Protobuf
  imports Varint
begin

text \<open>
  A reference reader of protobuf messages, the specification side of the tile encoder: a
  message is a sequence of fields, each a varint tag (number and wire type) and a payload.
\<close>

section \<open>Repeated reading\<close>

text \<open>Read values until the input ends; the number of input bytes bounds the number of values.\<close>

fun many :: "nat \<Rightarrow> ('e, 'a) reader \<Rightarrow> bytes \<Rightarrow> 'a list option" where
  "many n p [] = Some []"
| "many 0 p (b # bs) = None"
| "many (Suc n) p (b # bs) =
     (case p (b # bs) of Inl _ \<Rightarrow> None | Inr (x, rest) \<Rightarrow> map_option ((#) x) (many n p rest))"

definition read_all :: "('e, 'a) reader \<Rightarrow> bytes \<Rightarrow> 'a list option" where
  "read_all p bs = many (length bs) p bs"

lemma many_cons: "bs \<noteq> [] \<Longrightarrow> p bs = Ok (x, rest) \<Longrightarrow> many (Suc n) p bs = map_option ((#) x) (many n p rest)"
  by (cases bs) auto

text \<open>A codec whose encodings are never empty can be read until the end.\<close>

locale stream_codec = byte_codec enc dec wf
  for enc :: "'a \<Rightarrow> bytes" and dec :: "('e, 'a) reader" and wf :: "'a \<Rightarrow> bool" +
  assumes nonempty: "enc x \<noteq> []"
begin

lemma many_concat: "\<forall>x\<in>set xs. wf x \<Longrightarrow> length xs \<le> n \<Longrightarrow> many n dec (concat (map enc xs)) = Some xs"
proof (induction xs arbitrary: n)
  case (Cons x xs)
  then obtain m where m: "n = Suc m" by (cases n) auto
  have "dec (enc x @ concat (map enc xs)) = Ok (x, concat (map enc xs))"
    using Cons.prems by (simp add: roundtrip)
  then have "many (Suc m) dec (enc x @ concat (map enc xs)) = map_option ((#) x) (many m dec (concat (map enc xs)))"
    by (intro many_cons) (simp_all add: nonempty)
  then show ?case using Cons m by simp
qed simp

lemma length_le_concat: "length xs \<le> length (concat (map enc xs))"
proof (induction xs)
  case (Cons x xs)
  then show ?case using nonempty [of x] by (cases "enc x") simp_all
qed simp

lemma read_all_concat: "\<forall>x\<in>set xs. wf x \<Longrightarrow> read_all dec (concat (map enc xs)) = Some xs"
  unfolding read_all_def by (rule many_concat) (simp_all add: length_le_concat del: length_concat)

end

lemma write_varint_nonempty [simp]: "write_varint v \<noteq> []"
  using length_write_varint(1) [of v] by auto

interpretation varints: stream_codec write_varint read_varint "\<lambda>_. True"
  by unfold_locales simp

section \<open>Fields\<close>

datatype payload = PVarint u64 | PFixed64 bytes | PBytes bytes | PFixed32 bytes

type_synonym pb_field = "nat \<times> payload"

fun wire_type :: "payload \<Rightarrow> nat" where
  "wire_type (PVarint _) = 0"
| "wire_type (PFixed64 _) = 1"
| "wire_type (PBytes _) = 2"
| "wire_type (PFixed32 _) = 5"

fun payload_bytes :: "payload \<Rightarrow> bytes" where
  "payload_bytes (PVarint v) = write_varint v"
| "payload_bytes (PFixed64 b) = b"
| "payload_bytes (PBytes b) = write_varint (word_of_nat (length b)) @ b"
| "payload_bytes (PFixed32 b) = b"

fun payload_ok :: "payload \<Rightarrow> bool" where
  "payload_ok (PVarint v) = True"
| "payload_ok (PFixed64 b) = (length b = 8)"
| "payload_ok (PBytes b) = (length b < 2 ^ 64)"
| "payload_ok (PFixed32 b) = (length b = 4)"

definition field_bytes :: "pb_field \<Rightarrow> bytes" where
  "field_bytes f = (case f of (n, p) \<Rightarrow> write_varint (word_of_nat (8 * n + wire_type p)) @ payload_bytes p)"

definition read_payload :: "nat \<Rightarrow> (unit, payload) reader" where
  "read_payload wt =
     (if wt = 0 then bind_p read_varint (\<lambda>v. return_p (PVarint v))
      else if wt = 1 then bind_p (take_p () 8) (\<lambda>b. return_p (PFixed64 b))
      else if wt = 2 then bind_p read_varint (\<lambda>n. bind_p (take_p () (unat n)) (\<lambda>b. return_p (PBytes b)))
      else if wt = 5 then bind_p (take_p () 4) (\<lambda>b. return_p (PFixed32 b))
      else fail_p ())"

definition read_field :: "(unit, pb_field) reader" where
  "read_field = bind_p read_varint (\<lambda>t. bind_p (read_payload (unat t mod 8)) (\<lambda>p. return_p (unat t div 8, p)))"

definition field_ok :: "pb_field \<Rightarrow> bool" where
  "field_ok f = (case f of (n, p) \<Rightarrow> n < 2 ^ 29 \<and> payload_ok p)"

lemma wire_type_less: "wire_type p < 8"
  by (cases p) simp_all

lemma read_payload_bytes: "payload_ok p \<Longrightarrow> read_payload (wire_type p) (payload_bytes p @ rest) = Ok (p, rest)"
  by (cases p) (simp_all add: read_payload_def bind_p_def return_p_def read_write_varint unat_word_of_nat_id)

lemma read_field_bytes:
  assumes "field_ok f"
  shows "read_field (field_bytes f @ rest) = Ok (f, rest)"
proof -
  obtain n p where f: "f = (n, p)" by fastforce
  let ?t = "8 * n + wire_type p"
  have "?t < 2 ^ 64" using assms wire_type_less [of p] by (simp add: field_ok_def f)
  then have t: "unat (word_of_nat ?t :: u64) = ?t" by (intro unat_word_of_nat_id) simp
  then show ?thesis
    using assms read_payload_bytes [of p rest] wire_type_less [of p]
    by (simp add: f field_ok_def field_bytes_def read_field_def bind_p_def return_p_def read_write_varint del: of_nat_add)
qed

interpretation fields: stream_codec field_bytes read_field field_ok
proof unfold_locales
  show "read_field (field_bytes f @ rest) = Ok (f, rest)" if "field_ok f" for f rest
    by (rule read_field_bytes [OF that])
  show "field_bytes f \<noteq> []" for f by (cases f) (simp add: field_bytes_def)
qed

definition read_message :: "bytes \<Rightarrow> pb_field list option" where
  "read_message = read_all read_field"

definition message_bytes :: "pb_field list \<Rightarrow> bytes" where
  "message_bytes fs = concat (map field_bytes fs)"

lemma read_message_bytes: "\<forall>f\<in>set fs. field_ok f \<Longrightarrow> read_message (message_bytes fs) = Some fs"
  unfolding read_message_def message_bytes_def by (rule fields.read_all_concat)

lemma message_bytes_append [simp]: "message_bytes (fs @ gs) = message_bytes fs @ message_bytes gs"
  by (simp add: message_bytes_def)

lemma message_bytes_Nil [simp]: "message_bytes [] = []"
  by (simp add: message_bytes_def)

lemma message_bytes_Cons [simp]: "message_bytes (f # fs) = field_bytes f @ message_bytes fs"
  by (simp add: message_bytes_def)

text \<open>The values of a field number, in order.\<close>

definition bytes_fields :: "nat \<Rightarrow> pb_field list \<Rightarrow> bytes list" where
  "bytes_fields n fs = List.map_filter (\<lambda>(m, p). case p of PBytes b \<Rightarrow> if m = n then Some b else None | _ \<Rightarrow> None) fs"

definition varint_fields :: "nat \<Rightarrow> pb_field list \<Rightarrow> u64 list" where
  "varint_fields n fs = List.map_filter (\<lambda>(m, p). case p of PVarint v \<Rightarrow> if m = n then Some v else None | _ \<Rightarrow> None) fs"

lemma bytes_fields_simps [simp]:
  "bytes_fields n [] = []"
  "bytes_fields n ((m, PBytes b) # fs) = (if m = n then b # bytes_fields n fs else bytes_fields n fs)"
  "bytes_fields n ((m, PVarint v) # fs) = bytes_fields n fs"
  "bytes_fields n (fs @ gs) = bytes_fields n fs @ bytes_fields n gs"
  by (simp_all add: bytes_fields_def map_filter_def)

lemma varint_fields_simps [simp]:
  "varint_fields n [] = []"
  "varint_fields n ((m, PBytes b) # fs) = varint_fields n fs"
  "varint_fields n ((m, PVarint v) # fs) = (if m = n then v # varint_fields n fs else varint_fields n fs)"
  "varint_fields n (fs @ gs) = varint_fields n fs @ varint_fields n gs"
  by (simp_all add: varint_fields_def map_filter_def)

lemma bytes_fields_map [simp]:
  "bytes_fields n (map (\<lambda>b. (m, PBytes b)) bs) = (if m = n then bs else [])"
  "varint_fields n (map (\<lambda>b. (m, PBytes b)) bs) = []"
  by (induction bs) auto

end
