(* ===== verification/Mvt_Layer.thy ===== *)
theory Mvt_Layer
  imports Mvt_Value Protobuf
begin

text \<open>
  Layers of a Mapbox Vector Tile (\<open>pmtiles/mvt.rs\<close>): \<open>MvtFeature\<close>, the ring orientation, the
  layer's de-duplicating operations and \<open>MvtLayer::encode\<close>, with the reference reader that the
  encoding is proved against.
\<close>

section \<open>Features\<close>

definition MAX_FEATURE_POINTS :: nat where
  "MAX_FEATURE_POINTS = 14"

record mvt_feature =
  mf_id :: u64
  mf_properties :: feature_properties
  mf_polygon_x :: "i32 list"
  mf_polygon_y :: "i32 list"
  mf_num_points :: u8
  mf_wrapped_x_offset :: i32

text \<open>The surveyor's formula on 64-bit integers.\<close>

definition ring_area :: "i32 list \<Rightarrow> i32 list \<Rightarrow> nat \<Rightarrow> i64" where
  "ring_area px py n =
     sum_list (map (\<lambda>i. let j = (i + 1) mod n
                        in scast (px ! i) * scast (py ! j) - scast (px ! j) * scast (py ! i)) [0..<n])"

definition orient_exterior :: "i32 list \<Rightarrow> i32 list \<Rightarrow> nat \<Rightarrow> i32 list \<times> i32 list" where
  "orient_exterior px py n =
     (if ring_area px py n <s 0
      then (rev (take n px) @ drop n px, rev (take n py) @ drop n py)
      else (px, py))"

section \<open>Layers\<close>

record mvt_layer =
  ml_name :: rstr
  ml_extent :: u32
  ml_features :: "mvt_feature list"
  ml_property_filter :: property_filter
  ml_seen_ids :: "u64 set"

definition layer_new :: "rstr \<Rightarrow> mvt_layer" where
  "layer_new name =
     \<lparr> ml_name = name, ml_extent = 4096, ml_features = [], ml_property_filter = filter_all, ml_seen_ids = {} \<rparr>"

definition layer_with_filter :: "rstr \<Rightarrow> property_filter \<Rightarrow> mvt_layer" where
  "layer_with_filter name f =
     \<lparr> ml_name = name, ml_extent = 4096, ml_features = [], ml_property_filter = f, ml_seen_ids = {} \<rparr>"

definition add_feature :: "mvt_feature \<Rightarrow> mvt_layer \<Rightarrow> mvt_layer" where
  "add_feature feature l =
     l\<lparr> ml_seen_ids := insert (mf_id feature) (ml_seen_ids l), ml_features := ml_features l @ [feature] \<rparr>"

definition add_or_merge_feature :: "mvt_feature \<Rightarrow> mvt_layer \<Rightarrow> mvt_layer" where
  "add_or_merge_feature feature l =
     (if mf_id feature \<in> ml_seen_ids l then l
      else l\<lparr> ml_seen_ids := insert (mf_id feature) (ml_seen_ids l), ml_features := ml_features l @ [feature] \<rparr>)"

section \<open>Encoding a layer\<close>

text \<open>The key and value tables of \<open>encode\<close>: the lists written to the layer and the maps that find an index.\<close>

record tables =
  tb_keys :: "rstr list"
  tb_key_map :: "rstr \<rightharpoonup> u32"
  tb_values :: "mvt_value list"
  tb_val_map :: "(mvt_value \<times> u32) list"

definition tables_new :: tables where
  "tables_new = \<lparr> tb_keys = [], tb_key_map = (\<lambda>_. None), tb_values = [], tb_val_map = [] \<rparr>"

definition key_index :: "rstr \<Rightarrow> tables \<Rightarrow> u32 \<times> tables" where
  "key_index k tb =
     (case tb_key_map tb k of
        Some idx \<Rightarrow> (idx, tb)
      | None \<Rightarrow> (let idx = word_of_nat (length (tb_keys tb))
                in (idx, tb\<lparr> tb_keys := tb_keys tb @ [k], tb_key_map := (tb_key_map tb)(k \<mapsto> idx) \<rparr>)))"

text \<open>A hash map with the key type's own equality.\<close>

definition val_lookup :: "(mvt_value \<times> u32) list \<Rightarrow> mvt_value \<Rightarrow> u32 option" where
  "val_lookup m v = map_option snd (find (\<lambda>(w, idx). mvt_eq w v) m)"

definition value_index :: "rstr \<Rightarrow> mvt_value \<Rightarrow> tables \<Rightarrow> u32 \<times> tables" where
  "value_index k v tb =
     (if k = lit ''h3_index'' \<or> k = lit ''h3_hex''
      then (word_of_nat (length (tb_values tb)), tb\<lparr> tb_values := tb_values tb @ [v] \<rparr>)
      else (case val_lookup (tb_val_map tb) v of
              Some idx \<Rightarrow> (idx, tb)
            | None \<Rightarrow> (let idx = word_of_nat (length (tb_values tb))
                      in (idx, tb\<lparr> tb_values := tb_values tb @ [v], tb_val_map := (v, idx) # tb_val_map tb \<rparr>))))"

fun tag_loop :: "(rstr \<times> mvt_value) list \<Rightarrow> tables \<Rightarrow> bytes \<Rightarrow> tables \<times> bytes" where
  "tag_loop [] tb tag_bytes = (tb, tag_bytes)"
| "tag_loop ((k, v) # kvs) tb tag_bytes =
     (let (key_idx, tb) = key_index k tb;
          (val_idx, tb) = value_index k v tb
      in tag_loop kvs tb (tag_bytes @ write_varint (ucast key_idx) @ write_varint (ucast val_idx)))"

definition CMD_MOVE_TO :: u32 where "CMD_MOVE_TO = 1"
definition CMD_LINE_TO :: u32 where "CMD_LINE_TO = 2"
definition CMD_CLOSE_PATH :: u32 where "CMD_CLOSE_PATH = 7"

definition write_delta :: "i32 \<Rightarrow> bytes" where
  "write_delta d = write_varint (ucast (zigzag_encode d))"

text \<open>The points after the first; the result is the bytes and the cursor.\<close>

fun line_loop :: "(i32 \<times> i32) list \<Rightarrow> i32 \<Rightarrow> i32 \<Rightarrow> i32 \<Rightarrow> bytes \<Rightarrow> bytes \<times> i32 \<times> i32" where
  "line_loop [] offset prev_x prev_y geom = (geom, prev_x, prev_y)"
| "line_loop ((x, y) # ps) offset prev_x prev_y geom =
     (let px = x + offset; py = y
      in line_loop ps offset px py (geom @ write_delta (px - prev_x) @ write_delta (py - prev_y)))"

definition ring_bytes :: "mvt_feature \<Rightarrow> i32 \<Rightarrow> i32 \<times> i32 \<times> bytes \<Rightarrow> i32 \<times> i32 \<times> bytes" where
  "ring_bytes feat offset = (\<lambda>(prev_x, prev_y, geom).
     let p0_x = mf_polygon_x feat ! 0 + offset;
         p0_y = mf_polygon_y feat ! 0;
         n = unat (mf_num_points feat);
         geom = geom @ write_varint (ucast ((CMD_MOVE_TO AND 7) OR push_bit 3 1))
                  @ write_delta (p0_x - prev_x) @ write_delta (p0_y - prev_y)
                  @ write_varint (ucast ((CMD_LINE_TO AND 7) OR push_bit 3 (ucast (mf_num_points feat - 1))));
         (geom, prev_x, prev_y) =
           line_loop (map (\<lambda>i. (mf_polygon_x feat ! i, mf_polygon_y feat ! i)) [1..<n]) offset p0_x p0_y geom
     in (prev_x, prev_y, geom @ write_varint (ucast ((CMD_CLOSE_PATH AND 7) OR push_bit 3 1))))"

definition geometry_bytes :: "mvt_feature \<Rightarrow> bytes" where
  "geometry_bytes feat =
     (if unat (mf_num_points feat) \<ge> 3
      then (let ring_count = (if mf_wrapped_x_offset feat = 0 then 1 else 2)
            in snd (snd (fold (ring_bytes feat) (take ring_count [0, mf_wrapped_x_offset feat]) (0, 0, []))))
      else [])"

definition feature_bytes :: "mvt_feature \<Rightarrow> bytes \<Rightarrow> bytes \<Rightarrow> bytes" where
  "feature_bytes feat tag_bytes geom_bytes =
     (if mf_id feat \<noteq> 0 then write_tag 1 0 @ write_varint (mf_id feat) else []) @
     (if tag_bytes \<noteq> [] then write_bytes_field 2 tag_bytes else []) @
     write_tag 3 0 @ write_varint 3 @
     (if geom_bytes \<noteq> [] then write_bytes_field 4 geom_bytes else [])"

fun feature_loop :: "property_filter \<Rightarrow> mvt_feature list \<Rightarrow> tables \<Rightarrow> bytes \<Rightarrow> tables \<times> bytes" where
  "feature_loop f [] tb all_features = (tb, all_features)"
| "feature_loop f (feat # feats) tb all_features =
     (let (tb, tag_bytes) = tag_loop (for_each_filtered f (mf_properties feat)) tb [];
          feat_buf = feature_bytes feat tag_bytes (geometry_bytes feat)
      in feature_loop f feats tb (all_features @ write_bytes_field 2 feat_buf))"

definition layer_encode :: "mvt_layer \<Rightarrow> bytes" where
  "layer_encode l =
     (let (tb, all_features) = feature_loop (ml_property_filter l) (ml_features l) tables_new [];
          layer_buf =
            write_tag 15 0 @ write_varint 2 @
            write_string_field 1 (ml_name l) @
            all_features @
            concat (map (write_string_field 3) (tb_keys tb)) @
            concat (map (\<lambda>v. write_bytes_field 4 (write_value v)) (tb_values tb)) @
            write_tag 5 0 @ write_varint (ucast (ml_extent l))
      in write_bytes_field 3 layer_buf)"

section \<open>A reference reader of tiles\<close>

definition zigzag_decode :: "u32 \<Rightarrow> i32" where
  "zigzag_decode n = (if bit n 0 then NOT (drop_bit 1 n) else drop_bit 1 n)"

fun read_lines :: "nat \<Rightarrow> u64 list \<Rightarrow> i32 \<times> i32 \<Rightarrow> ((i32 \<times> i32) list \<times> (i32 \<times> i32) \<times> u64 list) option" where
  "read_lines 0 cs cur = Some ([], cur, cs)"
| "read_lines (Suc n) (dx # dy # cs) (x, y) =
     (let p = (x + zigzag_decode (ucast dx), y + zigzag_decode (ucast dy))
      in map_option (\<lambda>(ps, cur, rest). (p # ps, cur, rest)) (read_lines n cs p))"
| "read_lines (Suc n) _ cur = None"

text \<open>Polygon commands: move to the first point, lines to the others, close.\<close>

fun read_rings :: "nat \<Rightarrow> u64 list \<Rightarrow> i32 \<times> i32 \<Rightarrow> (i32 \<times> i32) list list option" where
  "read_rings 0 cs cur = (if cs = [] then Some [] else None)"
| "read_rings (Suc n) [] cur = Some []"
| "read_rings (Suc n) (c # dx # dy # l # cs) (x, y) =
     (if c = 9 \<and> unat l mod 8 = 2
      then (let p = (x + zigzag_decode (ucast dx), y + zigzag_decode (ucast dy))
            in case read_lines (unat l div 8) cs p of
                 Some (ps, cur, e # rest) \<Rightarrow>
                   (if e = 15 then map_option ((#) (p # ps)) (read_rings n rest cur) else None)
               | _ \<Rightarrow> None)
      else None)"
| "read_rings (Suc n) _ cur = None"

fun read_tags :: "bytes list \<Rightarrow> bytes list \<Rightarrow> u64 list \<Rightarrow> (bytes \<times> bytes) list option" where
  "read_tags ks vs [] = Some []"
| "read_tags ks vs (k # v # ts) =
     (if unat k < length ks \<and> unat v < length vs
      then map_option ((#) (ks ! unat k, vs ! unat v)) (read_tags ks vs ts) else None)"
| "read_tags ks vs _ = None"

type_synonym feature_view = "u64 \<times> (bytes \<times> bytes) list \<times> (i32 \<times> i32) list list"

definition read_feature :: "bytes list \<Rightarrow> bytes list \<Rightarrow> bytes \<Rightarrow> feature_view option" where
  "read_feature ks vs b =
     (case read_message b of
        None \<Rightarrow> None
      | Some fs \<Rightarrow>
          (case read_all read_varint (concat (bytes_fields 2 fs)) of
             None \<Rightarrow> None
           | Some ts \<Rightarrow>
               (case read_all read_varint (concat (bytes_fields 4 fs)) of
                  None \<Rightarrow> None
                | Some cs \<Rightarrow>
                    (case (read_tags ks vs ts, read_rings (length cs) cs (0, 0)) of
                       (Some kvs, Some rings) \<Rightarrow>
                         Some (case varint_fields 1 fs of [] \<Rightarrow> 0 | i # _ \<Rightarrow> i, kvs, rings)
                     | _ \<Rightarrow> None))))"

fun all_some :: "'a option list \<Rightarrow> 'a list option" where
  "all_some [] = Some []"
| "all_some (None # xs) = None"
| "all_some (Some x # xs) = map_option ((#) x) (all_some xs)"

definition read_layer :: "bytes \<Rightarrow> (bytes list \<times> u64 list \<times> feature_view list) option" where
  "read_layer b =
     (case read_message b of
        None \<Rightarrow> None
      | Some fs \<Rightarrow>
          map_option (\<lambda>feats. (bytes_fields 1 fs, varint_fields 5 fs, feats))
            (all_some (map (read_feature (bytes_fields 3 fs) (bytes_fields 4 fs)) (bytes_fields 2 fs))))"

definition read_tile :: "bytes \<Rightarrow> (bytes list \<times> u64 list \<times> feature_view list) option" where
  "read_tile b =
     (case read_message b of
        Some [(n, PBytes l)] \<Rightarrow> if n = 3 then read_layer l else None
      | _ \<Rightarrow> None)"

section \<open>What a layer says\<close>

text \<open>The view of a feature: its id, the properties that pass the filter with the bytes of their values, its rings.\<close>

definition feature_ring :: "mvt_feature \<Rightarrow> i32 \<Rightarrow> (i32 \<times> i32) list" where
  "feature_ring feat offset =
     map (\<lambda>i. (mf_polygon_x feat ! i + offset, mf_polygon_y feat ! i)) [0..<unat (mf_num_points feat)]"

definition feature_rings :: "mvt_feature \<Rightarrow> (i32 \<times> i32) list list" where
  "feature_rings feat =
     (if unat (mf_num_points feat) < 3 then []
      else feature_ring feat 0 #
        (if mf_wrapped_x_offset feat = 0 then [] else [feature_ring feat (mf_wrapped_x_offset feat)]))"

definition view_props :: "(rstr \<times> mvt_value) list \<Rightarrow> (bytes \<times> bytes) list" where
  "view_props kvs = map (\<lambda>(k, v). (as_bytes k, write_value v)) kvs"

definition feature_view :: "property_filter \<Rightarrow> mvt_feature \<Rightarrow> feature_view" where
  "feature_view f feat =
     (mf_id feat, view_props (for_each_filtered f (mf_properties feat)), feature_rings feat)"

section \<open>The geometry commands\<close>

lemma bit_zigzag:
  "bit (zigzag_encode d) n \<longleftrightarrow> n < 32 \<and> ((0 < n \<and> bit d (n - 1)) \<noteq> bit d 31)"
  unfolding zigzag_encode_def bit_xor_iff bit_push_bit_iff bit_signed_drop_bit_iff
  by (cases n) (auto dest: bit_imp_le_length)

lemma zigzag_roundtrip: "zigzag_decode (zigzag_encode d) = d"
proof (rule bit_eqI)
  fix n
  assume "possible_bit TYPE(32 word) n"
  then have n: "n < 32" by simp
  show "bit (zigzag_decode (zigzag_encode d)) n \<longleftrightarrow> bit d n"
  proof (cases "n = 31")
    case True
    then show ?thesis
      by (auto simp: zigzag_decode_def bit_zigzag bit_not_iff bit_drop_bit_eq)
  next
    case False
    then show ?thesis using n
      by (auto simp: zigzag_decode_def bit_zigzag bit_not_iff bit_drop_bit_eq)
  qed
qed

lemma zigzag_delta: "x + zigzag_decode (ucast (ucast (zigzag_encode (x' - x)) :: u64)) = x'"
proof -
  have "(ucast (ucast (u :: u32) :: u64) :: u32) = u" for u
    using unat_u32_less [of u] unat_ucast_mod [of "ucast u :: u64", where 'b = 32] unat_ucast_mod [of u, where 'b = 64]
    by (simp add: word_unat_eq_iff)
  then show ?thesis by (simp add: zigzag_roundtrip)
qed

definition delta_code :: "i32 \<Rightarrow> u64" where
  "delta_code d = ucast (zigzag_encode d)"

lemma write_delta_code: "write_delta d = write_varint (delta_code d)"
  by (simp add: write_delta_def delta_code_def)

lemma delta_code_decode [simp]: "x + zigzag_decode (ucast (delta_code (x' - x))) = x'"
  by (simp add: delta_code_def zigzag_delta)

text \<open>The command integers of a ring, as numbers.\<close>

fun line_codes :: "(i32 \<times> i32) list \<Rightarrow> i32 \<times> i32 \<Rightarrow> u64 list" where
  "line_codes [] cur = []"
| "line_codes ((px, py) # ps) (x, y) = delta_code (px - x) # delta_code (py - y) # line_codes ps (px, py)"

fun ring_codes :: "(i32 \<times> i32) list \<Rightarrow> i32 \<times> i32 \<Rightarrow> u64 list" where
  "ring_codes [] cur = []"
| "ring_codes ((px, py) # ps) (x, y) =
     [9, delta_code (px - x), delta_code (py - y), word_of_nat (8 * length ps + 2)] @ line_codes ps (px, py) @ [15]"

lemma read_line_codes:
  "read_lines (length ps) (line_codes ps cur @ rest) cur = Some (ps, last (cur # ps), rest)"
  by (induction ps cur rule: line_codes.induct) (auto simp: Let_def)

lemma read_ring_codes:
  assumes "ps \<noteq> []" "length ps < 2 ^ 32"
  shows "read_rings (Suc n) (ring_codes ps cur @ rest) cur = map_option ((#) ps) (read_rings n rest (last ps))"
proof -
  obtain px py qs x y where ps: "ps = (px, py) # qs" "cur = (x, y)" using assms(1) by (cases ps; cases cur) auto
  have "unat (word_of_nat (8 * length qs + 2) :: u64) = 8 * length qs + 2"
    using assms(2) ps by (intro unat_word_of_nat_id) simp
  moreover have "Suc (Suc (8 * length qs)) mod 8 = 2" "Suc (Suc (8 * length qs)) div 8 = length qs" by presburger+
  ultimately show ?thesis
    using read_line_codes [of qs "(px, py)" "15 # rest"]
    by (simp add: ps Let_def del: of_nat_add of_nat_mult)
qed

lemma line_loop_codes:
  "line_loop ps offset x y geom =
     (geom @ concat (map write_varint (line_codes (map (\<lambda>(a, b). (a + offset, b)) ps) (x, y))),
      fst (last ((x, y) # map (\<lambda>(a, b). (a + offset, b)) ps)), snd (last ((x, y) # map (\<lambda>(a, b). (a + offset, b)) ps)))"
  by (induction ps arbitrary: x y geom) (auto simp: Let_def write_delta_code)

lemma move_command: "ucast ((CMD_MOVE_TO AND 7) OR push_bit 3 1) = (9 :: u64)"
  by (simp add: CMD_MOVE_TO_def)

lemma close_command: "ucast ((CMD_CLOSE_PATH AND 7) OR push_bit 3 1) = (15 :: u64)"
  by (simp add: CMD_CLOSE_PATH_def)

lemma line_command:
  assumes "3 \<le> unat c" "unat c \<le> MAX_FEATURE_POINTS"
  shows "ucast ((CMD_LINE_TO AND 7) OR push_bit 3 (ucast (c - 1 :: u8))) = (word_of_nat (8 * (unat c - 1) + 2) :: u64)"
proof -
  have "unat c \<in> {3..<15}" using assms by (simp add: MAX_FEATURE_POINTS_def)
  then have "word_of_nat (unat c) \<in> (word_of_nat ` {3..<15} :: u8 set)" by (rule imageI)
  moreover have "{3..<15 :: nat} = {3, 4, 5, 6, 7, 8, 9, 10, 11, 12, 13, 14}"
    unfolding set_upt [symmetric] by (simp add: upt_rec)
  ultimately have "c \<in> {3, 4, 5, 6, 7, 8, 9, 10, 11, 12, 13, 14}" by simp
  then show ?thesis by (auto simp: CMD_LINE_TO_def)
qed

definition point_list :: "mvt_feature \<Rightarrow> (i32 \<times> i32) list" where
  "point_list feat = map (\<lambda>i. (mf_polygon_x feat ! i, mf_polygon_y feat ! i)) [0..<unat (mf_num_points feat)]"

lemma feature_ring_points: "feature_ring feat offset = map (\<lambda>(a, b). (a + offset, b)) (point_list feat)"
  by (simp add: feature_ring_def point_list_def comp_def)

lemma ring_bytes_codes:
  assumes "3 \<le> unat (mf_num_points feat)" "unat (mf_num_points feat) \<le> MAX_FEATURE_POINTS"
  shows "ring_bytes feat offset (x, y, geom) =
    (fst (last (feature_ring feat offset)), snd (last (feature_ring feat offset)),
     geom @ concat (map write_varint (ring_codes (feature_ring feat offset) (x, y))))"
proof -
  let ?n = "unat (mf_num_points feat)"
  have up: "[0..<?n] = 0 # [1..<?n]" using assms(1) by (subst upt_conv_Cons) auto
  let ?qs = "map (\<lambda>i. (mf_polygon_x feat ! i, mf_polygon_y feat ! i)) [1..<?n]"
  have ring: "feature_ring feat offset =
      (mf_polygon_x feat ! 0 + offset, mf_polygon_y feat ! 0) # map (\<lambda>(a, b). (a + offset, b)) ?qs"
    unfolding feature_ring_def up by (simp add: comp_def)
  have len: "length ?qs = ?n - 1" by simp
  show ?thesis
    unfolding ring ring_bytes_def Let_def split line_loop_codes move_command close_command line_command [OF assms] write_delta_code
    using len by (simp del: of_nat_add of_nat_mult)
qed

definition geometry_codes :: "mvt_feature \<Rightarrow> u64 list" where
  "geometry_codes feat =
     (if unat (mf_num_points feat) < 3 then []
      else ring_codes (feature_ring feat 0) (0, 0) @
        (if mf_wrapped_x_offset feat = 0 then []
         else ring_codes (feature_ring feat (mf_wrapped_x_offset feat)) (last (feature_ring feat 0))))"

lemma geometry_bytes_codes:
  assumes "unat (mf_num_points feat) \<le> MAX_FEATURE_POINTS"
  shows "geometry_bytes feat = concat (map write_varint (geometry_codes feat))"
proof (cases "3 \<le> unat (mf_num_points feat)")
  case True
  then show ?thesis
    using ring_bytes_codes [OF True assms] by (simp add: geometry_bytes_def geometry_codes_def take_Cons')
qed (simp add: geometry_bytes_def geometry_codes_def)

lemma ring_codes_nonempty: "ps \<noteq> [] \<Longrightarrow> ring_codes ps cur \<noteq> []"
  by (cases ps; cases cur) auto

lemma length_ring_codes: "ps \<noteq> [] \<Longrightarrow> 0 < length (ring_codes ps cur)"
  using ring_codes_nonempty by auto

lemma read_rings_Nil [simp]: "read_rings n [] cur = Some []"
  by (cases n) auto

lemma read_geometry:
  assumes "unat (mf_num_points feat) \<le> MAX_FEATURE_POINTS"
  shows "read_rings (length (geometry_codes feat)) (geometry_codes feat) (0, 0) = Some (feature_rings feat)"
proof (cases "3 \<le> unat (mf_num_points feat)")
  case True
  have ring: "feature_ring feat o1 \<noteq> [] \<and> length (feature_ring feat o1) < 2 ^ 32" for o1
    using True assms by (auto simp: feature_ring_def MAX_FEATURE_POINTS_def)
  let ?a = "ring_codes (feature_ring feat 0) (0, 0)"
  let ?b = "ring_codes (feature_ring feat (mf_wrapped_x_offset feat)) (last (feature_ring feat 0))"
  show ?thesis
  proof (cases "mf_wrapped_x_offset feat = 0")
    case o0: True
    obtain n where "length ?a = Suc n" using length_ring_codes [of "feature_ring feat 0"] ring by (cases "length ?a") auto
    then show ?thesis
      using True o0 read_ring_codes [of "feature_ring feat 0" n "(0, 0)" "[]"] ring
      by (simp add: geometry_codes_def feature_rings_def)
  next
    case False
    obtain n where n: "length (?a @ ?b) = Suc (Suc n)"
      using length_ring_codes [of "feature_ring feat 0" "(0, 0)"]
        length_ring_codes [of "feature_ring feat (mf_wrapped_x_offset feat)" "last (feature_ring feat 0)"] ring
      by (cases "length ?a"; cases "length ?b") auto
    have "read_rings (Suc (Suc n)) (?a @ ?b) (0, 0) =
        map_option ((#) (feature_ring feat 0)) (read_rings (Suc n) ?b (last (feature_ring feat 0)))"
      using read_ring_codes ring by blast
    also have "read_rings (Suc n) ?b (last (feature_ring feat 0)) = Some [feature_ring feat (mf_wrapped_x_offset feat)]"
      using read_ring_codes [of "feature_ring feat (mf_wrapped_x_offset feat)" n "last (feature_ring feat 0)" "[]"] ring by simp
    finally show ?thesis
      using True False n by (simp add: geometry_codes_def feature_rings_def)
  qed
qed (simp add: geometry_codes_def feature_rings_def)

section \<open>Keys, values and tags\<close>

definition tables_ok :: "tables \<Rightarrow> bool" where
  "tables_ok tb \<longleftrightarrow>
     (\<forall>k i. tb_key_map tb k = Some i \<longrightarrow> unat i < length (tb_keys tb) \<and> tb_keys tb ! unat i = k) \<and>
     (\<forall>w i. (w, i) \<in> set (tb_val_map tb) \<longrightarrow> value_ok w \<and> unat i < length (tb_values tb) \<and>
        write_value (tb_values tb ! unat i) = write_value w)"

text \<open>A later state of the tables: both lists only grow.\<close>

definition grows :: "tables \<Rightarrow> tables \<Rightarrow> bool" where
  "grows tb tb' \<longleftrightarrow> (\<exists>ks. tb_keys tb' = tb_keys tb @ ks) \<and> (\<exists>vs. tb_values tb' = tb_values tb @ vs)"

definition tag_ok :: "tables \<Rightarrow> rstr \<times> mvt_value \<Rightarrow> u32 \<times> u32 \<Rightarrow> bool" where
  "tag_ok tb kv t =
     (unat (fst t) < length (tb_keys tb) \<and> tb_keys tb ! unat (fst t) = fst kv \<and>
      unat (snd t) < length (tb_values tb) \<and> write_value (tb_values tb ! unat (snd t)) = write_value (snd kv))"

lemma grows_refl [simp]: "grows tb tb"
  by (simp add: grows_def)

lemma grows_trans: "grows a b \<Longrightarrow> grows b c \<Longrightarrow> grows a c"
  by (auto simp: grows_def)

lemma tag_ok_grows: "tag_ok tb kv t \<Longrightarrow> grows tb tb' \<Longrightarrow> tag_ok tb' kv t"
  by (auto simp: tag_ok_def grows_def nth_append)

text \<open>There is room for \<open>m\<close> more keys and values before an index exceeds 32 bits.\<close>

definition room :: "nat \<Rightarrow> tables \<Rightarrow> bool" where
  "room m tb \<longleftrightarrow> length (tb_keys tb) + m \<le> 2 ^ 32 \<and> length (tb_values tb) + m \<le> 2 ^ 32"

lemma unat_u32_of_nat: "n < 2 ^ 32 \<Longrightarrow> unat (word_of_nat n :: u32) = n"
  by (intro unat_word_of_nat_id) simp

lemma key_index_ok:
  assumes "key_index k tb = (i, tb')" "tables_ok tb" "length (tb_keys tb) < 2 ^ 32"
  shows "tables_ok tb' \<and> grows tb tb' \<and> length (tb_keys tb') \<le> Suc (length (tb_keys tb)) \<and>
    unat i < length (tb_keys tb') \<and> tb_keys tb' ! unat i = k \<and> tb_values tb' = tb_values tb"
proof (cases "tb_key_map tb k")
  case None
  then have "unat (word_of_nat (length (tb_keys tb)) :: u32) = length (tb_keys tb)"
    using assms(3) by (intro unat_u32_of_nat) simp
  then show ?thesis
    using assms(1,2) None
    by (auto simp: key_index_def Let_def tables_ok_def grows_def nth_append less_SucI split: if_splits)
next
  case (Some j)
  then show ?thesis using assms by (auto simp: key_index_def tables_ok_def)
qed

lemma value_index_ok:
  assumes "value_index k v tb = (i, tb')" "tables_ok tb" "length (tb_values tb) < 2 ^ 32" "value_ok v"
  shows "tables_ok tb' \<and> grows tb tb' \<and> length (tb_values tb') \<le> Suc (length (tb_values tb)) \<and>
    unat i < length (tb_values tb') \<and> write_value (tb_values tb' ! unat i) = write_value v \<and> tb_keys tb' = tb_keys tb"
proof -
  have id: "unat (word_of_nat (length (tb_values tb)) :: u32) = length (tb_values tb)"
    using assms(3) by (intro unat_u32_of_nat) simp
  have old: "\<forall>w i. (w, i) \<in> set (tb_val_map tb) \<longrightarrow> unat i < Suc (length (tb_values tb))"
    using assms(2) by (auto simp: tables_ok_def intro: less_SucI)
  consider "k = lit ''h3_index'' \<or> k = lit ''h3_hex''"
    | "\<not> (k = lit ''h3_index'' \<or> k = lit ''h3_hex'')" "val_lookup (tb_val_map tb) v = None"
    | j where "\<not> (k = lit ''h3_index'' \<or> k = lit ''h3_hex'')" "val_lookup (tb_val_map tb) v = Some j"
    by fastforce
  then show ?thesis
  proof cases
    case 3
    then obtain w where w: "(w, j) \<in> set (tb_val_map tb)" "mvt_eq w v"
      by (auto simp: val_lookup_def find_Some_iff) (metis nth_mem)
    then have "write_value w = write_value v"
      using assms(2,4) mvt_eq_wire by (auto simp: tables_ok_def)
    then show ?thesis
      using assms w 3 by (auto simp: value_index_def tables_ok_def)
  qed (use assms id old in \<open>auto simp: value_index_def Let_def tables_ok_def grows_def nth_append\<close>)
qed

lemma tag_loop_ok:
  assumes "tag_loop kvs tb bs = (tb', bs')" "tables_ok tb" "room (length kvs + m) tb"
    and "\<forall>(k, v)\<in>set kvs. value_ok v"
  shows "tables_ok tb' \<and> grows tb tb' \<and> room m tb' \<and>
    (\<exists>ts. list_all2 (tag_ok tb') kvs ts \<and>
      bs' = bs @ concat (map write_varint (concat (map (\<lambda>(i, j). [ucast i, ucast j]) ts))))"
  using assms
proof (induction kvs arbitrary: tb bs)
  case (Cons kv kvs)
  obtain k v where kv: "kv = (k, v)" by fastforce
  obtain i tb1 where i: "key_index k tb = (i, tb1)" by fastforce
  obtain j tb2 where j: "value_index k v tb1 = (j, tb2)" by fastforce
  have room: "room (Suc (length kvs + m)) tb" using Cons.prems(3) by simp
  then have "length (tb_keys tb) < 2 ^ 32" by (simp add: room_def)
  note 1 = key_index_ok [OF i Cons.prems(2) this]
  have room1: "length (tb_values tb1) < 2 ^ 32" using 1 room by (simp add: room_def)
  have v: "value_ok v" using Cons.prems(4) kv by simp
  note 2 = value_index_ok [OF j _ room1 v]
  have room2: "room (length kvs + m) tb2" using 1 2 room by (simp add: room_def)
  let ?bs = "bs @ write_varint (ucast i) @ write_varint (ucast j)"
  have "tag_loop kvs tb2 ?bs = (tb', bs')"
    using Cons.prems(1) i j kv by simp
  then obtain ts where IH: "tables_ok tb'" "grows tb2 tb'" "room m tb'" "list_all2 (tag_ok tb') kvs ts"
      "bs' = ?bs @ concat (map write_varint (concat (map (\<lambda>(i, j). [ucast i, ucast j]) ts)))"
    using Cons.IH [of tb2 ?bs] 1 2 room2 Cons.prems(4) by auto
  have "tag_ok tb2 kv (i, j)" using 1 2 kv by (simp add: tag_ok_def)
  then have "list_all2 (tag_ok tb') (kv # kvs) ((i, j) # ts)" using IH(2,4) tag_ok_grows by auto
  moreover have "bs' = bs @ concat (map write_varint (concat (map (\<lambda>(i, j). [ucast i, ucast j]) ((i, j) # ts))))"
    using IH(5) by simp
  moreover have "grows tb tb'" using 1 2 IH(2) grows_trans by blast
  ultimately show ?case using IH(1,3) by blast
qed (auto intro: exI [of _ "[]"])

lemma read_tags_ok:
  "list_all2 (tag_ok tb) kvs ts \<Longrightarrow>
   read_tags (map as_bytes (tb_keys tb)) (map write_value (tb_values tb))
     (concat (map (\<lambda>(i, j). [ucast i, ucast j]) ts)) = Some (view_props kvs)"
proof (induction kvs ts rule: list_all2_induct)
  case (Cons kv kvs t ts)
  have "unat (ucast (i :: u32) :: u64) = unat i" for i
    using unat_u32_less [of i] unat_ucast_mod [of i, where 'b = 64] by simp
  then show ?case using Cons by (cases t; cases kv) (auto simp: tag_ok_def view_props_def)
qed (simp add: view_props_def)

section \<open>A feature as a message\<close>

lemma write_tags [simp]:
  "write_tag 1 0 = write_varint 8" "write_tag 3 0 = write_varint 24" "write_tag 5 0 = write_varint 40"
  "write_tag 15 0 = write_varint 120" "write_tag 1 2 = write_varint 10" "write_tag 2 2 = write_varint 18"
  "write_tag 3 2 = write_varint 26" "write_tag 4 2 = write_varint 34"
  by (simp_all add: write_tag_def)

lemma write_bytes_fields:
  "write_bytes_field 1 b = field_bytes (1, PBytes b)" "write_bytes_field 2 b = field_bytes (2, PBytes b)"
  "write_bytes_field 3 b = field_bytes (3, PBytes b)" "write_bytes_field 4 b = field_bytes (4, PBytes b)"
  by (simp_all add: write_bytes_field_def field_bytes_def)

lemma field_bytes_PVarint: "field_bytes (n, PVarint v) = write_varint (word_of_nat (8 * n)) @ write_varint v"
  by (simp add: field_bytes_def)

definition feature_fields :: "mvt_feature \<Rightarrow> bytes \<Rightarrow> bytes \<Rightarrow> pb_field list" where
  "feature_fields feat tags geom =
     (if mf_id feat \<noteq> 0 then [(1, PVarint (mf_id feat))] else []) @
     (if tags \<noteq> [] then [(2, PBytes tags)] else []) @ [(3, PVarint 3)] @
     (if geom \<noteq> [] then [(4, PBytes geom)] else [])"

lemma feature_bytes_fields: "feature_bytes feat tags geom = message_bytes (feature_fields feat tags geom)"
  by (simp add: feature_bytes_def feature_fields_def write_bytes_fields field_bytes_PVarint)

lemma payload_le: "length b \<le> length (field_bytes (n, PBytes b))"
  by (simp add: field_bytes_def)

lemma message_payload_le: "(n, PBytes b) \<in> set fs \<Longrightarrow> length b \<le> length (message_bytes fs)"
proof (induction fs)
  case (Cons f fs)
  then show ?case using payload_le [of b n] by auto
qed simp

lemma read_feature_bytes:
  assumes "list_all2 (tag_ok tb) kvs ts"
    and "tags = concat (map write_varint (concat (map (\<lambda>(i, j). [ucast i, ucast j]) ts)))"
    and "unat (mf_num_points feat) \<le> MAX_FEATURE_POINTS"
    and "length (feature_bytes feat tags (geometry_bytes feat)) < 2 ^ 64"
  shows "read_feature (map as_bytes (tb_keys tb)) (map write_value (tb_values tb))
      (feature_bytes feat tags (geometry_bytes feat)) = Some (mf_id feat, view_props kvs, feature_rings feat)"
proof -
  let ?fs = "feature_fields feat tags (geometry_bytes feat)"
  have "length tags < 2 ^ 64" if "tags \<noteq> []"
    using message_payload_le [of 2 tags ?fs] that assms(4) by (simp add: feature_bytes_fields feature_fields_def)
  moreover have "length (geometry_bytes feat) < 2 ^ 64" if "geometry_bytes feat \<noteq> []"
    using message_payload_le [of 4 "geometry_bytes feat" ?fs] that assms(4)
    by (simp add: feature_bytes_fields feature_fields_def)
  ultimately have "\<forall>f\<in>set ?fs. field_ok f" by (auto simp: feature_fields_def field_ok_def)
  then have msg: "read_message (feature_bytes feat tags (geometry_bytes feat)) = Some ?fs"
    unfolding feature_bytes_fields by (rule read_message_bytes)
  have parts: "concat (bytes_fields 2 ?fs) = tags" "concat (bytes_fields 4 ?fs) = geometry_bytes feat"
    "(case varint_fields 1 ?fs of [] \<Rightarrow> 0 | i # _ \<Rightarrow> i) = mf_id feat"
    by (simp_all add: feature_fields_def)
  have "read_all read_varint tags = Some (concat (map (\<lambda>(i, j). [ucast i, ucast j]) ts))"
    unfolding assms(2) by (rule varints.read_all_concat) simp
  moreover have "read_all read_varint (geometry_bytes feat) = Some (geometry_codes feat)"
    unfolding geometry_bytes_codes [OF assms(3)] by (rule varints.read_all_concat) simp
  ultimately show ?thesis
    using read_tags_ok [OF assms(1)] read_geometry [OF assms(3)]
    by (simp add: read_feature_def msg parts [unfolded One_nat_def])
qed

section \<open>The layer\<close>

definition feature_ok :: "property_filter \<Rightarrow> mvt_feature \<Rightarrow> bool" where
  "feature_ok f feat \<longleftrightarrow>
     unat (mf_num_points feat) \<le> MAX_FEATURE_POINTS \<and>
     (\<forall>(k, v)\<in>set (for_each_filtered f (mf_properties feat)). value_ok v)"

definition property_count :: "property_filter \<Rightarrow> mvt_feature list \<Rightarrow> nat" where
  "property_count f feats = sum_list (map (\<lambda>feat. length (for_each_filtered f (mf_properties feat))) feats)"

lemma feature_loop_ok:
  assumes "feature_loop f feats tb acc = (tb', out)" "tables_ok tb" "room (property_count f feats) tb"
    and "\<forall>feat\<in>set feats. feature_ok f feat" "length out < 2 ^ 64"
  shows "tables_ok tb' \<and> grows tb tb' \<and>
    (\<exists>fbs. out = acc @ message_bytes (map (\<lambda>b. (2, PBytes b)) fbs) \<and>
       list_all2 (\<lambda>feat b. read_feature (map as_bytes (tb_keys tb')) (map write_value (tb_values tb')) b
          = Some (feature_view f feat)) feats fbs)"
  using assms
proof (induction feats arbitrary: tb acc)
  case (Cons feat feats)
  let ?kvs = "for_each_filtered f (mf_properties feat)"
  obtain tb1 tags where t: "tag_loop ?kvs tb [] = (tb1, tags)" by fastforce
  have room: "room (length ?kvs + property_count f feats) tb"
    using Cons.prems(3) by (simp add: property_count_def)
  have ok: "\<forall>(k, v)\<in>set ?kvs. value_ok v" "unat (mf_num_points feat) \<le> MAX_FEATURE_POINTS"
    using Cons.prems(4) by (simp_all add: feature_ok_def)
  obtain ts where tb1: "tables_ok tb1" "grows tb tb1" "room (property_count f feats) tb1"
      and ts: "list_all2 (tag_ok tb1) ?kvs ts"
        "tags = concat (map write_varint (concat (map (\<lambda>(i, j). [ucast i, ucast j]) ts)))"
    using tag_loop_ok [OF t Cons.prems(2) room ok(1)] by auto
  let ?fb = "feature_bytes feat tags (geometry_bytes feat)"
  have "feature_loop f feats tb1 (acc @ field_bytes (2, PBytes ?fb)) = (tb', out)"
    using Cons.prems(1) t by (simp add: write_bytes_fields)
  then obtain fbs where IH: "tables_ok tb'" "grows tb1 tb'"
      "out = (acc @ field_bytes (2, PBytes ?fb)) @ message_bytes (map (\<lambda>b. (2, PBytes b)) fbs)"
      "list_all2 (\<lambda>feat b. read_feature (map as_bytes (tb_keys tb')) (map write_value (tb_values tb')) b
          = Some (feature_view f feat)) feats fbs"
    using Cons.IH [of tb1 "acc @ field_bytes (2, PBytes ?fb)"] tb1 Cons.prems(4,5) by auto
  have "length ?fb < 2 ^ 64"
    using IH(3) Cons.prems(5) payload_le [of ?fb 2] by simp
  moreover have "list_all2 (tag_ok tb') ?kvs ts"
    using ts(1) tag_ok_grows [OF _ IH(2)] by (rule list_all2_mono)
  ultimately have "read_feature (map as_bytes (tb_keys tb')) (map write_value (tb_values tb')) ?fb
      = Some (feature_view f feat)"
    using read_feature_bytes [OF _ ts(2) ok(2)] by (simp add: feature_view_def)
  then show ?case
    using IH grows_trans [OF tb1(2) IH(2)] by (auto intro!: exI [of _ "?fb # fbs"])
qed (auto intro: exI [of _ "[]"])

lemma all_some_map: "list_all2 (\<lambda>x y. g y = Some (h x)) xs ys \<Longrightarrow> all_some (map g ys) = Some (map h xs)"
  by (induction xs ys rule: list_all2_induct) auto

lemma tables_ok_new: "tables_ok tables_new"
  by (simp add: tables_ok_def tables_new_def)

lemma read_layer_encode:
  assumes "\<forall>feat\<in>set (ml_features l). feature_ok (ml_property_filter l) feat"
    and "property_count (ml_property_filter l) (ml_features l) \<le> 2 ^ 32" "length (layer_encode l) < 2 ^ 64"
  shows "read_tile (layer_encode l) = Some ([as_bytes (ml_name l)], [ucast (ml_extent l)],
    map (feature_view (ml_property_filter l)) (ml_features l))"
proof -
  obtain tb feats where loop: "feature_loop (ml_property_filter l) (ml_features l) tables_new [] = (tb, feats)" by fastforce
  let ?strings = "\<lambda>bs. concat (map (write_string_field 3) bs)"
  define buf where "buf = write_tag 15 0 @ write_varint 2 @ write_string_field 1 (ml_name l) @ feats @
      ?strings (tb_keys tb) @ concat (map (\<lambda>v. write_bytes_field 4 (write_value v)) (tb_values tb)) @
      write_tag 5 0 @ write_varint (ucast (ml_extent l))"
  have enc: "layer_encode l = field_bytes (3, PBytes buf)"
    using loop by (simp add: layer_encode_def buf_def write_bytes_fields)
  then have small: "length buf < 2 ^ 64" using assms(3) payload_le [of buf 3] by simp
  have "room (property_count (ml_property_filter l) (ml_features l)) tables_new"
    using assms(2) by (simp add: room_def tables_new_def)
  moreover have "length feats < 2 ^ 64" using small by (simp add: buf_def)
  ultimately obtain fbs where fbs: "feats = message_bytes (map (\<lambda>b. (2, PBytes b)) fbs)"
    "list_all2 (\<lambda>feat b. read_feature (map as_bytes (tb_keys tb)) (map write_value (tb_values tb)) b
        = Some (feature_view (ml_property_filter l) feat)) (ml_features l) fbs"
    using feature_loop_ok [OF loop tables_ok_new _ assms(1)] by auto
  define fs where "fs = [(15 :: nat, PVarint 2), (1, PBytes (as_bytes (ml_name l)))] @ map (\<lambda>b. (2, PBytes b)) fbs @
    map (\<lambda>b. (3, PBytes b)) (map as_bytes (tb_keys tb)) @ map (\<lambda>b. (4, PBytes b)) (map write_value (tb_values tb)) @
    [(5, PVarint (ucast (ml_extent l)))]"
  have keys: "?strings ks = message_bytes (map (\<lambda>b. (3, PBytes b)) (map as_bytes ks))" for ks
    by (induction ks) (simp_all add: write_string_field_def write_bytes_fields)
  have vals: "concat (map (\<lambda>v. write_bytes_field 4 (write_value v)) vs) = message_bytes (map (\<lambda>b. (4, PBytes b)) (map write_value vs))" for vs
    by (induction vs) (simp_all add: write_bytes_fields)
  have buf: "buf = message_bytes fs"
    unfolding buf_def fbs(1) keys vals
    by (simp add: fs_def write_string_field_def write_bytes_fields field_bytes_PVarint del: map_map)
  have "\<forall>f\<in>set fs. field_ok f"
  proof
    fix f
    assume f: "f \<in> set fs"
    then have "fst f < 2 ^ 29" by (auto simp: fs_def)
    moreover have "payload_ok (snd f)"
    proof (cases "snd f")
      case (PBytes b)
      then have "(fst f, PBytes b) \<in> set fs" using f by (cases f) simp
      then have "length b < 2 ^ 64"
        using small unfolding buf by (rule le_less_trans [OF message_payload_le])
      then show ?thesis using PBytes by simp
    qed (use f in \<open>auto simp: fs_def\<close>)
    ultimately show "field_ok f" by (auto simp: field_ok_def)
  qed
  then have "read_message buf = Some fs" unfolding buf by (rule read_message_bytes)
  moreover have "bytes_fields 1 fs = [as_bytes (ml_name l)]" "bytes_fields 2 fs = fbs"
    "bytes_fields 3 fs = map as_bytes (tb_keys tb)" "bytes_fields 4 fs = map write_value (tb_values tb)"
    "varint_fields 5 fs = [ucast (ml_extent l)]"
    by (simp_all add: fs_def del: map_map)
  ultimately have "read_layer buf = Some ([as_bytes (ml_name l)], [ucast (ml_extent l)],
      map (feature_view (ml_property_filter l)) (ml_features l))"
    using all_some_map [OF fbs(2)] by (simp add: read_layer_def)
  moreover have "read_message (layer_encode l) = Some [(3, PBytes buf)]"
    using read_message_bytes [of "[(3, PBytes buf)]"] small by (simp add: enc field_ok_def)
  ultimately show ?thesis by (simp add: read_tile_def)
qed

section \<open>Orientation\<close>

definition cross :: "i32 list \<Rightarrow> i32 list \<Rightarrow> nat \<Rightarrow> nat \<Rightarrow> i64" where
  "cross px py i j = scast (px ! i) * scast (py ! j) - scast (px ! j) * scast (py ! i)"

lemma cross_swap: "cross px py i j = - cross px py j i"
  by (simp add: cross_def)

lemma ring_area_sum: "ring_area px py n = (\<Sum>i<n. cross px py i ((i + 1) mod n))"
  by (simp add: ring_area_def cross_def Let_def interv_sum_list_conv_sum_set_nat atLeast0LessThan)

lemma nth_rev_take: "i < n \<Longrightarrow> n \<le> length xs \<Longrightarrow> (rev (take n xs) @ ys) ! i = xs ! (n - 1 - i)"
  by (simp add: nth_append rev_nth min_def)

text \<open>Reversing a ring negates its area, wrap-around included.\<close>

lemma ring_area_rev:
  assumes "n \<le> length px" "n \<le> length py"
  shows "ring_area (rev (take n px) @ dx) (rev (take n py) @ dy) n = - ring_area px py n"
proof -
  let ?f = "\<lambda>i. n - 1 - (i + 1) mod n"
  have f: "?f i < n \<and> ?f (?f i) = i \<and> (?f i + 1) mod n = n - 1 - i" if "i < n" for i
  proof (cases "i + 1 = n")
    case True
    then show ?thesis using that by (cases "n = 1") auto
  next
    case False
    then have "(i + 1) mod n = i + 1" "(n - 2 - i + 1) mod n = n - 2 - i + 1" using that by auto
    then show ?thesis using that False by auto
  qed
  have "ring_area (rev (take n px) @ dx) (rev (take n py) @ dy) n = (\<Sum>i<n. cross px py (n - 1 - i) (?f i))"
    unfolding ring_area_sum
  proof (rule sum.cong)
    fix i
    assume "i \<in> {..<n}"
    then have "i < n" "(i + 1) mod n < n" by auto
    then show "cross (rev (take n px) @ dx) (rev (take n py) @ dy) i ((i + 1) mod n) = cross px py (n - 1 - i) (?f i)"
      using nth_rev_take [OF _ assms(1)] nth_rev_take [OF _ assms(2)] by (simp only: cross_def)
  qed simp
  also have "\<dots> = (\<Sum>i<n. cross px py ((i + 1) mod n) i)"
    by (rule sum.reindex_bij_witness [of _ ?f ?f]) (use f in auto)
  also have "\<dots> = - (\<Sum>i<n. cross px py i ((i + 1) mod n))"
    unfolding sum_negf [symmetric] by (rule sum.cong [OF refl], rule cross_swap)
  finally show ?thesis by (simp only: ring_area_sum)
qed

lemma negate_negative: "(a :: i64) <s 0 \<Longrightarrow> a \<noteq> 0x8000000000000000 \<Longrightarrow> 0 \<le>s - a"
proof -
  assume a: "a <s 0" "a \<noteq> 0x8000000000000000"
  have "sint a < 0" using a(1) by (simp add: word_sless_alt)
  moreover have "sint a \<noteq> - (2 ^ 63)"
  proof
    assume "sint a = - (2 ^ 63)"
    then have "sint a = sint (0x8000000000000000 :: i64)" by simp
    then have "a = 0x8000000000000000" by (rule signed_word_eqI)
    then show False using a(2) by simp
  qed
  moreover have "- (2 ^ 63) \<le> sint a" using sint_ge [of a] by simp
  ultimately have "sint (- a) = - sint a" by (simp add: signed_take_bit_int_eq_self sint_word_ariths)
  then show "0 \<le>s - a" using \<open>sint a < 0\<close> by (simp add: word_sle_eq)
qed

section \<open>Properties\<close>


definition sample_feature :: mvt_feature where
  "sample_feature =
     \<lparr> mf_id = 5, mf_properties = Generic [(lit ''a'', MUInt 7), (lit ''b'', MUInt 7)],
       mf_polygon_x = [0, 10, 0] @ replicate 11 0, mf_polygon_y = [0, 0, 10] @ replicate 11 0,
       mf_num_points = 3, mf_wrapped_x_offset = 0 \<rparr>"


text \<open>
  C40. Exterior rings come out with the orientation the tile format requires: after
  \<open>orient_exterior\<close> the surveyor's area of the points in use is not negative (64-bit overflow
  aside), the points are the same ones in the same or in reversed order, and the unused tail of
  the arrays is untouched.
\<close>

theorem orient_exterior_positive:
  assumes "n \<le> length px" "n \<le> length py" "orient_exterior px py n = (px', py')"
    and "ring_area px py n \<noteq> 0x8000000000000000"
  shows "0 \<le>s ring_area px' py' n \<and>
    (take n (zip px' py') = take n (zip px py) \<or> take n (zip px' py') = rev (take n (zip px py))) \<and>
    drop n px' = drop n px \<and> drop n py' = drop n py \<and> length px' = length px \<and> length py' = length py"
proof (cases "ring_area px py n <s 0")
  case True
  then have eq: "px' = rev (take n px) @ drop n px" "py' = rev (take n py) @ drop n py"
    using assms(3) by (simp_all add: orient_exterior_def)
  have "take n (zip px' py') = zip (rev (take n px)) (rev (take n py))"
    using assms(1,2) by (simp add: eq take_zip)
  also have "\<dots> = rev (take n (zip px py))"
    using assms(1,2) by (simp add: zip_rev take_zip)
  finally show ?thesis
    using True negate_negative [OF _ assms(4)] assms(1,2) by (simp add: eq ring_area_rev)
next
  case False
  then show ?thesis using assms(3) by (auto simp: orient_exterior_def word_sless_alt word_sle_eq)
qed

lemma orient_exterior_positive_witness:
  "0 \<le>s ring_area [10, 0, 0, 9] [0, 10, 0, 9] 3"
proof -
  have o: "orient_exterior [0, 0, 10, 9] [0, 10, 0, 9] 3 = ([10, 0, 0, 9], [0, 10, 0, 9])"
    and a: "ring_area [0, 0, 10, 9] [0, 10, 0, 9] 3 = - 100"
    by code_simp+
  show ?thesis
    using orient_exterior_positive [OF _ _ o] a by simp
qed

end
