(* ===== verification/Mvt_Geometry.thy ===== *)
theory Mvt_Geometry
  imports Mvt_Layer Float64
begin

text \<open>
  From cell boundaries to tile polygons (\<open>pmtiles/mvt.rs\<close>): \<open>polar_cap\<close>,
  \<open>MvtFeature::from_mercator\<close> and the layer operations that build features from Mercator rings.
  The arithmetic is the IEEE arithmetic of \<open>Float64\<close>; the two unwrapping loops need not end for
  every float, so the constructor is an option, \<open>None\<close> meaning that it does not return.
\<close>

section \<open>Polar caps\<close>


definition wrap_period :: "f64 \<Rightarrow> f64 \<Rightarrow> f64" where
  "wrap_period period d =
     (let half = f64_div period (f64_of_int 2)
      in if f64_lt half d then f64_sub d period
         else if f64_le d (f64_neg half) then f64_add d period
         else d)"

definition cap_turn :: "f64 list \<Rightarrow> f64 \<Rightarrow> f64" where
  "cap_turn xs period =
     (let n = length xs
      in foldl f64_add (f64_neg 0) (map (\<lambda>i. wrap_period period (f64_sub (xs ! ((i + 1) mod n)) (xs ! i))) [0..<n]))"

definition cap_order :: "f64 \<Rightarrow> nat \<Rightarrow> nat \<Rightarrow> nat" where
  "cap_order turn n i = (if f64_le 0 turn then i else n - 1 - i)"

text \<open>The first edge, going east, that crosses the seam.\<close>

definition seam_edge :: "f64 list \<Rightarrow> f64 \<Rightarrow> f64 \<Rightarrow> f64 \<Rightarrow> nat" where
  "seam_edge xs x1 period turn =
     (let n = length xs
      in case find (\<lambda>i. let a = xs ! cap_order turn n i
                        in f64_lt x1 (f64_add a (wrap_period period (f64_sub (xs ! cap_order turn n ((i + 1) mod n)) a))))
              [0..<n] of
           Some k \<Rightarrow> k
         | None \<Rightarrow> n - 1)"

definition point_eq :: "f64 \<times> f64 \<Rightarrow> f64 \<times> f64 \<Rightarrow> bool" where
  "point_eq p q = (f64_eq (fst p) (fst q) \<and> f64_eq (snd p) (snd q))"

text \<open>The closure \<open>push\<close> on the first \<open>len\<close> points; writing past the array panics (\<open>None\<close>).\<close>

definition cap_push :: "f64 \<times> f64 \<Rightarrow> (f64 \<times> f64) list \<Rightarrow> (f64 \<times> f64) list option" where
  "cap_push p pts =
     (if pts = [] \<or> \<not> point_eq (last pts) p
      then (if length pts < MAX_FEATURE_POINTS then Some (pts @ [p]) else None)
      else Some pts)"

fun push_all :: "(f64 \<times> f64) list \<Rightarrow> (f64 \<times> f64) list \<Rightarrow> (f64 \<times> f64) list option" where
  "push_all [] pts = Some pts"
| "push_all (p # ps) pts = (case cap_push p pts of None \<Rightarrow> None | Some pts' \<Rightarrow> push_all ps pts')"

definition polar_cap :: "f64 list \<Rightarrow> f64 list \<Rightarrow> f64 \<Rightarrow> f64 \<Rightarrow> f64 \<Rightarrow> (f64 \<times> f64) list option" where
  "polar_cap xs ys x0 period edge_y =
     (let n = length xs;
          turn = cap_turn xs period;
          order = cap_order turn n;
          x1 = f64_add x0 period;
          k = seam_edge xs x1 period turn;
          a = order k;
          b = order ((k + 1) mod n);
          b_x = f64_add (xs ! a) (wrap_period period (f64_sub (xs ! b) (xs ! a)));
          t = f64_div (f64_sub x1 (xs ! a)) (f64_sub b_x (xs ! a));
          cross_y = f64_add (ys ! a) (f64_mul t (f64_sub (ys ! b) (ys ! a)));
          ring = map (\<lambda>step. let i = order ((k + step) mod n); v = xs ! i;
                                 x = (if step = 1 \<and> f64_eq v x1 then x0
                                      else if step = n \<and> f64_eq v x0 then x1
                                      else v)
                             in (x, ys ! i)) [1..<n + 1]
      in push_all ([(x0, cross_y)] @ ring @ [(x1, cross_y), (x1, edge_y), (x0, edge_y)]) [])"

section \<open>Features from Mercator rings\<close>

type_synonym mercator_point = "f64 \<times> f64"

partial_function (option) unwrap_down :: "f64 \<Rightarrow> f64 \<Rightarrow> f64 option" where
  "unwrap_down x prev =
     (if f64_lt f64_half (f64_sub x prev) then unwrap_down (f64_sub x f64_one) prev else Some x)"

partial_function (option) unwrap_up :: "f64 \<Rightarrow> f64 \<Rightarrow> f64 option" where
  "unwrap_up x prev =
     (if f64_lt (f64_sub x prev) (f64_neg f64_half) then unwrap_up (f64_add x f64_one) prev else Some x)"

text \<open>The loop over the vertices after the first: the unwrapped coordinates and their range.\<close>

fun unwrap_loop :: "f64 list \<Rightarrow> f64 \<Rightarrow> f64 \<Rightarrow> f64 \<Rightarrow> (f64 list \<times> f64 \<times> f64) option" where
  "unwrap_loop [] prev min_ux max_ux = Some ([], min_ux, max_ux)"
| "unwrap_loop (v # vs) prev min_ux max_ux =
     Option.bind (unwrap_down v prev) (\<lambda>x.
     Option.bind (unwrap_up x prev) (\<lambda>x.
     Option.bind (unwrap_loop vs x (f64_min min_ux x) (f64_max max_ux x)) (\<lambda>(xs, lo, hi).
     Some (x # xs, lo, hi))))"

definition f64_infinity_fold :: "f64 list \<Rightarrow> f64 \<times> f64" where
  "f64_infinity_fold xs = (foldl f64_min f64_inf xs, foldl f64_max f64_neg_inf xs)"

text \<open>The antimeridian unwrapping: the ring's coordinates and whether it encircles a pole.\<close>

definition unwrap_ring :: "f64 list \<Rightarrow> f64 \<Rightarrow> f64 \<Rightarrow> (f64 list \<times> bool) option" where
  "unwrap_ring ux tile_x_min tile_span =
     (let (min_raw_x, max_raw_x) = f64_infinity_fold ux
      in if ux \<noteq> [] \<and> f64_lt f64_half (f64_sub max_raw_x min_raw_x)
         then Option.bind (unwrap_loop (tl ux) (hd ux) (hd ux) (hd ux)) (\<lambda>(rest, min_ux, max_ux).
           let ux = hd ux # rest
           in if f64_lt (f64_sub max_ux min_ux) f64_half
              then (let mid_ux = f64_mul f64_half (f64_add min_ux max_ux);
                        tile_center_x = f64_add tile_x_min (f64_mul f64_half tile_span);
                        shift = (if f64_lt f64_half (f64_sub mid_ux tile_center_x) then f64_neg f64_one
                                 else if f64_lt (f64_sub mid_ux tile_center_x) (f64_neg f64_half) then f64_one
                                 else 0)
                    in Some (map (\<lambda>x. f64_add x shift) ux, False))
              else Some (ux, True))
         else Some (ux, False))"

definition to_tile :: "f64 \<Rightarrow> f64 \<Rightarrow> f64 \<Rightarrow> f64 \<Rightarrow> f64 \<times> f64 \<Rightarrow> i32 \<times> i32" where
  "to_tile tile_x_min tile_y_min tile_span extent_f = (\<lambda>(x, y).
     (f64_to_i32 (f64_round (f64_mul (f64_div (f64_sub x tile_x_min) tile_span) extent_f)),
      f64_to_i32 (f64_round (f64_mul (f64_div (f64_sub y tile_y_min) tile_span) extent_f))))"

text \<open>Fixed arrays of \<open>MAX_FEATURE_POINTS\<close> integers, the points first and zeros after them.\<close>

definition point_array :: "i32 list \<Rightarrow> i32 list" where
  "point_array vs = vs @ replicate (MAX_FEATURE_POINTS - length vs) 0"

definition oriented_feature :: "u64 \<Rightarrow> feature_properties \<Rightarrow> (i32 \<times> i32) list \<Rightarrow> i32 \<Rightarrow> mvt_feature" where
  "oriented_feature fid props pts wrapped =
     (let (px, py) = orient_exterior (point_array (map fst pts)) (point_array (map snd pts)) (length pts)
      in \<lparr> mf_id = fid, mf_properties = props, mf_polygon_x = px, mf_polygon_y = py,
           mf_num_points = word_of_nat (length pts), mf_wrapped_x_offset = wrapped \<rparr>)"

definition wrapped_offset :: "nat \<Rightarrow> f64 list \<Rightarrow> f64 list \<Rightarrow> u32 \<Rightarrow> i32" where
  "wrapped_offset z raw ux extent =
     (let (min_raw_x, max_raw_x) = f64_infinity_fold raw
      in if z = 0 \<and> f64_lt f64_half (f64_sub max_raw_x min_raw_x)
         then (let (lo, hi) = f64_infinity_fold ux
               in if f64_lt (f64_sub hi lo) f64_half \<and> f64_lt lo 0 then extent
                  else if f64_lt (f64_sub hi lo) f64_half \<and> f64_lt f64_one hi then - extent
                  else 0)
         else 0)"

definition from_mercator ::
  "u64 \<Rightarrow> mercator_point list \<Rightarrow> nat \<Rightarrow> nat \<Rightarrow> nat \<Rightarrow> u32 \<Rightarrow> feature_properties \<Rightarrow> mvt_feature option" where
  "from_mercator fid vertices z tx ty extent properties =
     (if z \<ge> 32 then None
      else
       (let n = f64_of_int (2 ^ z);
            extent_f = f64_of_int (uint extent);
            tile_x_min = f64_div (f64_of_int (int tx)) n;
            tile_y_min = f64_div (f64_of_int (int ty)) n;
            tile_span = f64_div f64_one n;
            vs = take 10 vertices;
            raw = map fst vs;
            proj = to_tile tile_x_min tile_y_min tile_span extent_f
        in Option.bind (unwrap_ring raw tile_x_min tile_span) (\<lambda>(ux, encircles_pole).
          if encircles_pole
          then (let ys = map snd vs;
                    north = f64_lt (foldl f64_add (f64_neg 0) ys) (f64_mul f64_half (f64_of_int (int (length vs))));
                    edge_y = (if north then 0 else f64_one)
                in Option.bind (polar_cap raw ys 0 f64_one edge_y) (\<lambda>pts.
                  Some (oriented_feature fid properties (map proj pts) 0)))
          else Some (oriented_feature fid properties (map proj (zip ux (map snd vs))) (wrapped_offset z raw ux extent)))))"

section \<open>Layer operations\<close>

definition add_hexagon_mercator ::
  "u64 \<Rightarrow> mercator_point list \<Rightarrow> nat \<Rightarrow> nat \<Rightarrow> nat \<Rightarrow> feature_properties \<Rightarrow> mvt_layer \<Rightarrow> mvt_layer option" where
  "add_hexagon_mercator fid vertices z tx ty properties l =
     (if length vertices < 3 then Some l
      else map_option (\<lambda>feature. l\<lparr> ml_seen_ids := insert fid (ml_seen_ids l), ml_features := ml_features l @ [feature] \<rparr>)
             (from_mercator fid vertices z tx ty (ml_extent l) properties))"

definition add_or_merge_hexagon_mercator ::
  "u64 \<Rightarrow> mercator_point list \<Rightarrow> nat \<Rightarrow> nat \<Rightarrow> nat \<Rightarrow> feature_properties \<Rightarrow> mvt_layer \<Rightarrow> mvt_layer option" where
  "add_or_merge_hexagon_mercator fid vertices z tx ty properties l =
     (if fid \<in> ml_seen_ids l then Some l
      else if length vertices < 3 then Some (l\<lparr> ml_seen_ids := insert fid (ml_seen_ids l) \<rparr>)
      else map_option (\<lambda>feature. l\<lparr> ml_seen_ids := insert fid (ml_seen_ids l), ml_features := ml_features l @ [feature] \<rparr>)
             (from_mercator fid vertices z tx ty (ml_extent l) properties))"

section \<open>Bounds\<close>

lemma cap_push_bound:
  "length pts < MAX_FEATURE_POINTS \<Longrightarrow> \<exists>pts'. cap_push p pts = Some pts' \<and> length pts' \<le> Suc (length pts) \<and> pts' \<noteq> []"
  by (auto simp: cap_push_def)

lemma push_all_bound:
  "length ps + length pts \<le> MAX_FEATURE_POINTS \<Longrightarrow>
   \<exists>pts'. push_all ps pts = Some pts' \<and> length pts' \<le> length ps + length pts"
proof (induction ps arbitrary: pts)
  case (Cons p ps)
  then have "length pts < MAX_FEATURE_POINTS" by simp
  then obtain q where q: "cap_push p pts = Some q" "length q \<le> Suc (length pts)"
    using cap_push_bound by blast
  then show ?case using Cons.IH [of q] Cons.prems by fastforce
qed simp

lemma push_all_new:
  "length ps = m \<Longrightarrow> m \<le> MAX_FEATURE_POINTS \<Longrightarrow> \<exists>pts. push_all ps [] = Some pts \<and> length pts \<le> m"
  using push_all_bound [of ps "[]"] by simp

lemma polar_cap_some:
  "length xs \<le> 10 \<Longrightarrow> \<exists>pts. polar_cap xs ys x0 period edge_y = Some pts \<and> length pts \<le> length xs + 4"
  unfolding polar_cap_def Let_def by (rule push_all_new) (simp_all add: MAX_FEATURE_POINTS_def del: upt_Suc)

lemma length_orient:
  "n \<le> length px \<Longrightarrow> n \<le> length py \<Longrightarrow> orient_exterior px py n = (px', py') \<Longrightarrow> length px' = length px \<and> length py' = length py"
  by (auto simp: orient_exterior_def split: if_splits)

lemma oriented_feature_ok:
  assumes "length pts \<le> MAX_FEATURE_POINTS"
  shows "length (mf_polygon_x (oriented_feature i p pts w)) = MAX_FEATURE_POINTS \<and>
    length (mf_polygon_y (oriented_feature i p pts w)) = MAX_FEATURE_POINTS \<and>
    unat (mf_num_points (oriented_feature i p pts w)) = length pts \<and>
    mf_id (oriented_feature i p pts w) = i \<and> mf_properties (oriented_feature i p pts w) = p"
proof -
  let ?px = "point_array (map fst pts)" and ?py = "point_array (map snd pts)"
  obtain px py where o: "orient_exterior ?px ?py (length pts) = (px, py)" by fastforce
  have "length ?px = MAX_FEATURE_POINTS" "length ?py = MAX_FEATURE_POINTS"
    using assms by (simp_all add: point_array_def)
  then have "length px = MAX_FEATURE_POINTS" "length py = MAX_FEATURE_POINTS"
    using length_orient [OF _ _ o] assms by simp_all
  moreover have "unat (word_of_nat (length pts) :: u8) = length pts"
    using assms by (intro unat_word8) (simp add: MAX_FEATURE_POINTS_def)
  ultimately show ?thesis by (simp add: oriented_feature_def o)
qed

lemma length_unwrap_loop: "unwrap_loop vs prev lo hi = Some (xs, lo', hi') \<Longrightarrow> length xs = length vs"
proof (induction vs arbitrary: prev lo hi xs lo' hi')
  case (Cons v vs)
  then show ?case by (auto simp: Option.bind_eq_Some_conv split: prod.splits)
qed simp

lemma length_unwrap_ring: "unwrap_ring ux a b = Some (ux', e) \<Longrightarrow> length ux' = length ux"
  by (cases ux)
    (auto simp: unwrap_ring_def Let_def Option.bind_eq_Some_conv dest: length_unwrap_loop split: prod.splits if_splits)

lemma from_mercator_ok:
  assumes "from_mercator i vertices z tx ty extent props = Some feat"
  shows "length (mf_polygon_x feat) = MAX_FEATURE_POINTS \<and> length (mf_polygon_y feat) = MAX_FEATURE_POINTS \<and>
    unat (mf_num_points feat) \<le> MAX_FEATURE_POINTS \<and> mf_id feat = i \<and> mf_properties feat = props"
proof -
  obtain pts w where f: "feat = oriented_feature i props pts w" "length pts \<le> MAX_FEATURE_POINTS"
  proof -
    let ?x0 = "f64_div (f64_of_int (int tx)) (f64_of_int (2 ^ z))"
    let ?y0 = "f64_div (f64_of_int (int ty)) (f64_of_int (2 ^ z))"
    let ?sp = "f64_div f64_one (f64_of_int (2 ^ z))"
    let ?proj = "to_tile ?x0 ?y0 ?sp (f64_of_int (uint extent))"
    let ?vs = "take 10 vertices"
    obtain ux e where u: "unwrap_ring (map fst ?vs) ?x0 ?sp = Some (ux, e)"
      using assms by (auto simp: from_mercator_def Let_def Option.bind_eq_Some_conv split: if_splits)
    show thesis
    proof (cases e)
      case True
      then obtain edge pts where "polar_cap (map fst ?vs) (map snd ?vs) 0 f64_one edge = Some pts"
          "feat = oriented_feature i props (map ?proj pts) 0"
        using assms u by (auto simp: from_mercator_def Let_def Option.bind_eq_Some_conv split: if_splits)
      moreover have "length (map fst ?vs) \<le> 10" by simp
      ultimately show thesis
        using that [of "map ?proj pts" 0] polar_cap_some [of "map fst ?vs" "map snd ?vs" 0 f64_one edge]
        by (auto simp: MAX_FEATURE_POINTS_def)
    next
      case False
      then have "feat = oriented_feature i props (map ?proj (zip ux (map snd ?vs))) (wrapped_offset z (map fst ?vs) ux extent)"
        using assms u by (auto simp: from_mercator_def Let_def split: if_splits)
      then show thesis
        using that [of "map ?proj (zip ux (map snd ?vs))"] by (simp add: MAX_FEATURE_POINTS_def)
    qed
  qed
  then show ?thesis using oriented_feature_ok [of pts i props w] by simp
qed

lemma from_mercator_returns:
  assumes "z \<le> 31" "\<not> f64_lt f64_half (f64_sub (foldl f64_max f64_neg_inf (map fst (take 10 vertices)))
      (foldl f64_min f64_inf (map fst (take 10 vertices))))"
  shows "\<exists>feat. from_mercator fid vertices z tx ty extent props = Some feat \<and> unat (mf_num_points feat) = min (length vertices) 10
    \<and> mf_wrapped_x_offset feat = 0"
proof -
  have u: "unwrap_ring (map fst (take 10 vertices)) a b = Some (map fst (take 10 vertices), False)" for a b
    using assms(2) by (simp add: unwrap_ring_def f64_infinity_fold_def)
  have w: "wrapped_offset z (map fst (take 10 vertices)) ux extent = 0" for ux
    using assms(2) by (simp add: wrapped_offset_def f64_infinity_fold_def)
  have n: "unat (mf_num_points (oriented_feature fid props pts 0)) = length pts" if "length pts \<le> 10"
    for pts using oriented_feature_ok [of pts fid props 0] that by (simp add: MAX_FEATURE_POINTS_def)
  show ?thesis
    using assms(1) by (simp add: from_mercator_def Let_def u w n) (simp add: oriented_feature_def split: prod.splits)
qed

section \<open>De-duplication\<close>

text \<open>The merging operations of a layer, in any order.\<close>

datatype merge_op =
    MergeFeature mvt_feature
  | MergeHexagon u64 "mercator_point list" nat nat nat feature_properties

fun merge_step :: "merge_op \<Rightarrow> mvt_layer \<Rightarrow> mvt_layer option" where
  "merge_step (MergeFeature f) l = Some (add_or_merge_feature f l)"
| "merge_step (MergeHexagon i vs z tx ty p) l = add_or_merge_hexagon_mercator i vs z tx ty p l"

fun merge_all :: "merge_op list \<Rightarrow> mvt_layer \<Rightarrow> mvt_layer option" where
  "merge_all [] l = Some l"
| "merge_all (a # as) l = (case merge_step a l of None \<Rightarrow> None | Some l' \<Rightarrow> merge_all as l')"

fun op_id :: "merge_op \<Rightarrow> u64" where
  "op_id (MergeFeature f) = mf_id f"
| "op_id (MergeHexagon i vs z tx ty p) = i"

definition layer_inv :: "mvt_layer \<Rightarrow> bool" where
  "layer_inv l \<longleftrightarrow> distinct (map mf_id (ml_features l)) \<and> (\<forall>f\<in>set (ml_features l). mf_id f \<in> ml_seen_ids l)"

lemma layer_inv_push:
  "layer_inv l \<Longrightarrow> mf_id f \<notin> ml_seen_ids l \<Longrightarrow>
   layer_inv (l\<lparr> ml_seen_ids := insert (mf_id f) (ml_seen_ids l), ml_features := ml_features l @ [f] \<rparr>)"
  by (auto simp: layer_inv_def)

lemma merge_step_inv:
  assumes "merge_step a l = Some l'" "layer_inv l"
  shows "layer_inv l' \<and> ml_seen_ids l' = insert (op_id a) (ml_seen_ids l) \<and>
    (\<exists>more. ml_features l' = ml_features l @ more) \<and> (op_id a \<in> ml_seen_ids l \<longrightarrow> ml_features l' = ml_features l)"
proof (cases a)
  case (MergeFeature f)
  then show ?thesis
    using assms layer_inv_push [OF assms(2), of f] by (auto simp: add_or_merge_feature_def split: if_splits)
next
  case (MergeHexagon i vs z tx ty p)
  show ?thesis
  proof (cases "i \<in> ml_seen_ids l \<or> length vs < 3")
    case True
    then show ?thesis
      using assms MergeHexagon by (auto simp: add_or_merge_hexagon_mercator_def layer_inv_def split: if_splits)
  next
    case False
    then obtain f where f: "from_mercator i vs z tx ty (ml_extent l) p = Some f"
        "l' = l\<lparr> ml_seen_ids := insert i (ml_seen_ids l), ml_features := ml_features l @ [f] \<rparr>"
      using assms(1) MergeHexagon by (auto simp: add_or_merge_hexagon_mercator_def)
    then have "mf_id f = i" using from_mercator_ok [OF f(1)] by simp
    then show ?thesis
      using False f(2) MergeHexagon layer_inv_push [OF assms(2), of f] by auto
  qed
qed

lemma merge_all_inv:
  "merge_all as l = Some l' \<Longrightarrow> layer_inv l \<Longrightarrow>
   layer_inv l' \<and> ml_seen_ids l' = op_id ` set as \<union> ml_seen_ids l \<and> (\<exists>more. ml_features l' = ml_features l @ more)"
proof (induction as arbitrary: l)
  case (Cons a as)
  then obtain m where m: "merge_step a l = Some m" "merge_all as m = Some l'" by (auto split: option.splits)
  then show ?case using merge_step_inv [OF m(1) Cons.prems(2)] Cons.IH [OF m(2)] by auto
qed simp

section \<open>Properties\<close>

text \<open>
  A cell that goes round a pole always fits its arrays: for a boundary of at most ten vertices,
  \<open>polar_cap\<close> never writes past \<open>MAX_FEATURE_POINTS\<close> and returns at most four points more than
  the boundary has, whatever the coordinates (NaN and infinities included).
\<close>

theorem polar_cap_fits:
  assumes "length xs \<le> 10"
  shows "\<exists>pts. polar_cap xs ys x0 period edge_y = Some pts \<and> length pts \<le> length xs + 4"
  by (rule polar_cap_some [OF assms])

lemma polar_cap_fits_witness:
  "\<exists>pts. polar_cap [0, f64_half, f64_one] [0, 0, 0] 0 f64_one 0 = Some pts \<and> length pts \<le> length [0, f64_half, f64_one] + 4"
  by (rule polar_cap_fits) simp

text \<open>
  Every boundary that spans at most half the world becomes a feature of the right shape: up to
  zoom 31 \<open>from_mercator\<close> returns, with one point per vertex (at most ten), no second ring, the
  caller's id and properties, and both coordinate arrays of \<open>MAX_FEATURE_POINTS\<close> entries.
\<close>

theorem from_mercator_shape:
  assumes "z \<le> 31" "\<not> f64_lt f64_half (f64_sub (foldl f64_max f64_neg_inf (map fst (take 10 vertices)))
      (foldl f64_min f64_inf (map fst (take 10 vertices))))"
  shows "\<exists>feat. from_mercator fid vertices z tx ty extent props = Some feat \<and>
    unat (mf_num_points feat) = min (length vertices) 10 \<and> mf_wrapped_x_offset feat = 0 \<and>
    length (mf_polygon_x feat) = MAX_FEATURE_POINTS \<and> length (mf_polygon_y feat) = MAX_FEATURE_POINTS \<and>
    mf_id feat = fid \<and> mf_properties feat = props"
  using from_mercator_returns [OF assms, of fid tx ty extent props] from_mercator_ok by fastforce

lemma unpack_samples:
  "unpack 0 = FFin False 0 (- 1074)" "unpack (f64_neg 0) = FFin True 0 (- 1074)"
  "unpack f64_inf = FInf False" "unpack f64_neg_inf = FInf True" "unpack f64_half = FFin False 4503599627370496 (- 53)"
  by (simp_all add: unpack_def unpack_gen_def f64_inf_def f64_neg_inf_def f64_half_def f64_neg_def)

lemma from_mercator_shape_witness:
  "\<exists>feat. from_mercator 7 [(0, 0), (0, f64_one), (0, f64_half)] 1 0 0 4096 (Generic []) = Some feat \<and>
    unat (mf_num_points feat) = min (length [(0 :: f64, 0 :: f64), (0, f64_one), (0, f64_half)]) 10 \<and> mf_wrapped_x_offset feat = 0 \<and>
    length (mf_polygon_x feat) = MAX_FEATURE_POINTS \<and> length (mf_polygon_y feat) = MAX_FEATURE_POINTS \<and>
    mf_id feat = 7 \<and> mf_properties feat = Generic []"
proof (rule from_mercator_shape [of 1 "[(0, 0), (0, f64_one), (0, f64_half)]" 7 0 0 4096 "Generic []"])
  show "\<not> f64_lt f64_half (f64_sub (foldl f64_max f64_neg_inf (map fst (take 10 [(0, 0), (0, f64_one), (0, f64_half)])))
      (foldl f64_min f64_inf (map fst (take 10 [(0, 0), (0, f64_one), (0, f64_half)]))))"
    by (simp add: f64_max_def f64_min_def f64_is_nan_def f64_lt_def f64_sub_def f64_add_def unpack_samples
        aligned_def signed_sig_def zero_of_def)
qed simp

text \<open>
  A layer holds each cell once: after any sequence of merging operations that returns, the
  features have pairwise different ids, exactly the offered ids are marked as seen, and features
  already in the layer are never dropped, replaced or reordered.
\<close>

theorem layer_merge_once:
  assumes "merge_all as l = Some l'" "distinct (map mf_id (ml_features l))" "mf_id ` set (ml_features l) \<subseteq> ml_seen_ids l"
  shows "distinct (map mf_id (ml_features l')) \<and> ml_seen_ids l' = op_id ` set as \<union> ml_seen_ids l \<and>
    mf_id ` set (ml_features l') \<subseteq> ml_seen_ids l' \<and> (\<exists>more. ml_features l' = ml_features l @ more)"
  using merge_all_inv [OF assms(1)] assms(2,3) unfolding layer_inv_def image_subset_iff by blast

lemma layer_merge_once_witness:
  "distinct (map mf_id (ml_features (add_or_merge_feature sample_feature (add_or_merge_feature sample_feature (layer_new [])))))"
  using layer_merge_once [of "[MergeFeature sample_feature, MergeFeature sample_feature]" "layer_new []"]
  by (simp add: layer_new_def)

end
