(* ===== verification/Columnar.thy ===== *)
theory Columnar
  imports Utf8
begin

text \<open>
  Columnar batches (\<open>columnar/mod.rs\<close>): schemas, typed columns with optional validity flags and
  \<open>RecordBatch\<close> with its checked constructor, projection and row slicing. A column's values and
  its validity are a pair here; the source repeats the validity field in every variant.
\<close>

section \<open>Schemas\<close>

datatype arrow_data_type = UInt64 | Int64 | UInt8 | Float64 | Boolean | Utf8 | Binary

fun arrow_format_str :: "arrow_data_type \<Rightarrow> rstr" where
  "arrow_format_str UInt64 = lit ''L''"
| "arrow_format_str Int64 = lit ''l''"
| "arrow_format_str UInt8 = lit ''C''"
| "arrow_format_str Float64 = lit ''g''"
| "arrow_format_str Boolean = lit ''b''"
| "arrow_format_str Utf8 = lit ''u''"
| "arrow_format_str Binary = lit ''z''"

record column_field =
  cf_name :: rstr
  cf_data_type :: arrow_data_type
  cf_nullable :: bool

definition field_new :: "rstr \<Rightarrow> arrow_data_type \<Rightarrow> bool \<Rightarrow> column_field" where
  "field_new name data_type nullable = \<lparr> cf_name = name, cf_data_type = data_type, cf_nullable = nullable \<rparr>"

type_synonym column_schema = "column_field list"

definition categorical_wide :: column_schema where
  "categorical_wide =
     [field_new (lit ''h3_index'') UInt64 False, field_new (lit ''h3_hex'') Utf8 False,
      field_new (lit ''majority_class'') Int64 False, field_new (lit ''majority_fraction'') Float64 False,
      field_new (lit ''majority_count'') Float64 False, field_new (lit ''unique_classes'') Int64 False,
      field_new (lit ''total_count'') Float64 False, field_new (lit ''histogram'') Utf8 False,
      field_new (lit ''resolution'') UInt8 False, field_new (lit ''shannon_entropy'') Float64 False,
      field_new (lit ''entropy'') Float64 False, field_new (lit ''distinct_classes'') Int64 False,
      field_new (lit ''wkb'') Binary False]"

definition categorical_long :: column_schema where
  "categorical_long =
     [field_new (lit ''h3_index'') UInt64 False, field_new (lit ''h3_hex'') Utf8 False,
      field_new (lit ''category'') Int64 False, field_new (lit ''count'') Float64 False,
      field_new (lit ''fraction'') Float64 False, field_new (lit ''total_count'') Float64 False,
      field_new (lit ''resolution'') UInt8 False, field_new (lit ''shannon_entropy'') Float64 False,
      field_new (lit ''entropy'') Float64 False, field_new (lit ''distinct_classes'') Int64 False,
      field_new (lit ''unique_classes'') Int64 False, field_new (lit ''wkb'') Binary False]"

fun schema_project :: "column_schema \<Rightarrow> nat list \<Rightarrow> rh3_error + column_schema" where
  "schema_project flds [] = Ok []"
| "schema_project flds (idx # indices) =
     (if idx < length flds
      then bind_res (schema_project flds indices) (\<lambda>projected. Ok (flds ! idx # projected))
      else Err (InvalidParameter ''Projected column index out of bounds''))"

definition eq_ignore_ascii_case :: "rstr \<Rightarrow> rstr \<Rightarrow> bool" where
  "eq_ignore_ascii_case a b = (to_ascii_lowercase a = to_ascii_lowercase b)"

fun schema_index_of :: "column_schema \<Rightarrow> rstr \<Rightarrow> nat option" where
  "schema_index_of [] name = None"
| "schema_index_of (f # fs) name =
     (if eq_ignore_ascii_case (cf_name f) name then Some 0 else map_option Suc (schema_index_of fs name))"

section \<open>Columns\<close>

datatype column_values =
    UInt64s "u64 list" | Int64s "i64 list" | UInt8s "u8 list" | Float64s "f64 list"
  | Booleans "bool list" | Utf8s "rstr list" | Binaries "bytes list"

record column_array =
  ca_values :: column_values
  ca_validity :: "bool list option"

fun values_len :: "column_values \<Rightarrow> nat" where
  "values_len (UInt64s vs) = length vs"
| "values_len (Int64s vs) = length vs"
| "values_len (UInt8s vs) = length vs"
| "values_len (Float64s vs) = length vs"
| "values_len (Booleans vs) = length vs"
| "values_len (Utf8s vs) = length vs"
| "values_len (Binaries vs) = length vs"

definition column_len :: "column_array \<Rightarrow> nat" where
  "column_len c = values_len (ca_values c)"

fun values_type :: "column_values \<Rightarrow> arrow_data_type" where
  "values_type (UInt64s vs) = UInt64"
| "values_type (Int64s vs) = Int64"
| "values_type (UInt8s vs) = UInt8"
| "values_type (Float64s vs) = Float64"
| "values_type (Booleans vs) = Boolean"
| "values_type (Utf8s vs) = Utf8"
| "values_type (Binaries vs) = Binary"

definition column_data_type :: "column_array \<Rightarrow> arrow_data_type" where
  "column_data_type c = values_type (ca_values c)"

definition null_count :: "column_array \<Rightarrow> nat" where
  "null_count c = (case ca_validity c of Some v \<Rightarrow> length (filter (\<lambda>b. \<not> b) v) | None \<Rightarrow> 0)"

definition slice_range :: "nat \<Rightarrow> nat \<Rightarrow> 'a list \<Rightarrow> 'a list" where
  "slice_range start stop xs = take (stop - start) (drop start xs)"

fun values_slice :: "nat \<Rightarrow> nat \<Rightarrow> column_values \<Rightarrow> column_values" where
  "values_slice s e (UInt64s vs) = UInt64s (slice_range s e vs)"
| "values_slice s e (Int64s vs) = Int64s (slice_range s e vs)"
| "values_slice s e (UInt8s vs) = UInt8s (slice_range s e vs)"
| "values_slice s e (Float64s vs) = Float64s (slice_range s e vs)"
| "values_slice s e (Booleans vs) = Booleans (slice_range s e vs)"
| "values_slice s e (Utf8s vs) = Utf8s (slice_range s e vs)"
| "values_slice s e (Binaries vs) = Binaries (slice_range s e vs)"

text \<open>\<open>None\<close>: the slice of the validity flags is out of bounds and panics.\<close>

definition column_slice :: "nat \<Rightarrow> nat \<Rightarrow> column_array \<Rightarrow> column_array option" where
  "column_slice offset len c =
     (let stop = min (offset + len) (column_len c); start = min offset stop
      in case ca_validity c of
           None \<Rightarrow> Some \<lparr> ca_values = values_slice start stop (ca_values c), ca_validity = None \<rparr>
         | Some v \<Rightarrow>
             (if stop \<le> length v
              then Some \<lparr> ca_values = values_slice start stop (ca_values c),
                          ca_validity = Some (slice_range start stop v) \<rparr>
              else None))"

section \<open>Batches\<close>

record record_batch =
  rb_schema :: column_schema
  rb_columns :: "column_array list"
  rb_num_rows :: nat

text \<open>The checks of \<open>try_new\<close> on the columns from the first on.\<close>

fun check_columns :: "nat \<Rightarrow> column_field list \<Rightarrow> column_array list \<Rightarrow> rh3_error option" where
  "check_columns num_rows (f # fs) (c # cs) =
     (if column_len c \<noteq> num_rows then Some (InvalidParameter ''Column length does not match batch row count'')
      else if column_data_type c \<noteq> cf_data_type f then Some (InvalidParameter ''Column type does not match schema type'')
      else check_columns num_rows fs cs)"
| "check_columns num_rows _ _ = None"

definition batch_try_new :: "column_schema \<Rightarrow> column_array list \<Rightarrow> rh3_error + record_batch" where
  "batch_try_new schema columns =
     (if length schema \<noteq> length columns
      then Err (InvalidParameter ''Schema field count does not match column count'')
      else (let num_rows = (case columns of c # _ \<Rightarrow> column_len c | [] \<Rightarrow> 0)
            in case check_columns num_rows schema columns of
                 Some e \<Rightarrow> Err e
               | None \<Rightarrow> Ok \<lparr> rb_schema = schema, rb_columns = columns, rb_num_rows = num_rows \<rparr>))"

definition batch_project :: "record_batch \<Rightarrow> nat list \<Rightarrow> rh3_error + record_batch" where
  "batch_project b indices =
     bind_res (schema_project (rb_schema b) indices) (\<lambda>proj_schema.
       Ok \<lparr> rb_schema = proj_schema, rb_columns = map (\<lambda>idx. rb_columns b ! idx) indices,
            rb_num_rows = rb_num_rows b \<rparr>)"

definition batch_slice :: "record_batch \<Rightarrow> nat \<Rightarrow> nat \<Rightarrow> record_batch option" where
  "batch_slice b offset len =
     (let stop = min (offset + len) (rb_num_rows b); start = min offset stop; num_rows = stop - start
      in map_option (\<lambda>columns. \<lparr> rb_schema = rb_schema b, rb_columns = columns, rb_num_rows = num_rows \<rparr>)
           (those (map (column_slice start num_rows) (rb_columns b))))"

definition column_by_name :: "record_batch \<Rightarrow> rstr \<Rightarrow> column_array option" where
  "column_by_name b name =
     (case schema_index_of (rb_schema b) name of
        None \<Rightarrow> None
      | Some idx \<Rightarrow> if idx < length (rb_columns b) then Some (rb_columns b ! idx) else None)"

section \<open>Well-typed batches\<close>

definition column_typed :: "nat \<Rightarrow> column_field \<Rightarrow> column_array \<Rightarrow> bool" where
  "column_typed n f c \<longleftrightarrow> column_len c = n \<and> column_data_type c = cf_data_type f"

definition batch_typed :: "record_batch \<Rightarrow> bool" where
  "batch_typed b \<longleftrightarrow> list_all2 (column_typed (rb_num_rows b)) (rb_schema b) (rb_columns b)"

text \<open>Validity flags cover the rows; \<open>try_new\<close> does not check this.\<close>

definition validity_ok :: "column_array \<Rightarrow> bool" where
  "validity_ok c \<longleftrightarrow> (case ca_validity c of None \<Rightarrow> True | Some v \<Rightarrow> length v = column_len c)"

lemma check_columns_None:
  "length fs = length cs \<Longrightarrow> check_columns n fs cs = None \<longleftrightarrow> list_all2 (column_typed n) fs cs"
  by (induction n fs cs rule: check_columns.induct) (auto simp: column_typed_def)

lemma batch_try_new_Ok:
  "batch_try_new schema columns = Ok b \<longleftrightarrow>
     rb_schema b = schema \<and> rb_columns b = columns \<and> batch_typed b \<and> (columns = [] \<longrightarrow> rb_num_rows b = 0)"
proof -
  let ?n = "case columns of c # _ \<Rightarrow> column_len c | [] \<Rightarrow> 0"
  have rows: "m = ?n" if "list_all2 (column_typed m) schema columns" "columns = [] \<longrightarrow> m = 0" for m
    using that by (cases schema; cases columns) (auto simp: column_typed_def)
  show ?thesis
  proof
    assume "batch_try_new schema columns = Ok b"
    then show "rb_schema b = schema \<and> rb_columns b = columns \<and> batch_typed b \<and> (columns = [] \<longrightarrow> rb_num_rows b = 0)"
      by (auto simp: batch_try_new_def Let_def batch_typed_def check_columns_None split: if_splits option.splits)
  next
    assume r: "rb_schema b = schema \<and> rb_columns b = columns \<and> batch_typed b \<and> (columns = [] \<longrightarrow> rb_num_rows b = 0)"
    then have t: "list_all2 (column_typed (rb_num_rows b)) schema columns" by (auto simp: batch_typed_def)
    then have "rb_num_rows b = ?n" using rows r by blast
    moreover have len: "length schema = length columns" using t by (rule list_all2_lengthD)
    moreover have "check_columns (rb_num_rows b) schema columns = None" using t len by (simp add: check_columns_None)
    ultimately show "batch_try_new schema columns = Ok b"
      using r by (cases b) (simp add: batch_try_new_def)
  qed
qed

lemma schema_project_Ok:
  "schema_project fs ixs = Ok ps \<longleftrightarrow> (\<forall>i\<in>set ixs. i < length fs) \<and> ps = map ((!) fs) ixs"
  by (induction ixs arbitrary: ps) auto

lemma length_slice_range: "length (slice_range s e xs) = min (e - s) (length xs - s)"
  by (simp add: slice_range_def min_def)

lemma values_len_slice: "values_len (values_slice s e v) = min (e - s) (values_len v - s)"
  by (cases v) (simp_all add: length_slice_range)

lemma values_type_slice [simp]: "values_type (values_slice s e v) = values_type v"
  by (cases v) simp_all

lemma column_slice_typed:
  assumes "column_typed n f c" "validity_ok c" "start + len \<le> n"
  shows "\<exists>c'. column_slice start len c = Some c' \<and> column_typed len f c' \<and> validity_ok c'"
  using assms
  by (auto simp: column_slice_def column_typed_def column_len_def column_data_type_def validity_ok_def Let_def
      values_len_slice length_slice_range min_def split: option.splits)

lemma those_list_all2: "list_all2 (\<lambda>x y. f x = Some y) xs ys \<Longrightarrow> those (map f xs) = Some ys"
  by (induction xs ys rule: list_all2_induct) auto

section \<open>Properties\<close>


definition sample_batch :: record_batch where
  "sample_batch =
     \<lparr> rb_schema = [field_new (lit ''a'') UInt64 False, field_new (lit ''b'') Utf8 True],
       rb_columns = [\<lparr> ca_values = UInt64s [1, 2], ca_validity = None \<rparr>,
                     \<lparr> ca_values = Utf8s [lit ''x'', []], ca_validity = Some [True, False] \<rparr>],
       rb_num_rows = 2 \<rparr>"


end
