(* ===== verification/Ipc.thy ===== *)
theory Ipc
  imports Columnar Byte_Codec
begin

text \<open>
  The binary columnar stream of \<open>columnar/ipc.rs\<close>: \<open>write_ipc_stream\<close>, the incremental
  \<open>IpcStreamReader\<close> and \<open>read_ipc_stream\<close>. The output and the input are in-memory byte streams;
  a short input is the \<open>UnexpectedEof\<close> of \<open>read_exact\<close>.
\<close>

section \<open>Writing\<close>

definition IPC_MAGIC :: bytes where
  "IPC_MAGIC = as_bytes (lit ''RH3IPC01'')"

definition write_u32 :: "nat \<Rightarrow> bytes" where
  "write_u32 n = to_le_bytes (word_of_nat n :: u32)"

definition bool_byte :: "bool \<Rightarrow> u8" where
  "bool_byte b = (if b then 1 else 0)"

fun encode_dtype :: "arrow_data_type \<Rightarrow> u8" where
  "encode_dtype UInt64 = 1"
| "encode_dtype Int64 = 2"
| "encode_dtype UInt8 = 3"
| "encode_dtype Float64 = 4"
| "encode_dtype Boolean = 5"
| "encode_dtype Utf8 = 6"
| "encode_dtype Binary = 7"

fun write_validity :: "bool list option \<Rightarrow> bytes" where
  "write_validity None = [0]"
| "write_validity (Some v) = [1] @ write_u32 (length v) @ map bool_byte v"

definition write_blob :: "bytes \<Rightarrow> bytes" where
  "write_blob b = write_u32 (length b) @ b"

fun write_values :: "column_values \<Rightarrow> bytes" where
  "write_values (UInt64s vs) = concat (map to_le_bytes vs)"
| "write_values (Int64s vs) = concat (map to_le_bytes vs)"
| "write_values (UInt8s vs) = vs"
| "write_values (Float64s vs) = concat (map to_le_bytes vs)"
| "write_values (Booleans vs) = map bool_byte vs"
| "write_values (Utf8s vs) = concat (map (\<lambda>s. write_blob (as_bytes s)) vs)"
| "write_values (Binaries vs) = concat (map write_blob vs)"

definition write_column :: "column_array \<Rightarrow> bytes" where
  "write_column c = write_validity (ca_validity c) @ write_values (ca_values c)"

definition write_field :: "column_field \<Rightarrow> bytes" where
  "write_field f = write_blob (as_bytes (cf_name f)) @ [encode_dtype (cf_data_type f)] @ [bool_byte (cf_nullable f)]"

definition write_header :: "column_schema \<Rightarrow> bytes" where
  "write_header schema = IPC_MAGIC @ write_u32 (length schema) @ concat (map write_field schema)"

definition write_batch :: "record_batch \<Rightarrow> bytes" where
  "write_batch b = [1] @ write_u32 (rb_num_rows b) @ concat (map write_column (rb_columns b))"

text \<open>The loop over the batches: the bytes written and the result.\<close>

fun write_batches :: "(rh3_error + record_batch) list \<Rightarrow> nat \<Rightarrow> bytes \<times> (rh3_error + nat)" where
  "write_batches [] total_rows = ([0], Ok total_rows)"
| "write_batches (Inl e # bs) total_rows = ([], Err e)"
| "write_batches (Inr batch # bs) total_rows =
     (if rb_num_rows batch = 0 then write_batches bs total_rows
      else (case write_batches bs (total_rows + rb_num_rows batch) of
              (out, res) \<Rightarrow> (write_batch batch @ out, res)))"

definition write_ipc_stream :: "column_schema \<Rightarrow> (rh3_error + record_batch) list \<Rightarrow> bytes \<times> (rh3_error + nat)" where
  "write_ipc_stream schema batches =
     (case write_batches batches 0 of (out, res) \<Rightarrow> (write_header schema @ out, res))"

section \<open>Reading\<close>

type_synonym 'a ipc_p = "(rh3_error, 'a) reader"

abbreviation eof :: rh3_error where
  "eof \<equiv> IoError UnexpectedEof ''failed to fill whole buffer''"

definition read_exact :: "nat \<Rightarrow> bytes ipc_p" where
  "read_exact n = take_p eof n"

definition read_u8 :: "u8 ipc_p" where "read_u8 = read_le eof"
definition read_u32 :: "nat ipc_p" where "read_u32 = bind_p (read_le eof) (\<lambda>v :: u32. return_p (unat v))"
definition read_u64 :: "u64 ipc_p" where "read_u64 = read_le eof"

definition decode_dtype :: "u8 \<Rightarrow> rh3_error + arrow_data_type" where
  "decode_dtype tag =
     (if tag = 1 then Ok UInt64 else if tag = 2 then Ok Int64 else if tag = 3 then Ok UInt8
      else if tag = 4 then Ok Float64 else if tag = 5 then Ok Boolean else if tag = 6 then Ok Utf8
      else if tag = 7 then Ok Binary else Err (InvalidParameter ''Unknown IPC data type tag''))"

definition lift_res :: "rh3_error + 'a \<Rightarrow> 'a ipc_p" where
  "lift_res r = (case r of Inl e \<Rightarrow> fail_p e | Inr x \<Rightarrow> return_p x)"

definition read_validity :: "bool list option ipc_p" where
  "read_validity =
     bind_p read_u8 (\<lambda>has.
       if has = 0 then return_p None
       else bind_p read_u32 (\<lambda>len. bind_p (read_exact len) (\<lambda>bs. return_p (Some (map (\<lambda>b. b \<noteq> 0) bs)))))"

definition read_blob :: "bytes ipc_p" where
  "read_blob = bind_p read_u32 read_exact"

fun read_values :: "arrow_data_type \<Rightarrow> nat \<Rightarrow> column_values ipc_p" where
  "read_values UInt64 n = bind_p (replicate_p n read_u64) (\<lambda>vs. return_p (UInt64s vs))"
| "read_values Int64 n = bind_p (replicate_p n read_u64) (\<lambda>vs. return_p (Int64s vs))"
| "read_values UInt8 n = bind_p (read_exact n) (\<lambda>vs. return_p (UInt8s vs))"
| "read_values Float64 n = bind_p (replicate_p n read_u64) (\<lambda>vs. return_p (Float64s vs))"
| "read_values Boolean n = bind_p (read_exact n) (\<lambda>bs. return_p (Booleans (map (\<lambda>b. b \<noteq> 0) bs)))"
| "read_values Utf8 n = bind_p (replicate_p n read_blob) (\<lambda>vs. return_p (Utf8s (map from_utf8_lossy vs)))"
| "read_values Binary n = bind_p (replicate_p n read_blob) (\<lambda>vs. return_p (Binaries vs))"

definition read_column :: "nat \<Rightarrow> column_field \<Rightarrow> column_array ipc_p" where
  "read_column num_rows f =
     bind_p read_validity (\<lambda>validity.
     bind_p (read_values (cf_data_type f) num_rows) (\<lambda>values.
     return_p \<lparr> ca_values = values, ca_validity = validity \<rparr>))"

fun read_columns :: "nat \<Rightarrow> column_schema \<Rightarrow> column_array list ipc_p" where
  "read_columns num_rows [] = return_p []"
| "read_columns num_rows (f # fs) =
     bind_p (read_column num_rows f) (\<lambda>c. bind_p (read_columns num_rows fs) (\<lambda>cs. return_p (c # cs)))"

definition read_field :: "column_field ipc_p" where
  "read_field =
     bind_p read_blob (\<lambda>name_bytes.
     bind_p (lift_res (ok_or (from_utf8 name_bytes) (InvalidParameter ''Invalid UTF-8 field name in IPC''))) (\<lambda>name.
     bind_p read_u8 (\<lambda>tag.
     bind_p (lift_res (decode_dtype tag)) (\<lambda>dt.
     bind_p read_u8 (\<lambda>nullable. return_p (field_new name dt (nullable \<noteq> 0)))))))"

definition read_header :: "column_schema ipc_p" where
  "read_header =
     bind_p (read_exact 8) (\<lambda>magic.
       if magic \<noteq> IPC_MAGIC then fail_p (InvalidParameter ''Invalid IPC stream magic header'')
       else bind_p read_u32 (\<lambda>num_fields. replicate_p num_fields read_field))"

record ipc_reader =
  ir_reader :: bytes
  ir_schema :: column_schema
  ir_done :: bool

definition ipc_reader_new :: "bytes \<Rightarrow> rh3_error + ipc_reader" where
  "ipc_reader_new s =
     (case read_header s of
        Inl e \<Rightarrow> Err e
      | Inr (schema, rest) \<Rightarrow> Ok \<lparr> ir_reader = rest, ir_schema = schema, ir_done = False \<rparr>)"

definition read_batch :: "column_schema \<Rightarrow> record_batch option ipc_p" where
  "read_batch schema =
     bind_p read_u8 (\<lambda>marker.
       if marker = 0 then return_p None
       else if marker \<noteq> 1 then fail_p (InvalidParameter ''Invalid IPC batch marker'')
       else bind_p read_u32 (\<lambda>num_rows.
            bind_p (read_columns num_rows schema) (\<lambda>columns.
            bind_p (lift_res (batch_try_new schema columns)) (\<lambda>b. return_p (Some b)))))"

text \<open>
  The iterator. After an error the input position does not matter: the reader is done and never
  reads again.
\<close>

definition ipc_next :: "ipc_reader \<Rightarrow> (rh3_error + record_batch) option \<times> ipc_reader" where
  "ipc_next r =
     (if ir_done r then (None, r)
      else (case read_batch (ir_schema r) (ir_reader r) of
              Inl e \<Rightarrow> (Some (Err e), r\<lparr> ir_done := True \<rparr>)
            | Inr (None, rest) \<Rightarrow> (None, r\<lparr> ir_reader := rest, ir_done := True \<rparr>)
            | Inr (Some b, rest) \<Rightarrow> (Some (Ok b), r\<lparr> ir_reader := rest \<rparr>)))"

section \<open>Readers shrink and stream\<close>

lemma lift_res_simps [simp]: "lift_res (Ok x) = return_p x" "lift_res (Err e) = fail_p e"
  by (simp_all add: lift_res_def)

lemma shrinks_fail_p [simp]: "shrinks (fail_p e)"
  by (simp add: shrinks_def fail_p_def)

lemma shrinks_lift_res [simp]: "shrinks (lift_res r)"
  by (cases r) simp_all

lemma streaming_lift_res [streaming_intros]: "streaming (lift_res r)"
  by (cases r) (simp_all add: streaming_intros)

lemma streaming_if [streaming_intros]: "streaming p \<Longrightarrow> streaming q \<Longrightarrow> streaming (if b then p else q)"
  by simp

lemma streaming_primitives [streaming_intros]:
  "streaming (read_exact n)" "streaming read_u8" "streaming read_u32" "streaming read_u64"
  unfolding read_exact_def read_u8_def read_u32_def read_u64_def by (intro streaming_intros)+

lemma streaming_read_values [streaming_intros]: "streaming (read_values dt n)"
  by (cases dt) (simp_all add: read_blob_def, (intro streaming_intros)+)

lemma streaming_read_columns [streaming_intros]: "streaming (read_columns n fs)"
proof (induction fs)
  case (Cons f fs)
  then show ?case
    unfolding read_columns.simps read_column_def read_validity_def by (intro streaming_intros) auto
qed (simp add: streaming_intros)

lemma streaming_read_batch [streaming_intros]: "streaming (read_batch schema)"
  unfolding read_batch_def by (intro streaming_intros)

lemma streaming_read_header [streaming_intros]: "streaming read_header"
  unfolding read_header_def read_field_def read_blob_def by (intro streaming_intros)

lemma shrinks_if: "shrinks p \<Longrightarrow> shrinks q \<Longrightarrow> shrinks (if b then p else q)"
  by simp

lemmas shrink_rules = shrinks_bind_p shrinks_replicate_p shrinks_if

lemma shrinks_primitives [simp]:
  "shrinks (read_exact n)" "shrinks read_u8" "shrinks read_u32" "shrinks read_u64"
  by (simp_all add: read_exact_def read_u8_def read_u32_def read_u64_def shrinks_bind_p)

lemma shrinks_read_values [simp]: "shrinks (read_values dt n)"
  by (cases dt) (simp_all add: read_blob_def shrink_rules)

lemma shrinks_read_columns [simp]: "shrinks (read_columns n fs)"
proof (induction fs)
  case (Cons f fs)
  then show ?case
    by (simp add: read_column_def read_validity_def shrink_rules)
qed simp

lemma read_batch_shrinks:
  assumes "read_batch schema s = Ok (x, rest)"
  shows "length rest < length s"
proof -
  obtain m s' where m: "read_u8 s = Ok (m, s')" "shrinks (if m = 0 then return_p None
       else if m \<noteq> 1 then fail_p (InvalidParameter ''Invalid IPC batch marker'')
       else bind_p read_u32 (\<lambda>num_rows.
            bind_p (read_columns num_rows schema) (\<lambda>columns.
            bind_p (lift_res (batch_try_new schema columns)) (\<lambda>b. return_p (Some b)))))"
    "(if m = 0 then return_p None
       else if m \<noteq> 1 then fail_p (InvalidParameter ''Invalid IPC batch marker'')
       else bind_p read_u32 (\<lambda>num_rows.
            bind_p (read_columns num_rows schema) (\<lambda>columns.
            bind_p (lift_res (batch_try_new schema columns)) (\<lambda>b. return_p (Some b))))) s' = Ok (x, rest)"
    using assms unfolding read_batch_def bind_p_Ok_iff [of read_u8]
    by (metis (no_types, lifting) shrink_rules shrinks_lift_res shrinks_fail_p shrinks_primitives(3) shrinks_read_columns shrinks_return_p)
  have "length s' < length s"
    using m(1) by (auto simp: read_u8_def read_le_def bind_p_Ok_iff return_p_def)
  then show ?thesis using shrinksD [OF m(2,3)] by simp
qed

text \<open>\<open>stream.collect::<Result<Vec<_>>>()\<close>, which stops at the first error; with the reader it leaves.\<close>

function ipc_collect :: "ipc_reader \<Rightarrow> rh3_error + (record_batch list \<times> ipc_reader)" where
  "ipc_collect r =
     (case ipc_next r of
        (None, r') \<Rightarrow> Ok ([], r')
      | (Some (Inl e), r') \<Rightarrow> Err e
      | (Some (Inr b), r') \<Rightarrow>
          (case ipc_collect r' of Inl e \<Rightarrow> Err e | Inr (bs, r'') \<Rightarrow> Ok (b # bs, r'')))"
  by pat_completeness auto
termination
  by (relation "measure (\<lambda>r. length (ir_reader r))")
     (auto simp: ipc_next_def dest: read_batch_shrinks split: if_splits sum.splits option.splits prod.splits)

declare ipc_collect.simps [simp del]

definition read_ipc_stream :: "(column_schema \<times> record_batch list) ipc_p" where
  "read_ipc_stream s =
     (case ipc_reader_new s of
        Inl e \<Rightarrow> Err e
      | Inr stream \<Rightarrow>
          (case ipc_collect stream of
             Inl e \<Rightarrow> Err e
           | Inr (batches, r) \<Rightarrow> Ok ((ir_schema stream, batches), ir_reader r)))"

section \<open>The codecs\<close>

lemma read_u32_write: "n < 2 ^ 32 \<Longrightarrow> read_u32 (write_u32 n @ rest) = Ok (n, rest)"
  by (simp add: read_u32_def write_u32_def bind_p_Ok read_le_append return_p_def unat_word_of_nat_id)

lemma read_u8_byte [simp]: "read_u8 (b # rest) = Ok (b, rest)"
  using read_le_append [of eof b rest] by (simp add: read_u8_def)

lemma read_u64_word: "read_u64 (to_le_bytes v @ rest) = Ok (v, rest)"
  by (simp add: read_u64_def read_le_append)

lemma bool_byte_zero [simp]: "bool_byte b = 0 \<longleftrightarrow> \<not> b"
  by (simp add: bool_byte_def)

lemma bool_bytes [simp]: "map ((\<lambda>b. b \<noteq> 0) \<circ> bool_byte) v = v"
  by (simp add: comp_def)

interpretation blob: byte_codec write_blob read_blob "\<lambda>b. length b < 2 ^ 32"
  by unfold_locales (simp add: write_blob_def read_blob_def bind_p_Ok read_u32_write read_exact_def)

definition validity_fits :: "bool list option \<Rightarrow> bool" where
  "validity_fits v \<longleftrightarrow> (case v of None \<Rightarrow> True | Some v \<Rightarrow> length v < 2 ^ 32)"

interpretation validity: byte_codec write_validity read_validity validity_fits
proof
  fix v rest
  assume "validity_fits v"
  then show "read_validity (write_validity v @ rest) = Ok (v, rest)"
    by (cases v) (simp_all add: read_validity_def bind_p_Ok return_p_def validity_fits_def read_u32_write read_exact_def)
qed

definition field_fits :: "column_field \<Rightarrow> bool" where
  "field_fits f \<longleftrightarrow> rstr_ok (cf_name f) \<and> length (as_bytes (cf_name f)) < 2 ^ 32"

lemma decode_encode_dtype [simp]: "decode_dtype (encode_dtype dt) = Ok dt"
  by (cases dt) (simp_all add: decode_dtype_def)

interpretation field: byte_codec write_field read_field field_fits
proof
  fix f rest
  assume "field_fits f"
  then show "read_field (write_field f @ rest) = Ok (f, rest)"
    by (simp add: read_field_def write_field_def field_fits_def bind_p_Ok blob.roundtrip return_p_def field_new_def)
qed

interpretation word_codec: byte_codec "to_le_bytes :: u64 \<Rightarrow> bytes" read_u64 "\<lambda>_. True"
  by unfold_locales (rule read_u64_word)

fun values_fit :: "column_values \<Rightarrow> bool" where
  "values_fit (Utf8s vs) = (\<forall>s\<in>set vs. rstr_ok s \<and> length (as_bytes s) < 2 ^ 32)"
| "values_fit (Binaries vs) = (\<forall>b\<in>set vs. length b < 2 ^ 32)"
| "values_fit _ = True"

lemma lossy_map: "\<forall>s\<in>set vs. rstr_ok s \<Longrightarrow> map (from_utf8_lossy \<circ> as_bytes) vs = vs"
  by (induction vs) auto

lemma read_values_write:
  assumes "values_fit v"
  shows "read_values (values_type v) (values_len v) (write_values v @ rest) = Ok (v, rest)"
proof (cases v)
  case (Utf8s vs)
  have "replicate_p (length (map as_bytes vs)) read_blob (concat (map write_blob (map as_bytes vs)) @ rest) = Ok (map as_bytes vs, rest)"
    by (rule blob.list_roundtrip) (use assms Utf8s in auto)
  then show ?thesis
    using assms Utf8s lossy_map [of vs] by (simp add: bind_p_Ok return_p_def comp_def)
next
  case (Binaries vs)
  then show ?thesis
    using assms blob.list_roundtrip [of vs rest] by (simp add: bind_p_Ok return_p_def)
qed (use word_codec.list_roundtrip in \<open>simp_all add: bind_p_Ok return_p_def read_exact_def\<close>)

definition column_fits :: "column_array \<Rightarrow> bool" where
  "column_fits c \<longleftrightarrow> validity_fits (ca_validity c) \<and> values_fit (ca_values c)"

lemma read_column_write:
  assumes "column_fits c" "column_typed n f c"
  shows "read_column n f (write_column c @ rest) = Ok (c, rest)"
proof -
  have "read_values (cf_data_type f) n (write_values (ca_values c) @ rest) = Ok (ca_values c, rest)"
    using read_values_write [of "ca_values c" rest] assms
    by (simp add: column_fits_def column_typed_def column_len_def column_data_type_def)
  then show ?thesis
    using assms(1)
    by (simp add: read_column_def write_column_def column_fits_def bind_p_Ok validity.roundtrip return_p_def)
qed

lemma read_columns_write:
  "list_all2 (column_typed n) fs cs \<Longrightarrow> \<forall>c\<in>set cs. column_fits c \<Longrightarrow>
   read_columns n fs (concat (map write_column cs) @ rest) = Ok (cs, rest)"
proof (induction fs cs arbitrary: rest rule: list_all2_induct)
  case (Cons f fs c cs)
  then show ?case by (simp add: bind_p_Ok read_column_write return_p_def)
qed (simp add: return_p_def)

definition batch_fits :: "record_batch \<Rightarrow> bool" where
  "batch_fits b \<longleftrightarrow> rb_num_rows b < 2 ^ 32 \<and> (\<forall>c\<in>set (rb_columns b). column_fits c) \<and>
     (rb_columns b = [] \<longrightarrow> rb_num_rows b = 0)"

lemma read_batch_write:
  assumes "batch_fits b" "batch_typed b"
  shows "read_batch (rb_schema b) (write_batch b @ rest) = Ok (Some b, rest)"
proof -
  have "batch_try_new (rb_schema b) (rb_columns b) = Ok b"
    using assms by (simp add: batch_try_new_Ok batch_fits_def)
  then show ?thesis
    using assms read_columns_write [of "rb_num_rows b" "rb_schema b" "rb_columns b" rest]
    by (simp add: read_batch_def write_batch_def batch_fits_def batch_typed_def bind_p_Ok read_u32_write return_p_def)
qed

section \<open>The stream\<close>

lemma read_header_write:
  assumes "\<forall>f\<in>set schema. field_fits f" "length schema < 2 ^ 32"
  shows "read_header (write_header schema @ rest) = Ok (schema, rest)"
proof -
  have "length IPC_MAGIC = 8" by (simp add: IPC_MAGIC_def lit_def as_bytes_def utf8_char_def)
  then show ?thesis
    using assms field.list_roundtrip [of schema rest]
    by (simp add: read_header_def write_header_def read_exact_def bind_p_Ok read_u32_write)
qed

lemma ipc_collect_write:
  assumes "\<forall>b\<in>set batches. rb_schema b = schema \<and> batch_fits b \<and> batch_typed b"
    and "write_batches (map Ok batches) tot = (out, res)"
  shows "res = Ok (tot + sum_list (map rb_num_rows batches)) \<and>
    ipc_collect \<lparr> ir_reader = out @ rest, ir_schema = schema, ir_done = False \<rparr> =
      Ok (filter (\<lambda>b. rb_num_rows b \<noteq> 0) batches, \<lparr> ir_reader = rest, ir_schema = schema, ir_done = True \<rparr>)"
  using assms
proof (induction batches arbitrary: tot out)
  case Nil
  then show ?case
    by (auto simp: ipc_collect.simps [of "\<lparr> ir_reader = 0 # rest, ir_schema = schema, ir_done = False \<rparr>"]
        ipc_next_def read_batch_def bind_p_Ok return_p_def)
next
  case (Cons b batches)
  show ?case
  proof (cases "rb_num_rows b = 0")
    case True
    then show ?thesis using Cons by simp
  next
    case False
    obtain out' where w: "write_batches (map Ok batches) (tot + rb_num_rows b) = (out', res)" and out: "out = write_batch b @ out'"
      using Cons.prems(2) False by (auto split: prod.splits)
    have "read_batch schema (write_batch b @ out' @ rest) = Ok (Some b, out' @ rest)"
      using read_batch_write [of b "out' @ rest"] Cons.prems(1) by auto
    then show ?thesis
      using Cons.IH [OF _ w] Cons.prems(1) False
      by (simp add: out ipc_collect.simps [of "\<lparr> ir_reader = _, ir_schema = schema, ir_done = False \<rparr>"] ipc_next_def)
  qed
qed

lemma ipc_next_streaming:
  "ipc_next r = (x, r') \<Longrightarrow> (\<forall>e. x \<noteq> Some (Inl e)) \<Longrightarrow> \<not> ir_done r \<Longrightarrow>
   ipc_next (r\<lparr> ir_reader := ir_reader r @ q \<rparr>) = (x, r'\<lparr> ir_reader := ir_reader r' @ q \<rparr>)"
  using streamingD [OF streaming_read_batch, of "ir_schema r" "ir_reader r"]
  by (auto simp: ipc_next_def split: sum.splits option.splits)

lemma ipc_collect_streaming:
  "ipc_collect r = Ok (bs, r') \<Longrightarrow> \<not> ir_done r \<Longrightarrow>
   ipc_collect (r\<lparr> ir_reader := ir_reader r @ q \<rparr>) = Ok (bs, r'\<lparr> ir_reader := ir_reader r' @ q \<rparr>)"
proof (induction r arbitrary: bs r' rule: ipc_collect.induct)
  case (1 r)
  obtain x r1 where n: "ipc_next r = (x, r1)" by fastforce
  show ?case
  proof (cases x)
    case None
    then show ?thesis
      using "1.prems" n ipc_next_streaming [OF n _ "1.prems"(2), of q]
      by (simp add: ipc_collect.simps [of r] ipc_collect.simps [of "r\<lparr> ir_reader := ir_reader r @ q \<rparr>"])
  next
    case (Some y)
    then obtain b where b: "y = Inr b" using "1.prems"(1) n by (cases y) (simp_all add: ipc_collect.simps [of r])
    then obtain bs' where c: "ipc_collect r1 = Ok (bs', r')" "bs = b # bs'"
      using "1.prems"(1) n Some by (auto simp: ipc_collect.simps [of r] split: sum.splits)
    have "\<not> ir_done r1"
      using n Some b "1.prems"(2) by (auto simp: ipc_next_def split: sum.splits option.splits)
    then have "ipc_collect (r1\<lparr> ir_reader := ir_reader r1 @ q \<rparr>) = Ok (bs', r'\<lparr> ir_reader := ir_reader r' @ q \<rparr>)"
      using "1.IH" [OF n [symmetric]] Some b c(1) by auto
    then show ?thesis
      using n Some b c ipc_next_streaming [OF n _ "1.prems"(2), of q]
      by (simp add: ipc_collect.simps [of "r\<lparr> ir_reader := ir_reader r @ q \<rparr>"])
  qed
qed

lemma streaming_read_ipc_stream: "streaming read_ipc_stream"
  unfolding streaming_def
proof (intro allI impI)
  fix s x rest q
  assume "read_ipc_stream s = Ok (x, rest)"
  then obtain schema s' bs r where h: "read_header s = Ok (schema, s')"
      and c: "ipc_collect \<lparr> ir_reader = s', ir_schema = schema, ir_done = False \<rparr> = Ok (bs, r)"
      and x: "x = (schema, bs)" "rest = ir_reader r"
    by (auto simp: read_ipc_stream_def ipc_reader_new_def split: sum.splits prod.splits)
  have "read_header (s @ q) = Ok (schema, s' @ q)" by (rule streamingD [OF streaming_read_header h])
  then show "read_ipc_stream (s @ q) = Ok (x, rest @ q)"
    using ipc_collect_streaming [OF c, of q] x by (simp add: read_ipc_stream_def ipc_reader_new_def)
qed

lemma read_ipc_stream_write:
  assumes "\<forall>f\<in>set schema. field_fits f" "length schema < 2 ^ 32"
    and "\<forall>b\<in>set batches. rb_schema b = schema \<and> batch_fits b \<and> batch_typed b"
    and "write_ipc_stream schema (map Ok batches) = (out, res)"
  shows "res = Ok (sum_list (map rb_num_rows batches)) \<and>
    read_ipc_stream (out @ rest) = Ok ((schema, filter (\<lambda>b. rb_num_rows b \<noteq> 0) batches), rest)"
proof -
  obtain bytes where w: "write_batches (map Ok batches) 0 = (bytes, res)" "out = write_header schema @ bytes"
    using assms(4) by (auto simp: write_ipc_stream_def split: prod.splits)
  then show ?thesis
    using ipc_collect_write [OF assms(3) w(1), of rest] read_header_write [OF assms(1,2), of "bytes @ rest"]
    by (simp add: read_ipc_stream_def ipc_reader_new_def)
qed

section \<open>Properties\<close>

text \<open>
  C16. What is written to a columnar stream is read back: for every schema and every list of
  well-typed batches of that schema (row counts, names and cells within the 32-bit length
  fields), writing reports the total number of rows, and reading gives the schema and exactly
  the non-empty batches in order, validity flags included, and consumes exactly the bytes
  written, whatever follows them.
\<close>

theorem ipc_roundtrip:
  assumes "\<forall>f\<in>set schema. field_fits f" "length schema < 2 ^ 32"
    and "\<forall>b\<in>set batches. rb_schema b = schema \<and> batch_fits b \<and> batch_typed b"
  shows "case write_ipc_stream schema (map Ok batches) of (out, res) \<Rightarrow>
    res = Ok (sum_list (map rb_num_rows batches)) \<and>
    read_ipc_stream (out @ rest) = Ok ((schema, filter (\<lambda>b. rb_num_rows b \<noteq> 0) batches), rest)"
  using read_ipc_stream_write [OF assms] by (auto split: prod.splits)

lemmas sample_facts = sample_batch_def field_fits_def field_new_def batch_fits_def batch_typed_def column_typed_def
  column_fits_def column_len_def column_data_type_def validity_fits_def rstr_ok_def scalar_def lit_def
  as_bytes_def utf8_char_def

lemma ipc_roundtrip_witness:
  "case write_ipc_stream (rb_schema sample_batch) (map Ok [sample_batch, sample_batch]) of (out, res) \<Rightarrow>
    res = Ok (sum_list (map rb_num_rows [sample_batch, sample_batch])) \<and>
    read_ipc_stream (out @ [7]) =
      Ok ((rb_schema sample_batch, filter (\<lambda>b. rb_num_rows b \<noteq> 0) [sample_batch, sample_batch]), [7])"
  by (rule ipc_roundtrip) (simp_all add: sample_facts)

text \<open>
  C17. A truncated stream is never taken for a complete one: reading any proper prefix of what
  \<open>write_ipc_stream\<close> wrote ends in an error (after the complete batches), whether the cut falls
  in the header, between batches or inside one.
\<close>

theorem ipc_truncated:
  assumes "\<forall>f\<in>set schema. field_fits f" "length schema < 2 ^ 32"
    and "\<forall>b\<in>set batches. rb_schema b = schema \<and> batch_fits b \<and> batch_typed b"
    and "k < length (fst (write_ipc_stream schema (map Ok batches)))"
  shows "\<exists>e. read_ipc_stream (take k (fst (write_ipc_stream schema (map Ok batches)))) = Err e"
proof -
  obtain out res where w: "write_ipc_stream schema (map Ok batches) = (out, res)" by fastforce
  have full: "read_ipc_stream (take k out @ drop k out) = Ok ((schema, filter (\<lambda>b. rb_num_rows b \<noteq> 0) batches), [])"
    using read_ipc_stream_write [OF assms(1-3) w, of "[]"] by simp
  show ?thesis
  proof (cases "read_ipc_stream (take k out)")
    case (Inr y)
    then obtain x rest where "read_ipc_stream (take k out) = Ok (x, rest)" by (cases y) simp
    from streamingD [OF streaming_read_ipc_stream this, of "drop k out"] full
    have "drop k out = []" by simp
    then show ?thesis using assms(4) w by simp
  qed (simp add: w)
qed

lemma ipc_truncated_witness:
  "\<exists>e. read_ipc_stream (take 0 (fst (write_ipc_stream (rb_schema sample_batch) (map Ok [sample_batch])))) = Err e"
  by (rule ipc_truncated) (simp_all add: sample_facts write_ipc_stream_def write_header_def IPC_MAGIC_def split: prod.splits)

end
