(* ===== verification/Ordered_Queue.thy ===== *)
theory Ordered_Queue
  imports Rust_Prelude
begin

text \<open>
  \<open>OrderedPrefetchQueue\<close> of \<open>raster/prefetch.rs\<close>: a bounded ring of slots in which workers
  deposit the result of job \<open>j\<close> at slot \<open>j mod capacity\<close> and the consumer takes the
  results strictly in job order. The state is guarded by one mutex, so each operation is
  a sequence of atomic sections separated by waits on a condition variable; a section
  either returns, or sleeps with the place where it resumes.
\<close>

section \<open>Atomic sections\<close>

text \<open>
  What one critical section does: it goes to sleep on the condition variable in a resume
  point, returns a value, or panics on an unsigned underflow.
\<close>

datatype ('s, 'k, 'r) outcome = Sleep 's 'k | Return 's 'r | Panic

section \<open>State\<close>

record 'a oqueue =
  q_capacity :: usize
  q_total :: usize
  q_slots :: "'a option list"
  q_next :: usize
  q_closed :: bool
  q_terminal :: "'a option"

definition oq_new :: "usize \<Rightarrow> usize \<Rightarrow> 'a oqueue" where
  "oq_new capacity total_jobs =
     (let cap = max capacity 16
      in \<lparr>q_capacity = cap, q_total = total_jobs, q_slots = replicate cap None,
          q_next = 0, q_closed = False, q_terminal = None\<rparr>)"

section \<open>Producers\<close>

definition oq_push :: "'a oqueue \<Rightarrow> usize \<Rightarrow> 'a \<Rightarrow> ('a oqueue, unit, bool) outcome" where
  "oq_push q job_id item =
     (if job_id \<ge> q_next q + q_capacity q \<and> \<not> q_closed q then Sleep q ()
      else if q_closed q then Return q False
      else Return (q\<lparr>q_slots := (q_slots q)[job_id mod q_capacity q := Some item]\<rparr>) True)"

definition oq_close :: "'a oqueue \<Rightarrow> 'a oqueue" where
  "oq_close q = q\<lparr>q_closed := True\<rparr>"

definition oq_is_closed :: "'a oqueue \<Rightarrow> bool" where
  "oq_is_closed q = q_closed q"

definition oq_fail :: "'a oqueue \<Rightarrow> 'a \<Rightarrow> 'a oqueue" where
  "oq_fail q item =
     (if \<not> q_closed q then q\<lparr>q_terminal := Some item, q_closed := True\<rparr> else q)"

section \<open>The consumer\<close>

definition oq_front :: "'a oqueue \<Rightarrow> 'a option" where
  "oq_front q = q_slots q ! (q_next q mod q_capacity q)"

text \<open>\<open>slots[next_read % capacity].take()\<close> followed by \<open>next_read += 1\<close>.\<close>

definition oq_advance :: "'a oqueue \<Rightarrow> 'a oqueue" where
  "oq_advance q =
     q\<lparr>q_slots := (q_slots q)[q_next q mod q_capacity q := None], q_next := q_next q + 1\<rparr>"

text \<open>The local variables of a call of \<open>drain_into\<close>, and the two places where it sleeps.\<close>

record 'a drain =
  d_batch :: "'a list"
  d_initial :: usize
  d_min :: usize
  d_max :: usize

datatype 'a drain_pc = AtFirst "'a drain" | AtMore "'a drain"

text \<open>Step 2: contiguous ready items up to \<open>target_max\<close>.\<close>

function take_ready :: "'a oqueue \<Rightarrow> 'a list \<Rightarrow> usize \<Rightarrow> 'a oqueue \<times> 'a list" where
  "take_ready q batch target_max =
     (if length batch < target_max \<and> q_next q < q_total q
      then (case oq_front q of
              Some item \<Rightarrow> take_ready (oq_advance q) (batch @ [item]) target_max
            | None \<Rightarrow> (q, batch))
      else (q, batch))"
  by pat_completeness auto
termination
  by (relation "measure (\<lambda>(q, batch, m). q_total q - q_next q)") (auto simp: oq_advance_def)

declare take_ready.simps [simp del]

text \<open>The end of the call: a terminal item, if one arrived meanwhile.\<close>

definition drain_finish ::
  "'a oqueue \<Rightarrow> 'a drain \<Rightarrow> ('a oqueue, 'a drain_pc, 'a list \<times> usize) outcome" where
  "drain_finish q d =
     (case q_terminal q of
        Some item \<Rightarrow>
          (let batch = d_batch d @ [item]
           in Return (q\<lparr>q_terminal := None, q_next := q_total q\<rparr>) (batch, length batch - d_initial d))
      | None \<Rightarrow> Return q (d_batch d, length (d_batch d) - d_initial d))"

text \<open>Step 3: below \<open>target_min\<close>, wait for further items.\<close>

function drain_more ::
  "'a oqueue \<Rightarrow> 'a drain \<Rightarrow> ('a oqueue, 'a drain_pc, 'a list \<times> usize) outcome" where
  "drain_more q d =
     (if length (d_batch d) < d_min d \<and> q_next q < q_total q \<and> \<not> q_closed q
      then (case oq_front q of
              None \<Rightarrow> Sleep q (AtMore d)
            | Some item \<Rightarrow> drain_more (oq_advance q) (d\<lparr>d_batch := d_batch d @ [item]\<rparr>))
      else drain_finish q d)"
  by pat_completeness auto
termination
  by (relation "measure (\<lambda>(q, d). q_total q - q_next q)") (auto simp: oq_advance_def)

declare drain_more.simps [simp del]

text \<open>
  One section of \<open>drain_into\<close> from where it stands. \<open>AtFirst\<close> is the wait of step 1 and what
  follows it; \<open>AtMore\<close> is the wait inside step 3, whose condition is tested again on waking.
\<close>

fun drain_resume ::
  "'a oqueue \<Rightarrow> 'a drain_pc \<Rightarrow> ('a oqueue, 'a drain_pc, 'a list \<times> usize) outcome" where
  "drain_resume q (AtFirst d) =
     (if q_next q < q_total q \<and> oq_front q = None \<and> \<not> q_closed q then Sleep q (AtFirst d)
      else case q_terminal q of
        Some item \<Rightarrow>
          (let batch = d_batch d @ [item]
           in Return (q\<lparr>q_terminal := None, q_next := q_total q\<rparr>) (batch, length batch - d_initial d))
      | None \<Rightarrow>
          (if q_next q \<ge> q_total q \<or> q_closed q \<and> oq_front q = None then Return q (d_batch d, 0)
           else (let (q', batch) = take_ready q (d_batch d) (d_max d)
                 in drain_more q' (d\<lparr>d_batch := batch\<rparr>))))"
| "drain_resume q (AtMore d) =
     (if q_next q < q_total q \<and> oq_front q = None \<and> \<not> q_closed q then Sleep q (AtMore d)
      else if q_next q < q_total q
      then (case oq_front q of
              Some item \<Rightarrow> drain_more (oq_advance q) (d\<lparr>d_batch := d_batch d @ [item]\<rparr>)
            | None \<Rightarrow> drain_finish q d)
      else drain_more q d)"

definition drain_start :: "'a list \<Rightarrow> usize \<Rightarrow> usize \<Rightarrow> 'a drain_pc" where
  "drain_start batch min_batch max_batch =
     AtFirst \<lparr>d_batch = batch, d_initial = length batch,
              d_min = length batch + max min_batch 1,
              d_max = length batch + max max_batch min_batch\<rparr>"

text \<open>\<open>next\<close>: a drain of one item into a fresh batch, popped.\<close>

definition next_start :: "'a drain_pc" where
  "next_start = drain_start [] 1 1"

definition next_result :: "'a list \<times> usize \<Rightarrow> 'a option" where
  "next_result r = (case r of (batch, n) \<Rightarrow> if n > 0 \<and> batch \<noteq> [] then Some (last batch) else None)"

section \<open>The window a queue stands for\<close>

definition oq_inv :: "'a oqueue \<Rightarrow> bool" where
  "oq_inv q \<longleftrightarrow> 0 < q_capacity q \<and> length (q_slots q) = q_capacity q \<and> q_next q \<le> q_total q \<and>
     (q_terminal q \<noteq> None \<longrightarrow> q_closed q)"

text \<open>The result waiting for job \<open>j\<close>, inside the window the ring covers.\<close>

definition pend :: "'a oqueue \<Rightarrow> nat \<Rightarrow> 'a option" where
  "pend q j = (if q_next q \<le> j \<and> j < q_next q + q_capacity q
               then q_slots q ! (j mod q_capacity q) else None)"

lemma oq_inv_new [simp]: "oq_inv (oq_new capacity jobs)"
  by (simp add: oq_new_def oq_inv_def Let_def max_def)

lemma pend_new [simp]: "pend (oq_new capacity jobs) j = None"
proof -
  have "j mod max capacity 16 < max capacity 16" by (rule mod_less_divisor) (simp add: max_def)
  then show ?thesis by (simp add: pend_def oq_new_def Let_def)
qed

lemma oq_front_pend: "oq_inv q \<Longrightarrow> oq_front q = pend q (q_next q)"
  by (simp add: oq_front_def pend_def oq_inv_def)

text \<open>Two jobs of one window share no slot.\<close>

lemma window_slot_inj:
  assumes "0 < (c :: nat)" "n \<le> i" "i < n + c" "n \<le> j" "j < n + c"
  shows "i mod c = j mod c \<longleftrightarrow> i = j"
proof
  assume eq: "i mod c = j mod c"
  show "i = j"
  proof (rule ccontr)
    assume "i \<noteq> j"
    then consider "i < j" | "j < i" by linarith
    then show False
    proof cases
      case 1
      then have "c dvd j - i" using eq mod_eq_dvd_iff_nat [of i j c] by simp
      with 1 assms show False using nat_dvd_not_less [of "j - i" c] by linarith
    next
      case 2
      then have "c dvd i - j" using eq mod_eq_dvd_iff_nat [of j i c] by simp
      with 2 assms show False using nat_dvd_not_less [of "i - j" c] by linarith
    qed
  qed
qed simp

lemma pend_set:
  assumes inv: "oq_inv q" and j: "q_next q \<le> j" "j < q_next q + q_capacity q"
  shows "pend (q\<lparr>q_slots := (q_slots q)[j mod q_capacity q := x]\<rparr>) = (pend q)(j := x)"
proof
  fix i
  have slot: "j mod q_capacity q < length (q_slots q)"
    using inv by (simp add: oq_inv_def)
  show "pend (q\<lparr>q_slots := (q_slots q)[j mod q_capacity q := x]\<rparr>) i = ((pend q)(j := x)) i"
  proof (cases "q_next q \<le> i \<and> i < q_next q + q_capacity q")
    case True
    then have "i mod q_capacity q = j mod q_capacity q \<longleftrightarrow> i = j"
      using window_slot_inj [of "q_capacity q" "q_next q" i j] inv j by (simp add: oq_inv_def)
    with True j slot show ?thesis by (auto simp: pend_def nth_list_update)
  next
    case False
    with j show ?thesis by (auto simp: pend_def)
  qed
qed

lemma pend_advance:
  assumes "oq_inv q"
  shows "pend (oq_advance q) = (pend q)(q_next q := None)"
proof
  fix i
  let ?c = "q_capacity q" and ?n = "q_next q"
  have c: "0 < ?c" "length (q_slots q) = ?c"
    using assms by (simp_all add: oq_inv_def)
  consider "i \<le> ?n" | "?n < i" "i < ?n + ?c" | "i = ?n + ?c" | "?n + ?c < i" by linarith
  then show "pend (oq_advance q) i = ((pend q)(?n := None)) i"
  proof cases
    case 2
    then have "i mod ?c \<noteq> ?n mod ?c"
      using window_slot_inj [of ?c ?n i ?n] c by simp
    with 2 show ?thesis by (simp add: pend_def oq_advance_def)
  next
    case 3
    then show ?thesis using c by (simp add: pend_def oq_advance_def)
  qed (use c in \<open>auto simp: pend_def oq_advance_def\<close>)
qed

lemma oq_inv_advance: "oq_inv q \<Longrightarrow> q_next q < q_total q \<Longrightarrow> oq_inv (oq_advance q)"
  by (simp add: oq_inv_def oq_advance_def)

section \<open>The contract of a job window\<close>

text \<open>
  What the workers and the consumer rely on: a result put for a job in the window stays at
  that job until the consumer reaches it, and getting returns the result of the next job.
\<close>

locale job_window =
  fixes inv :: "'q \<Rightarrow> bool"
    and nxt :: "'q \<Rightarrow> nat"
    and held :: "'q \<Rightarrow> nat \<Rightarrow> 'a option"
    and put :: "'q \<Rightarrow> nat \<Rightarrow> 'a \<Rightarrow> 'q option"
    and get :: "'q \<Rightarrow> ('a \<times> 'q) option"
  assumes put_law: "inv q \<Longrightarrow> put q j x = Some q' \<Longrightarrow>
      inv q' \<and> nxt q' = nxt q \<and> held q' = (held q)(j \<mapsto> x)"
    and get_law: "inv q \<Longrightarrow> get q = Some (x, q') \<Longrightarrow>
      inv q' \<and> nxt q' = Suc (nxt q) \<and> held q (nxt q) = Some x \<and> held q' = (held q)(nxt q := None)"
begin

text \<open>If every held result is one its job may give, it stays so, and what is got is one of the next job.\<close>

lemma put_results:
  assumes "inv q" "put q j x = Some q'" "\<And>i y. held q i = Some y \<Longrightarrow> ok i y" "ok j x"
  shows "held q' i = Some y \<Longrightarrow> ok i y"
  using assms put_law [of q j x q'] by (auto split: if_splits)

lemma get_results:
  assumes "inv q" "get q = Some (x, q')" "\<And>i y. held q i = Some y \<Longrightarrow> ok i y"
  shows "ok (nxt q) x" and "held q' i = Some y \<Longrightarrow> ok i y"
  using assms get_law [of q x q'] by (auto split: if_splits)

end

text \<open>The queue's own put and get: the accepted branch of \<open>push\<close>, and taking the front item.\<close>

definition oq_put :: "'a oqueue \<Rightarrow> nat \<Rightarrow> 'a \<Rightarrow> 'a oqueue option" where
  "oq_put q j x =
     (if j < q_next q then None
      else case oq_push q j x of Return q' True \<Rightarrow> Some q' | _ \<Rightarrow> None)"

definition oq_get :: "'a oqueue \<Rightarrow> ('a \<times> 'a oqueue) option" where
  "oq_get q =
     (if q_next q < q_total q then map_option (\<lambda>x. (x, oq_advance q)) (oq_front q) else None)"

lemma oq_put_Some:
  "oq_put q j x = Some q' \<longleftrightarrow>
     q_next q \<le> j \<and> j < q_next q + q_capacity q \<and> \<not> q_closed q \<and>
     q' = q\<lparr>q_slots := (q_slots q)[j mod q_capacity q := Some x]\<rparr>"
  by (auto simp: oq_put_def oq_push_def)

lemma oq_get_Some:
  "oq_get q = Some (x, q') \<longleftrightarrow> q_next q < q_total q \<and> oq_front q = Some x \<and> q' = oq_advance q"
  by (auto simp: oq_get_def)

interpretation window: job_window oq_inv q_next pend oq_put oq_get
proof
  fix q :: "'a oqueue" and j x q'
  assume "oq_inv q" "oq_put q j x = Some q'"
  then show "oq_inv q' \<and> q_next q' = q_next q \<and> pend q' = (pend q)(j \<mapsto> x)"
    by (auto simp: oq_put_Some pend_set) (simp add: oq_inv_def)
next
  fix q :: "'a oqueue" and x q'
  assume "oq_inv q" "oq_get q = Some (x, q')"
  then show "oq_inv q' \<and> q_next q' = Suc (q_next q) \<and> pend q (q_next q) = Some x \<and>
      pend q' = (pend q)(q_next q := None)"
    by (auto simp: oq_get_Some oq_inv_advance pend_advance oq_front_pend)
      (simp add: oq_advance_def)
qed

section \<open>What a drain takes\<close>

text \<open>
  \<open>q'\<close> and the batch \<open>b'\<close> arise by taking front results, all of them present, in job order
  onto the end of the batch.
\<close>

definition front_items :: "'a oqueue \<Rightarrow> nat \<Rightarrow> 'a list" where
  "front_items q n = map (\<lambda>i. the (pend q i)) [q_next q..<n]"

definition took :: "'a oqueue \<Rightarrow> 'a list \<Rightarrow> 'a oqueue \<Rightarrow> 'a list \<Rightarrow> bool" where
  "took q b q' b' \<longleftrightarrow> oq_inv q' \<and> q_next q \<le> q_next q' \<and> b' = b @ front_items q (q_next q') \<and>
     {q_next q..<q_next q'} \<subseteq> dom (pend q) \<and>
     (\<forall>i. pend q' i = (if i < q_next q' then None else pend q i)) \<and>
     q_capacity q' = q_capacity q \<and> q_total q' = q_total q \<and>
     q_closed q' = q_closed q \<and> q_terminal q' = q_terminal q"

lemma pend_below: "i < q_next q \<Longrightarrow> pend q i = None"
  by (simp add: pend_def)

lemma took_refl: "oq_inv q \<Longrightarrow> took q b q b"
  by (auto simp: took_def pend_below front_items_def)

lemma took_length: "took q b q' b' \<Longrightarrow> length b' + q_next q = length b + q_next q'"
  by (auto simp: took_def front_items_def)

lemma took_inv: "took q b q' b' \<Longrightarrow> oq_inv q'"
  by (simp add: took_def)

lemma oq_advance_sel [simp]:
  "q_next (oq_advance q) = Suc (q_next q)" "q_capacity (oq_advance q) = q_capacity q"
  "q_total (oq_advance q) = q_total q" "q_closed (oq_advance q) = q_closed q"
  "q_terminal (oq_advance q) = q_terminal q"
  by (simp_all add: oq_advance_def)

lemma took_advance:
  assumes "oq_inv q" "q_next q < q_total q" "oq_front q = Some x"
  shows "took q b (oq_advance q) (b @ [x])"
proof -
  have p: "pend q (q_next q) = Some x"
    using assms oq_front_pend by metis
  have "pend (oq_advance q) i = (if i < Suc (q_next q) then None else pend q i)" for i
    using assms(1) by (auto simp: pend_advance less_Suc_eq pend_below)
  moreover have "{q_next q..<Suc (q_next q)} \<subseteq> dom (pend q)"
    using p by auto
  ultimately show ?thesis
    using assms(1,2) p by (simp add: took_def oq_inv_advance front_items_def)
qed

lemma took_trans:
  assumes "took q b q1 b1" "took q1 b1 q2 b2"
  shows "took q b q2 b2"
proof -
  let ?n = "q_next q" and ?n1 = "q_next q1" and ?n2 = "q_next q2"
  have n: "?n \<le> ?n1" "?n1 \<le> ?n2" and p1: "pend q1 i = (if i < ?n1 then None else pend q i)" for i
    using assms by (auto simp: took_def)
  have "{?n1..<?n2} \<subseteq> dom (pend q)"
  proof
    fix i assume i: "i \<in> {?n1..<?n2}"
    then have "i \<in> dom (pend q1)"
      using assms(2) unfolding took_def by blast
    with i show "i \<in> dom (pend q)" by (simp add: p1 dom_def)
  qed
  moreover have "{?n..<?n1} \<subseteq> dom (pend q)"
    using assms(1) by (simp add: took_def)
  moreover have "{?n..<?n2} = {?n..<?n1} \<union> {?n1..<?n2}"
    using n by (simp add: ivl_disj_un_two)
  ultimately have d: "{?n..<?n2} \<subseteq> dom (pend q)" by simp
  have "[?n..<?n2] = [?n..<?n1] @ [?n1..<?n2]"
    using upt_add_eq_append [of ?n ?n1 "?n2 - ?n1"] n by simp
  then have f: "front_items q ?n2 = front_items q ?n1 @ front_items q1 ?n2"
    by (simp add: front_items_def p1)
  have "pend q2 i = (if i < ?n2 then None else pend q i)" for i
    using assms(2) n by (simp add: took_def p1)
  with d f n assms show ?thesis
    by (simp add: took_def)
qed

lemma took_next:
  "oq_inv q \<Longrightarrow> q_next q < q_total q \<Longrightarrow> oq_front q = Some x \<Longrightarrow>
   took (oq_advance q) (b @ [x]) q' b' \<Longrightarrow> took q b q' b'"
  by (rule took_trans [OF took_advance])

lemma take_ready_took:
  "oq_inv q \<Longrightarrow> take_ready q b m = (q', b') \<Longrightarrow>
     took q b q' b' \<and> length b' \<le> max (length b) m \<and>
       (length b' < m \<longrightarrow> q_next q' < q_total q' \<longrightarrow> oq_front q' = None)"
proof (induction q b m arbitrary: q' b' rule: take_ready.induct)
  case (1 q b m)
  show ?case
  proof (cases "length b < m \<and> q_next q < q_total q \<and> oq_front q \<noteq> None")
    case False
    then have "q' = q" "b' = b"
      using "1.prems"(2) by (auto simp: take_ready.simps [of q b m] split: option.splits if_splits)
    with False show ?thesis
      using took_refl [OF "1.prems"(1)] by auto
  next
    case True
    then obtain x where x: "oq_front q = Some x" by blast
    have "take_ready (oq_advance q) (b @ [x]) m = (q', b')"
      using "1.prems"(2) True x by (simp add: take_ready.simps [of q b m])
    moreover have "oq_inv (oq_advance q)"
      using True oq_inv_advance [OF "1.prems"(1)] by blast
    ultimately show ?thesis
      using "1.IH" [OF _ x] True took_next [OF "1.prems"(1) _ x] by fastforce
  qed
qed

text \<open>The front job is missing and the consumer has reason to wait for it.\<close>

definition starved :: "'a oqueue \<Rightarrow> bool" where
  "starved q \<longleftrightarrow> q_next q < q_total q \<and> oq_front q = None \<and> \<not> q_closed q"

text \<open>The two ways a section ends once step 1 is passed.\<close>

definition drain_end ::
  "'a oqueue \<Rightarrow> 'a drain \<Rightarrow> ('a oqueue, 'a drain_pc, 'a list \<times> usize) outcome \<Rightarrow> bool" where
  "drain_end q d out \<longleftrightarrow>
     (\<exists>q1 b1. took q (d_batch d) q1 b1 \<and> length b1 \<le> max (length (d_batch d)) (max (d_min d) (d_max d)) \<and>
        (out = Sleep q1 (AtMore (d\<lparr>d_batch := b1\<rparr>)) \<and> starved q1 \<and> length b1 < d_min d \<or>
         out = drain_finish q1 (d\<lparr>d_batch := b1\<rparr>) \<and>
           (d_min d \<le> length b1 \<or> q_next q1 = q_total q1 \<or> q_closed q1)))"

lemma drain_end_took:
  assumes "took q (d_batch d) q1 b1" and "drain_end q1 (d\<lparr>d_batch := b1\<rparr>) out"
    and "length b1 \<le> max (length (d_batch d)) (max (d_min d) (d_max d))"
  shows "drain_end q d out"
proof -
  obtain q2 b2 where *: "took q1 b1 q2 b2" "length b2 \<le> max (length b1) (max (d_min d) (d_max d))"
      "out = Sleep q2 (AtMore (d\<lparr>d_batch := b2\<rparr>)) \<and> starved q2 \<and> length b2 < d_min d \<or>
         out = drain_finish q2 (d\<lparr>d_batch := b2\<rparr>) \<and>
           (d_min d \<le> length b2 \<or> q_next q2 = q_total q2 \<or> q_closed q2)"
    using assms(2) by (auto simp: drain_end_def)
  show ?thesis
    unfolding drain_end_def
    using took_trans [OF assms(1) *(1)] *(2,3) assms(3)
    by (intro exI [of _ q2] exI [of _ b2] conjI) simp_all
qed

lemma oq_inv_le: "oq_inv q \<Longrightarrow> q_next q < q_total q \<or> q_next q = q_total q"
  by (auto simp: oq_inv_def)

lemma drain_more_end: "oq_inv q \<Longrightarrow> drain_end q d (drain_more q d)"
proof (induction q d rule: drain_more.induct)
  case (1 q d)
  let ?go = "length (d_batch d) < d_min d \<and> q_next q < q_total q \<and> \<not> q_closed q"
  have d: "d\<lparr>d_batch := d_batch d\<rparr> = d" by simp
  show ?case
  proof (cases "?go \<and> oq_front q \<noteq> None")
    case True
    then obtain x where x: "oq_front q = Some x" by blast
    then have "drain_more q d = drain_more (oq_advance q) (d\<lparr>d_batch := d_batch d @ [x]\<rparr>)"
      using True by (simp add: drain_more.simps [of q d])
    moreover have "drain_end (oq_advance q) (d\<lparr>d_batch := d_batch d @ [x]\<rparr>)
        (drain_more (oq_advance q) (d\<lparr>d_batch := d_batch d @ [x]\<rparr>))"
      using "1.IH" [OF _ x] True oq_inv_advance [OF "1.prems"] by simp
    moreover have "length (d_batch d @ [x]) \<le> max (length (d_batch d)) (max (d_min d) (d_max d))"
      using True by (simp add: le_max_iff_disj)
    ultimately show ?thesis
      using drain_end_took [OF took_advance [OF "1.prems" _ x]] True by metis
  next
    case False
    then have "drain_more q d = Sleep q (AtMore d) \<and> starved q \<and> length (d_batch d) < d_min d \<or>
        drain_more q d = drain_finish q d \<and>
          (d_min d \<le> length (d_batch d) \<or> q_next q = q_total q \<or> q_closed q)"
      using oq_inv_le [OF "1.prems"]
      by (auto simp: drain_more.simps [of q d] starved_def)
    with took_refl [OF "1.prems"] show ?thesis
      unfolding drain_end_def by (intro exI [of _ q] exI [of _ "d_batch d"]) (simp add: d)
  qed
qed

text \<open>
  Every section of a call: it sleeps where it started, reports the terminal item or the end
  of the jobs, or takes results as \<open>drain_end\<close> says.
\<close>

lemma drain_first_cases:
  assumes inv: "oq_inv q" and d: "d_initial d = length (d_batch d)"
  shows "drain_resume q (AtFirst d) = Sleep q (AtFirst d) \<and> starved q \<or>
         \<not> starved q \<and> q_terminal q \<noteq> None \<and> drain_resume q (AtFirst d) = drain_finish q d \<or>
         \<not> starved q \<and> q_terminal q = None \<and> (q_next q = q_total q \<or> q_closed q \<and> oq_front q = None) \<and>
           drain_resume q (AtFirst d) = Return q (d_batch d, 0) \<or>
         q_terminal q = None \<and> q_next q < q_total q \<and> oq_front q \<noteq> None \<and>
           drain_end q d (drain_resume q (AtFirst d))"
proof -
  consider (st) "starved q" | (tm) "\<not> starved q" "q_terminal q \<noteq> None"
    | (fin) "\<not> starved q" "q_terminal q = None" "q_next q \<ge> q_total q \<or> q_closed q \<and> oq_front q = None"
    | (go) "q_terminal q = None" "q_next q < q_total q" "oq_front q \<noteq> None"
    by (metis linorder_not_less starved_def)
  then show ?thesis
  proof cases
    case st then show ?thesis by (simp add: starved_def)
  next
    case tm then show ?thesis by (auto simp: starved_def drain_finish_def Let_def)
  next
    case fin then show ?thesis using oq_inv_le [OF inv] by (auto simp: starved_def)
  next
    case go
    obtain q' b' where tr: "take_ready q (d_batch d) (d_max d) = (q', b')" by (cases "take_ready q (d_batch d) (d_max d)")
    with go have run: "drain_resume q (AtFirst d) = drain_more q' (d\<lparr>d_batch := b'\<rparr>)" by auto
    from take_ready_took [OF inv tr]
    have t: "took q (d_batch d) q' b'" "length b' \<le> max (length (d_batch d)) (d_max d)" by simp_all
    have "drain_end q d (drain_more q' (d\<lparr>d_batch := b'\<rparr>))"
      by (rule drain_end_took [OF t(1) drain_more_end [OF took_inv [OF t(1)]]])
        (use t(2) in auto)
    with go run show ?thesis by metis
  qed
qed

lemma drain_more_cases:
  assumes inv: "oq_inv q" and d: "length (d_batch d) < d_min d"
  shows "drain_resume q (AtMore d) = Sleep q (AtMore d) \<and> starved q \<or>
         \<not> starved q \<and> drain_end q d (drain_resume q (AtMore d))"
proof (cases "starved q")
  case True
  then show ?thesis by (simp add: starved_def)
next
  case ns: False
  consider (fin) "q_next q \<ge> q_total q" | (none) "q_next q < q_total q" "oq_front q = None"
    | (some) x where "q_next q < q_total q" "oq_front q = Some x"
    by fastforce
  then have "drain_end q d (drain_resume q (AtMore d))"
  proof cases
    case fin
    then show ?thesis using ns drain_more_end [OF inv, of d] by simp
  next
    case none
    then have "q_closed q" "drain_resume q (AtMore d) = drain_finish q d"
      using ns by (simp_all add: starved_def)
    then show ?thesis
      using took_refl [OF inv] unfolding drain_end_def
      by (intro exI [of _ q] exI [of _ "d_batch d"]) simp
  next
    case some
    have "drain_end (oq_advance q) (d\<lparr>d_batch := d_batch d @ [x]\<rparr>)
        (drain_more (oq_advance q) (d\<lparr>d_batch := d_batch d @ [x]\<rparr>))"
      by (rule drain_more_end [OF oq_inv_advance [OF inv some(1)]])
    moreover have "length (d_batch d @ [x]) \<le> max (length (d_batch d)) (max (d_min d) (d_max d))"
      using d by (simp add: le_max_iff_disj)
    ultimately have "drain_end q d (drain_more (oq_advance q) (d\<lparr>d_batch := d_batch d @ [x]\<rparr>))"
      by (rule drain_end_took [OF took_advance [OF inv some]])
    then show ?thesis using some by simp
  qed
  with ns show ?thesis by blast
qed

declare drain_resume.simps [simp del]

section \<open>Properties\<close>

lemma drain_finish_terminal:
  "q_terminal q = Some e \<Longrightarrow>
     drain_finish q d = Return (q\<lparr>q_terminal := None, q_next := q_total q\<rparr>)
       (d_batch d @ [e], Suc (length (d_batch d)) - d_initial d)"
  by (simp add: drain_finish_def Let_def)

lemma drain_exhausted:
  "q_next q = q_total q \<Longrightarrow> q_terminal q = None \<Longrightarrow>
   drain_resume q (drain_start b lo hi) = Return q (b, 0)"
  by (simp add: drain_start_def drain_resume.simps)

lemma drain_end_terminal:
  assumes "oq_inv q" "q_terminal q = Some e" "drain_end q d out"
  shows "\<exists>b k q1. out = Return (q1\<lparr>q_terminal := None, q_next := q_total q1\<rparr>) (b @ [e], k)"
proof -
  obtain q1 b1 where t: "took q (d_batch d) q1 b1"
    and o1: "out = Sleep q1 (AtMore (d\<lparr>d_batch := b1\<rparr>)) \<and> starved q1 \<or> out = drain_finish q1 (d\<lparr>d_batch := b1\<rparr>)"
    using assms(3) by (auto simp: drain_end_def)
  have "q_terminal q1 = Some e" "q_closed q1"
    using t assms(1,2) by (auto simp: took_def oq_inv_def)
  with o1 show ?thesis
    by (auto simp: starved_def drain_finish_terminal intro: exI [of _ b1])
qed

lemma oq_fail_inv: "oq_inv q \<Longrightarrow> oq_inv (oq_fail q e)"
  by (simp add: oq_inv_def oq_fail_def)

text \<open>
  C31. \<open>fail\<close> reaches the consumer whatever results are missing: on an open queue, a drain that
  waits in step 1 or in step 3 returns at its next section with the error as the last item of
  the batch (never before results already taken), and every later drain returns 0 items.
\<close>

theorem fail_delivered:
  assumes "oq_inv q" "\<not> q_closed q"
    and "pc = AtFirst d \<and> d_initial d = length (d_batch d) \<or> pc = AtMore d \<and> length (d_batch d) < d_min d"
  shows "\<exists>q' b k. drain_resume (oq_fail q e) pc = Return q' (d_batch d @ b @ [e], k) \<and>
           (\<forall>b' lo hi. drain_resume q' (drain_start b' lo hi) = Return q' (b', 0))"
proof -
  let ?q = "oq_fail q e"
  have inv: "oq_inv ?q" and tm: "q_terminal ?q = Some e" and cl: "q_closed ?q"
    using assms(1,2) by (auto simp: oq_fail_inv) (simp_all add: oq_fail_def)
  have ns: "\<not> starved ?q" using cl by (simp add: starved_def)
  have fin: "drain_resume (q1\<lparr>q_terminal := None, q_next := q_total q1\<rparr>) (drain_start b' lo hi) =
      Return (q1\<lparr>q_terminal := None, q_next := q_total q1\<rparr>) (b', 0)" for q1 :: "'a oqueue" and b' lo hi
    by (rule drain_exhausted) simp_all
  from assms(3) show ?thesis
  proof
    assume "pc = AtFirst d \<and> d_initial d = length (d_batch d)"
    then have "drain_resume ?q pc = drain_finish ?q d"
      using drain_first_cases [OF inv, of d] ns tm by auto
    then show ?thesis
      by (auto simp: drain_finish_terminal [OF tm] fin intro!: exI [of _ "[]"])
  next
    assume pc: "pc = AtMore d \<and> length (d_batch d) < d_min d"
    then have "drain_end ?q d (drain_resume ?q pc)"
      using drain_more_cases [OF inv, of d] ns by auto
    then obtain q1 b1 where t: "took ?q (d_batch d) q1 b1"
        "drain_resume ?q pc = Sleep q1 (AtMore (d\<lparr>d_batch := b1\<rparr>)) \<and> starved q1 \<or>
         drain_resume ?q pc = drain_finish q1 (d\<lparr>d_batch := b1\<rparr>)"
      by (auto simp: drain_end_def)
    then have "q_terminal q1 = Some e" "q_closed q1"
        "b1 = d_batch d @ front_items ?q (q_next q1)"
      using tm cl by (simp_all add: took_def)
    with t(2) show ?thesis
      by (auto simp: starved_def drain_finish_terminal fin)
  qed
qed

theorem fail_delivered_witness:
  "let q = oq_new 16 20 :: nat oqueue; d = \<lparr>d_batch = [], d_initial = 0, d_min = 1, d_max = 4\<rparr> in
   oq_inv q \<and> \<not> q_closed q \<and>
   (\<exists>q' b k. drain_resume (oq_fail q 99) (AtFirst d) = Return q' (d_batch d @ b @ [99], k) \<and>
     (\<forall>b' lo hi. drain_resume q' (drain_start b' lo hi) = Return q' (b', 0)))"
  using fail_delivered [of "oq_new 16 20 :: nat oqueue" "AtFirst \<lparr>d_batch = [], d_initial = 0, d_min = 1, d_max = 4\<rparr>"
      "\<lparr>d_batch = [], d_initial = 0, d_min = 1, d_max = 4\<rparr>" 99]
  by (simp add: oq_new_def Let_def oq_inv_def)

text \<open>
  What a section of \<open>drain_into\<close> promises when every deposited result is the result \<open>f j\<close> of its
  job: it appends \<open>f\<close> of the next jobs, in order.
\<close>

definition drain_spec ::
  "(nat \<Rightarrow> 'a) \<Rightarrow> 'a oqueue \<Rightarrow> 'a drain \<Rightarrow> ('a oqueue, 'a drain_pc, 'a list \<times> usize) outcome \<Rightarrow> bool" where
  "drain_spec f q d out \<longleftrightarrow>
     (case out of
        Panic \<Rightarrow> False
      | Sleep q' pc' \<Rightarrow> starved q' \<and>
          pc' \<in> (\<lambda>b. AtFirst (d\<lparr>d_batch := b\<rparr>)) ` {d_batch d @ map f [q_next q..<q_next q']} \<union>
                (\<lambda>b. AtMore (d\<lparr>d_batch := b\<rparr>)) ` {d_batch d @ map f [q_next q..<q_next q']}
      | Return q' (batch, k) \<Rightarrow>
          (\<exists>n. n \<le> q_total q \<and> n - q_next q \<le> max (d_min d) (d_max d) - length (d_batch d) \<and>
             (case q_terminal q of
                None \<Rightarrow> q_next q' = n \<and> batch = d_batch d @ map f [q_next q..<n] \<and>
                  (d_min d \<le> length batch \<or> n = q_total q \<or> q_closed q)
              | Some e \<Rightarrow> q_next q' = q_total q \<and> batch = d_batch d @ map f [q_next q..<n] @ [e])))"

lemma front_items_results:
  assumes "pend q \<subseteq>\<^sub>m (\<lambda>j. Some (f j))" "{q_next q..<n} \<subseteq> dom (pend q)"
  shows "front_items q n = map f [q_next q..<n]"
proof -
  have "the (pend q i) = f i" if "i \<in> {q_next q..<n}" for i
  proof -
    from that assms(2) have "i \<in> dom (pend q)" by blast
    with assms(1) show ?thesis by (auto simp: map_le_def)
  qed
  then show ?thesis by (simp add: front_items_def)
qed

lemma drain_finish_spec:
  assumes "pend q \<subseteq>\<^sub>m (\<lambda>j. Some (f j))" and t: "took q (d_batch d) q1 b1"
    and "length b1 \<le> max (length (d_batch d)) (max (d_min d) (d_max d))"
    and "q_terminal q = None \<longrightarrow> d_min d \<le> length b1 \<or> q_next q1 = q_total q1 \<or> q_closed q1"
  shows "drain_spec f q d (drain_finish q1 (d\<lparr>d_batch := b1\<rparr>))"
proof -
  have "b1 = d_batch d @ map f [q_next q..<q_next q1]"
    using t front_items_results [OF assms(1)] by (simp add: took_def)
  moreover have "q_next q1 \<le> q_total q" "q_total q1 = q_total q" "q_terminal q1 = q_terminal q"
      "q_closed q1 = q_closed q"
    using t by (auto simp: took_def oq_inv_def)
  moreover have "q_next q1 - q_next q \<le> max (d_min d) (d_max d) - length (d_batch d)"
    using took_length [OF t] assms(3) by linarith
  ultimately show ?thesis
    using assms(4) unfolding drain_spec_def drain_finish_def
    by (cases "q_terminal q") (auto simp: Let_def intro!: exI [of _ "q_next q1"])
qed

lemma drain_end_spec:
  assumes "pend q \<subseteq>\<^sub>m (\<lambda>j. Some (f j))" "drain_end q d out"
  shows "drain_spec f q d out"
proof -
  obtain q1 b1 where t: "took q (d_batch d) q1 b1"
      "length b1 \<le> max (length (d_batch d)) (max (d_min d) (d_max d))"
    and o1: "out = Sleep q1 (AtMore (d\<lparr>d_batch := b1\<rparr>)) \<and> starved q1 \<or>
         out = drain_finish q1 (d\<lparr>d_batch := b1\<rparr>) \<and>
           (d_min d \<le> length b1 \<or> q_next q1 = q_total q1 \<or> q_closed q1)"
    using assms(2) by (auto simp: drain_end_def)
  from o1 show ?thesis
  proof
    assume *: "out = Sleep q1 (AtMore (d\<lparr>d_batch := b1\<rparr>)) \<and> starved q1"
    have "b1 = d_batch d @ map f [q_next q..<q_next q1]"
      using t(1) front_items_results [OF assms(1)] by (simp add: took_def)
    with * show ?thesis by (auto simp: drain_spec_def)
  next
    assume "out = drain_finish q1 (d\<lparr>d_batch := b1\<rparr>) \<and>
           (d_min d \<le> length b1 \<or> q_next q1 = q_total q1 \<or> q_closed q1)"
    then show ?thesis using drain_finish_spec [OF assms(1) t] by simp
  qed
qed

text \<open>
  C29. One section of \<open>drain_into\<close>, from either of its waits, when every deposited result is the
  result \<open>f j\<close> of its job: whatever it appends is \<open>f\<close> of the next jobs in order, with at most one
  terminal item after them and at most \<open>max(min_batch, max_batch, 1)\<close> results; it sleeps only
  if the next job is missing from an open queue, and it returns short of \<open>target_min\<close> only at
  the end of the jobs, after closing, or with a terminal item.
\<close>

theorem drain_in_order:
  assumes "oq_inv q" "pend q \<subseteq>\<^sub>m (\<lambda>j. Some (f j))"
    and "pc = AtFirst d \<and> d_initial d = length (d_batch d) \<or> pc = AtMore d \<and> length (d_batch d) < d_min d"
  shows "drain_spec f q d (drain_resume q pc)"
  using assms(3)
proof
  assume pc: "pc = AtFirst d \<and> d_initial d = length (d_batch d)"
  have le: "q_next q \<le> q_total q" using assms(1) by (simp add: oq_inv_def)
  let ?out = "drain_resume q (AtFirst d)"
  consider (wait) "?out = Sleep q (AtFirst d)" "starved q"
    | (error) "q_terminal q \<noteq> None" "?out = drain_finish q d"
    | (over) "q_terminal q = None" "q_next q = q_total q \<or> q_closed q" "?out = Return q (d_batch d, 0)"
    | (took) "drain_end q d ?out"
    using drain_first_cases [OF assms(1) conjunct2 [OF pc]] by argo
  then have "drain_spec f q d ?out"
  proof cases
    case wait
    then show ?thesis by (simp add: drain_spec_def)
  next
    case error
    have "drain_spec f q d (drain_finish q (d\<lparr>d_batch := d_batch d\<rparr>))"
      by (rule drain_finish_spec [OF assms(2) took_refl [OF assms(1)]]) (use error in auto)
    with error show ?thesis by simp
  next
    case over
    then show ?thesis using le by (auto simp: drain_spec_def intro!: exI [of _ "q_next q"])
  next
    case took
    then show ?thesis using drain_end_spec [OF assms(2)] by blast
  qed
  with pc show ?thesis by simp
next
  assume "pc = AtMore d \<and> length (d_batch d) < d_min d"
  then show ?thesis
    using drain_more_cases [OF assms(1), of d] drain_end_spec [OF assms(2)]
    by (auto simp: drain_spec_def)
qed

theorem drain_in_order_witness:
  "let q = (oq_new 16 20 :: nat oqueue)\<lparr>q_slots := Some 7 # Some 8 # replicate 14 None\<rparr>;
       d = \<lparr>d_batch = [], d_initial = 0, d_min = 1, d_max = 4\<rparr>
   in pend q \<subseteq>\<^sub>m (\<lambda>j. Some (7 + j)) \<and> drain_spec (\<lambda>j. 7 + j) q d (drain_resume q (AtFirst d))"
proof -
  let ?q = "(oq_new 16 20 :: nat oqueue)\<lparr>q_slots := Some 7 # Some 8 # replicate 14 None\<rparr>"
  have inv: "oq_inv ?q" by (simp add: oq_new_def oq_inv_def)
  have "pend ?q \<subseteq>\<^sub>m (\<lambda>j. Some (7 + j))"
    by (auto simp: map_le_def pend_def oq_new_def nth_Cons' split: if_splits)
  with drain_in_order [OF inv, of "\<lambda>j. 7 + j" "AtFirst \<lparr>d_batch = [], d_initial = 0, d_min = 1, d_max = 4\<rparr>"]
  show ?thesis by simp
qed

end
