(* ===== verification/Decode_Budget.thy ===== *)
theory Decode_Budget
  imports Ordered_Queue
begin

text \<open>
  \<open>DecodeBudget\<close> of \<open>raster/prefetch.rs\<close>: the byte budget of decoded buffers. Workers reserve
  in job order before decoding, settle to the actual allocation afterwards, and the consumer
  recycles delivered buffers. The subtractions of the code are unguarded; here they are
  \<open>sub_usize\<close>, and a panic of the model is an underflow of the code.
\<close>

section \<open>Buffers\<close>

text \<open>A decoded buffer is its sample type and the capacity of its vector, in samples.\<close>

datatype decoding_result =
    DR_U8 usize | DR_U16 usize | DR_U32 usize | DR_U64 usize
  | DR_I8 usize | DR_I16 usize | DR_I32 usize | DR_I64 usize
  | DR_F16 usize | DR_F32 usize | DR_F64 usize

fun decoded_buffer_bytes :: "decoding_result \<Rightarrow> usize" where
  "decoded_buffer_bytes (DR_U8 cap) = cap * 1"
| "decoded_buffer_bytes (DR_U16 cap) = cap * 2"
| "decoded_buffer_bytes (DR_U32 cap) = cap * 4"
| "decoded_buffer_bytes (DR_U64 cap) = cap * 8"
| "decoded_buffer_bytes (DR_I8 cap) = cap * 1"
| "decoded_buffer_bytes (DR_I16 cap) = cap * 2"
| "decoded_buffer_bytes (DR_I32 cap) = cap * 4"
| "decoded_buffer_bytes (DR_I64 cap) = cap * 8"
| "decoded_buffer_bytes (DR_F16 cap) = cap * 2"
| "decoded_buffer_bytes (DR_F32 cap) = cap * 4"
| "decoded_buffer_bytes (DR_F64 cap) = cap * 8"

section \<open>State\<close>

text \<open>\<open>b_idle\<close> is the stack of idle buffers, its top (the end of the vector) first.\<close>

record budget =
  b_limit :: usize
  b_idle_capacity :: usize
  b_used :: usize
  b_peak :: usize
  b_next_job :: usize
  b_closed :: bool
  b_idle :: "decoding_result list"

definition budget_new :: "usize \<Rightarrow> usize \<Rightarrow> budget" where
  "budget_new limit idle_capacity =
     \<lparr>b_limit = limit, b_idle_capacity = idle_capacity, b_used = 0, b_peak = 0,
      b_next_job = 0, b_closed = False, b_idle = []\<rparr>"

section \<open>Reserving\<close>

text \<open>
  The two waits of \<open>acquire\<close>: for the turn of the job, and, once a buffer has been taken as
  credit, for the bytes to fit.
\<close>

datatype acquire_pc =
    AwaitTurn usize usize
  | AwaitFit usize "decoding_result option" usize

definition buffer_credit :: "decoding_result option \<Rightarrow> usize" where
  "buffer_credit buffer = (case buffer of None \<Rightarrow> 0 | Some b \<Rightarrow> decoded_buffer_bytes b)"

text \<open>The \<open>loop\<close>: \<open>need\<close>, the buffer held and its credit are the local variables.\<close>

function acquire_fit ::
  "budget \<Rightarrow> usize \<Rightarrow> decoding_result option \<Rightarrow> usize \<Rightarrow>
     (budget, acquire_pc, (decoding_result option \<times> usize) option) outcome" where
  "acquire_fit st need buffer credit =
     (let extra = need - credit in
      if b_closed st
      then (case sub_usize (b_used st) credit of
              None \<Rightarrow> Panic
            | Some u \<Rightarrow> Return (st\<lparr>b_used := u\<rparr>) None)
      else case sub_usize (b_used st) credit of
             None \<Rightarrow> Panic
           | Some others \<Rightarrow>
               if saturating_add (b_used st) extra \<le> b_limit st \<or> others = 0
               then Return (st\<lparr>b_used := b_used st + extra,
                               b_peak := max (b_peak st) (b_used st + extra),
                               b_next_job := b_next_job st + 1\<rparr>)
                      (Some (buffer, credit + extra))
               else case b_idle st of
                      [] \<Rightarrow> Sleep st (AwaitFit need buffer credit)
                    | evicted # idle \<Rightarrow>
                        (case sub_usize (b_used st) (decoded_buffer_bytes evicted) of
                           None \<Rightarrow> Panic
                         | Some u \<Rightarrow> acquire_fit (st\<lparr>b_idle := idle, b_used := u\<rparr>) need buffer credit))"
  by pat_completeness auto
termination
  by (relation "measure (\<lambda>(st, _). length (b_idle st))") auto

declare acquire_fit.simps [simp del]

definition acquire_take ::
  "budget \<Rightarrow> usize \<Rightarrow> (budget, acquire_pc, (decoding_result option \<times> usize) option) outcome" where
  "acquire_take st need =
     (case b_idle st of
        [] \<Rightarrow> acquire_fit st need None (buffer_credit None)
      | b # idle \<Rightarrow> acquire_fit (st\<lparr>b_idle := idle\<rparr>) need (Some b) (buffer_credit (Some b)))"

fun acquire_resume ::
  "budget \<Rightarrow> acquire_pc \<Rightarrow> (budget, acquire_pc, (decoding_result option \<times> usize) option) outcome" where
  "acquire_resume st (AwaitTurn job_id need) =
     (if b_next_job st \<noteq> job_id \<and> \<not> b_closed st then Sleep st (AwaitTurn job_id need)
      else acquire_take st need)"
| "acquire_resume st (AwaitFit need buffer credit) = acquire_fit st need buffer credit"

section \<open>Settling, recycling, closing\<close>

definition settle :: "budget \<Rightarrow> usize \<Rightarrow> usize \<Rightarrow> budget option" where
  "settle st charged actual =
     (case sub_usize (b_used st) charged of
        None \<Rightarrow> None
      | Some u \<Rightarrow> Some (st\<lparr>b_used := u + actual, b_peak := max (b_peak st) (u + actual)\<rparr>))"

definition recycle :: "budget \<Rightarrow> decoding_result \<Rightarrow> budget option" where
  "recycle st buffer =
     (if b_closed st \<or> length (b_idle st) \<ge> b_idle_capacity st
      then map_option (\<lambda>u. st\<lparr>b_used := u\<rparr>) (sub_usize (b_used st) (decoded_buffer_bytes buffer))
      else Some (st\<lparr>b_idle := buffer # b_idle st\<rparr>))"

definition idle_bytes :: "budget \<Rightarrow> usize" where
  "idle_bytes st = sum_list (map decoded_buffer_bytes (b_idle st))"

definition budget_close :: "budget \<Rightarrow> budget option" where
  "budget_close st =
     map_option (\<lambda>u. st\<lparr>b_closed := True, b_idle := [], b_used := u\<rparr>)
       (sub_usize (b_used st) (idle_bytes st))"

section \<open>The accounting invariant\<close>

text \<open>
  \<open>out\<close> bytes are charged to someone outside the budget: a waiting or granted reservation, a
  decoded item on its way, a buffer the consumer holds. A closed budget keeps no idle buffer.
\<close>

definition budget_inv :: "budget \<Rightarrow> usize \<Rightarrow> bool" where
  "budget_inv st out \<longleftrightarrow> b_used st = idle_bytes st + out \<and> b_used st \<le> b_peak st \<and>
     (b_closed st \<longrightarrow> b_idle st = [])"

lemma budget_inv_new [simp]: "budget_inv (budget_new limit cap) 0"
  by (simp add: budget_inv_def budget_new_def idle_bytes_def)

text \<open>What a section of \<open>acquire\<close> ends in, for a worker that held \<open>credit\<close> of the \<open>rest + credit\<close> bytes.\<close>

definition acquire_post ::
  "budget \<Rightarrow> usize \<Rightarrow> usize \<Rightarrow> decoding_result option \<Rightarrow> usize \<Rightarrow>
     (budget, acquire_pc, (decoding_result option \<times> usize) option) outcome \<Rightarrow> bool" where
  "acquire_post st need rest buffer credit res \<longleftrightarrow>
     (case res of
        Panic \<Rightarrow> False
      | Sleep st' pc \<Rightarrow> pc = AwaitFit need buffer credit \<and> b_idle st' = [] \<and> rest \<noteq> 0 \<and>
          budget_inv st' (rest + credit) \<and> \<not> b_closed st \<and> \<not> b_closed st' \<and> b_next_job st' = b_next_job st \<and>
          b_limit st' = b_limit st \<and> b_idle_capacity st' = b_idle_capacity st
      | Return st' None \<Rightarrow> b_closed st \<and> b_closed st' \<and> budget_inv st' rest \<and>
          b_next_job st' = b_next_job st \<and> b_limit st' = b_limit st \<and>
          b_idle_capacity st' = b_idle_capacity st
      | Return st' (Some (buf, charged)) \<Rightarrow> buf = buffer \<and> charged = max need credit \<and>
          \<not> b_closed st \<and> \<not> b_closed st' \<and> length (b_idle st') \<le> length (b_idle st) \<and>
          budget_inv st' (rest + charged) \<and> b_next_job st' = Suc (b_next_job st) \<and>
          (b_used st' \<le> b_limit st \<or> b_used st' \<le> max need credit \<or> usize_max \<le> b_limit st) \<and>
          b_limit st' = b_limit st \<and> b_idle_capacity st' = b_idle_capacity st)"

lemma idle_bytes_Cons: "b_idle st = b # idle \<Longrightarrow> idle_bytes st = decoded_buffer_bytes b + sum_list (map decoded_buffer_bytes idle)"
  by (simp add: idle_bytes_def)

lemma acquire_fit_post:
  "budget_inv st (rest + credit) \<Longrightarrow>
     acquire_post st need rest buffer credit (acquire_fit st need buffer credit)"
proof (induction st need buffer credit rule: acquire_fit.induct)
  case (1 st need buffer credit)
  have used: "b_used st = idle_bytes st + rest + credit"
    using "1.prems" by (simp add: budget_inv_def)
  then have others: "sub_usize (b_used st) credit = Some (idle_bytes st + rest)"
    by (simp add: sub_usize_def)
  show ?case
  proof (cases "b_closed st")
    case True
    with "1.prems" used others show ?thesis
      by (simp add: acquire_fit.simps [of st] acquire_post_def budget_inv_def idle_bytes_def Let_def sub_usize_def)
  next
    case opn: False
    let ?extra = "need - credit"
    let ?fits = "saturating_add (b_used st) ?extra \<le> b_limit st \<or> idle_bytes st + rest = 0"
    show ?thesis
    proof (cases ?fits)
      case True
      have "b_used st + ?extra \<le> b_limit st \<or> b_used st + ?extra \<le> max need credit \<or>
          usize_max \<le> b_limit st"
        using True used by (auto simp: saturating_add_def min_def split: if_splits)
      with True opn used others show ?thesis
        by (simp add: acquire_fit.simps [of st] acquire_post_def budget_inv_def idle_bytes_def Let_def sub_usize_def)
    next
      case no: False
      show ?thesis
      proof (cases "b_idle st")
        case Nil
        with no opn used others "1.prems" show ?thesis
          by (simp add: acquire_fit.simps [of st] acquire_post_def budget_inv_def idle_bytes_def Let_def sub_usize_def)
      next
        case (Cons evicted idle)
        let ?u = "b_used st - decoded_buffer_bytes evicted"
        let ?st = "st\<lparr>b_idle := idle, b_used := ?u\<rparr>"
        have sub: "sub_usize (b_used st) (decoded_buffer_bytes evicted) = Some ?u"
          using Cons used by (simp add: idle_bytes_Cons)
        have inv: "budget_inv ?st (rest + credit)"
          using Cons used "1.prems" opn by (simp add: budget_inv_def idle_bytes_def)
        have "acquire_post ?st need rest buffer credit (acquire_fit ?st need buffer credit)"
          using "1.IH" [OF refl opn others _ Cons sub inv] no by simp
        moreover have "acquire_fit st need buffer credit = acquire_fit ?st need buffer credit"
          using no opn Cons by (auto simp: acquire_fit.simps [of st] Let_def others sub simp del: sub_usize_Some)
        ultimately show ?thesis
          using Cons by (auto simp: acquire_post_def split: outcome.splits option.splits)
      qed
    qed
  qed
qed

text \<open>
  The whole of \<open>acquire\<close> once its turn has come: the idle buffer taken becomes the credit,
  which moves its bytes from the idle pool to the reservation.
\<close>

lemma acquire_take_post:
  assumes "budget_inv st out"
  shows "\<exists>buffer. acquire_post st need out buffer (buffer_credit buffer) (acquire_take st need) \<and>
    (b_idle st = [] \<longrightarrow> buffer = None)"
proof (cases "b_idle st")
  case Nil
  have "acquire_post st need out None (buffer_credit None) (acquire_fit st need None (buffer_credit None))"
    by (rule acquire_fit_post) (use assms in \<open>simp add: buffer_credit_def\<close>)
  with Nil show ?thesis by (auto simp: acquire_take_def)
next
  case (Cons b idle)
  let ?st = "st\<lparr>b_idle := idle\<rparr>" and ?c = "buffer_credit (Some b)"
  have "budget_inv ?st (out + ?c)"
    using assms Cons by (simp add: budget_inv_def idle_bytes_def buffer_credit_def)
  then have "acquire_post ?st need out (Some b) ?c (acquire_fit ?st need (Some b) ?c)"
    by (rule acquire_fit_post)
  with Cons show ?thesis
    by (auto simp: acquire_take_def acquire_post_def split: outcome.splits option.splits)
qed

section \<open>The contract of a byte budget\<close>

text \<open>
  What the pipeline needs of the budget: every charge it gives back was charged, so no
  operation underflows, and the bytes outside are accounted for.
\<close>

locale byte_budget =
  fixes inv :: "'b \<Rightarrow> nat \<Rightarrow> bool"
    and settle_op :: "'b \<Rightarrow> nat \<Rightarrow> nat \<Rightarrow> 'b option"
    and recycle_op :: "'b \<Rightarrow> 'x \<Rightarrow> 'b option"
    and close_op :: "'b \<Rightarrow> 'b option"
    and bytes_of :: "'x \<Rightarrow> nat"
    and shut :: "'b \<Rightarrow> bool"
  assumes settle_law: "inv st (out + charged) \<Longrightarrow> \<exists>st'. settle_op st charged actual = Some st' \<and> inv st' (out + actual)"
    and recycle_law: "inv st (out + bytes_of x) \<Longrightarrow> \<exists>st'. recycle_op st x = Some st' \<and> inv st' out"
    and close_law: "inv st out \<Longrightarrow> \<exists>st'. close_op st = Some st' \<and> inv st' out \<and> shut st'"
begin

text \<open>Recycling a whole batch, the way the consumer does after processing it.\<close>

fun recycle_all :: "'b \<Rightarrow> 'x list \<Rightarrow> 'b option" where
  "recycle_all st [] = Some st"
| "recycle_all st (x # xs) = Option.bind (recycle_op st x) (\<lambda>st'. recycle_all st' xs)"

lemma recycle_all_inv:
  "inv st (out + sum_list (map bytes_of xs)) \<Longrightarrow> \<exists>st'. recycle_all st xs = Some st' \<and> inv st' out"
proof (induction xs arbitrary: st)
  case (Cons x xs)
  then have "inv st ((out + sum_list (map bytes_of xs)) + bytes_of x)"
    by (simp add: add.commute add.left_commute)
  from recycle_law [OF this] obtain st' where
    "recycle_op st x = Some st'" "inv st' (out + sum_list (map bytes_of xs))" by blast
  with Cons.IH show ?case by simp
qed simp

text \<open>A refused delivery gives its bytes back.\<close>

lemma settle_zero: "inv st (out + actual) \<Longrightarrow> \<exists>st'. settle_op st actual 0 = Some st' \<and> inv st' out"
  using settle_law [of st out actual 0] by simp

end

interpretation budget: byte_budget budget_inv settle recycle budget_close decoded_buffer_bytes b_closed
proof
  fix st out charged actual
  assume "budget_inv st (out + charged)"
  then show "\<exists>st'. settle st charged actual = Some st' \<and> budget_inv st' (out + actual)"
    by (simp add: settle_def budget_inv_def sub_usize_def idle_bytes_def)
next
  fix st out x
  assume "budget_inv st (out + decoded_buffer_bytes x)"
  then show "\<exists>st'. recycle st x = Some st' \<and> budget_inv st' out"
    by (auto simp: recycle_def budget_inv_def sub_usize_def idle_bytes_def)
next
  fix st out
  assume "budget_inv st out"
  then show "\<exists>st'. budget_close st = Some st' \<and> budget_inv st' out \<and> b_closed st'"
    by (auto simp: budget_close_def budget_inv_def sub_usize_def idle_bytes_def)
qed

section \<open>One section of \<open>acquire\<close>\<close>

text \<open>The credit a waiting reservation holds.\<close>

fun acquire_held :: "acquire_pc \<Rightarrow> usize" where
  "acquire_held (AwaitTurn j need) = 0"
| "acquire_held (AwaitFit need buffer credit) = credit"

definition same_limits :: "budget \<Rightarrow> budget \<Rightarrow> bool" where
  "same_limits st st' \<longleftrightarrow> b_limit st' = b_limit st \<and> b_idle_capacity st' = b_idle_capacity st"

lemma acquire_resume_law:
  assumes inv: "budget_inv st (rest + acquire_held pc)"
  shows "case acquire_resume st pc of
           Panic \<Rightarrow> False
         | Sleep st' pc' \<Rightarrow> same_limits st st' \<and> b_next_job st' = b_next_job st \<and> b_closed st' = b_closed st \<and>
             \<not> b_closed st \<and>
             (st' = st \<and> pc' = pc \<and> (\<exists>j need. pc = AwaitTurn j need \<and> b_next_job st \<noteq> j) \<or>
              rest \<noteq> 0 \<and> b_idle st' = [] \<and> budget_inv st' (rest + acquire_held pc') \<and>
                (\<exists>need buffer credit. pc' = AwaitFit need buffer credit) \<and>
                (\<forall>j need. pc = AwaitTurn j need \<longrightarrow> b_next_job st = j) \<and>
                (\<forall>need buffer credit. pc = AwaitFit need buffer credit \<longrightarrow> pc' = pc))
         | Return st' None \<Rightarrow> same_limits st st' \<and> b_closed st \<and> b_closed st' \<and> budget_inv st' rest
         | Return st' (Some (buf, charged)) \<Rightarrow> same_limits st st' \<and> \<not> b_closed st \<and> \<not> b_closed st' \<and>
             budget_inv st' (rest + charged) \<and> b_next_job st' = Suc (b_next_job st) \<and>
             (\<forall>j need. pc = AwaitTurn j need \<longrightarrow> b_next_job st = j)"
proof (cases pc)
  case (AwaitFit need buffer credit)
  then have "acquire_post st need rest buffer credit (acquire_fit st need buffer credit)"
    using inv by (intro acquire_fit_post) simp
  with AwaitFit show ?thesis
    by (cases "acquire_fit st need buffer credit")
      (auto simp: acquire_post_def same_limits_def split: option.splits)
next
  case (AwaitTurn j need)
  show ?thesis
  proof (cases "b_next_job st \<noteq> j \<and> \<not> b_closed st")
    case True
    with AwaitTurn show ?thesis by (simp add: same_limits_def)
  next
    case False
    obtain buffer where "acquire_post st need rest buffer (buffer_credit buffer) (acquire_take st need)"
      using acquire_take_post [of st rest need] inv AwaitTurn by auto
    with AwaitTurn False show ?thesis
      by (cases "acquire_take st need")
        (auto simp: acquire_post_def same_limits_def budget_inv_def split: option.splits)
  qed
qed

end
