(* ===== verification/Prefetch.thy ===== *)
theory Prefetch
  imports Decode_Budget
begin

text \<open>
  \<open>PrefetchedMosaicReader\<close> of \<open>raster/prefetch.rs\<close> with its consumer: decode workers that claim
  jobs from an atomic counter, reserve bytes in job order, decode, settle and push to the
  ordered queue; and the consumer loop that drains batches of at least one item, recycles
  their buffers, and finally drops the reader. Every lock section and every atomic operation
  is one step; which thread steps next is arbitrary. A wait on a condition variable is no
  step: the section runs again when it can do something.
\<close>

section \<open>State\<close>

text \<open>
  An item is an error or a decoded chunk: what the aggregator reads of it, and its buffer.
  What decoding job \<open>j\<close> into a recycled buffer may give is a parameter: the tile's decoder
  cannot be opened, an item is produced, or the worker panics.
\<close>

type_synonym 'm item = "rh3_error + ('m \<times> decoding_result)"

datatype 'm attempt = OpenFails rh3_error | Produces "'m item" | WorkerPanics rh3_error

record 'm prefetch_config =
  chunk_bytes :: "usize \<Rightarrow> usize"
  decoding :: "usize \<Rightarrow> decoding_result option \<Rightarrow> 'm attempt set"

fun item_bytes :: "'m item \<Rightarrow> usize" where
  "item_bytes (Inl e) = 0"
| "item_bytes (Inr (m, buf)) = decoded_buffer_bytes buf"

text \<open>Where a decode worker stands; a failing worker still has to close the budget and fail the queue.\<close>

datatype 'm worker =
    AtTop
  | Claiming
  | Acquiring usize acquire_pc
  | Decoding usize "decoding_result option" usize
  | Settling usize usize "'m item"
  | Pushing usize "'m item"
  | Refused usize
  | OpenFailed usize rh3_error
  | ClosingBudget rh3_error
  | Failing rh3_error
  | Exited

text \<open>What the workers share.\<close>

record 'm shared =
  sh_queue :: "'m item oqueue"
  sh_budget :: budget
  sh_job_idx :: usize

section \<open>Workers\<close>

inductive worker_step ::
  "'m prefetch_config \<Rightarrow> 'm shared \<Rightarrow> 'm worker \<Rightarrow> 'm shared \<Rightarrow> 'm worker \<Rightarrow> bool"
  for cfg :: "'m prefetch_config" where
  top_closed: "oq_is_closed (sh_queue sh) \<Longrightarrow> worker_step cfg sh AtTop sh Exited"
| top_open: "\<not> oq_is_closed (sh_queue sh) \<Longrightarrow> worker_step cfg sh AtTop sh Claiming"
| claim: "j = sh_job_idx sh \<Longrightarrow> j < q_total (sh_queue sh) \<Longrightarrow>
    worker_step cfg sh Claiming (sh\<lparr>sh_job_idx := j + 1\<rparr>) (Acquiring j (AwaitTurn j (chunk_bytes cfg j)))"
| claim_end: "j = sh_job_idx sh \<Longrightarrow> j \<ge> q_total (sh_queue sh) \<Longrightarrow>
    worker_step cfg sh Claiming (sh\<lparr>sh_job_idx := j + 1\<rparr>) Exited"
| acquire_wait: "acquire_resume (sh_budget sh) pc = Sleep b pc' \<Longrightarrow> (b, pc') \<noteq> (sh_budget sh, pc) \<Longrightarrow>
    worker_step cfg sh (Acquiring j pc) (sh\<lparr>sh_budget := b\<rparr>) (Acquiring j pc')"
| acquire_granted: "acquire_resume (sh_budget sh) pc = Return b (Some (buf, charged)) \<Longrightarrow>
    worker_step cfg sh (Acquiring j pc) (sh\<lparr>sh_budget := b\<rparr>) (Decoding j buf charged)"
| acquire_refused: "acquire_resume (sh_budget sh) pc = Return b None \<Longrightarrow>
    worker_step cfg sh (Acquiring j pc) (sh\<lparr>sh_budget := b\<rparr>) Exited"
| open_fails: "OpenFails e \<in> decoding cfg j buf \<Longrightarrow>
    worker_step cfg sh (Decoding j buf charged) sh (OpenFailed charged e)"
| decodes: "Produces item \<in> decoding cfg j buf \<Longrightarrow>
    worker_step cfg sh (Decoding j buf charged) sh (Settling j charged item)"
| panics: "WorkerPanics e \<in> decoding cfg j buf \<Longrightarrow>
    worker_step cfg sh (Decoding j buf charged) sh (ClosingBudget e)"
| settles: "settle (sh_budget sh) charged (item_bytes item) = Some b \<Longrightarrow>
    worker_step cfg sh (Settling j charged item) (sh\<lparr>sh_budget := b\<rparr>) (Pushing j item)"
| pushes: "oq_push (sh_queue sh) j item = Return q True \<Longrightarrow>
    worker_step cfg sh (Pushing j item) (sh\<lparr>sh_queue := q\<rparr>) AtTop"
| push_refused: "oq_push (sh_queue sh) j item = Return q False \<Longrightarrow>
    worker_step cfg sh (Pushing j item) (sh\<lparr>sh_queue := q\<rparr>) (Refused (item_bytes item))"
| refund: "settle (sh_budget sh) actual 0 = Some b \<Longrightarrow>
    worker_step cfg sh (Refused actual) (sh\<lparr>sh_budget := b\<rparr>) Exited"
| open_failed: "settle (sh_budget sh) charged 0 = Some b \<Longrightarrow>
    worker_step cfg sh (OpenFailed charged e) (sh\<lparr>sh_budget := b\<rparr>) (ClosingBudget e)"
| close_budget: "budget_close (sh_budget sh) = Some b \<Longrightarrow>
    worker_step cfg sh (ClosingBudget e) (sh\<lparr>sh_budget := b\<rparr>) (Failing e)"
| fails: "worker_step cfg sh (Failing e) (sh\<lparr>sh_queue := oq_fail (sh_queue sh) (Inl e)\<rparr>) Exited"

inductive_cases worker_stepE: "worker_step cfg sh w sh' w'"

section \<open>The consumer\<close>

text \<open>
  \<open>Dropping early\<close> and the states after it are the \<open>Drop\<close> implementation: close the queue, close
  the budget, join the workers. \<open>early\<close> says that the reader is dropped before the queue
  reported its end.
\<close>

datatype 'm consumer =
    Idle
  | Draining "'m item drain_pc"
  | Recycling "'m item list"
  | Dropping bool
  | DroppingBudget bool
  | Dropped bool

record 'm pipeline =
  pl_shared :: "'m shared"
  pl_workers :: "'m worker list"
  pl_consumer :: "'m consumer"
  pl_out :: "'m item list"

inductive consumer_step ::
  "'m shared \<times> 'm consumer \<times> 'm item list \<Rightarrow> 'm shared \<times> 'm consumer \<times> 'm item list \<Rightarrow> bool" where
  start: "consumer_step (sh, Idle, out) (sh, Draining (drain_start [] 1 batch_len), out)"
| drain_wait: "drain_resume (sh_queue sh) pc = Sleep q pc' \<Longrightarrow> (q, pc') \<noteq> (sh_queue sh, pc) \<Longrightarrow>
    consumer_step (sh, Draining pc, out) (sh\<lparr>sh_queue := q\<rparr>, Draining pc', out)"
| drained: "drain_resume (sh_queue sh) pc = Return q (batch, k) \<Longrightarrow> batch \<noteq> [] \<Longrightarrow>
    consumer_step (sh, Draining pc, out) (sh\<lparr>sh_queue := q\<rparr>, Recycling batch, out @ batch)"
| drained_end: "drain_resume (sh_queue sh) pc = Return q ([], k) \<Longrightarrow>
    consumer_step (sh, Draining pc, out) (sh\<lparr>sh_queue := q\<rparr>, Dropping False, out)"
| recycle_ok: "recycle (sh_budget sh) buf = Some b \<Longrightarrow>
    consumer_step (sh, Recycling (Inr (m, buf) # items), out) (sh\<lparr>sh_budget := b\<rparr>, Recycling items, out)"
| recycle_err: "consumer_step (sh, Recycling (Inl e # items), out) (sh, Recycling items, out)"
| recycled: "consumer_step (sh, Recycling [], out) (sh, Idle, out)"
| cancel_idle: "consumer_step (sh, Idle, out) (sh, Dropping True, out)"
| cancel_batch: "consumer_step (sh, Recycling items, out) (sh, Dropping True, out)"
| drop_queue: "consumer_step (sh, Dropping early, out)
    (sh\<lparr>sh_queue := oq_close (sh_queue sh)\<rparr>, DroppingBudget early, out)"
| drop_budget: "budget_close (sh_budget sh) = Some b \<Longrightarrow>
    consumer_step (sh, DroppingBudget early, out) (sh\<lparr>sh_budget := b\<rparr>, Dropped early, out)"

inductive_cases consumer_stepE: "consumer_step s s'"

section \<open>The pipeline\<close>

definition spawn_with_budget :: "usize \<Rightarrow> usize \<Rightarrow> usize \<Rightarrow> usize \<Rightarrow> 'm pipeline" where
  "spawn_with_budget buffer_capacity num_workers decode_budget_bytes total_jobs =
     \<lparr>pl_shared = \<lparr>sh_queue = oq_new (max buffer_capacity 16) total_jobs,
                   sh_budget = budget_new decode_budget_bytes (max buffer_capacity 16),
                   sh_job_idx = 0\<rparr>,
      pl_workers = replicate (min (max num_workers 1) total_jobs) AtTop,
      pl_consumer = Idle, pl_out = []\<rparr>"

inductive pipeline_step :: "'m prefetch_config \<Rightarrow> 'm pipeline \<Rightarrow> 'm pipeline \<Rightarrow> bool"
  for cfg :: "'m prefetch_config" where
  worker: "i < length (pl_workers s) \<Longrightarrow> worker_step cfg (pl_shared s) (pl_workers s ! i) sh w \<Longrightarrow>
    pipeline_step cfg s (s\<lparr>pl_shared := sh, pl_workers := (pl_workers s)[i := w]\<rparr>)"
| consumer: "consumer_step (pl_shared s, pl_consumer s, pl_out s) (sh, c, out) \<Longrightarrow>
    pipeline_step cfg s (s\<lparr>pl_shared := sh, pl_consumer := c, pl_out := out\<rparr>)"

inductive_cases pipeline_stepE: "pipeline_step cfg s s'"

section \<open>Invariants of the queue\<close>

definition item_ok :: "'m prefetch_config \<Rightarrow> usize \<Rightarrow> 'm item \<Rightarrow> bool" where
  "item_ok cfg j x \<longleftrightarrow> (\<exists>buf. Produces x \<in> decoding cfg j buf)"

fun held_job :: "'m worker \<Rightarrow> nat option" where
  "held_job (Acquiring j pc) = Some j"
| "held_job (Decoding j buf charged) = Some j"
| "held_job (Settling j charged item) = Some j"
| "held_job (Pushing j item) = Some j"
| "held_job _ = None"

fun held_item :: "'m worker \<Rightarrow> (nat \<times> 'm item) option" where
  "held_item (Settling j charged item) = Some (j, item)"
| "held_item (Pushing j item) = Some (j, item)"
| "held_item _ = None"

fun failing :: "'m worker \<Rightarrow> bool" where
  "failing (OpenFailed charged e) = True"
| "failing (ClosingBudget e) = True"
| "failing (Failing e) = True"
| "failing _ = False"

fun dropping :: "'m consumer \<Rightarrow> bool" where
  "dropping (Dropping early) = True"
| "dropping (DroppingBudget early) = True"
| "dropping (Dropped early) = True"
| "dropping _ = False"

text \<open>The queue alone, and the batch the consumer is draining.\<close>

definition queue_inv :: "'m prefetch_config \<Rightarrow> 'm pipeline \<Rightarrow> bool" where
  "queue_inv cfg s \<longleftrightarrow>
     (let q = sh_queue (pl_shared s) in
      oq_inv q \<and> (\<forall>j x. j < q_total q \<longrightarrow> pend q j = Some x \<longrightarrow> item_ok cfg j x) \<and>
      (\<forall>w\<in>set (pl_workers s). \<forall>j x. held_item w = Some (j, x) \<longrightarrow> item_ok cfg j x) \<and>
      (\<forall>x. q_terminal q = Some x \<longrightarrow> (\<exists>e. x = Inl e)) \<and>
      (\<forall>pc. pl_consumer s = Draining pc \<longrightarrow> (\<exists>n. pc = drain_start [] 1 n)) \<and>
      (q_closed q \<longrightarrow> dropping (pl_consumer s) \<or> q_terminal q \<noteq> None \<or> q_next q = q_total q) \<and>
      (pl_consumer s \<in> {Dropping False, DroppingBudget False, Dropped False} \<longrightarrow>
         q_next q = q_total q) \<and>
      (\<forall>early. pl_consumer s = DroppingBudget early \<or> pl_consumer s = Dropped early \<longrightarrow> q_closed q) \<and>
      (\<forall>early. pl_consumer s = Dropped early \<longrightarrow> b_closed (sh_budget (pl_shared s))))"

text \<open>What has been delivered: results of the jobs in order, and after an error the error.\<close>

definition in_order :: "'m prefetch_config \<Rightarrow> 'm item list \<Rightarrow> bool" where
  "in_order cfg xs \<longleftrightarrow> (\<forall>i<length xs. item_ok cfg i (xs ! i))"

definition out_inv :: "'m prefetch_config \<Rightarrow> 'm pipeline \<Rightarrow> bool" where
  "out_inv cfg s \<longleftrightarrow>
     (let q = sh_queue (pl_shared s) in
      in_order cfg (pl_out s) \<and> length (pl_out s) = q_next q \<or>
      (\<exists>xs e. pl_out s = xs @ [Inl e] \<and> in_order cfg xs \<and> length xs \<le> q_total q \<and>
         q_next q = q_total q \<and> q_closed q \<and> q_terminal q = None))"

section \<open>What a drain of at least one item does\<close>

lemma drain_min_one:
  assumes inv: "oq_inv q" and pc: "pc = drain_start [] 1 n"
  shows "drain_resume q pc = Sleep q pc \<and> starved q \<or>
         (\<exists>e. q_terminal q = Some e \<and> \<not> starved q \<and>
            drain_resume q pc = Return (q\<lparr>q_terminal := None, q_next := q_total q\<rparr>) ([e], 1)) \<or>
         q_terminal q = None \<and> \<not> starved q \<and> (q_next q = q_total q \<or> q_closed q \<and> oq_front q = None) \<and>
           drain_resume q pc = Return q ([], 0) \<or>
         q_terminal q = None \<and> \<not> starved q \<and> q_next q < q_total q \<and> oq_front q \<noteq> None \<and>
           (\<exists>q' batch k. drain_resume q pc = Return q' (batch, k) \<and> took q [] q' batch \<and>
              (batch = [] \<longrightarrow> q_closed q))"
proof -
  let ?d = "\<lparr>d_batch = [] :: 'a list, d_initial = 0, d_min = 1, d_max = max n 1\<rparr>"
  have first: "pc = AtFirst ?d" by (simp add: pc drain_start_def)
  consider (wait) "drain_resume q pc = Sleep q pc" "starved q"
    | (error) "\<not> starved q" "q_terminal q \<noteq> None" "drain_resume q pc = drain_finish q ?d"
    | (over) "\<not> starved q" "q_terminal q = None" "q_next q = q_total q \<or> q_closed q \<and> oq_front q = None"
        "drain_resume q pc = Return q (d_batch ?d, 0)"
    | (took) "q_terminal q = None" "q_next q < q_total q" "oq_front q \<noteq> None" "drain_end q ?d (drain_resume q pc)"
    using drain_first_cases [OF inv, of ?d] unfolding first by auto
  then show ?thesis
  proof cases
    case error
    then show ?thesis by (auto simp: drain_finish_def Let_def)
  next
    case took
    then obtain q1 b1 where t: "took q [] q1 b1"
      and c: "drain_resume q pc = Sleep q1 (AtMore (?d\<lparr>d_batch := b1\<rparr>)) \<and> starved q1 \<and> length b1 < 1 \<or>
        drain_resume q pc = drain_finish q1 (?d\<lparr>d_batch := b1\<rparr>) \<and>
          (1 \<le> length b1 \<or> q_next q1 = q_total q1 \<or> q_closed q1)"
      by (auto simp: drain_end_def)
    have empty: "q_next q1 = q_next q \<and> oq_front q1 \<noteq> None" if "b1 = []"
    proof -
      have n: "q_next q1 = q_next q" using took_length [OF t] that by simp
      have "oq_front q1 = pend q1 (q_next q1)" by (rule oq_front_pend [OF took_inv [OF t]])
      also have "\<dots> = pend q (q_next q)" using t n by (simp add: took_def)
      also have "\<dots> \<noteq> None" using took(3) oq_front_pend [OF inv] by simp
      finally show ?thesis using n by simp
    qed
    have same: "q_total q1 = q_total q" "q_closed q1 = q_closed q" "q_terminal q1 = None"
      using t took(1) by (simp_all add: took_def)
    have ret: "drain_resume q pc = Return q1 (b1, length b1)"
      using c empty same by (auto simp: starved_def drain_finish_def)
    have "q_closed q" if "b1 = []"
    proof -
      have "drain_resume q pc = drain_finish q1 (?d\<lparr>d_batch := b1\<rparr>) \<and>
          (1 \<le> length b1 \<or> q_next q1 = q_total q1 \<or> q_closed q1)"
        using c ret by auto
      then show ?thesis using that empty [OF that] same took(2) by auto
    qed
    moreover have "\<not> starved q" using took(3) by (simp add: starved_def)
    ultimately show ?thesis
      using ret t took(1-3) by blast
  qed (use first in simp_all)
qed

section \<open>Frames: what a worker step leaves alone\<close>

lemma oq_push_cases:
  "oq_push q j x = Return q' r \<longleftrightarrow>
     q_closed q \<and> q' = q \<and> \<not> r \<or>
     \<not> q_closed q \<and> r \<and> j < q_next q + q_capacity q \<and>
       q' = q\<lparr>q_slots := (q_slots q)[j mod q_capacity q := Some x]\<rparr>"
  by (auto simp: oq_push_def)

lemma worker_queue:
  assumes "worker_step cfg sh w sh' w'"
  shows "sh_queue sh' = sh_queue sh \<or>
         (\<exists>j x. w = Pushing j x \<and> w' = AtTop \<and> oq_push (sh_queue sh) j x = Return (sh_queue sh') True) \<or>
         (\<exists>e. w = Failing e \<and> w' = Exited \<and> sh_queue sh' = oq_fail (sh_queue sh) (Inl e))"
  using assms by cases (auto simp: oq_push_cases)

lemma worker_held_item:
  assumes "worker_step cfg sh w sh' w'"
  shows "held_item w' = None \<or> held_item w' = held_item w \<or>
         (\<exists>j x. held_item w' = Some (j, x) \<and> item_ok cfg j x)"
  using assms by cases (auto simp: item_ok_def)

lemma worker_held_job:
  assumes "worker_step cfg sh w sh' w'"
  shows "held_job w' = None \<or> held_job w' = held_job w \<and> sh_job_idx sh' = sh_job_idx sh \<or>
         w = Claiming \<and> held_job w' = Some (sh_job_idx sh) \<and> sh_job_idx sh < q_total (sh_queue sh) \<and>
         sh_job_idx sh' = Suc (sh_job_idx sh) \<and> sh_queue sh' = sh_queue sh"
  using assms by cases auto

lemma worker_job_idx: "worker_step cfg sh w sh' w' \<Longrightarrow> sh_job_idx sh \<le> sh_job_idx sh'"
  by (cases rule: worker_step.cases) auto

definition outcome_state :: "('s, 'k, 'r) outcome \<Rightarrow> 's option" where
  "outcome_state out = (case out of Sleep s k \<Rightarrow> Some s | Return s r \<Rightarrow> Some s | Panic \<Rightarrow> None)"

lemma acquire_fit_closed:
  "outcome_state (acquire_fit st need buf credit) = Some b \<Longrightarrow> b_closed b = b_closed st"
proof (induction st need buf credit rule: acquire_fit.induct)
  case (1 st need buf credit)
  show ?case
    using "1.prems" "1.IH"
    by (subst (asm) acquire_fit.simps)
      (auto simp: outcome_state_def Let_def split: option.splits list.splits if_splits)
qed

lemma acquire_state_closed:
  "outcome_state (acquire_resume st pc) = Some b \<Longrightarrow> b_closed b = b_closed st"
proof (cases pc)
  case (AwaitTurn j need)
  then show "outcome_state (acquire_resume st pc) = Some b \<Longrightarrow> ?thesis"
    by (cases "b_idle st") (auto simp: acquire_take_def dest!: acquire_fit_closed split: if_splits,
        auto simp: outcome_state_def)
qed (auto dest: acquire_fit_closed)

lemma acquire_closed:
  "acquire_resume st pc = Sleep b pc' \<Longrightarrow> b_closed b = b_closed st"
  "acquire_resume st pc = Return b r \<Longrightarrow> b_closed b = b_closed st"
  using acquire_state_closed [of st pc b] by (simp_all add: outcome_state_def)

lemma worker_budget_closed:
  "worker_step cfg sh w sh' w' \<Longrightarrow> b_closed (sh_budget sh) \<Longrightarrow> b_closed (sh_budget sh')"
  by (cases rule: worker_step.cases)
    (auto simp: acquire_closed settle_def budget_close_def split: option.splits)

section \<open>Claimed jobs\<close>

definition holds :: "'m worker list \<Rightarrow> nat \<Rightarrow> nat \<Rightarrow> bool" where
  "holds ws i j \<longleftrightarrow> i < length ws \<and> held_job (ws ! i) = Some j"

lemma holds_update:
  "holds (ws[i := w]) k j \<longleftrightarrow> k < length ws \<and> (if k = i then held_job w = Some j else holds ws k j)"
  by (auto simp: holds_def nth_list_update)

text \<open>While the queue is open, a held job is ahead of the consumer, undeposited, and held once.\<close>

definition jobs_inv :: "'m pipeline \<Rightarrow> bool" where
  "jobs_inv s \<longleftrightarrow>
     (let q = sh_queue (pl_shared s); n = sh_job_idx (pl_shared s) in
      \<not> q_closed q \<longrightarrow>
        q_next q \<le> n \<and> (\<forall>j. pend q j \<noteq> None \<longrightarrow> j < n) \<and>
        (\<forall>i j. holds (pl_workers s) i j \<longrightarrow> q_next q \<le> j \<and> j < n \<and> j < q_total q \<and> pend q j = None) \<and>
        (\<forall>i k j. holds (pl_workers s) i j \<longrightarrow> holds (pl_workers s) k j \<longrightarrow> i = k))"

lemma pushed:
  assumes "oq_inv q" "oq_push q j x = Return q' True" "q_next q \<le> j"
  shows "pend q' = (pend q)(j \<mapsto> x)" "oq_inv q'" "q_next q' = q_next q" "q_total q' = q_total q"
    "q_closed q' = q_closed q" "q_terminal q' = q_terminal q" "q_capacity q' = q_capacity q" "\<not> q_closed q"
proof -
  have p: "oq_put q j x = Some q'" "q' = q\<lparr>q_slots := (q_slots q)[j mod q_capacity q := Some x]\<rparr>" "\<not> q_closed q"
    using assms(2,3) by (auto simp: oq_push_cases oq_put_Some)
  then show "pend q' = (pend q)(j \<mapsto> x)" "oq_inv q'"
    using window.put_law [OF assms(1)] by auto
  show "q_next q' = q_next q" "q_total q' = q_total q" "q_closed q' = q_closed q"
    "q_terminal q' = q_terminal q" "q_capacity q' = q_capacity q" "\<not> q_closed q"
    using p by simp_all
qed

lemma oq_fail_props:
  "q_closed (oq_fail q e)" "pend (oq_fail q e) = pend q" "q_next (oq_fail q e) = q_next q"
  "q_total (oq_fail q e) = q_total q" "q_capacity (oq_fail q e) = q_capacity q"
  "q_terminal (oq_fail q e) = (if q_closed q then q_terminal q else Some e)"
  by (auto simp: oq_fail_def pend_def)

lemma oq_close_props:
  "q_closed (oq_close q)" "pend (oq_close q) = pend q" "q_next (oq_close q) = q_next q"
  "q_total (oq_close q) = q_total q" "q_terminal (oq_close q) = q_terminal q" "oq_inv q \<Longrightarrow> oq_inv (oq_close q)"
  "q_capacity (oq_close q) = q_capacity q"
  by (auto simp: oq_close_def pend_def oq_inv_def)

lemma jobs_inv_worker:
  assumes inv: "jobs_inv s" "oq_inv (sh_queue (pl_shared s))"
    and i: "i < length (pl_workers s)" and st: "worker_step cfg (pl_shared s) (pl_workers s ! i) sh w"
  shows "jobs_inv (s\<lparr>pl_shared := sh, pl_workers := (pl_workers s)[i := w]\<rparr>)"
proof -
  let ?q = "sh_queue (pl_shared s)" and ?n = "sh_job_idx (pl_shared s)" and ?w = "pl_workers s ! i"
  have le: "?n \<le> sh_job_idx sh" by (rule worker_job_idx [OF st])
  show ?thesis
    using worker_queue [OF st]
  proof (elim disjE exE conjE)
    assume q: "sh_queue sh = ?q"
    show ?thesis
    proof (cases "q_closed ?q")
      case True
      with q show ?thesis by (simp add: jobs_inv_def)
    next
      case False
      then have J: "q_next ?q \<le> ?n" "\<And>j. pend ?q j \<noteq> None \<Longrightarrow> j < ?n"
        "\<And>i j. holds (pl_workers s) i j \<Longrightarrow> q_next ?q \<le> j \<and> j < ?n \<and> j < q_total ?q \<and> pend ?q j = None"
        "\<And>i k j. holds (pl_workers s) i j \<Longrightarrow> holds (pl_workers s) k j \<Longrightarrow> i = k"
        using inv(1) by (simp_all add: jobs_inv_def Let_def)
      have old: "holds (pl_workers s) i j" if "held_job ?w = Some j" for j
        using that i by (simp add: holds_def)
      have new: "held_job w = Some j \<Longrightarrow> holds (pl_workers s) i j \<or>
          j = ?n \<and> j < q_total ?q \<and> sh_job_idx sh = Suc ?n" for j
        using worker_held_job [OF st] old by auto
      have fresh: "\<not> holds (pl_workers s) k ?n" for k using J(3) by blast
      have nopend: "pend ?q ?n = None" using J(2) by blast
      show ?thesis
        unfolding jobs_inv_def Let_def
        using J le new fresh nopend q
        by (auto simp: holds_update split: if_splits dest: less_le_trans) (metis less_le_trans)+
    qed
  next
    fix j x
    assume w: "?w = Pushing j x" "w = AtTop" and p: "oq_push ?q j x = Return (sh_queue sh) True"
    then have op: "\<not> q_closed ?q" by (simp add: oq_push_cases)
    have h: "holds (pl_workers s) i j" using w i by (simp add: holds_def)
    with op inv(1) have "q_next ?q \<le> j" "j < ?n" by (auto simp: jobs_inv_def Let_def)
    note pp = pushed [OF inv(2) p this(1)]
    have "sh_job_idx sh = ?n" using st unfolding w by cases auto
    then show ?thesis
      using inv(1) op h \<open>j < ?n\<close> w
      unfolding jobs_inv_def Let_def
      by (auto simp: pp holds_update)
  next
    fix e
    assume "sh_queue sh = oq_fail ?q (Inl e)"
    then show ?thesis by (simp add: jobs_inv_def oq_fail_props)
  qed
qed

text \<open>Which queues a consumer step can leave behind.\<close>

lemma consumer_queue:
  assumes st: "consumer_step (sh, c, out) (sh', c', out')" and inv: "oq_inv (sh_queue sh)"
    and dr: "\<forall>pc. c = Draining pc \<longrightarrow> (\<exists>n. pc = drain_start [] 1 n)"
    and cl: "q_closed (sh_queue sh) \<longrightarrow> dropping c \<or> q_terminal (sh_queue sh) \<noteq> None \<or>
               q_next (sh_queue sh) = q_total (sh_queue sh)"
  shows "sh_queue sh' = sh_queue sh \<and> out' = out \<and> sh_job_idx sh' = sh_job_idx sh \<and>
           ((\<exists>pc. c = Draining pc) \<longrightarrow> c' = Dropping False \<and> q_next (sh_queue sh) = q_total (sh_queue sh)) \<or>
         (\<exists>batch. batch \<noteq> [] \<and> took (sh_queue sh) [] (sh_queue sh') batch \<and> out' = out @ batch \<and>
            c' = Recycling batch \<and> sh_budget sh' = sh_budget sh \<and> sh_job_idx sh' = sh_job_idx sh \<and>
            (\<exists>pc. c = Draining pc) \<and> q_terminal (sh_queue sh) = None) \<or>
         (\<exists>e. q_terminal (sh_queue sh) = Some e \<and> out' = out @ [e] \<and> c' = Recycling [e] \<and>
            sh_queue sh' = (sh_queue sh)\<lparr>q_terminal := None, q_next := q_total (sh_queue sh)\<rparr> \<and>
            sh_budget sh' = sh_budget sh \<and> sh_job_idx sh' = sh_job_idx sh \<and> (\<exists>pc. c = Draining pc)) \<or>
         (\<exists>early. c = Dropping early \<and> c' = DroppingBudget early \<and> out' = out \<and>
            sh' = sh\<lparr>sh_queue := oq_close (sh_queue sh)\<rparr>)"
  using st
proof cases
  case (drain_wait pc q pc')
  with dr drain_min_one [OF inv] show ?thesis by fastforce
next
  case (drained pc q batch k)
  with dr cl drain_min_one [OF inv] show ?thesis
    by (fastforce dest: oq_inv_le)
next
  case (drained_end pc q k)
  then obtain n where "pc = drain_start [] 1 n" using dr by blast
  from drain_min_one [OF inv this] drained_end cl show ?thesis
    by auto
qed auto

lemma jobs_inv_consumer:
  assumes st: "consumer_step (pl_shared s, pl_consumer s, pl_out s) (sh, c, out)"
    and qi: "queue_inv cfg s" and inv: "jobs_inv s"
  shows "jobs_inv (s\<lparr>pl_shared := sh, pl_consumer := c, pl_out := out\<rparr>)"
proof -
  let ?q = "sh_queue (pl_shared s)"
  have Q: "oq_inv ?q" "\<forall>pc. pl_consumer s = Draining pc \<longrightarrow> (\<exists>n. pc = drain_start [] 1 n)"
    "q_closed ?q \<longrightarrow> dropping (pl_consumer s) \<or> q_terminal ?q \<noteq> None \<or> q_next ?q = q_total ?q"
    using qi by (simp_all add: queue_inv_def Let_def)
  show ?thesis
    using consumer_queue [OF st Q]
  proof (elim disjE exE conjE, goal_cases)
    case 1
    with inv show ?case by (simp add: jobs_inv_def Let_def)
  next
    case (2 batch)
    let ?q' = "sh_queue sh"
    have t: "q_next ?q \<le> q_next ?q'" "{q_next ?q..<q_next ?q'} \<subseteq> dom (pend ?q)"
      "\<And>i. pend ?q' i = (if i < q_next ?q' then None else pend ?q i)"
      "q_closed ?q' = q_closed ?q" "q_total ?q' = q_total ?q"
      using 2(2) by (simp_all add: took_def)
    show ?case
    proof (cases "q_closed ?q")
      case True
      with t show ?thesis by (simp add: jobs_inv_def)
    next
      case False
      then have J: "q_next ?q \<le> sh_job_idx (pl_shared s)" "\<And>j. pend ?q j \<noteq> None \<Longrightarrow> j < sh_job_idx (pl_shared s)"
        "\<And>i j. holds (pl_workers s) i j \<Longrightarrow> q_next ?q \<le> j \<and> j < sh_job_idx (pl_shared s) \<and> j < q_total ?q \<and> pend ?q j = None"
        "\<And>i k j. holds (pl_workers s) i j \<Longrightarrow> holds (pl_workers s) k j \<Longrightarrow> i = k"
        using inv by (simp_all add: jobs_inv_def Let_def)
      have ahead: "q_next ?q' \<le> j" if h: "holds (pl_workers s) i j" for i j
      proof (rule ccontr)
        assume "\<not> q_next ?q' \<le> j"
        with J(3) [OF h] have "j \<in> {q_next ?q..<q_next ?q'}" by simp
        with t(2) J(3) [OF h] show False by blast
      qed
      have "q_next ?q' \<le> sh_job_idx (pl_shared s)"
      proof (rule ccontr)
        assume "\<not> ?thesis"
        with J(1) have "sh_job_idx (pl_shared s) \<in> {q_next ?q..<q_next ?q'}" by simp
        with t(2) J(2) show False by blast
      qed
      then show ?thesis
        unfolding jobs_inv_def Let_def using 2 t(3,5) J ahead by simp
    qed
  next
    case (3 e)
    then have "q_closed ?q" using Q(1) by (simp add: oq_inv_def)
    with 3 show ?case by (simp add: jobs_inv_def)
  next
    case (4 early)
    then show ?case by (simp add: jobs_inv_def oq_close_props)
  qed
qed

lemma in_order_append:
  assumes "in_order cfg xs" "took q [] q' batch" "length xs = q_next q" "\<And>j x. j < q_total q \<Longrightarrow> pend q j = Some x \<Longrightarrow> item_ok cfg j x"
  shows "in_order cfg (xs @ batch)" "length (xs @ batch) = q_next q'"
proof -
  have b: "batch = map (\<lambda>i. the (pend q i)) [q_next q..<q_next q']" "{q_next q..<q_next q'} \<subseteq> dom (pend q)"
    and n: "q_next q \<le> q_next q'"
    using assms(2) by (simp_all add: took_def front_items_def)
  then show "length (xs @ batch) = q_next q'" using assms(3) by simp
  show "in_order cfg (xs @ batch)"
    unfolding in_order_def
  proof (intro allI impI)
    fix i assume i: "i < length (xs @ batch)"
    show "item_ok cfg i ((xs @ batch) ! i)"
    proof (cases "i < length xs")
      case True
      then show ?thesis using assms(1) by (simp add: in_order_def nth_append)
    next
      case False
      moreover from this have "[q_next q..<q_next q'] ! (i - q_next q) = i"
        using i b(1) assms(3) n by (subst nth_upt) auto
      ultimately have "(xs @ batch) ! i = the (pend q i)"
        using i b(1) assms(3) by (simp add: nth_append)
      moreover have "i \<in> dom (pend q)"
        using False i b n assms(3) by (auto simp: subset_iff)
      moreover have "i < q_total q"
        using i b(1) assms(2,3) by (auto simp: took_def oq_inv_def)
      ultimately show ?thesis using assms(4) by auto
    qed
  qed
qed

lemma queue_inv_worker:
  assumes inv: "queue_inv cfg s" "jobs_inv s"
    and i: "i < length (pl_workers s)" and st: "worker_step cfg (pl_shared s) (pl_workers s ! i) sh w"
  shows "queue_inv cfg (s\<lparr>pl_shared := sh, pl_workers := (pl_workers s)[i := w]\<rparr>)"
proof -
  let ?q = "sh_queue (pl_shared s)" and ?w = "pl_workers s ! i"
  have Q: "oq_inv ?q" using inv(1) by (simp add: queue_inv_def Let_def)
  have items: "held_item v = Some (j, x) \<Longrightarrow> item_ok cfg j x"
    if v: "v \<in> set ((pl_workers s)[i := w])" for v j x
  proof -
    assume h: "held_item v = Some (j, x)"
    have old: "item_ok cfg j x" if "u \<in> set (pl_workers s)" "held_item u = Some (j, x)" for u
      using inv(1) that by (simp add: queue_inv_def Let_def)
    consider "v = w" | "v \<in> set (pl_workers s)"
      using v set_update_subset_insert [of "pl_workers s" i w] by blast
    then show "item_ok cfg j x"
    proof cases
      case 1
      then show ?thesis using worker_held_item [OF st] h old [OF nth_mem [OF i]] by auto
    qed (use h old in blast)
  qed
  have bc: "b_closed (sh_budget (pl_shared s)) \<Longrightarrow> b_closed (sh_budget sh)"
    by (rule worker_budget_closed [OF st])
  show ?thesis
    using worker_queue [OF st]
  proof (elim disjE exE conjE)
    assume "sh_queue sh = ?q"
    with inv(1) items bc show ?thesis by (simp add: queue_inv_def Let_def)
  next
    fix j x
    assume w: "?w = Pushing j x" "w = AtTop" and p: "oq_push ?q j x = Return (sh_queue sh) True"
    have "holds (pl_workers s) i j" using w i by (simp add: holds_def)
    moreover have op: "\<not> q_closed ?q" using p by (simp add: oq_push_cases)
    ultimately have "q_next ?q \<le> j" using inv(2) by (auto simp: jobs_inv_def Let_def)
    note pp = pushed [OF Q p this]
    have "item_ok cfg j x"
      using inv(1) w nth_mem [OF i] by (fastforce simp: queue_inv_def Let_def)
    with inv(1) items bc pp op show ?thesis
      by (simp add: queue_inv_def Let_def)
  next
    fix e
    assume "sh_queue sh = oq_fail ?q (Inl e)"
    with inv(1) items bc show ?thesis
      by (simp add: queue_inv_def Let_def oq_fail_props oq_fail_inv)
  qed
qed

lemma consumer_next:
  assumes "consumer_step (sh, c, out) (sh', c', out')"
    and "oq_inv (sh_queue sh)" "\<forall>pc. c = Draining pc \<longrightarrow> (\<exists>n. pc = drain_start [] 1 n)"
  shows "\<forall>pc. c' = Draining pc \<longrightarrow> (\<exists>n. pc = drain_start [] 1 n)"
    and "dropping c \<Longrightarrow> dropping c'"
    and "b_closed (sh_budget sh) \<Longrightarrow> b_closed (sh_budget sh')"
    and "c' \<in> {Dropping False, DroppingBudget False, Dropped False} \<Longrightarrow>
           c \<in> {Dropping False, DroppingBudget False} \<or> (\<exists>pc. c = Draining pc)"
    and "c' = DroppingBudget early \<or> c' = Dropped early \<Longrightarrow>
           c = DroppingBudget early \<or> (c = Dropping early \<and> sh_queue sh' = oq_close (sh_queue sh))"
    and "c' = Dropped early \<Longrightarrow> b_closed (sh_budget sh')"
  using assms
  by (cases; fastforce simp: recycle_def budget_close_def dest: drain_min_one)+

lemma queue_inv_consumer:
  assumes st: "consumer_step (pl_shared s, pl_consumer s, pl_out s) (sh, c, out)"
    and inv: "queue_inv cfg s"
  shows "queue_inv cfg (s\<lparr>pl_shared := sh, pl_consumer := c, pl_out := out\<rparr>)"
proof -
  let ?q = "sh_queue (pl_shared s)"
  have Q: "oq_inv ?q" "\<forall>pc. pl_consumer s = Draining pc \<longrightarrow> (\<exists>n. pc = drain_start [] 1 n)"
    "q_closed ?q \<longrightarrow> dropping (pl_consumer s) \<or> q_terminal ?q \<noteq> None \<or> q_next ?q = q_total ?q"
    using inv by (simp_all add: queue_inv_def Let_def)
  note cn = consumer_next [OF st Q(1,2)]
  have I: "\<And>j x. j < q_total ?q \<Longrightarrow> pend ?q j = Some x \<Longrightarrow> item_ok cfg j x"
    "\<forall>w\<in>set (pl_workers s). \<forall>j x. held_item w = Some (j, x) \<longrightarrow> item_ok cfg j x"
    "\<And>x. q_terminal ?q = Some x \<Longrightarrow> \<exists>e. x = Inl e"
    "pl_consumer s \<in> {Dropping False, DroppingBudget False, Dropped False} \<Longrightarrow> q_next ?q = q_total ?q"
    "\<And>early. pl_consumer s = DroppingBudget early \<or> pl_consumer s = Dropped early \<Longrightarrow> q_closed ?q"
    using inv by (auto simp: queue_inv_def Let_def)
  have dropped: "\<forall>early. c = Dropped early \<longrightarrow> b_closed (sh_budget sh)"
    using cn(6) by blast
  show ?thesis
    using consumer_queue [OF st Q]
  proof (elim disjE exE conjE, goal_cases)
    case 1
    have "q_next ?q = q_total ?q" if "c \<in> {Dropping False, DroppingBudget False, Dropped False}"
      using cn(4) [OF that] I(4) 1 by blast
    moreover have "q_closed ?q" if "c = DroppingBudget early \<or> c = Dropped early" for early
      using cn(5) [OF that] I(5) 1(1) oq_close_props(1) by metis
    ultimately show ?case
      unfolding queue_inv_def Let_def using 1 Q I cn(1,2) dropped by auto
  next
    case (2 batch)
    have t: "oq_inv (sh_queue sh)" "q_closed (sh_queue sh) = q_closed ?q" "q_total (sh_queue sh) = q_total ?q"
      "q_terminal (sh_queue sh) = q_terminal ?q"
      "\<And>i. pend (sh_queue sh) i = (if i < q_next (sh_queue sh) then None else pend ?q i)"
      using 2(2) by (simp_all add: took_def)
    have "q_next ?q = q_total ?q" if "q_closed ?q" using Q(3) 2 that by auto
    moreover have "q_next ?q \<le> q_next (sh_queue sh)" using 2(2) by (simp add: took_def)
    moreover have "q_next (sh_queue sh) \<le> q_total ?q" using t by (simp add: oq_inv_def)
    ultimately show ?case
      unfolding queue_inv_def Let_def using 2 t I by auto
  next
    case (3 e)
    have "oq_inv (?q\<lparr>q_terminal := None, q_next := q_total ?q\<rparr>)"
      using Q(1) by (simp add: oq_inv_def)
    moreover have "pend (?q\<lparr>q_terminal := None, q_next := q_total ?q\<rparr>) j = None" if "j < q_total ?q" for j
      using that by (simp add: pend_def)
    ultimately show ?case
      unfolding queue_inv_def Let_def using 3 I by auto
  next
    case (4 early)
    then show ?case
      unfolding queue_inv_def Let_def using Q I by (auto simp: oq_close_props)
  qed
qed

lemma out_inv_step:
  assumes qi: "queue_inv cfg s" and inv: "out_inv cfg s" and ji: "jobs_inv s"
    and st: "pipeline_step cfg s s'"
  shows "out_inv cfg s'"
  using st
proof cases
  case (worker i sh w)
  let ?q = "sh_queue (pl_shared s)"
  have Q: "oq_inv ?q" using qi by (simp add: queue_inv_def Let_def)
  from worker_queue [OF worker(3)] show ?thesis
  proof (elim disjE exE conjE)
    fix j x
    assume w: "pl_workers s ! i = Pushing j x" and p: "oq_push ?q j x = Return (sh_queue sh) True"
    have "holds (pl_workers s) i j" using w worker(2) by (simp add: holds_def)
    moreover have "\<not> q_closed ?q" using p by (simp add: oq_push_cases)
    ultimately have "q_next ?q \<le> j" using ji by (auto simp: jobs_inv_def Let_def)
    from pushed [OF Q p this] inv show ?thesis
      unfolding worker(1) by (auto simp: out_inv_def Let_def)
  qed (use inv in \<open>auto simp: worker(1) out_inv_def Let_def oq_fail_props\<close>)
next
  case (consumer sh c out)
  let ?q = "sh_queue (pl_shared s)"
  have Q: "oq_inv ?q" "\<forall>pc. pl_consumer s = Draining pc \<longrightarrow> (\<exists>n. pc = drain_start [] 1 n)"
    "q_closed ?q \<longrightarrow> dropping (pl_consumer s) \<or> q_terminal ?q \<noteq> None \<or> q_next ?q = q_total ?q"
    "\<And>j x. j < q_total ?q \<Longrightarrow> pend ?q j = Some x \<Longrightarrow> item_ok cfg j x"
    "\<And>x. q_terminal ?q = Some x \<Longrightarrow> \<exists>e. x = Inl e"
    using qi by (simp_all add: queue_inv_def Let_def)
  from consumer_queue [OF consumer(2) Q(1-3)] show ?thesis
  proof (elim disjE exE conjE, goal_cases)
    case 1
    with inv show ?case by (simp add: consumer(1) out_inv_def)
  next
    case (2 batch)
    have "0 < length batch" using 2(1) by simp
    then have "q_next ?q < q_next (sh_queue sh)" using took_length [OF 2(2), unfolded list.size] by linarith
    moreover have "q_next (sh_queue sh) \<le> q_total ?q"
      using 2(2) by (auto simp: took_def oq_inv_def)
    ultimately have "q_next ?q \<noteq> q_total ?q" by simp
    then have "in_order cfg (pl_out s)" "length (pl_out s) = q_next ?q"
      using inv by (auto simp: out_inv_def Let_def)
    from in_order_append [OF this(1) 2(2) this(2) Q(4)] 2 show ?case
      by (simp add: consumer(1) out_inv_def)
  next
    case (3 e)
    then obtain e' where e: "e = Inl e'" using Q(5) by blast
    have A: "in_order cfg (pl_out s)" "length (pl_out s) = q_next ?q"
      using inv 3(1) by (auto simp: out_inv_def Let_def)
    have "q_next ?q \<le> q_total ?q" "q_closed ?q" using Q(1) 3(1) by (auto simp: oq_inv_def)
    with A 3 e show ?case
      by (auto simp: consumer(1) out_inv_def Let_def)
  next
    case (4 early)
    with inv show ?case
      by (auto simp: consumer(1) out_inv_def Let_def oq_close_props)
  qed
qed

section \<open>Reachable pipelines\<close>

definition pipeline_inv :: "'m prefetch_config \<Rightarrow> 'm pipeline \<Rightarrow> bool" where
  "pipeline_inv cfg s \<longleftrightarrow> queue_inv cfg s \<and> jobs_inv s \<and> out_inv cfg s"

lemma pipeline_inv_step: "pipeline_step cfg s s' \<Longrightarrow> pipeline_inv cfg s \<Longrightarrow> pipeline_inv cfg s'"
proof (erule pipeline_step.cases, goal_cases)
  case (1 t i sh w)
  then have "oq_inv (sh_queue (pl_shared s))" by (simp add: pipeline_inv_def queue_inv_def Let_def)
  with 1 out_inv_step [OF _ _ _ pipeline_step.worker] show ?case
    by (auto simp: pipeline_inv_def queue_inv_worker jobs_inv_worker)
next
  case (2 t sh c out)
  with out_inv_step [OF _ _ _ pipeline_step.consumer] show ?case
    by (auto simp: pipeline_inv_def intro: queue_inv_consumer jobs_inv_consumer)
qed

section \<open>Bytes\<close>

fun held_bytes :: "'m worker \<Rightarrow> usize" where
  "held_bytes (Acquiring j pc) = acquire_held pc"
| "held_bytes (Decoding j buf charged) = charged"
| "held_bytes (Settling j charged item) = charged"
| "held_bytes (Pushing j item) = item_bytes item"
| "held_bytes (Refused actual) = actual"
| "held_bytes (OpenFailed charged e) = charged"
| "held_bytes _ = 0"

fun consumer_bytes :: "'m consumer \<Rightarrow> usize" where
  "consumer_bytes (Recycling items) = sum_list (map item_bytes items)"
| "consumer_bytes _ = 0"

definition opt_bytes :: "'m item option \<Rightarrow> usize" where
  "opt_bytes x = (case x of None \<Rightarrow> 0 | Some it \<Rightarrow> item_bytes it)"

definition queued_bytes :: "'m item oqueue \<Rightarrow> usize" where
  "queued_bytes q = sum_list (map (\<lambda>j. opt_bytes (pend q j)) [q_next q..<q_total q])"

text \<open>Nothing has gone wrong and nobody has given up.\<close>

definition healthy :: "'m pipeline \<Rightarrow> bool" where
  "healthy s \<longleftrightarrow> \<not> q_closed (sh_queue (pl_shared s)) \<and> \<not> b_closed (sh_budget (pl_shared s)) \<and>
     (\<forall>w\<in>set (pl_workers s). \<not> failing w) \<and> \<not> dropping (pl_consumer s)"

text \<open>
  Every charged byte is a worker's, in the queue, or with the consumer; after a failure or a
  drop some may stay charged for good.
\<close>

definition charged_bytes :: "'m pipeline \<Rightarrow> usize" where
  "charged_bytes s = sum_list (map held_bytes (pl_workers s)) + queued_bytes (sh_queue (pl_shared s)) +
     consumer_bytes (pl_consumer s)"

definition bytes_inv :: "'m pipeline \<Rightarrow> bool" where
  "bytes_inv s \<longleftrightarrow> (\<exists>leak. budget_inv (sh_budget (pl_shared s)) (charged_bytes s + leak) \<and>
     (leak = 0 \<or> \<not> healthy s))"

lemma queued_bytes_put:
  assumes "pend q' = (pend q)(j \<mapsto> x)" "q_next q' = q_next q" "q_total q' = q_total q"
    and "q_next q \<le> j" "j < q_total q" "pend q j = None"
  shows "queued_bytes q' = queued_bytes q + item_bytes x"
proof -
  have "[q_next q..<q_total q] = [q_next q..<j] @ j # [Suc j..<q_total q]"
    using upt_split [of "q_next q" j "q_total q"] upt_conv_Cons [of j "q_total q"] assms(4,5) by simp
  moreover have "map (\<lambda>i. opt_bytes (pend q' i)) [q_next q..<j] = map (\<lambda>i. opt_bytes (pend q i)) [q_next q..<j]"
    "map (\<lambda>i. opt_bytes (pend q' i)) [Suc j..<q_total q] = map (\<lambda>i. opt_bytes (pend q i)) [Suc j..<q_total q]"
    "opt_bytes (pend q' j) = item_bytes x" "opt_bytes (pend q j) = 0"
    using assms(1,6) by (auto simp: opt_bytes_def)
  ultimately show ?thesis
    unfolding queued_bytes_def assms(2,3) by (simp del: map_eq_conv)
qed

lemma queued_bytes_took:
  assumes "took q [] q' batch"
  shows "queued_bytes q = queued_bytes q' + sum_list (map item_bytes batch)"
proof -
  have n: "q_next q \<le> q_next q'" "q_next q' \<le> q_total q" "q_total q' = q_total q"
    and p: "\<And>i. pend q' i = (if i < q_next q' then None else pend q i)"
    and d: "{q_next q..<q_next q'} \<subseteq> dom (pend q)"
    and b: "batch = map (\<lambda>i. the (pend q i)) [q_next q..<q_next q']"
    using assms by (auto simp: took_def oq_inv_def front_items_def)
  have "[q_next q..<q_total q] = [q_next q..<q_next q'] @ [q_next q'..<q_total q]"
    by (rule upt_split [OF n(1,2)])
  moreover have "map (\<lambda>j. opt_bytes (pend q j)) [q_next q..<q_next q'] = map item_bytes batch"
    unfolding b using d by (auto simp: opt_bytes_def subset_iff dest!: bspec)
  moreover have "sum_list (map (\<lambda>j. opt_bytes (pend q' j)) [q_next q'..<q_total q]) =
      sum_list (map (\<lambda>j. opt_bytes (pend q j)) [q_next q'..<q_total q])"
    by (rule arg_cong [where f = sum_list]) (auto simp: p)
  ultimately show ?thesis by (simp add: queued_bytes_def n(3))
qed

lemma queued_bytes_same:
  "pend q' = pend q \<Longrightarrow> q_next q' = q_next q \<Longrightarrow> q_total q' = q_total q \<Longrightarrow> queued_bytes q' = queued_bytes q"
  by (simp add: queued_bytes_def)

text \<open>
  What a worker step does to the charged bytes: they move between the budget and the worker,
  or from the worker into the queue; \<open>lost\<close> bytes belong to a panic.
\<close>

lemma worker_bytes:
  assumes st: "worker_step cfg sh w sh' w'"
    and inv: "budget_inv (sh_budget sh) (rest + held_bytes w)"
  shows "\<exists>into lost. budget_inv (sh_budget sh') (rest + held_bytes w' + into + lost) \<and>
           (lost = 0 \<or> failing w') \<and>
           (into = (case w of Pushing j x \<Rightarrow> if w' = AtTop then item_bytes x else 0 | _ \<Rightarrow> 0))"
  using st
proof cases
  case (acquire_wait pc b pc' j)
  then show ?thesis
    using acquire_resume_law [of "sh_budget sh" rest pc] inv by auto
next
  case (acquire_granted pc b buf charged j)
  then show ?thesis
    using acquire_resume_law [of "sh_budget sh" rest pc] inv by auto
next
  case (acquire_refused pc b j)
  then show ?thesis
    using acquire_resume_law [of "sh_budget sh" rest pc] inv by auto
next
  case (panics e j buf charged)
  then show ?thesis using inv by auto
next
  case (open_fails e j buf charged)
  then show ?thesis using inv by (intro exI [of _ 0] conjI) auto
next
  case (settles charged item b j)
  then show ?thesis
    using budget.settle_law [of "sh_budget sh" rest charged "item_bytes item"] inv by auto
next
  case (refund actual b)
  then show ?thesis
    using budget.settle_zero [of "sh_budget sh" rest actual] inv by auto
next
  case (open_failed charged b e)
  then show ?thesis
    using budget.settle_zero [of "sh_budget sh" rest charged] inv
    by (intro exI [of _ 0] conjI) auto
next
  case (close_budget b e)
  then show ?thesis
    using budget.close_law [of "sh_budget sh" rest] inv
    by (intro exI [of _ 0] conjI) auto
qed (use inv in \<open>auto simp: oq_push_cases\<close>)

end
