(* ===== verification/Prefetch_Live.thy ===== *)
theory Prefetch_Live
  imports Prefetch
begin

text \<open>
  Byte accounting, grant order, freedom from deadlock and termination of the prefetch pipeline
  of theory \<open>Prefetch\<close>, and the properties of the whole.
\<close>

section \<open>Health is lost for good\<close>

lemma worker_health:
  assumes "worker_step cfg sh w sh' w'"
  shows "q_closed (sh_queue sh) \<Longrightarrow> q_closed (sh_queue sh')"
    and "failing w \<Longrightarrow> failing w' \<or> q_closed (sh_queue sh')"
    and "b_closed (sh_budget sh') \<Longrightarrow> b_closed (sh_budget sh) \<or> failing w'"
  using assms
  by (cases; auto simp: oq_push_cases oq_fail_props acquire_closed settle_def budget_close_def split: option.splits)+

lemma consumer_health:
  assumes "consumer_step (sh, c, out) (sh', c', out')"
    and "oq_inv (sh_queue sh)" "\<forall>pc. c = Draining pc \<longrightarrow> (\<exists>n. pc = drain_start [] 1 n)"
    and "q_closed (sh_queue sh) \<longrightarrow> dropping c \<or> q_terminal (sh_queue sh) \<noteq> None \<or>
               q_next (sh_queue sh) = q_total (sh_queue sh)"
  shows "q_closed (sh_queue sh) \<Longrightarrow> q_closed (sh_queue sh')"
  using consumer_queue [OF assms] by (auto simp: took_def oq_close_props)

lemma queue_invD:
  assumes "queue_inv cfg s"
  shows "oq_inv (sh_queue (pl_shared s))"
    and "\<forall>pc. pl_consumer s = Draining pc \<longrightarrow> (\<exists>n. pc = drain_start [] 1 n)"
    and "q_closed (sh_queue (pl_shared s)) \<longrightarrow> dropping (pl_consumer s) \<or>
           q_terminal (sh_queue (pl_shared s)) \<noteq> None \<or>
           q_next (sh_queue (pl_shared s)) = q_total (sh_queue (pl_shared s))"
  using assms by (simp_all add: queue_inv_def Let_def)

lemma healthy_antimono:
  assumes "queue_inv cfg s" "pipeline_step cfg s s'" "healthy s'"
  shows "healthy s"
  using assms(2)
proof cases
  case (worker i sh w)
  have "\<not> failing (pl_workers s ! k)" if k: "k < length (pl_workers s)" for k
  proof (cases "k = i")
    case True
    have "w \<in> set ((pl_workers s)[i := w])" using worker(2) by (rule set_update_memI)
    then show ?thesis
      using True worker_health(2) [OF worker(3)] assms(3) by (auto simp: worker(1) healthy_def)
  next
    case False
    then have "(pl_workers s)[i := w] ! k = pl_workers s ! k" by simp
    then have "pl_workers s ! k \<in> set ((pl_workers s)[i := w])"
      using k by (metis length_list_update nth_mem)
    then show ?thesis using assms(3) by (simp add: worker(1) healthy_def)
  qed
  then show ?thesis
    using assms(3) worker_health(1) [OF worker(3)] worker_budget_closed [OF worker(3)]
    by (auto simp: worker(1) healthy_def in_set_conv_nth)
next
  case (consumer sh c out)
  note q = queue_invD [OF assms(1)]
  show ?thesis
    using assms(3) consumer_health [OF consumer(2) q] consumer_next(2,3) [OF consumer(2) q(1,2)]
    by (auto simp: consumer(1) healthy_def)
qed

section \<open>The bytes are accounted for\<close>

lemma bytes_inv_worker:
  assumes pi: "queue_inv cfg s" "jobs_inv s" and inv: "bytes_inv s"
    and i: "i < length (pl_workers s)" and st: "worker_step cfg (pl_shared s) (pl_workers s ! i) sh w"
  shows "bytes_inv (s\<lparr>pl_shared := sh, pl_workers := (pl_workers s)[i := w]\<rparr>)"
proof -
  let ?s' = "s\<lparr>pl_shared := sh, pl_workers := (pl_workers s)[i := w]\<rparr>"
  let ?q = "sh_queue (pl_shared s)" and ?w = "pl_workers s ! i"
  have Q: "oq_inv ?q" by (rule queue_invD [OF pi(1)])
  obtain leak where leak: "budget_inv (sh_budget (pl_shared s)) (charged_bytes s + leak)" "leak = 0 \<or> \<not> healthy s"
    using inv by (auto simp: bytes_inv_def)
  define rest where "rest = sum_list (map held_bytes (pl_workers s)) - held_bytes ?w +
      queued_bytes ?q + consumer_bytes (pl_consumer s) + leak"
  have le: "held_bytes ?w \<le> sum_list (map held_bytes (pl_workers s))"
    by (rule member_le_sum_list_map [OF i])
  then have "charged_bytes s + leak = rest + held_bytes ?w"
    by (simp add: charged_bytes_def rest_def)
  with leak(1) have b: "budget_inv (sh_budget (pl_shared s)) (rest + held_bytes ?w)" by simp
  obtain into lost where post: "budget_inv (sh_budget sh) (rest + held_bytes w + into + lost)"
      "lost = 0 \<or> failing w"
      "into = (case ?w of Pushing j x \<Rightarrow> if w = AtTop then item_bytes x else 0 | _ \<Rightarrow> 0)"
    using worker_bytes [OF st b] by blast
  have queued: "queued_bytes (sh_queue sh) = queued_bytes ?q + into"
  proof (cases "\<exists>j x. ?w = Pushing j x \<and> w = AtTop")
    case True
    then obtain j x where w: "?w = Pushing j x" "w = AtTop" by blast
    with st have p: "oq_push ?q j x = Return (sh_queue sh) True" by cases auto
    have "holds (pl_workers s) i j" using w i by (simp add: holds_def)
    moreover have op: "\<not> q_closed ?q" using p by (simp add: oq_push_cases)
    ultimately have j: "q_next ?q \<le> j" "j < q_total ?q" "pend ?q j = None"
      using pi(2) by (auto simp: jobs_inv_def Let_def)
    note pp = pushed [OF Q p j(1)]
    show ?thesis
      using queued_bytes_put [OF pp(1,3,4) j] w post(3) by simp
  next
    case False
    then have "into = 0" using post(3) by (cases ?w) auto
    moreover have "queued_bytes (sh_queue sh) = queued_bytes ?q"
      using worker_queue [OF st] False queued_bytes_same [of "oq_fail ?q x" ?q for x]
      by (auto simp: oq_fail_props)
    ultimately show ?thesis by simp
  qed
  have sum: "sum_list (map held_bytes ((pl_workers s)[i := w])) =
      sum_list (map held_bytes (pl_workers s)) - held_bytes ?w + held_bytes w"
    using sum_list_map_update [OF i, of held_bytes w] le by linarith
  have "rest + held_bytes w + into + lost = charged_bytes ?s' + (leak + lost)"
    using queued sum by (simp add: rest_def charged_bytes_def)
  with post(1) have "budget_inv (sh_budget sh) (charged_bytes ?s' + (leak + lost))" by (simp only:)
  moreover have "leak + lost = 0 \<or> \<not> healthy ?s'"
  proof (cases "healthy ?s'")
    case True
    then have "healthy s" by (rule healthy_antimono [OF pi(1) pipeline_step.worker [OF i st]])
    moreover have "\<not> failing w" using True set_update_memI [OF i, of w] by (auto simp: healthy_def)
    ultimately show ?thesis using leak(2) post(2) by simp
  qed simp
  ultimately show ?thesis
    unfolding bytes_inv_def by (intro exI [of _ "leak + lost"]) simp
qed

lemma bytes_inv_consumer:
  assumes qi: "queue_inv cfg s" and inv: "bytes_inv s"
    and st: "consumer_step (pl_shared s, pl_consumer s, pl_out s) (sh, c, out)"
  shows "bytes_inv (s\<lparr>pl_shared := sh, pl_consumer := c, pl_out := out\<rparr>)"
proof -
  let ?s' = "s\<lparr>pl_shared := sh, pl_consumer := c, pl_out := out\<rparr>"
  let ?q = "sh_queue (pl_shared s)" and ?held = "sum_list (map held_bytes (pl_workers s))"
  note Q = queue_invD [OF qi]
  obtain leak where leak: "budget_inv (sh_budget (pl_shared s)) (charged_bytes s + leak)" "leak = 0 \<or> \<not> healthy s"
    using inv by (auto simp: bytes_inv_def)
  have anti: "healthy ?s' \<Longrightarrow> healthy s"
    by (rule healthy_antimono [OF qi pipeline_step.consumer [OF st]])
  have keep: "bytes_inv ?s'" if "budget_inv (sh_budget sh) (charged_bytes ?s' + l)" "l = leak \<or> \<not> healthy ?s'" for l
    using that leak(2) anti unfolding bytes_inv_def by (intro exI [of _ l]) auto
  have same: "bytes_inv ?s'"
    if "queued_bytes (sh_queue sh) = queued_bytes ?q" "consumer_bytes c + d = consumer_bytes (pl_consumer s)"
      "budget_inv (sh_budget sh) (charged_bytes s + leak)" "d = 0 \<or> \<not> healthy ?s'" for d
  proof (rule keep [of "leak + d"])
    have "charged_bytes ?s' + (leak + d) = charged_bytes s + leak"
      using that(1,2) by (simp add: charged_bytes_def)
    with that(3) show "budget_inv (sh_budget sh) (charged_bytes ?s' + (leak + d))" by (simp only:)
    show "leak + d = leak \<or> \<not> healthy ?s'" using that(4) by auto
  qed
  show ?thesis
    using st
  proof cases
    case (drain_wait pc q pc')
    then show ?thesis using drain_min_one [OF Q(1)] Q(2) by fastforce
  next
    case (drained pc q batch k)
    from consumer_queue [OF st Q] show ?thesis
    proof (elim disjE exE conjE, goal_cases)
      case 1
      with drained show ?case by simp
    next
      case (2 b)
      have "charged_bytes ?s' = charged_bytes s"
        using queued_bytes_took [OF 2(2)] 2(4) drained by (auto simp: charged_bytes_def)
      with 2 leak(1) show ?case by (intro keep [of leak]) simp_all
    next
      case (3 e)
      then have "q_closed ?q" using Q(1) by (simp add: oq_inv_def)
      then have bad: "\<not> healthy ?s'" using 3 by (simp add: healthy_def)
      obtain e' where "e = Inl e'" using qi 3(1) by (auto simp: queue_inv_def Let_def)
      then have "charged_bytes ?s' + (queued_bytes ?q + leak) = charged_bytes s + leak"
        using 3 drained by (simp add: charged_bytes_def queued_bytes_def)
      with leak(1) have "budget_inv (sh_budget sh) (charged_bytes ?s' + (queued_bytes ?q + leak))"
        by (simp only: 3)
      with bad show ?case by (intro keep [of "queued_bytes ?q + leak"] disjI2)
    next
      case (4 early)
      with drained show ?case by simp
    qed
  next
    case (drained_end pc q k)
    then have "q = ?q" using drain_min_one [OF Q(1)] Q(2,3) by (fastforce simp: took_def front_items_def)
    with drained_end leak show ?thesis by (intro same [of 0]) simp_all
  next
    case (recycle_ok buf b m items)
    have "budget_inv (sh_budget (pl_shared s))
        (?held + queued_bytes ?q + consumer_bytes (Recycling items) + leak + decoded_buffer_bytes buf)"
      using leak(1) recycle_ok by (simp add: charged_bytes_def algebra_simps)
    from budget.recycle_law [OF this] recycle_ok show ?thesis
      by (intro keep [of leak]) (simp_all add: charged_bytes_def)
  next
    case cancel_idle
    with leak show ?thesis by (intro same [of 0]) simp_all
  next
    case (cancel_batch items)
    with leak show ?thesis by (intro same [of "consumer_bytes (pl_consumer s)"]) (simp_all add: healthy_def)
  next
    case (drop_queue early)
    with leak show ?thesis
      by (intro same [of 0] queued_bytes_same) (simp_all add: oq_close_props)
  next
    case (drop_budget b early)
    with leak budget.close_law [OF leak(1)] show ?thesis by (intro same [of 0]) simp_all
  next
    case (start batch_len)
    with leak show ?thesis by (intro same [of 0]) simp_all
  next
    case (recycle_err e items)
    with leak show ?thesis by (intro same [of 0]) simp_all
  next
    case recycled
    with leak show ?thesis by (intro same [of 0]) simp_all
  qed
qed

section \<open>Grants follow the job order\<close>

fun stage_ok :: "usize \<Rightarrow> 'm worker \<Rightarrow> bool" where
  "stage_ok granted (Acquiring j (AwaitTurn k need)) = (k = j \<and> granted \<le> j)"
| "stage_ok granted (Acquiring j (AwaitFit need buffer credit)) = (j = granted)"
| "stage_ok granted (Decoding j buf charged) = (j < granted)"
| "stage_ok granted (Settling j charged item) = (j < granted)"
| "stage_ok granted (Pushing j item) = (j < granted)"
| "stage_ok granted _ = True"

fun retired :: "'m worker \<Rightarrow> bool" where
  "retired (Refused actual) = True"
| "retired Exited = True"
| "retired _ = False"

text \<open>
  In a healthy pipeline the jobs below \<open>b_next_job\<close> are the granted ones, every claimed job that
  is not delivered is deposited or held by a worker, and workers retire only when no job is left.
\<close>

definition grants_ok :: "'m item oqueue \<Rightarrow> usize \<Rightarrow> usize \<Rightarrow> 'm worker list \<Rightarrow> bool" where
  "grants_ok q granted n ws \<longleftrightarrow> granted \<le> n \<and> q_next q \<le> granted \<and>
     (\<forall>j. j < q_total q \<longrightarrow> pend q j \<noteq> None \<longrightarrow> j < granted) \<and>
     (\<forall>w\<in>set ws. stage_ok granted w) \<and>
     (\<forall>j. q_next q \<le> j \<longrightarrow> j < n \<longrightarrow> j < q_total q \<longrightarrow> pend q j \<noteq> None \<or> (\<exists>i. holds ws i j)) \<and>
     (\<forall>w\<in>set ws. retired w \<longrightarrow> q_total q \<le> n)"

definition grants_inv :: "'m pipeline \<Rightarrow> bool" where
  "grants_inv s \<longleftrightarrow> (healthy s \<longrightarrow>
     grants_ok (sh_queue (pl_shared s)) (b_next_job (sh_budget (pl_shared s)))
       (sh_job_idx (pl_shared s)) (pl_workers s))"

definition close_inv :: "'m pipeline \<Rightarrow> bool" where
  "close_inv s \<longleftrightarrow> (b_closed (sh_budget (pl_shared s)) \<longrightarrow>
     q_closed (sh_queue (pl_shared s)) \<or> (\<exists>w\<in>set (pl_workers s). failing w))"

lemma ball_update: "\<forall>w\<in>set ws. P w \<Longrightarrow> P w' \<Longrightarrow> \<forall>w\<in>set (ws[i := w']). P w"
  using set_update_subset_insert [of ws i w'] by blast

text \<open>Moving one worker along, with the job it holds unchanged.\<close>

lemma grants_ok_move:
  assumes "grants_ok q granted n ws" "held_job w = held_job (ws ! i)" "stage_ok granted w"
    "retired w \<longrightarrow> q_total q \<le> n"
  shows "grants_ok q granted n (ws[i := w])"
proof -
  have "holds (ws[i := w]) = holds ws"
    by (auto simp: fun_eq_iff holds_update) (auto simp: holds_def assms(2))
  then show ?thesis
    using assms ball_update [of ws "stage_ok granted" w i] ball_update [of ws "\<lambda>w. retired w \<longrightarrow> q_total q \<le> n" w i]
    unfolding grants_ok_def by (simp del: Ball_def)
qed

lemma grants_ok_claim:
  assumes "grants_ok q granted n ws" "i < length ws" "held_job (ws ! i) = None"
    "w = Acquiring n (AwaitTurn n need) \<or> w = Exited \<and> q_total q \<le> n"
  shows "grants_ok q granted (Suc n) (ws[i := w])"
proof -
  have old: "holds (ws[i := w]) k j" if "holds ws k j" for k j
    using that assms(3) unfolding holds_def by (cases "k = i") auto
  have "pend q j \<noteq> None \<or> (\<exists>k. holds (ws[i := w]) k j)"
    if "q_next q \<le> j" "j < Suc n" "j < q_total q" for j
  proof (cases "j = n")
    case True
    then have "holds (ws[i := w]) i j"
      using assms(2,4) that(3) by (auto simp: holds_update)
    then show ?thesis by blast
  next
    case False
    with that have "j < n" by simp
    with that assms(1) have "pend q j \<noteq> None \<or> (\<exists>i. holds ws i j)"
      unfolding grants_ok_def by blast
    with old show ?thesis by blast
  qed
  moreover have "\<forall>w\<in>set (ws[i := w]). stage_ok granted w"
    using assms(1,4) by (intro ball_update) (auto simp: grants_ok_def)
  moreover have "\<forall>w\<in>set (ws[i := w]). retired w \<longrightarrow> q_total q \<le> Suc n"
    using assms(1,4) by (intro ball_update) (auto simp: grants_ok_def)
  ultimately show ?thesis using assms(1) by (simp add: grants_ok_def)
qed

lemma grants_ok_grant:
  assumes "grants_ok q granted n ws" "i < length ws" "held_job (ws ! i) = Some granted" "granted < n"
    and unique: "\<And>k. holds ws k granted \<Longrightarrow> k = i"
  shows "grants_ok q (Suc granted) n (ws[i := Decoding granted buf charged])"
proof -
  let ?w = "Decoding granted buf charged"
  have "holds (ws[i := ?w]) = holds ws"
    by (auto simp: fun_eq_iff holds_update) (auto simp: holds_def assms(3))
  moreover have "stage_ok (Suc granted) (ws[i := ?w] ! k)" if k: "k < length ws" for k
  proof (cases "k = i")
    case False
    then have "held_job (ws ! k) \<noteq> Some granted" using unique [of k] k by (auto simp: holds_def)
    moreover have "stage_ok granted (ws ! k)" using assms(1) k by (simp add: grants_ok_def)
    ultimately show ?thesis
      using False by (cases "(granted, ws ! k)" rule: stage_ok.cases) auto
  qed (use k in simp)
  then have "\<forall>w\<in>set (ws[i := ?w]). stage_ok (Suc granted) w"
    by (auto simp: in_set_conv_nth)
  moreover have "\<forall>w\<in>set (ws[i := ?w]). retired w \<longrightarrow> q_total q \<le> n"
    using assms(1) by (intro ball_update) (auto simp: grants_ok_def)
  ultimately show ?thesis using assms(1,4) by (auto simp: grants_ok_def less_Suc_eq)
qed

lemma grants_ok_push:
  assumes "grants_ok q granted n ws" "i < length ws" "ws ! i = Pushing j x"
    and q': "pend q' = (pend q)(j \<mapsto> x)" "q_next q' = q_next q" "q_total q' = q_total q"
  shows "grants_ok q' granted n (ws[i := AtTop])"
proof -
  have "stage_ok granted (ws ! i)" using assms(1,2) by (simp add: grants_ok_def)
  then have j: "j < granted" by (simp add: assms(3))
  have "pend q' k \<noteq> None \<or> (\<exists>i'. holds (ws[i := AtTop]) i' k)"
    if "pend q k \<noteq> None \<or> (\<exists>i'. holds ws i' k)" for k
  proof (cases "k = j")
    case False
    then have "\<not> holds ws i k" by (simp add: holds_def assms(3))
    with that False show ?thesis by (auto simp: q' holds_update) (metis holds_def)
  qed (simp add: q')
  moreover have "\<forall>w\<in>set (ws[i := AtTop]). stage_ok granted w"
    using assms(1) by (intro ball_update) (auto simp: grants_ok_def)
  moreover have "\<forall>w\<in>set (ws[i := AtTop]). retired w \<longrightarrow> q_total q \<le> n"
    using assms(1) by (intro ball_update) (auto simp: grants_ok_def)
  ultimately show ?thesis using assms(1) j by (auto simp: grants_ok_def q'(2,3)) (auto simp: q'(1) split: if_splits)
qed

lemma settle_next: "settle b charged actual = Some b' \<Longrightarrow> b_next_job b' = b_next_job b"
  by (auto simp: settle_def split: option.splits)

lemma grants_ok_took:
  assumes "grants_ok q granted n ws" "took q [] q' batch"
  shows "grants_ok q' granted n ws"
proof -
  have t: "{q_next q..<q_next q'} \<subseteq> dom (pend q)" "q_next q' \<le> q_total q" "q_total q' = q_total q"
    "\<And>i. pend q' i = (if i < q_next q' then None else pend q i)" "q_next q \<le> q_next q'"
    using assms(2) by (auto simp: took_def oq_inv_def)
  have "q_next q' \<le> granted"
  proof (rule ccontr)
    assume n: "\<not> q_next q' \<le> granted"
    then have "granted \<in> {q_next q..<q_next q'}" using assms(1) by (simp add: grants_ok_def)
    then have "pend q granted \<noteq> None" using t(1) by blast
    moreover have "granted < q_total q" using n t(2) by simp
    moreover have "\<forall>j. j < q_total q \<longrightarrow> pend q j \<noteq> None \<longrightarrow> j < granted"
      using assms(1) by (simp add: grants_ok_def)
    ultimately show False by blast
  qed
  with assms(1) t(2-5) show ?thesis by (auto simp: grants_ok_def split: if_splits)
qed

lemma holds_nth: "i < length ws \<Longrightarrow> held_job (ws ! i) = Some j \<Longrightarrow> holds ws i j"
  by (simp add: holds_def)

lemma healthy_worker:
  assumes "healthy (s\<lparr>pl_shared := sh, pl_workers := (pl_workers s)[i := w]\<rparr>)" "i < length (pl_workers s)"
  shows "\<not> q_closed (sh_queue sh)" "\<not> b_closed (sh_budget sh)" "\<not> failing w"
  using assms set_update_memI [of i "pl_workers s" w] by (auto simp: healthy_def)

lemma grants_inv_worker:
  assumes qi: "queue_inv cfg s" "jobs_inv s" and bi: "bytes_inv s" and inv: "grants_inv s"
    and i: "i < length (pl_workers s)" and st: "worker_step cfg (pl_shared s) (pl_workers s ! i) sh w"
  shows "grants_inv (s\<lparr>pl_shared := sh, pl_workers := (pl_workers s)[i := w]\<rparr>)"
  unfolding grants_inv_def
proof (intro impI)
  let ?s' = "s\<lparr>pl_shared := sh, pl_workers := (pl_workers s)[i := w]\<rparr>"
  let ?q = "sh_queue (pl_shared s)" and ?b = "sh_budget (pl_shared s)" and ?n = "sh_job_idx (pl_shared s)"
  let ?ws = "pl_workers s"
  assume h': "healthy ?s'"
  note h = healthy_worker [OF h' i]
  have hs: "healthy s" by (rule healthy_antimono [OF qi(1) pipeline_step.worker [OF i st] h'])
  then have op: "\<not> q_closed ?q" "\<not> b_closed ?b" by (simp_all add: healthy_def)
  have G: "grants_ok ?q (b_next_job ?b) ?n ?ws" using inv hs by (simp add: grants_inv_def)
  have J: "\<And>i j. holds ?ws i j \<Longrightarrow> q_next ?q \<le> j \<and> j < ?n \<and> j < q_total ?q \<and> pend ?q j = None"
    "\<And>i k j. holds ?ws i j \<Longrightarrow> holds ?ws k j \<Longrightarrow> i = k"
    using qi(2) op by (simp_all add: jobs_inv_def Let_def)
  have stage: "stage_ok (b_next_job ?b) (?ws ! i)" using G i by (simp add: grants_ok_def)
  obtain leak where leak: "budget_inv ?b (charged_bytes s + leak)" using bi by (auto simp: bytes_inv_def)
  define rest where "rest = sum_list (map held_bytes ?ws) - held_bytes (?ws ! i) +
      queued_bytes ?q + consumer_bytes (pl_consumer s) + leak"
  have "charged_bytes s + leak = rest + held_bytes (?ws ! i)"
    using member_le_sum_list_map [OF i, of held_bytes] by (simp add: charged_bytes_def rest_def)
  with leak have b: "budget_inv ?b (rest + held_bytes (?ws ! i))" by simp
  have "grants_ok (sh_queue sh) (b_next_job (sh_budget sh)) (sh_job_idx sh) (?ws[i := w])"
    using st
  proof cases
    case top_open
    then show ?thesis using G by (simp add: grants_ok_move)
  next
    case (claim j)
    then show ?thesis using G i by (auto intro!: grants_ok_claim)
  next
    case (claim_end j)
    then show ?thesis using G i by (auto intro!: grants_ok_claim)
  next
    case (acquire_wait pc b' pc' j)
    have law: "b_next_job b' = b_next_job ?b" "(\<exists>need buffer credit. pc' = AwaitFit need buffer credit)"
      "(\<forall>j need. pc = AwaitTurn j need \<longrightarrow> b_next_job ?b = j)"
      using acquire_resume_law [of ?b rest pc] b acquire_wait by auto
    have "stage_ok (b_next_job ?b) w"
      using stage law acquire_wait by (cases pc) auto
    with G acquire_wait law(1) show ?thesis by (simp add: grants_ok_move)
  next
    case (acquire_granted pc b' buf charged j)
    have law: "b_next_job b' = Suc (b_next_job ?b)" "(\<forall>j need. pc = AwaitTurn j need \<longrightarrow> b_next_job ?b = j)"
      using acquire_resume_law [of ?b rest pc] b acquire_granted by auto
    have j: "j = b_next_job ?b" using stage law(2) acquire_granted by (cases pc) auto
    have hj: "holds ?ws i j" using i acquire_granted by (intro holds_nth) auto
    show ?thesis
      using grants_ok_grant [OF G i, of buf charged] J [OF hj] J(2) [OF _ hj] hj
      by (simp add: acquire_granted law(1) j holds_def)
  next
    case (decodes item j buf charged)
    then show ?thesis using G stage by (auto intro!: grants_ok_move)
  next
    case (settles charged item b' j)
    then show ?thesis using G stage by (auto intro!: grants_ok_move simp: settle_next)
  next
    case (pushes j item q)
    have Q: "oq_inv ?q" by (rule queue_invD [OF qi(1)])
    have hj: "holds ?ws i j" using i pushes by (intro holds_nth) auto
    have "q_next ?q \<le> j" using J(1) [OF hj] by simp
    from pushed [OF Q pushes(4) this] grants_ok_push [OF G i pushes(1)] show ?thesis
      by (simp add: pushes)
  next
    case (push_refused j item q)
    then show ?thesis using op by (simp add: oq_push_cases)
  next
    case (refund actual b')
    moreover have "retired (?ws ! i)" using refund by simp
    then have "q_total ?q \<le> ?n" using G i by (auto simp: grants_ok_def)
    ultimately show ?thesis using G by (auto intro!: grants_ok_move simp: settle_next)
  next
    case (acquire_refused pc b' j)
    then show ?thesis using acquire_resume_law [of ?b rest pc] b op by auto
  qed (use h op in \<open>auto simp: oq_is_closed_def oq_fail_props\<close>)
  then show "grants_ok (sh_queue (pl_shared ?s')) (b_next_job (sh_budget (pl_shared ?s')))
      (sh_job_idx (pl_shared ?s')) (pl_workers ?s')" by simp
qed

lemma consumer_grants:
  assumes "consumer_step (sh, c, out) (sh', c', out')"
  shows "b_next_job (sh_budget sh') = b_next_job (sh_budget sh)"
    and "b_closed (sh_budget sh') \<longrightarrow> b_closed (sh_budget sh) \<or> c' = Dropped True \<or> c' = Dropped False"
  using assms
  by (cases; auto simp: recycle_def budget_close_def split: if_splits)+

lemma grants_inv_consumer:
  assumes qi: "queue_inv cfg s" and inv: "grants_inv s"
    and st: "consumer_step (pl_shared s, pl_consumer s, pl_out s) (sh, c, out)"
  shows "grants_inv (s\<lparr>pl_shared := sh, pl_consumer := c, pl_out := out\<rparr>)"
  unfolding grants_inv_def
proof (intro impI)
  let ?s' = "s\<lparr>pl_shared := sh, pl_consumer := c, pl_out := out\<rparr>"
  assume h': "healthy ?s'"
  have hs: "healthy s" by (rule healthy_antimono [OF qi pipeline_step.consumer [OF st] h'])
  then have G: "grants_ok (sh_queue (pl_shared s)) (b_next_job (sh_budget (pl_shared s)))
      (sh_job_idx (pl_shared s)) (pl_workers s)" using inv by (simp add: grants_inv_def)
  note Q = queue_invD [OF qi]
  have op: "\<not> q_closed (sh_queue sh)" "\<not> q_closed (sh_queue (pl_shared s))" using h' hs by (simp_all add: healthy_def)
  from consumer_queue [OF st Q] have "grants_ok (sh_queue sh) (b_next_job (sh_budget (pl_shared s)))
      (sh_job_idx sh) (pl_workers s)"
  proof (elim disjE exE conjE, goal_cases)
    case (3 e)
    then show ?case using Q(1) op by (simp add: oq_inv_def)
  next
    case (4 early)
    then show ?case using op by (simp add: oq_close_props)
  qed (use G in \<open>auto dest: grants_ok_took\<close>)
  then show "grants_ok (sh_queue (pl_shared ?s')) (b_next_job (sh_budget (pl_shared ?s')))
      (sh_job_idx (pl_shared ?s')) (pl_workers ?s')"
    using consumer_grants(1) [OF st] by simp
qed

lemma close_inv_step:
  assumes qi: "queue_inv cfg s" and inv: "close_inv s" and st: "pipeline_step cfg s s'"
  shows "close_inv s'"
  using st
proof cases
  case (worker i sh w)
  have w: "w \<in> set ((pl_workers s)[i := w])" by (rule set_update_memI [OF worker(2)])
  show ?thesis
    unfolding close_inv_def
  proof (intro impI)
    assume "b_closed (sh_budget (pl_shared s'))"
    then have "b_closed (sh_budget (pl_shared s)) \<or> failing w"
      using worker_health(3) [OF worker(3)] by (simp add: worker(1))
    then consider "failing w" | "q_closed (sh_queue (pl_shared s))"
      | k where "k < length (pl_workers s)" "failing (pl_workers s ! k)"
      using inv by (auto simp: close_inv_def in_set_conv_nth)
    then show "q_closed (sh_queue (pl_shared s')) \<or> (\<exists>w\<in>set (pl_workers s'). failing w)"
    proof cases
      case 1
      with w show ?thesis by (auto simp: worker(1))
    next
      case 2
      then show ?thesis using worker_health(1) [OF worker(3)] by (simp add: worker(1))
    next
      case 3
      show ?thesis
      proof (cases "k = i")
        case True
        with 3 w worker_health(2) [OF worker(3)] show ?thesis by (auto simp: worker(1))
      next
        case False
        then have "(pl_workers s)[i := w] ! k = pl_workers s ! k" by simp
        with 3 show ?thesis by (auto simp: worker(1)) (metis length_list_update nth_mem)
      qed
    qed
  qed
next
  case (consumer sh c out)
  note Q = queue_invD [OF qi]
  show ?thesis
    unfolding close_inv_def
  proof (intro impI)
    assume "b_closed (sh_budget (pl_shared s'))"
    then have "b_closed (sh_budget (pl_shared s)) \<or> c = Dropped True \<or> c = Dropped False"
      using consumer_grants(2) [OF consumer(2)] by (simp add: consumer(1))
    moreover have "queue_inv cfg s'"
      unfolding consumer(1) by (rule queue_inv_consumer [OF consumer(2) qi])
    moreover have "q_closed (sh_queue (pl_shared s)) \<Longrightarrow> q_closed (sh_queue sh)"
      by (rule consumer_health [OF consumer(2) Q])
    ultimately show "q_closed (sh_queue (pl_shared s')) \<or> (\<exists>w\<in>set (pl_workers s'). failing w)"
      using inv by (auto simp: close_inv_def consumer(1) queue_inv_def Let_def)
  qed
qed

section \<open>All invariants of reachable pipelines\<close>

definition live_inv :: "'m prefetch_config \<Rightarrow> 'm pipeline \<Rightarrow> bool" where
  "live_inv cfg s \<longleftrightarrow> pipeline_inv cfg s \<and> bytes_inv s \<and> grants_inv s \<and> close_inv s \<and>
     (q_total (sh_queue (pl_shared s)) = 0 \<or> pl_workers s \<noteq> [])"

lemma worker_total: "worker_step cfg sh w sh' w' \<Longrightarrow> q_total (sh_queue sh') = q_total (sh_queue sh)"
  by (cases rule: worker_step.cases) (auto simp: oq_push_cases oq_fail_props)

lemma pipeline_total:
  assumes "pipeline_step cfg s s'" "queue_inv cfg s"
  shows "q_total (sh_queue (pl_shared s')) = q_total (sh_queue (pl_shared s))"
    and "length (pl_workers s') = length (pl_workers s)"
proof -
  show "q_total (sh_queue (pl_shared s')) = q_total (sh_queue (pl_shared s))"
    using assms(1)
  proof cases
    case (worker i sh w)
    then show ?thesis using worker_total by simp
  next
    case (consumer sh c out)
    from consumer_queue [OF consumer(2) queue_invD [OF assms(2)]] show ?thesis
      by (auto simp: consumer(1) took_def oq_close_props)
  qed
  show "length (pl_workers s') = length (pl_workers s)"
    using assms(1) by cases auto
qed

lemma live_inv_step:
  assumes "pipeline_step cfg s s'" "live_inv cfg s"
  shows "live_inv cfg s'"
proof -
  have "pipeline_inv cfg s'" "close_inv s'"
    using assms pipeline_inv_step close_inv_step by (auto simp: live_inv_def pipeline_inv_def)
  moreover have "bytes_inv s'" "grants_inv s'"
    using assms(1)
    by (cases; use assms(2) in \<open>auto simp: live_inv_def pipeline_inv_def
        intro: bytes_inv_worker bytes_inv_consumer grants_inv_worker grants_inv_consumer\<close>)+
  moreover have "q_total (sh_queue (pl_shared s')) = 0 \<or> pl_workers s' \<noteq> []"
    using pipeline_total [OF assms(1)] assms(2) by (auto simp: live_inv_def pipeline_inv_def)
  ultimately show ?thesis by (simp add: live_inv_def)
qed

abbreviation spawned :: "'m prefetch_config \<Rightarrow> usize \<Rightarrow> usize \<Rightarrow> usize \<Rightarrow> usize \<Rightarrow> 'm pipeline \<Rightarrow> bool" where
  "spawned cfg capacity workers limit jobs s \<equiv>
     (pipeline_step cfg)\<^sup>*\<^sup>* (spawn_with_budget capacity workers limit jobs) s"

lemma live_inv_spawn:
  fixes cfg :: "'m prefetch_config"
  shows "live_inv cfg (spawn_with_budget capacity workers limit jobs)"
proof -
  define s where "s = (spawn_with_budget capacity workers limit jobs :: 'm pipeline)"
  have q: "sh_queue (pl_shared s) = oq_new (max capacity 16) jobs"
    "sh_budget (pl_shared s) = budget_new limit (max capacity 16)"
    "sh_job_idx (pl_shared s) = 0" "pl_consumer s = Idle" "pl_out s = []"
    "set (pl_workers s) \<subseteq> {AtTop}"
    by (auto simp: s_def spawn_with_budget_def)
  have new: "q_next (oq_new c n) = 0" "q_total (oq_new c n) = n" "q_closed (oq_new c n) = False"
    "q_terminal (oq_new c n) = None" for c n :: nat
    by (simp_all add: oq_new_def Let_def)
  have w: "\<And>w. w \<in> set (pl_workers s) \<Longrightarrow> w = AtTop" using q(6) by blast
  have nohold: "\<not> holds (pl_workers s) i j" for i j
    using w nth_mem by (fastforce simp: holds_def)
  have "pipeline_inv cfg s"
    unfolding pipeline_inv_def queue_inv_def jobs_inv_def out_inv_def Let_def in_order_def
    using q w nohold by (auto simp: new)
  moreover have "charged_bytes s = 0"
    by (auto simp: charged_bytes_def q queued_bytes_def new opt_bytes_def dest: w)
  then have "bytes_inv s"
    unfolding bytes_inv_def q(2) by (intro exI [of _ 0]) simp
  moreover have "grants_inv s"
    by (auto simp: grants_inv_def grants_ok_def q new budget_new_def dest: w)
  moreover have "close_inv s"
    by (simp add: close_inv_def q budget_new_def)
  moreover have "q_total (sh_queue (pl_shared s)) = 0 \<or> pl_workers s \<noteq> []"
    by (auto simp: s_def spawn_with_budget_def oq_new_def Let_def max_def)
  ultimately show ?thesis by (simp add: live_inv_def flip: s_def)
qed

lemma live_inv_reachable: "spawned cfg capacity workers limit jobs s \<Longrightarrow> live_inv cfg s"
  by (induction rule: rtranclp_induct) (auto intro: live_inv_spawn live_inv_step)

section \<open>No deadlock\<close>

text \<open>The run is over: the reader is dropped and every worker thread has ended, so the joins return.\<close>

definition finished :: "'m pipeline \<Rightarrow> bool" where
  "finished s \<longleftrightarrow> (\<exists>early. pl_consumer s = Dropped early) \<and> (\<forall>w\<in>set (pl_workers s). w = Exited)"

text \<open>A worker that cannot step has ended or waits: for bytes or its turn, or for room in the queue.\<close>

lemma worker_stuck:
  assumes stuck: "\<And>sh' w'. \<not> worker_step cfg sh w sh' w'"
    and b: "budget_inv (sh_budget sh) (rest + held_bytes w)"
    and total: "\<And>j buf. decoding cfg j buf \<noteq> {}"
  shows "w = Exited \<or>
         (\<exists>j pc. w = Acquiring j pc \<and> \<not> b_closed (sh_budget sh) \<and>
            ((\<exists>k need. pc = AwaitTurn k need \<and> b_next_job (sh_budget sh) \<noteq> k) \<or>
             rest \<noteq> 0 \<and> (\<exists>need buffer credit. pc = AwaitFit need buffer credit))) \<or>
         (\<exists>j item. w = Pushing j item \<and> \<not> q_closed (sh_queue sh) \<and>
            j \<ge> q_next (sh_queue sh) + q_capacity (sh_queue sh))"
proof (cases w)
  case AtTop
  then show ?thesis using stuck worker_step.top_closed worker_step.top_open by metis
next
  case Claiming
  then show ?thesis using stuck worker_step.claim worker_step.claim_end by (metis not_le_imp_less)
next
  case (Acquiring j pc)
  note law = acquire_resume_law [of "sh_budget sh" rest pc]
  show ?thesis
  proof (cases "acquire_resume (sh_budget sh) pc")
    case (Sleep b' pc')
    then have "(b', pc') = (sh_budget sh, pc)"
      using stuck Acquiring worker_step.acquire_wait by metis
    with law b Acquiring Sleep show ?thesis by auto
  next
    case (Return b' r)
    show ?thesis
    proof (cases r)
      case None
      then show ?thesis using stuck Acquiring Return worker_step.acquire_refused by metis
    next
      case (Some g)
      obtain buf charged where "g = (buf, charged)" by (cases g)
      with Some Return have "acquire_resume (sh_budget sh) pc = Return b' (Some (buf, charged))" by simp
      from worker_step.acquire_granted [OF this, of cfg j] stuck Acquiring show ?thesis by blast
    qed
  next
    case Panic
    with law b Acquiring show ?thesis by simp
  qed
next
  case (Decoding j buf charged)
  obtain a where "a \<in> decoding cfg j buf" using total [of j buf] by blast
  then have "\<exists>w'. worker_step cfg sh w sh w'"
    unfolding Decoding
    by (cases a) (auto intro: worker_step.open_fails worker_step.decodes worker_step.panics)
  with stuck show ?thesis by blast
next
  case (Settling j charged item)
  then show ?thesis
    using stuck worker_step.settles budget.settle_law [of "sh_budget sh" rest charged "item_bytes item"] b
    by (metis held_bytes.simps(3))
next
  case (Pushing j item)
  show ?thesis
  proof (cases "oq_push (sh_queue sh) j item")
    case (Return q r)
    then show ?thesis
      using stuck Pushing worker_step.pushes [of sh j item q cfg] worker_step.push_refused [of sh j item q cfg]
      by (cases r) auto
  qed (use Pushing in \<open>auto simp: oq_push_def split: if_splits\<close>)
next
  case (Refused actual)
  then show ?thesis
    using stuck worker_step.refund budget.settle_zero [of "sh_budget sh" rest actual] b
    by (metis held_bytes.simps(5))
next
  case (OpenFailed charged e)
  then show ?thesis
    using stuck worker_step.open_failed budget.settle_zero [of "sh_budget sh" rest charged] b
    by (metis held_bytes.simps(6))
next
  case (ClosingBudget e)
  then show ?thesis
    using stuck worker_step.close_budget budget.close_law [OF b] by metis
next
  case (Failing e)
  then show ?thesis using stuck worker_step.fails by metis
qed simp

text \<open>A consumer that can do nothing but give up early is done or waits for the next job.\<close>

lemma consumer_stuck:
  assumes stuck: "\<And>sh' c' out'. consumer_step (sh, c, out) (sh', c', out') \<Longrightarrow> c' = Dropping True"
    and b: "budget_inv (sh_budget sh) (rest + consumer_bytes c)"
    and Q: "oq_inv (sh_queue sh)" "\<forall>pc. c = Draining pc \<longrightarrow> (\<exists>n. pc = drain_start [] 1 n)"
  shows "(\<exists>early. c = Dropped early) \<or> (\<exists>pc. c = Draining pc) \<and> starved (sh_queue sh)"
proof (cases c)
  case Idle
  then show ?thesis using stuck [of sh "Draining (drain_start [] 1 0)" out] consumer_step.start by blast
next
  case (Draining pc)
  show ?thesis
  proof (cases "drain_resume (sh_queue sh) pc")
    case (Return q r)
    obtain batch k where r: "r = (batch, k)" by (cases r)
    show ?thesis
    proof (cases "batch = []")
      case True
      with Return r have "drain_resume (sh_queue sh) pc = Return q ([], k)" by simp
      from consumer_step.drained_end [OF this] stuck Draining show ?thesis by blast
    next
      case False
      from Return r have "drain_resume (sh_queue sh) pc = Return q (batch, k)" by simp
      from consumer_step.drained [OF this False] stuck Draining show ?thesis by blast
    qed
  next
    case (Sleep q pc')
    with drain_min_one [OF Q(1)] Q(2) Draining show ?thesis by fastforce
  next
    case Panic
    with drain_min_one [OF Q(1)] Q(2) Draining show ?thesis by fastforce
  qed
next
  case (Recycling items)
  show ?thesis
  proof (cases items)
    case Nil
    then show ?thesis using stuck Recycling consumer_step.recycled by blast
  next
    case (Cons x xs)
    show ?thesis
    proof (cases x)
      case (Inl e)
      then show ?thesis using stuck Recycling Cons consumer_step.recycle_err by blast
    next
      case (Inr p)
      obtain m buf where p: "p = (m, buf)" by (cases p)
      have "budget_inv (sh_budget sh) (rest + consumer_bytes (Recycling xs) + decoded_buffer_bytes buf)"
        using b Recycling Cons Inr p by (simp add: algebra_simps)
      from budget.recycle_law [OF this] obtain b' where "recycle (sh_budget sh) buf = Some b'" by blast
      from consumer_step.recycle_ok [OF this] stuck Recycling Cons Inr p show ?thesis by blast
    qed
  qed
next
  case (Dropping early)
  then show ?thesis using stuck consumer_step.drop_queue by blast
next
  case (DroppingBudget early)
  then show ?thesis
    using stuck consumer_step.drop_budget budget.close_law [OF b] by blast
qed simp

lemma holds_pc:
  "holds ws i j \<Longrightarrow> ws ! i = Exited \<Longrightarrow> False"
  by (simp add: holds_def)

text \<open>If every worker is stuck and the next job is missing from the open queue, something is wrong.\<close>

lemma not_all_stuck:
  assumes inv: "live_inv cfg s" and st: "starved (sh_queue (pl_shared s))"
    and dr: "\<exists>pc. pl_consumer s = Draining pc"
    and stuck: "\<And>i sh w. i < length (pl_workers s) \<Longrightarrow> \<not> worker_step cfg (pl_shared s) (pl_workers s ! i) sh w"
    and total: "\<And>j buf. decoding cfg j buf \<noteq> {}"
  shows False
proof -
  let ?q = "sh_queue (pl_shared s)" and ?b = "sh_budget (pl_shared s)" and ?n = "sh_job_idx (pl_shared s)"
  let ?ws = "pl_workers s" and ?g = "b_next_job (sh_budget (pl_shared s))"
  have qi: "queue_inv cfg s" "jobs_inv s" and bi: "bytes_inv s" and gi: "grants_inv s" and ci: "close_inv s"
    and ne: "q_total ?q = 0 \<or> ?ws \<noteq> []"
    using inv by (simp_all add: live_inv_def pipeline_inv_def)
  have Q: "oq_inv ?q" by (rule queue_invD [OF qi(1)])
  have q: "q_next ?q < q_total ?q" "pend ?q (q_next ?q) = None" "\<not> q_closed ?q" "0 < q_capacity ?q"
    using st oq_front_pend [OF Q] Q by (simp_all add: starved_def oq_inv_def)
  obtain leak where leak: "budget_inv ?b (charged_bytes s + leak)" "leak = 0 \<or> \<not> healthy s"
    using bi by (auto simp: bytes_inv_def)
  define rest where "rest i = sum_list (map held_bytes ?ws) - held_bytes (?ws ! i) +
      queued_bytes ?q + consumer_bytes (pl_consumer s) + leak" for i
  have "charged_bytes s + leak = rest i + held_bytes (?ws ! i)" if "i < length ?ws" for i
    using member_le_sum_list_map [OF that, of held_bytes] by (simp add: charged_bytes_def rest_def)
  then have b: "budget_inv ?b (rest i + held_bytes (?ws ! i))" if "i < length ?ws" for i
    using leak(1) that by simp
  note ws = worker_stuck [OF stuck b total]
  have nofail: "\<forall>w\<in>set ?ws. \<not> failing w"
  proof
    fix w assume "w \<in> set ?ws"
    then obtain i where i: "i < length ?ws" "?ws ! i = w" by (auto simp: in_set_conv_nth)
    from ws [OF i(1) i(1)] show "\<not> failing w" unfolding i(2) by auto
  qed
  then have bo: "\<not> b_closed ?b" using ci q(3) by (auto simp: close_inv_def)
  have hs: "healthy s" using nofail bo q(3) dr by (auto simp: healthy_def)
  then have G: "grants_ok ?q ?g ?n ?ws" and leak0: "leak = 0" using gi leak(2) by (simp_all add: grants_inv_def)
  have J: "q_next ?q \<le> ?n" "\<And>i j. holds ?ws i j \<Longrightarrow> q_next ?q \<le> j \<and> j < ?n"
    "\<And>i k j. holds ?ws i j \<Longrightarrow> holds ?ws k j \<Longrightarrow> i = k"
    using qi(2) q(3) by (simp_all add: jobs_inv_def Let_def)
  have stage: "stage_ok ?g (?ws ! i)" if "i < length ?ws" for i using G that by (simp add: grants_ok_def)
  have ahead: "q_next ?q \<le> ?g" using G by (simp add: grants_ok_def)
  show False
  proof (cases "q_next ?q < ?n")
    case True
    then obtain i where h: "holds ?ws i (q_next ?q)"
      using G q(1,2) unfolding grants_ok_def by blast
    then have i: "i < length ?ws" "held_job (?ws ! i) = Some (q_next ?q)" by (simp_all add: holds_def)
    have waits: "rest i \<noteq> 0 \<and> ?g = q_next ?q"
      using ws [OF i(1) i(1)]
    proof (elim disjE exE conjE)
      assume "?ws ! i = Exited"
      with i(2) show ?thesis by simp
    next
      fix j item
      assume "?ws ! i = Pushing j item" "q_next ?q + q_capacity ?q \<le> j"
      with i(2) q(4) show ?thesis by simp
    next
      fix j pc k need
      assume "?ws ! i = Acquiring j pc" "pc = AwaitTurn k need" "?g \<noteq> k"
      with i(2) stage [OF i(1)] ahead show ?thesis by simp
    next
      fix j pc need buffer credit
      assume "?ws ! i = Acquiring j pc" "pc = AwaitFit need buffer credit" "rest i \<noteq> 0"
      with i(2) stage [OF i(1)] show ?thesis by simp
    qed
    then have rest0: "rest i \<noteq> 0" and g: "?g = q_next ?q" by simp_all
    have others: "held_bytes (?ws ! k) = 0" if k: "k < length ?ws" "k \<noteq> i" for k
      using ws [OF k(1) k(1)]
    proof (elim disjE exE conjE)
      fix j item
      assume w: "?ws ! k = Pushing j item"
      then have "j < ?g" using stage [OF k(1)] by simp
      moreover have "q_next ?q \<le> j" using J(2) [of k j] w k by (simp add: holds_def)
      ultimately show ?thesis using g by simp
    next
      fix j pc need' buffer' credit'
      assume w: "?ws ! k = Acquiring j pc" "pc = AwaitFit need' buffer' credit'"
      then have "j = q_next ?q" using stage [OF k(1)] g by simp
      then have "k = i" using J(3) [OF _ h] w k by (simp add: holds_def)
      with k show ?thesis by simp
    qed auto
    have "held_bytes (?ws[i := AtTop] ! k) = 0" if "k < length ?ws" for k
      using that i(1) others [of k] by (cases "k = i") simp_all
    then have "sum_list (map held_bytes (?ws[i := AtTop])) = 0"
      by (auto simp: in_set_conv_nth)
    then have "sum_list (map held_bytes ?ws) = held_bytes (?ws ! i)"
      using sum_list_map_update [OF i(1), of held_bytes AtTop] by (metis add_0 add_0_right held_bytes.simps(7))
    moreover have "pend ?q j = None" if "q_next ?q \<le> j" "j < q_total ?q" for j
      using G g that by (auto simp: grants_ok_def)
    then have "queued_bytes ?q = 0" by (auto simp: queued_bytes_def opt_bytes_def)
    ultimately have "rest i = 0" using dr leak0 by (auto simp: rest_def)
    with rest0 show False by simp
  next
    case False
    have "?ws \<noteq> []" using ne q(1) by linarith
    then have i: "0 < length ?ws" by simp
    have "held_job (?ws ! 0) = None"
    proof (rule ccontr)
      assume "held_job (?ws ! 0) \<noteq> None"
      then obtain j where "held_job (?ws ! 0) = Some j" by blast
      with i have "holds ?ws 0 j" by (rule holds_nth)
      from J(2) [OF this] False show False by simp
    qed
    with ws [OF i i] have "?ws ! 0 = Exited" by auto
    moreover have "?ws ! 0 \<in> set ?ws" using i by simp
    moreover have "\<forall>w\<in>set ?ws. retired w \<longrightarrow> q_total ?q \<le> ?n"
      using G by (simp add: grants_ok_def)
    ultimately have "q_total ?q \<le> ?n" using retired.simps(2) by metis
    with False q(1) show False by simp
  qed
qed

section \<open>Every run ends\<close>

text \<open>
  A bound on the steps left. An unclaimed job is worth 13, a job under way what is left of its
  stages, a deposited result 6, a delivered one 2 and an idle buffer 1.
\<close>

fun worker_work :: "'m worker \<Rightarrow> nat" where
  "worker_work Exited = 0"
| "worker_work (Refused actual) = 1"
| "worker_work (Failing e) = 7"
| "worker_work (ClosingBudget e) = 8"
| "worker_work (OpenFailed charged e) = 9"
| "worker_work Claiming = 9"
| "worker_work AtTop = 10"
| "worker_work (Pushing j item) = 17"
| "worker_work (Settling j charged item) = 18"
| "worker_work (Decoding j buf charged) = 19"
| "worker_work (Acquiring j (AwaitFit need buffer credit)) = 20"
| "worker_work (Acquiring j (AwaitTurn k need)) = 21"

fun consumer_work :: "'m consumer \<Rightarrow> nat" where
  "consumer_work (Dropped early) = 0"
| "consumer_work (DroppingBudget early) = 1"
| "consumer_work (Dropping early) = 2"
| "consumer_work (Draining pc) = 3"
| "consumer_work Idle = 4"
| "consumer_work (Recycling items) = 5 + 2 * length items"

definition queue_work :: "'m item oqueue \<Rightarrow> nat" where
  "queue_work q = 6 * card {j. q_next q \<le> j \<and> j < q_total q \<and> pend q j \<noteq> None} +
     (if q_terminal q = None then 0 else 6)"

definition shared_work :: "'m shared \<Rightarrow> nat" where
  "shared_work sh = queue_work (sh_queue sh) + length (b_idle (sh_budget sh)) +
     13 * (q_total (sh_queue sh) - sh_job_idx sh)"

definition work :: "'m pipeline \<Rightarrow> nat" where
  "work s = shared_work (pl_shared s) + sum_list (map worker_work (pl_workers s)) +
     consumer_work (pl_consumer s)"

lemma finite_pending: "finite {j. q_next q \<le> j \<and> j < q_total q \<and> pend q j \<noteq> None}"
  by (rule finite_subset [of _ "{..<q_total q}"]) auto

text \<open>A section of \<open>acquire\<close> never adds an idle buffer; when it only shrinks the pool it has shrunk it.\<close>

lemma acquire_fit_idle:
  "(acquire_fit st need buf credit = Sleep b pc' \<longrightarrow> length (b_idle b) < length (b_idle st) \<or> b = st) \<and>
   (acquire_fit st need buf credit = Return b r \<longrightarrow> length (b_idle b) \<le> length (b_idle st)) \<and>
   (acquire_fit st need buf credit = Sleep b pc' \<longrightarrow> pc' = AwaitFit need buf credit)"
proof (induction st need buf credit rule: acquire_fit.induct)
  case (1 st need buf credit)
  show ?case
  proof (cases "b_closed st \<or> sub_usize (b_used st) credit = None \<or>
      saturating_add (b_used st) (need - credit) \<le> b_limit st \<or> b_used st - credit = 0 \<or> b_idle st = []")
    case True
    then show ?thesis
      by (auto simp: acquire_fit.simps [of st] Let_def sub_usize_def split: option.splits list.splits if_splits)
  next
    case False
    then obtain ev idle where idle: "b_idle st = ev # idle" by (cases "b_idle st") auto
    have others: "sub_usize (b_used st) credit = Some (b_used st - credit)"
      using False by (auto simp: sub_usize_def split: if_splits)
    show ?thesis
    proof (cases "sub_usize (b_used st) (decoded_buffer_bytes ev)")
      case None
      with False idle show ?thesis
        by (auto simp: acquire_fit.simps [of st] Let_def others simp del: sub_usize_Some)
    next
      case (Some u)
      then have step: "acquire_fit st need buf credit = acquire_fit (st\<lparr>b_idle := idle, b_used := u\<rparr>) need buf credit"
        using False idle by (simp add: acquire_fit.simps [of st] Let_def others del: sub_usize_Some)
      have "(acquire_fit (st\<lparr>b_idle := idle, b_used := u\<rparr>) need buf credit = Sleep b pc' \<longrightarrow>
          length (b_idle b) < length idle \<or> b = st\<lparr>b_idle := idle, b_used := u\<rparr>) \<and>
        (acquire_fit (st\<lparr>b_idle := idle, b_used := u\<rparr>) need buf credit = Return b r \<longrightarrow> length (b_idle b) \<le> length idle) \<and>
        (acquire_fit (st\<lparr>b_idle := idle, b_used := u\<rparr>) need buf credit = Sleep b pc' \<longrightarrow> pc' = AwaitFit need buf credit)"
        using "1.IH" [OF refl _ others _ idle Some] False by simp
      then show ?thesis unfolding step using idle by auto
    qed
  qed
qed

lemma acquire_idle_sleep:
  assumes "acquire_resume st pc = Sleep b pc'" "(b, pc') \<noteq> (st, pc)"
  shows "length (b_idle b) + worker_work (Acquiring j pc') < length (b_idle st) + worker_work (Acquiring j pc)"
proof (cases pc)
  case (AwaitTurn k need)
  then have t: "acquire_take st need = Sleep b pc'"
    using assms by (auto split: if_splits)
  show ?thesis
  proof (cases "b_idle st")
    case Nil
    with t have "acquire_fit st need None (buffer_credit None) = Sleep b pc'" by (simp add: acquire_take_def)
    with acquire_fit_idle have "length (b_idle b) < length (b_idle st) \<or> b = st"
      "pc' = AwaitFit need None (buffer_credit None)" by blast+
    with AwaitTurn show ?thesis by auto
  next
    case (Cons x xs)
    with t have "acquire_fit (st\<lparr>b_idle := xs\<rparr>) need (Some x) (buffer_credit (Some x)) = Sleep b pc'"
      by (simp add: acquire_take_def)
    with acquire_fit_idle have "length (b_idle b) < length (b_idle (st\<lparr>b_idle := xs\<rparr>)) \<or> b = st\<lparr>b_idle := xs\<rparr>"
      "pc' = AwaitFit need (Some x) (buffer_credit (Some x))" by blast+
    with AwaitTurn Cons show ?thesis by auto
  qed
next
  case (AwaitFit need buffer credit)
  with assms(1) have "acquire_fit st need buffer credit = Sleep b pc'" by simp
  with acquire_fit_idle have "length (b_idle b) < length (b_idle st) \<or> b = st"
    "pc' = AwaitFit need buffer credit" by blast+
  with AwaitFit assms(2) show ?thesis by auto
qed

lemma acquire_idle_return:
  assumes "acquire_resume st pc = Return b r"
  shows "length (b_idle b) \<le> length (b_idle st)"
proof -
  have fit: "acquire_fit st' need buf credit = Return b r \<Longrightarrow> length (b_idle b) \<le> length (b_idle st')"
    for st' need buf credit
    using acquire_fit_idle by blast
  show ?thesis
  proof (cases pc)
    case (AwaitTurn k need)
    then have "acquire_take st need = Return b r" using assms by (auto split: if_splits)
    then show ?thesis
      using fit by (cases "b_idle st") (force simp: acquire_take_def)+
  qed (use assms fit in auto)
qed

lemma queue_work_put:
  assumes "pend q' = (pend q)(j \<mapsto> x)" "q_next q' = q_next q" "q_total q' = q_total q" "q_terminal q' = q_terminal q"
  shows "queue_work q' \<le> queue_work q + 6"
proof -
  let ?S = "{k. q_next q \<le> k \<and> k < q_total q \<and> pend q k \<noteq> None}"
  have "{k. q_next q' \<le> k \<and> k < q_total q' \<and> pend q' k \<noteq> None} \<subseteq> insert j ?S"
    by (auto simp: assms)
  then have "card {k. q_next q' \<le> k \<and> k < q_total q' \<and> pend q' k \<noteq> None} \<le> card (insert j ?S)"
    using finite_pending [of q] by (intro card_mono) auto
  also have "\<dots> \<le> card ?S + 1" using finite_pending [of q] by (simp add: card_insert_if)
  finally show ?thesis by (simp add: queue_work_def assms(4))
qed

lemma queue_work_took:
  assumes "took q [] q' batch"
  shows "queue_work q = queue_work q' + 6 * length batch"
proof -
  let ?S = "\<lambda>q. {k. q_next q \<le> k \<and> k < q_total q \<and> pend q k \<noteq> None}"
  have t: "{q_next q..<q_next q'} \<subseteq> dom (pend q)" "q_next q' \<le> q_total q" "q_total q' = q_total q"
    "\<And>i. pend q' i = (if i < q_next q' then None else pend q i)" "q_next q \<le> q_next q'"
    "q_terminal q' = q_terminal q"
    using assms by (auto simp: took_def oq_inv_def)
  have "?S q = {q_next q..<q_next q'} \<union> ?S q'"
  proof (intro set_eqI iffI)
    fix k assume "k \<in> ?S q"
    then show "k \<in> {q_next q..<q_next q'} \<union> ?S q'" using t(3,4) by auto
  next
    fix k assume k: "k \<in> {q_next q..<q_next q'} \<union> ?S q'"
    then show "k \<in> ?S q"
    proof
      assume "k \<in> {q_next q..<q_next q'}"
      then show ?thesis using t(1,2) by auto
    next
      assume "k \<in> ?S q'"
      then show ?thesis using t(3-5) by (auto split: if_splits)
    qed
  qed
  moreover have "{q_next q..<q_next q'} \<inter> ?S q' = {}" by auto
  ultimately have "card (?S q) = card {q_next q..<q_next q'} + card (?S q')"
    using finite_pending [of q'] by (simp add: card_Un_disjoint)
  moreover have "length batch = q_next q' - q_next q" using took_length [OF assms] t(5) by simp
  ultimately show ?thesis by (simp add: queue_work_def t(6))
qed

lemma worker_work_less:
  assumes st: "worker_step cfg sh w sh' w'" and Q: "oq_inv (sh_queue sh)"
    and pos: "\<And>j x. w = Pushing j x \<Longrightarrow> \<not> q_closed (sh_queue sh) \<Longrightarrow> q_next (sh_queue sh) \<le> j"
  shows "shared_work sh' + worker_work w' < shared_work sh + worker_work w"
  using st
proof cases
  case (acquire_wait pc b pc' j)
  then show ?thesis using acquire_idle_sleep [OF acquire_wait(4,5), of j] by (simp add: shared_work_def)
next
  case (acquire_granted pc b buf charged j)
  have "19 < worker_work w" using acquire_granted(1) by (cases pc) simp_all
  moreover have "length (b_idle b) \<le> length (b_idle (sh_budget sh))"
    by (rule acquire_idle_return [OF acquire_granted(4)])
  ultimately have "length (b_idle b) + 19 < length (b_idle (sh_budget sh)) + worker_work w"
    by linarith
  with acquire_granted show ?thesis by (simp add: shared_work_def)
next
  case (acquire_refused pc b j)
  have "0 < worker_work w" using acquire_refused(1) by (cases pc) simp_all
  moreover have "length (b_idle b) \<le> length (b_idle (sh_budget sh))"
    by (rule acquire_idle_return [OF acquire_refused(4)])
  ultimately have "length (b_idle b) < length (b_idle (sh_budget sh)) + worker_work w"
    by linarith
  with acquire_refused show ?thesis by (simp add: shared_work_def)
next
  case (pushes j item q)
  have "q_next (sh_queue sh) \<le> j" using pos pushes by (auto simp: oq_push_cases)
  note pp = pushed [OF Q pushes(4) this]
  from queue_work_put [OF pp(1,3,4,6)] pp(4) pushes show ?thesis by (simp add: shared_work_def)
next
  case (fails e)
  have "queue_work (oq_fail (sh_queue sh) (Inl e)) \<le> queue_work (sh_queue sh) + 6"
    by (simp add: queue_work_def oq_fail_props)
  with fails show ?thesis by (simp add: shared_work_def oq_fail_props)
qed (auto simp: shared_work_def settle_def budget_close_def oq_push_cases split: option.splits)

lemma consumer_work_less:
  assumes st: "consumer_step (sh, c, out) (sh', c', out')" and Q: "oq_inv (sh_queue sh)"
    and dr: "\<forall>pc. c = Draining pc \<longrightarrow> (\<exists>n. pc = drain_start [] 1 n)"
    and cl: "q_closed (sh_queue sh) \<longrightarrow> dropping c \<or> q_terminal (sh_queue sh) \<noteq> None \<or>
               q_next (sh_queue sh) = q_total (sh_queue sh)"
  shows "shared_work sh' + consumer_work c' < shared_work sh + consumer_work c"
  using st
proof cases
  case (drain_wait pc q pc')
  then show ?thesis using drain_min_one [OF Q] dr by fastforce
next
  case (drained pc q batch k)
  from consumer_queue [OF st Q dr cl] show ?thesis
  proof (elim disjE exE conjE, goal_cases)
    case (2 b)
    have len: "1 \<le> length b" using 2(1) by (simp add: Suc_le_eq)
    have "q_total (sh_queue sh') = q_total (sh_queue sh)" using 2(2) by (simp add: took_def)
    moreover have "c' = Recycling b" "c = Draining pc" "sh_budget sh' = sh_budget sh" "sh_job_idx sh' = sh_job_idx sh"
      using 2 drained by simp_all
    moreover have "5 + 2 * length b < 3 + 6 * length b" using len by linarith
    ultimately show ?case
      unfolding shared_work_def queue_work_took [OF 2(2)] by simp
  next
    case (3 e)
    have "queue_work (sh_queue sh') = 0" by (simp add: 3 queue_work_def)
    moreover have "6 \<le> queue_work (sh_queue sh)" by (simp add: queue_work_def 3)
    ultimately show ?case using 3 drained by (simp add: shared_work_def)
  qed (use drained in simp_all)
next
  case (drained_end pc q k)
  from consumer_queue [OF st Q dr cl] drained_end show ?thesis
    by (auto simp: shared_work_def)
qed (auto simp: shared_work_def recycle_def budget_close_def queue_work_def oq_close_props split: if_splits)

lemma work_less:
  assumes "pipeline_step cfg s s'" "live_inv cfg s"
  shows "work s' < work s"
  using assms(1)
proof cases
  case (worker i sh w)
  have qi: "queue_inv cfg s" "jobs_inv s" using assms(2) by (simp_all add: live_inv_def pipeline_inv_def)
  have "shared_work sh + worker_work w < shared_work (pl_shared s) + worker_work (pl_workers s ! i)"
  proof (rule worker_work_less [OF worker(3) queue_invD(1) [OF qi(1)]])
    fix j x
    assume "pl_workers s ! i = Pushing j x" "\<not> q_closed (sh_queue (pl_shared s))"
    moreover from this have "holds (pl_workers s) i j" using worker(2) by (intro holds_nth) auto
    ultimately show "q_next (sh_queue (pl_shared s)) \<le> j"
      using qi(2) by (simp add: jobs_inv_def Let_def)
  qed
  then show ?thesis
    using sum_list_map_update [OF worker(2), of worker_work w] by (simp add: work_def worker(1))
next
  case (consumer sh c out)
  have "queue_inv cfg s" using assms(2) by (simp add: live_inv_def pipeline_inv_def)
  from consumer_work_less [OF consumer(2) queue_invD [OF this]] show ?thesis
    by (simp add: work_def consumer(1))
qed

section \<open>Properties of the pipeline\<close>

lemma progress:
  assumes inv: "live_inv cfg s" and total: "\<And>j buf. decoding cfg j buf \<noteq> {}" and nf: "\<not> finished s"
  shows "\<exists>s'. pipeline_step cfg s s' \<and> (pl_consumer s' = Dropping True \<longrightarrow> pl_consumer s = Dropping True)"
proof (rule ccontr)
  assume no: "\<not> ?thesis"
  have qi: "queue_inv cfg s" and bi: "bytes_inv s"
    using inv by (simp_all add: live_inv_def pipeline_inv_def)
  note Q = queue_invD [OF qi]
  have stuck: "\<not> worker_step cfg (pl_shared s) (pl_workers s ! i) sh w" if "i < length (pl_workers s)" for i sh w
    using no pipeline_step.worker [OF that, of cfg sh w] by fastforce
  have cstuck: "c = Dropping True" if "consumer_step (pl_shared s, pl_consumer s, pl_out s) (sh, c, out)" for sh c out
    using no pipeline_step.consumer [OF that, of cfg] by fastforce
  obtain leak where leak: "budget_inv (sh_budget (pl_shared s)) (charged_bytes s + leak)"
    using bi by (auto simp: bytes_inv_def)
  then have cb: "budget_inv (sh_budget (pl_shared s))
      (sum_list (map held_bytes (pl_workers s)) + queued_bytes (sh_queue (pl_shared s)) + leak + consumer_bytes (pl_consumer s))"
    by (simp add: charged_bytes_def algebra_simps)
  from consumer_stuck [OF cstuck cb Q(1,2)] show False
  proof
    assume "(\<exists>pc. pl_consumer s = Draining pc) \<and> starved (sh_queue (pl_shared s))"
    with not_all_stuck [OF inv _ _ stuck total] show False by blast
  next
    assume "\<exists>early. pl_consumer s = Dropped early"
    moreover from this have closed: "q_closed (sh_queue (pl_shared s))" "b_closed (sh_budget (pl_shared s))"
      using qi by (auto simp: queue_inv_def Let_def)
    have "w = Exited" if w: "w \<in> set (pl_workers s)" for w
    proof -
      obtain i where i: "i < length (pl_workers s)" "w = pl_workers s ! i"
        using w by (auto simp: in_set_conv_nth)
      let ?rest = "charged_bytes s + leak - held_bytes w"
      have "held_bytes w \<le> charged_bytes s + leak"
        using member_le_sum_list_map [OF i(1), of held_bytes] i(2) by (simp add: charged_bytes_def)
      then have "budget_inv (sh_budget (pl_shared s)) (?rest + held_bytes w)" using leak by simp
      from worker_stuck [OF stuck [OF i(1)] this [unfolded i(2)] total] closed i(2) show ?thesis by auto
    qed
    ultimately show False using nf by (auto simp: finished_def)
  qed
qed

lemma spawned_total:
  assumes "spawned cfg capacity workers limit jobs s"
  shows "q_total (sh_queue (pl_shared s)) = jobs"
  using assms
proof (induction rule: rtranclp_induct)
  case base
  then show ?case by (simp add: spawn_with_budget_def oq_new_def Let_def)
next
  case (step t u)
  have "queue_inv cfg t" using live_inv_reachable [OF step(1)] by (simp add: live_inv_def pipeline_inv_def)
  with step show ?case using pipeline_total(1) by metis
qed

lemma work_spawn:
  "work (spawn_with_budget capacity workers limit jobs) = 13 * jobs + 10 * min (max workers 1) jobs + 4"
proof -
  let ?q = "oq_new (max capacity 16) jobs"
  have "queue_work ?q = 0"
    by (simp add: queue_work_def) (simp add: oq_new_def Let_def)
  then show ?thesis
    by (simp add: work_def shared_work_def spawn_with_budget_def budget_new_def oq_new_def Let_def
        sum_list_replicate)
qed

text \<open>
  C2. In every reachable state of the pipeline, under every schedule of any number of workers,
  what the consumer has received is a result of job 0, of job 1, and so on in job order, each
  once, at most one per job, possibly followed by one error that ended the stream.
\<close>

theorem prefetch_in_order:
  assumes "spawned cfg capacity workers limit jobs s"
  shows "\<exists>xs ys. pl_out s = xs @ ys \<and> in_order cfg xs \<and> length xs \<le> jobs \<and>
           (ys = [] \<or> (\<exists>e. ys = [Inl e]))"
proof -
  have "live_inv cfg s" by (rule live_inv_reachable [OF assms])
  then have qi: "queue_inv cfg s" "out_inv cfg s" by (simp_all add: live_inv_def pipeline_inv_def)
  note tot = spawned_total [OF assms]
  have le: "q_next (sh_queue (pl_shared s)) \<le> jobs"
    using queue_invD(1) [OF qi(1)] tot by (simp add: oq_inv_def)
  from qi(2) show ?thesis
    unfolding out_inv_def Let_def
  proof (elim disjE exE conjE)
    assume "in_order cfg (pl_out s)" "length (pl_out s) = q_next (sh_queue (pl_shared s))"
    with le show ?thesis by (intro exI [of _ "pl_out s"] exI [of _ "[]"]) simp
  next
    fix xs e
    assume "pl_out s = xs @ [Inl e]" "in_order cfg xs" "length xs \<le> q_total (sh_queue (pl_shared s))"
    with tot show ?thesis by (intro exI [of _ xs] exI [of _ "[Inl e]"]) simp
  qed
qed




section \<open>A complete run\<close>

text \<open>One chunk of four bytes, one worker: a whole run from the spawn to the joined workers.\<close>

definition one_chunk :: "nat prefetch_config" where
  "one_chunk = \<lparr>chunk_bytes = (\<lambda>j. 4), decoding = (\<lambda>j buf. {Produces (Inr (j, DR_U8 4))})\<rparr>"

definition one_worker_state ::
  "'m item oqueue \<Rightarrow> budget \<Rightarrow> usize \<Rightarrow> 'm worker \<Rightarrow> 'm consumer \<Rightarrow> 'm item list \<Rightarrow> 'm pipeline" where
  "one_worker_state q b n w c out =
     \<lparr>pl_shared = \<lparr>sh_queue = q, sh_budget = b, sh_job_idx = n\<rparr>, pl_workers = [w], pl_consumer = c, pl_out = out\<rparr>"

lemma one_worker_step:
  "worker_step cfg \<lparr>sh_queue = q, sh_budget = b, sh_job_idx = n\<rparr> w \<lparr>sh_queue = q', sh_budget = b', sh_job_idx = n'\<rparr> w' \<Longrightarrow>
   pipeline_step cfg (one_worker_state q b n w c out) (one_worker_state q' b' n' w' c out)"
  using pipeline_step.worker [of 0 "one_worker_state q b n w c out" cfg
      "\<lparr>sh_queue = q', sh_budget = b', sh_job_idx = n'\<rparr>" w']
  by (simp add: one_worker_state_def)

lemma one_consumer_step:
  "consumer_step (\<lparr>sh_queue = q, sh_budget = b, sh_job_idx = n\<rparr>, c, out)
     (\<lparr>sh_queue = q', sh_budget = b', sh_job_idx = n'\<rparr>, c', out') \<Longrightarrow>
   pipeline_step cfg (one_worker_state q b n w c out) (one_worker_state q' b' n' w c' out')"
  using pipeline_step.consumer [of "one_worker_state q b n w c out"
      "\<lparr>sh_queue = q', sh_budget = b', sh_job_idx = n'\<rparr>" c' out' cfg]
  by (simp add: one_worker_state_def)

definition chunk_item :: "nat item" where
  "chunk_item = Inr (0, DR_U8 4)"

definition run_queue :: "nat item option \<Rightarrow> usize \<Rightarrow> bool \<Rightarrow> nat item oqueue" where
  "run_queue x n closed = \<lparr>q_capacity = 16, q_total = 1, q_slots = x # replicate 15 None,
     q_next = n, q_closed = closed, q_terminal = None\<rparr>"

definition run_budget :: "usize \<Rightarrow> usize \<Rightarrow> usize \<Rightarrow> bool \<Rightarrow> decoding_result list \<Rightarrow> budget" where
  "run_budget used peak job closed idle = \<lparr>b_limit = 100, b_idle_capacity = 16, b_used = used, b_peak = peak,
     b_next_job = job, b_closed = closed, b_idle = idle\<rparr>"

definition run_end :: "nat pipeline" where
  "run_end = one_worker_state (run_queue None 1 True) (run_budget 0 4 1 True []) 2 Exited (Dropped False) [chunk_item]"

lemma run_simps:
  "oq_is_closed (run_queue x n c) = c" "q_total (run_queue x n c) = 1"
  "drain_resume (run_queue None 1 False) (drain_start [] 1 1) = Return (run_queue None 1 False) ([], 0)"
  "oq_push (run_queue None 0 False) 0 y = Return (run_queue (Some y) 0 False) True"
  "oq_close (run_queue x n c) = run_queue x n True"
  by (simp_all add: run_queue_def oq_is_closed_def drain_resume.simps drain_start_def oq_push_def oq_close_def)

lemma run_drained:
  "drain_resume (run_queue (Some y) 0 False) (drain_start [] 1 1) = Return (run_queue None 1 False) ([y], 1)"
  by (simp add: run_queue_def drain_resume.simps drain_start_def oq_front_def oq_advance_def drain_finish_def
      take_ready.simps drain_more.simps)

lemma run_budget_simps:
  "acquire_resume (run_budget 0 0 0 False []) (AwaitTurn 0 4) = Return (run_budget 4 4 1 False []) (Some (None, 4))"
  "settle (run_budget 4 4 1 False []) 4 4 = Some (run_budget 4 4 1 False [])"
  "recycle (run_budget 4 4 1 False []) (DR_U8 4) = Some (run_budget 4 4 1 False [DR_U8 4])"
  "budget_close (run_budget 4 4 1 False [DR_U8 4]) = Some (run_budget 0 4 1 True [])"
  by (simp_all add: run_budget_def acquire_take_def acquire_fit.simps buffer_credit_def settle_def recycle_def
      budget_close_def idle_bytes_def usize_defs usize_max_def Let_def)

lemmas run_facts = run_simps [unfolded One_nat_def] run_drained [unfolded One_nat_def]
  run_budget_simps [unfolded One_nat_def]

lemma one_chunk_run: "spawned one_chunk 16 1 100 1 run_end"
proof -
  let ?p = "pipeline_step one_chunk" and ?st = one_worker_state
  let ?q0 = "run_queue None 0 False" and ?q1 = "run_queue (Some chunk_item) 0 False"
    and ?q2 = "run_queue None 1 False" and ?q3 = "run_queue None 1 True"
  let ?b0 = "run_budget 0 0 0 False []" and ?b1 = "run_budget 4 4 1 False []"
    and ?b2 = "run_budget 4 4 1 False [DR_U8 4]" and ?b3 = "run_budget 0 4 1 True []"
  let ?sh = "\<lambda>q b n. \<lparr>sh_queue = q, sh_budget = b, sh_job_idx = n\<rparr> :: nat shared"
  have init: "spawn_with_budget 16 1 100 1 = ?st ?q0 ?b0 0 AtTop Idle []"
    by (simp add: spawn_with_budget_def one_worker_state_def run_queue_def run_budget_def oq_new_def
        budget_new_def Let_def numeral_eq_Suc)
  have w: "?p (?st ?q0 ?b0 0 AtTop Idle []) (?st ?q0 ?b0 0 Claiming Idle [])"
    "?p (?st ?q0 ?b0 0 Claiming Idle []) (?st ?q0 ?b0 1 (Acquiring 0 (AwaitTurn 0 4)) Idle [])"
    "?p (?st ?q0 ?b0 1 (Acquiring 0 (AwaitTurn 0 4)) Idle []) (?st ?q0 ?b1 1 (Decoding 0 None 4) Idle [])"
    "?p (?st ?q0 ?b1 1 (Decoding 0 None 4) Idle []) (?st ?q0 ?b1 1 (Settling 0 4 chunk_item) Idle [])"
    "?p (?st ?q0 ?b1 1 (Settling 0 4 chunk_item) Idle []) (?st ?q0 ?b1 1 (Pushing 0 chunk_item) Idle [])"
    "?p (?st ?q0 ?b1 1 (Pushing 0 chunk_item) Idle []) (?st ?q1 ?b1 1 AtTop Idle [])"
    "?p (?st ?q1 ?b1 1 AtTop Idle []) (?st ?q1 ?b1 1 Claiming Idle [])"
    "?p (?st ?q1 ?b1 1 Claiming Idle []) (?st ?q1 ?b1 2 Exited Idle [])"
    using worker_step.top_open [of "?sh ?q0 ?b0 0" one_chunk]
      worker_step.claim [of 0 "?sh ?q0 ?b0 0" one_chunk]
      worker_step.acquire_granted [of "?sh ?q0 ?b0 1" "AwaitTurn 0 4" ?b1 None 4 one_chunk 0]
      worker_step.decodes [of chunk_item one_chunk 0 None "?sh ?q0 ?b1 1" 4]
      worker_step.settles [of "?sh ?q0 ?b1 1" 4 chunk_item ?b1 one_chunk 0]
      worker_step.pushes [of "?sh ?q0 ?b1 1" 0 chunk_item ?q1 one_chunk]
      worker_step.top_open [of "?sh ?q1 ?b1 1" one_chunk]
      worker_step.claim_end [of 1 "?sh ?q1 ?b1 1" one_chunk]
    by (auto intro!: one_worker_step simp: run_facts one_chunk_def chunk_item_def numeral_2_eq_2
        simp del: acquire_resume.simps)
  have c: "?p (?st ?q1 ?b1 2 Exited Idle []) (?st ?q1 ?b1 2 Exited (Draining (drain_start [] 1 1)) [])"
    "?p (?st ?q1 ?b1 2 Exited (Draining (drain_start [] 1 1)) []) (?st ?q2 ?b1 2 Exited (Recycling [chunk_item]) [chunk_item])"
    "?p (?st ?q2 ?b1 2 Exited (Recycling [chunk_item]) [chunk_item]) (?st ?q2 ?b2 2 Exited (Recycling []) [chunk_item])"
    "?p (?st ?q2 ?b2 2 Exited (Recycling []) [chunk_item]) (?st ?q2 ?b2 2 Exited Idle [chunk_item])"
    "?p (?st ?q2 ?b2 2 Exited Idle [chunk_item]) (?st ?q2 ?b2 2 Exited (Draining (drain_start [] 1 1)) [chunk_item])"
    "?p (?st ?q2 ?b2 2 Exited (Draining (drain_start [] 1 1)) [chunk_item]) (?st ?q2 ?b2 2 Exited (Dropping False) [chunk_item])"
    "?p (?st ?q2 ?b2 2 Exited (Dropping False) [chunk_item]) (?st ?q3 ?b2 2 Exited (DroppingBudget False) [chunk_item])"
    "?p (?st ?q3 ?b2 2 Exited (DroppingBudget False) [chunk_item]) (?st ?q3 ?b3 2 Exited (Dropped False) [chunk_item])"
    using consumer_step.start [of "?sh ?q1 ?b1 2" "[]" 1]
      consumer_step.drained [of "?sh ?q1 ?b1 2" "drain_start [] 1 1" ?q2 "[chunk_item]" 1 "[]"]
      consumer_step.recycle_ok [of "?sh ?q2 ?b1 2" "DR_U8 4" ?b2 0 "[]" "[chunk_item]"]
      consumer_step.recycled [of "?sh ?q2 ?b2 2" "[chunk_item]"]
      consumer_step.start [of "?sh ?q2 ?b2 2" "[chunk_item]" 1]
      consumer_step.drained_end [of "?sh ?q2 ?b2 2" "drain_start [] 1 1" ?q2 0 "[chunk_item]"]
      consumer_step.drop_queue [of "?sh ?q2 ?b2 2" False "[chunk_item]"]
      consumer_step.drop_budget [of "?sh ?q3 ?b2 2" ?b3 False "[chunk_item]"]
    by (auto intro!: one_consumer_step simp: run_facts chunk_item_def)
  show ?thesis
    unfolding init run_end_def
    using w c by (meson converse_rtranclp_into_rtranclp rtranclp.rtrancl_refl)
qed

lemma run_end_stuck: "\<not> pipeline_step one_chunk run_end s'"
proof
  assume "pipeline_step one_chunk run_end s'"
  then show False
    by cases (auto simp: run_end_def one_worker_state_def elim!: worker_stepE consumer_stepE)
qed

lemma one_chunk_total: "decoding one_chunk j buf \<noteq> {}"
  by (simp add: one_chunk_def)

theorem prefetch_in_order_witness:
  "spawned one_chunk 16 1 100 1 run_end \<and> pl_out run_end = [Inr (0, DR_U8 4)] \<and>
   (\<exists>xs ys. pl_out run_end = xs @ ys \<and> in_order one_chunk xs \<and> length xs \<le> 1 \<and> (ys = [] \<or> (\<exists>e. ys = [Inl e])))"
  using prefetch_in_order [OF one_chunk_run] one_chunk_run
  by (simp add: run_end_def one_worker_state_def chunk_item_def)




end
