(* ===== verification/Prefetch_Memory.thy ===== *)
theory Prefetch_Memory
  imports Prefetch_Live
begin

text \<open>
  The memory bound of the prefetch pipeline: with decoders that fill a buffer no larger than
  what was reserved for them, the budget's peak stays within the limit, or within one chunk
  where a single chunk exceeds the limit.
\<close>

section \<open>What a section of \<open>acquire\<close> changes\<close>

definition acquire_frame :: "budget \<Rightarrow> usize \<Rightarrow> decoding_result option \<Rightarrow> usize \<Rightarrow>
    (budget, acquire_pc, (decoding_result option \<times> usize) option) outcome \<Rightarrow> bool" where
  "acquire_frame st need buffer credit res \<longleftrightarrow>
     (case res of
        Panic \<Rightarrow> True
      | Sleep st' pc \<Rightarrow> pc = AwaitFit need buffer credit \<and> b_peak st' = b_peak st \<and>
          b_limit st' = b_limit st \<and> set (b_idle st') \<subseteq> set (b_idle st)
      | Return st' None \<Rightarrow> b_peak st' = b_peak st \<and> b_limit st' = b_limit st \<and> set (b_idle st') \<subseteq> set (b_idle st)
      | Return st' (Some (buf, charged)) \<Rightarrow> buf = buffer \<and> charged = max need credit \<and>
          b_peak st' = max (b_peak st) (b_used st') \<and> b_limit st' = b_limit st \<and>
          set (b_idle st') \<subseteq> set (b_idle st))"

lemma acquire_fit_frame: "acquire_frame st need buffer credit (acquire_fit st need buffer credit)"
proof (induction st need buffer credit rule: acquire_fit.induct)
  case (1 st need buffer credit)
  show ?case
  proof (cases "b_closed st \<or> sub_usize (b_used st) credit = None \<or>
      saturating_add (b_used st) (need - credit) \<le> b_limit st \<or> b_used st - credit = 0 \<or> b_idle st = []")
    case True
    then show ?thesis
      by (auto simp: acquire_fit.simps [of st] Let_def sub_usize_def acquire_frame_def
          split: option.splits list.splits if_splits)
  next
    case False
    then obtain ev idle where idle: "b_idle st = ev # idle" by (cases "b_idle st") auto
    have others: "sub_usize (b_used st) credit = Some (b_used st - credit)"
      using False by (auto simp: sub_usize_def split: if_splits)
    show ?thesis
    proof (cases "sub_usize (b_used st) (decoded_buffer_bytes ev)")
      case None
      with False idle show ?thesis
        by (auto simp: acquire_fit.simps [of st] Let_def others acquire_frame_def simp del: sub_usize_Some)
    next
      case (Some u)
      let ?st = "st\<lparr>b_idle := idle, b_used := u\<rparr>"
      have step: "acquire_fit st need buffer credit = acquire_fit ?st need buffer credit"
        using False idle Some by (simp add: acquire_fit.simps [of st] Let_def others del: sub_usize_Some)
      have "acquire_frame ?st need buffer credit (acquire_fit ?st need buffer credit)"
        using "1.IH" [OF refl _ others _ idle Some] False by simp
      then show ?thesis
        unfolding step using idle
        by (cases "acquire_fit ?st need buffer credit") (auto simp: acquire_frame_def split: option.splits)
    qed
  qed
qed

section \<open>Sizes\<close>

text \<open>
  What decoding is trusted with: a chunk's buffer is at most its reservation, or the recycled
  buffer it was decoded into.
\<close>

definition decoding_fits :: "'m prefetch_config \<Rightarrow> usize \<Rightarrow> bool" where
  "decoding_fits cfg M \<longleftrightarrow> (\<forall>j. chunk_bytes cfg j \<le> M) \<and>
     (\<forall>j buf item. Produces item \<in> decoding cfg j buf \<longrightarrow>
        item_bytes item \<le> max (chunk_bytes cfg j) (buffer_credit buf))"

fun worker_fits :: "'m prefetch_config \<Rightarrow> usize \<Rightarrow> 'm worker \<Rightarrow> bool" where
  "worker_fits cfg M (Acquiring j (AwaitTurn k need)) = (need = chunk_bytes cfg j)"
| "worker_fits cfg M (Acquiring j (AwaitFit need buffer credit)) =
     (need = chunk_bytes cfg j \<and> credit = buffer_credit buffer \<and> credit \<le> M)"
| "worker_fits cfg M (Decoding j buffer charged) =
     (charged = max (chunk_bytes cfg j) (buffer_credit buffer) \<and> charged \<le> M)"
| "worker_fits cfg M (Settling j charged item) = (item_bytes item \<le> charged \<and> charged \<le> M)"
| "worker_fits cfg M (Pushing j item) = (item_bytes item \<le> M)"
| "worker_fits cfg M _ = True"

definition budget_fits :: "usize \<Rightarrow> usize \<Rightarrow> budget \<Rightarrow> bool" where
  "budget_fits M limit b \<longleftrightarrow> b_limit b = limit \<and> b_peak b \<le> max limit M \<and>
     (\<forall>x\<in>set (b_idle b). decoded_buffer_bytes x \<le> M)"

definition queue_fits :: "usize \<Rightarrow> 'm item oqueue \<Rightarrow> bool" where
  "queue_fits M q \<longleftrightarrow> (\<forall>j<q_total q. opt_bytes (pend q j) \<le> M) \<and> opt_bytes (q_terminal q) \<le> M"

fun consumer_fits :: "usize \<Rightarrow> 'm consumer \<Rightarrow> bool" where
  "consumer_fits M (Recycling items) = (\<forall>x\<in>set items. item_bytes x \<le> M)"
| "consumer_fits M _ = True"

definition mem_inv :: "'m prefetch_config \<Rightarrow> usize \<Rightarrow> usize \<Rightarrow> 'm pipeline \<Rightarrow> bool" where
  "mem_inv cfg M limit s \<longleftrightarrow> budget_fits M limit (sh_budget (pl_shared s)) \<and>
     queue_fits M (sh_queue (pl_shared s)) \<and> (\<forall>w\<in>set (pl_workers s). worker_fits cfg M w) \<and>
     consumer_fits M (pl_consumer s)"

lemma acquire_fits:
  assumes lim: "limit < usize_max" and fits: "decoding_fits cfg M" and b: "budget_fits M limit st"
    and w: "worker_fits cfg M (Acquiring j pc)" and inv: "budget_inv st (rest + acquire_held pc)"
  shows "case acquire_resume st pc of
           Panic \<Rightarrow> True
         | Sleep st' pc' \<Rightarrow> budget_fits M limit st' \<and> worker_fits cfg M (Acquiring j pc')
         | Return st' None \<Rightarrow> budget_fits M limit st'
         | Return st' (Some (buf, charged)) \<Rightarrow> budget_fits M limit st' \<and> worker_fits cfg M (Decoding j buf charged)"
proof -
  have need: "chunk_bytes cfg j \<le> M" using fits by (simp add: decoding_fits_def)
  have core: "case res of
           Panic \<Rightarrow> True
         | Sleep st' pc' \<Rightarrow> budget_fits M limit st' \<and> worker_fits cfg M (Acquiring j pc')
         | Return st' None \<Rightarrow> budget_fits M limit st'
         | Return st' (Some (buf, charged)) \<Rightarrow> budget_fits M limit st' \<and> worker_fits cfg M (Decoding j buf charged)"
    if fr: "acquire_frame st (chunk_bytes cfg j) buffer (buffer_credit buffer) res"
      and post: "acquire_post st (chunk_bytes cfg j) rest' buffer (buffer_credit buffer) res"
      and cr: "buffer_credit buffer \<le> M" for res buffer rest'
  proof (cases res)
    case (Return st' r)
    show ?thesis
    proof (cases r)
      case None
      with fr Return b show ?thesis by (auto simp: acquire_frame_def budget_fits_def)
    next
      case (Some g)
      obtain buf charged where g: "g = (buf, charged)" by (cases g)
      have "b_used st' \<le> b_limit st \<or> b_used st' \<le> max (chunk_bytes cfg j) (buffer_credit buffer)"
        using post Return Some g b lim by (auto simp: acquire_post_def budget_fits_def)
      then have "b_used st' \<le> max limit M"
        using need cr b by (auto simp: budget_fits_def)
      with fr Return Some g b need cr show ?thesis
        by (auto simp: acquire_frame_def budget_fits_def)
    qed
  qed (use fr b cr in \<open>auto simp: acquire_frame_def budget_fits_def\<close>)
  show ?thesis
  proof (cases pc)
    case (AwaitFit need' buffer credit)
    then have eq: "need' = chunk_bytes cfg j" "credit = buffer_credit buffer" "credit \<le> M" using w by simp_all
    have "acquire_post st need' rest buffer credit (acquire_fit st need' buffer credit)"
      using inv AwaitFit by (intro acquire_fit_post) simp
    from core [OF acquire_fit_frame [of st "chunk_bytes cfg j" buffer "buffer_credit buffer"] this [unfolded eq]] eq AwaitFit
    show ?thesis by simp
  next
    case (AwaitTurn k need')
    then have eq: "need' = chunk_bytes cfg j" using w by simp
    show ?thesis
    proof (cases "b_next_job st \<noteq> k \<and> \<not> b_closed st")
      case True
      with AwaitTurn b w show ?thesis by simp
    next
      case False
      have pf: "\<exists>buffer. acquire_post st need' rest buffer (buffer_credit buffer) (acquire_take st need') \<and>
          acquire_frame st need' buffer (buffer_credit buffer) (acquire_take st need') \<and>
          set_option buffer \<subseteq> set (b_idle st)"
      proof (cases "b_idle st")
        case Nil
        then show ?thesis
          using acquire_take_post [of st rest need'] acquire_fit_frame [of st need' None "buffer_credit None"] inv AwaitTurn
          by (auto simp: acquire_take_def)
      next
        case (Cons x xs)
        let ?st = "st\<lparr>b_idle := xs\<rparr>" and ?c = "buffer_credit (Some x)"
        have "budget_inv ?st (rest + ?c)"
          using inv AwaitTurn Cons by (simp add: budget_inv_def idle_bytes_def buffer_credit_def)
        then have "acquire_post ?st need' rest (Some x) ?c (acquire_fit ?st need' (Some x) ?c)"
          by (rule acquire_fit_post)
        moreover note acquire_fit_frame [of ?st need' "Some x" ?c]
        ultimately show ?thesis
          using Cons by (intro exI [of _ "Some x"])
            (auto simp: acquire_take_def acquire_post_def acquire_frame_def split: outcome.splits option.splits)
      qed
      then obtain buffer where p: "acquire_post st need' rest buffer (buffer_credit buffer) (acquire_take st need')"
          "acquire_frame st need' buffer (buffer_credit buffer) (acquire_take st need')"
          "set_option buffer \<subseteq> set (b_idle st)" by blast
      have "buffer_credit buffer \<le> M"
        using p(3) b by (cases buffer) (auto simp: buffer_credit_def budget_fits_def)
      from core [OF p(2) [unfolded eq] p(1) [unfolded eq] this] False AwaitTurn eq show ?thesis by auto
    qed
  qed
qed

section \<open>Every step keeps the sizes\<close>

lemma worker_fits_step:
  assumes lim: "limit < usize_max" and fits: "decoding_fits cfg M"
    and b: "budget_fits M limit (sh_budget sh)" and q: "queue_fits M (sh_queue sh)" and w: "worker_fits cfg M w"
    and st: "worker_step cfg sh w sh' w'" and inv: "budget_inv (sh_budget sh) (rest + held_bytes w)"
    and Q: "oq_inv (sh_queue sh)"
    and pos: "\<And>j x. w = Pushing j x \<Longrightarrow> \<not> q_closed (sh_queue sh) \<Longrightarrow> q_next (sh_queue sh) \<le> j"
  shows "budget_fits M limit (sh_budget sh') \<and> queue_fits M (sh_queue sh') \<and> worker_fits cfg M w'"
  using st
proof cases
  case (acquire_wait pc b' pc' j)
  then show ?thesis using acquire_fits [OF lim fits b, of j pc rest] w inv q by simp
next
  case (acquire_granted pc b' buf charged j)
  then show ?thesis using acquire_fits [OF lim fits b, of j pc rest] w inv q by auto
next
  case (acquire_refused pc b' j)
  then show ?thesis using acquire_fits [OF lim fits b, of j pc rest] w inv q by simp
next
  case (decodes item j buf charged)
  then have "item_bytes item \<le> charged" using fits w by (auto simp: decoding_fits_def)
  then show ?thesis using decodes b q w by auto
next
  case (settles charged item b' j)
  then have "item_bytes item \<le> charged" "charged \<le> M" using w by simp_all
  moreover have "b_used (sh_budget sh) \<le> b_peak (sh_budget sh)" using inv by (simp add: budget_inv_def)
  ultimately show ?thesis
    using settles b q by (auto simp: settle_def budget_fits_def split: option.splits)
next
  case (pushes j item q')
  have "q_next (sh_queue sh) \<le> j" using pos pushes by (auto simp: oq_push_cases)
  note pp = pushed [OF Q pushes(4) this]
  from pushes b q w show ?thesis by (auto simp: queue_fits_def pp opt_bytes_def)
next
  case (refund actual b')
  moreover have "b_used (sh_budget sh) \<le> b_peak (sh_budget sh)" using inv by (simp add: budget_inv_def)
  ultimately show ?thesis using b q by (auto simp: settle_def budget_fits_def split: option.splits)
next
  case (open_failed charged b' e)
  moreover have "b_used (sh_budget sh) \<le> b_peak (sh_budget sh)" using inv by (simp add: budget_inv_def)
  ultimately show ?thesis using b q by (auto simp: settle_def budget_fits_def split: option.splits)
next
  case (close_budget b' e)
  then show ?thesis using b q by (auto simp: budget_close_def budget_fits_def)
next
  case (fails e)
  then show ?thesis using b q by (auto simp: oq_fail_props queue_fits_def opt_bytes_def)
qed (use b q w in \<open>auto simp: oq_push_cases\<close>)

lemma queue_fits_took:
  assumes "took q [] q' batch" "queue_fits M q"
  shows "\<forall>x\<in>set batch. item_bytes x \<le> M" and "queue_fits M q'"
proof -
  have t: "{q_next q..<q_next q'} \<subseteq> dom (pend q)" "q_next q' \<le> q_total q" "q_total q' = q_total q"
    "\<And>i. pend q' i = (if i < q_next q' then None else pend q i)" "q_terminal q' = q_terminal q"
    "batch = map (\<lambda>i. the (pend q i)) [q_next q..<q_next q']"
    using assms(1) by (auto simp: took_def oq_inv_def front_items_def)
  show "queue_fits M q'" using assms(2) t(3-5) by (auto simp: queue_fits_def opt_bytes_def)
  show "\<forall>x\<in>set batch. item_bytes x \<le> M"
  proof
    fix x assume "x \<in> set batch"
    then obtain i where i: "i \<in> {q_next q..<q_next q'}" "x = the (pend q i)"
      using t(6) by auto
    then obtain y where "pend q i = Some y" using t(1) by blast
    moreover have "opt_bytes (pend q i) \<le> M" using assms(2) i(1) t(2) by (auto simp: queue_fits_def)
    ultimately show "item_bytes x \<le> M" using i(2) by (simp add: opt_bytes_def)
  qed
qed

lemma consumer_fits_step:
  assumes b: "budget_fits M limit (sh_budget sh)" and q: "queue_fits M (sh_queue sh)" and c: "consumer_fits M c"
    and st: "consumer_step (sh, c, out) (sh', c', out')" and Q: "oq_inv (sh_queue sh)"
      "\<forall>pc. c = Draining pc \<longrightarrow> (\<exists>n. pc = drain_start [] 1 n)"
      "q_closed (sh_queue sh) \<longrightarrow> dropping c \<or> q_terminal (sh_queue sh) \<noteq> None \<or>
         q_next (sh_queue sh) = q_total (sh_queue sh)"
  shows "budget_fits M limit (sh_budget sh') \<and> queue_fits M (sh_queue sh') \<and> consumer_fits M c'"
proof -
  have "queue_fits M (sh_queue sh') \<and> ((\<exists>pc. c = Draining pc) \<longrightarrow> consumer_fits M c')"
    using consumer_queue [OF st Q]
  proof (elim disjE exE conjE, goal_cases)
    case (2 batch)
    then show ?case using queue_fits_took [OF _ q] by simp
  next
    case (3 e)
    then show ?case using q by (auto simp: queue_fits_def opt_bytes_def pend_def)
  next
    case (4 early)
    then show ?case using q by (simp add: queue_fits_def oq_close_props)
  qed (use q in auto)
  moreover have "budget_fits M limit (sh_budget sh')"
    using st by cases (use b c in \<open>auto simp: budget_fits_def recycle_def budget_close_def split: if_splits\<close>)
  moreover have "consumer_fits M c'" if "\<nexists>pc. c = Draining pc"
    using st by cases (use c that in auto)
  ultimately show ?thesis by blast
qed

lemma mem_inv_step:
  assumes lim: "limit < usize_max" and fits: "decoding_fits cfg M"
    and st: "pipeline_step cfg s s'" and inv: "mem_inv cfg M limit s" and live: "live_inv cfg s"
  shows "mem_inv cfg M limit s'"
  using st
proof cases
  case (worker i sh w)
  have qi: "queue_inv cfg s" "jobs_inv s" and bi: "bytes_inv s"
    using live by (simp_all add: live_inv_def pipeline_inv_def)
  obtain leak where leak: "budget_inv (sh_budget (pl_shared s)) (charged_bytes s + leak)"
    using bi by (auto simp: bytes_inv_def)
  have "held_bytes (pl_workers s ! i) \<le> charged_bytes s"
    using member_le_sum_list_map [OF worker(2), of held_bytes] by (simp add: charged_bytes_def)
  then have b: "budget_inv (sh_budget (pl_shared s))
      ((charged_bytes s - held_bytes (pl_workers s ! i) + leak) + held_bytes (pl_workers s ! i))"
    using leak by simp
  have "budget_fits M limit (sh_budget sh) \<and> queue_fits M (sh_queue sh) \<and> worker_fits cfg M w"
  proof (rule worker_fits_step [OF lim fits _ _ _ worker(3) b queue_invD(1) [OF qi(1)]])
    fix j x
    assume "pl_workers s ! i = Pushing j x" "\<not> q_closed (sh_queue (pl_shared s))"
    moreover from this have "holds (pl_workers s) i j" using worker(2) by (intro holds_nth) auto
    ultimately show "q_next (sh_queue (pl_shared s)) \<le> j"
      using qi(2) by (simp add: jobs_inv_def Let_def)
  qed (use inv worker(2) in \<open>auto simp: mem_inv_def\<close>)
  with inv show ?thesis
    unfolding worker(1) mem_inv_def by (auto intro: ball_update [rule_format])
next
  case (consumer sh c out)
  have "queue_inv cfg s" using live by (simp add: live_inv_def pipeline_inv_def)
  from consumer_fits_step [OF _ _ _ consumer(2) queue_invD [OF this]] inv show ?thesis
    unfolding consumer(1) mem_inv_def by auto
qed



end
