(* ===== verification/Buffer_Pool.thy ===== *)
theory Buffer_Pool
  imports Decode_Budget
begin

text \<open>
  \<open>DecodingBufferPool\<close> of \<open>raster/prefetch.rs\<close>: idle decode buffers in a lock-free FIFO with
  an atomic count. The FIFO and the count are two separate atomics, so \<open>push\<close> and \<open>pop\<close> are
  sequences of atomic steps that other threads interleave with.
\<close>

section \<open>State and steps\<close>

text \<open>Where a thread stands inside \<open>push\<close> (with the count it last read) or \<open>pop\<close>.\<close>

datatype pool_pc =
    Outside
  | PushCheck decoding_result usize
  | PushPut decoding_result
  | PopUpdate decoding_result

record buffer_pool =
  p_pool :: "decoding_result list"
  p_count :: usize
  p_capacity :: usize

definition pool_new :: "usize \<Rightarrow> buffer_pool" where
  "pool_new capacity = \<lparr>p_pool = [], p_count = 0, p_capacity = max capacity 16\<rparr>"

text \<open>\<open>push\<close>: the first load of the count.\<close>

definition push_load :: "buffer_pool \<Rightarrow> decoding_result \<Rightarrow> pool_pc" where
  "push_load p buf = PushCheck buf (p_count p)"

text \<open>
  One turn of the \<open>loop\<close> of \<open>push\<close>. \<open>spurious\<close> is the failure \<open>compare_exchange_weak\<close> may
  report although the count matches.
\<close>

definition push_turn :: "buffer_pool \<Rightarrow> bool \<Rightarrow> decoding_result \<Rightarrow> usize \<Rightarrow> buffer_pool \<times> pool_pc" where
  "push_turn p spurious buf current =
     (if current \<ge> p_capacity p then (p, Outside)
      else if p_count p = current \<and> \<not> spurious
      then (p\<lparr>p_count := current + 1\<rparr>, PushPut buf)
      else (p, PushCheck buf (p_count p)))"

definition push_put :: "buffer_pool \<Rightarrow> decoding_result \<Rightarrow> buffer_pool" where
  "push_put p buf = p\<lparr>p_pool := p_pool p @ [buf]\<rparr>"

text \<open>\<open>pop\<close>: the steal, and the saturating decrement that follows a success.\<close>

definition pop_steal :: "buffer_pool \<Rightarrow> buffer_pool \<times> pool_pc" where
  "pop_steal p =
     (case p_pool p of
        [] \<Rightarrow> (p, Outside)
      | buf # rest \<Rightarrow> (p\<lparr>p_pool := rest\<rparr>, PopUpdate buf))"

definition pop_update :: "buffer_pool \<Rightarrow> buffer_pool" where
  "pop_update p = p\<lparr>p_count := p_count p - 1\<rparr>"

text \<open>The threads of the pool; each step is one atomic action of one thread.\<close>

inductive pool_step :: "buffer_pool \<times> pool_pc list \<Rightarrow> buffer_pool \<times> pool_pc list \<Rightarrow> bool" where
  load: "i < length ts \<Longrightarrow> ts ! i = Outside \<Longrightarrow> pool_step (p, ts) (p, ts[i := push_load p buf])"
| turn: "i < length ts \<Longrightarrow> ts ! i = PushCheck buf current \<Longrightarrow>
    push_turn p spurious buf current = (p', pc) \<Longrightarrow> pool_step (p, ts) (p', ts[i := pc])"
| put: "i < length ts \<Longrightarrow> ts ! i = PushPut buf \<Longrightarrow>
    pool_step (p, ts) (push_put p buf, ts[i := Outside])"
| steal: "i < length ts \<Longrightarrow> ts ! i = Outside \<Longrightarrow> pop_steal p = (p', pc) \<Longrightarrow>
    pool_step (p, ts) (p', ts[i := pc])"
| update: "i < length ts \<Longrightarrow> ts ! i = PopUpdate buf \<Longrightarrow>
    pool_step (p, ts) (pop_update p, ts[i := Outside])"

inductive_cases pool_stepE: "pool_step s s'"

section \<open>Accounting\<close>

fun in_flight :: "pool_pc \<Rightarrow> nat" where
  "in_flight (PushPut buf) = 1"
| "in_flight (PopUpdate buf) = 1"
| "in_flight _ = 0"

definition pool_inv :: "buffer_pool \<times> pool_pc list \<Rightarrow> bool" where
  "pool_inv s \<longleftrightarrow> p_count (fst s) = length (p_pool (fst s)) + sum_list (map in_flight (snd s)) \<and>
     p_count (fst s) \<le> p_capacity (fst s)"

lemma pool_step_inv: "pool_step s s' \<Longrightarrow> pool_inv s \<Longrightarrow> pool_inv s' \<and> p_capacity (fst s') = p_capacity (fst s)"
proof (induction rule: pool_step.induct)
  case (load i ts p buf)
  then show ?case
    using sum_list_map_update [of i ts in_flight "push_load p buf"] by (simp add: pool_inv_def push_load_def)
next
  case (turn i ts buf current p spurious p' pc)
  then show ?case
    using sum_list_map_update [of i ts in_flight pc] by (auto simp: pool_inv_def push_turn_def split: if_splits)
next
  case (put i ts buf p)
  then show ?case
    using sum_list_map_update [of i ts in_flight Outside] by (simp add: pool_inv_def push_put_def)
next
  case (steal i ts p p' pc)
  then show ?case
    using sum_list_map_update [of i ts in_flight pc] by (auto simp: pool_inv_def pop_steal_def split: list.splits)
next
  case (update i ts buf p)
  then show ?case
    using sum_list_map_update [of i ts in_flight Outside] by (auto simp: pool_inv_def pop_update_def)
qed

text \<open>
  C34. Under every interleaving of pushes and pops by any number of threads, the pool never
  retains more buffers than its capacity, the count never drifts from the buffers that are
  in the pool or on their way, and the saturating decrement of \<open>pop\<close> never saturates.
\<close>

theorem pool_bounded:
  assumes "pool_step\<^sup>*\<^sup>* (pool_new capacity, replicate n Outside) (p, ts)"
  shows "length (p_pool p) \<le> p_count p \<and> p_count p \<le> max capacity 16 \<and>
    p_count p = length (p_pool p) + sum_list (map in_flight ts) \<and>
    (\<forall>i<length ts. in_flight (ts ! i) \<le> p_count p)"
proof -
  have "pool_inv (p, ts) \<and> p_capacity (fst (p, ts)) = max capacity 16"
    using assms
  proof (induction rule: rtranclp_induct)
    case base
    have "sum_list (map in_flight (replicate n Outside)) = 0" by (induction n) auto
    then show ?case by (simp add: pool_inv_def pool_new_def)
  next
    case (step s s')
    then show ?case using pool_step_inv by simp
  qed
  then show ?thesis
    using member_le_sum_list_map [of _ ts in_flight] by (fastforce simp: pool_inv_def intro: trans_le_add2)
qed

theorem pool_bounded_witness:
  "\<exists>p ts. pool_step\<^sup>*\<^sup>* (pool_new 1, replicate 2 Outside) (p, ts) \<and> p_pool p = [DR_U8 7] \<and>
     length (p_pool p) \<le> p_count p \<and> p_count p \<le> max 1 16"
proof -
  let ?p = "pool_new 1" and ?b = "DR_U8 7"
  let ?p1 = "?p\<lparr>p_count := 1\<rparr>" and ?p2 = "?p\<lparr>p_count := 1, p_pool := [?b]\<rparr>"
  have 1: "pool_step (?p, [Outside, Outside]) (?p, [PushCheck ?b 0, Outside])"
    using load [of 0 "[Outside, Outside]" ?p ?b] by (simp add: push_load_def pool_new_def)
  have 2: "pool_step (?p, [PushCheck ?b 0, Outside]) (?p1, [PushPut ?b, Outside])"
    using turn [of 0 "[PushCheck ?b 0, Outside]" ?b 0 ?p False]
    by (simp add: push_turn_def pool_new_def)
  have 3: "pool_step (?p1, [PushPut ?b, Outside]) (?p2, [Outside, Outside])"
    using put [of 0 "[PushPut ?b, Outside]" ?b ?p1] by (simp add: push_put_def pool_new_def)
  have "pool_step\<^sup>*\<^sup>* (pool_new 1, replicate 2 Outside) (?p2, [Outside, Outside])"
    using 1 2 3 by (simp add: numeral_2_eq_2 converse_rtranclp_into_rtranclp)
  from pool_bounded [OF this] this show ?thesis
    by (intro exI [of _ ?p2] exI [of _ "[Outside, Outside]"]) simp
qed

end
