(* ===== verification/Decoder_Cache.thy ===== *)
theory Decoder_Cache
  imports Rust_Prelude
begin

text \<open>
  \<open>next_tile_uses\<close> and \<open>DecoderCache\<close> of \<open>raster/prefetch.rs\<close>: the open tile decoders of one
  mosaic worker. On a miss in a full cache the tile needed furthest in the future goes.
\<close>

section \<open>The job list\<close>

record chunk_ref =
  c_tile :: usize
  c_chunk :: u32
  c_north :: f64
  c_south :: f64
  c_overlap :: bool

definition MAX_OPEN_DECODERS_PER_WORKER :: usize where
  "MAX_OPEN_DECODERS_PER_WORKER = 16"

text \<open>One iteration of the loop over the jobs from the last to the first.\<close>

definition uses_step :: "chunk_ref list \<Rightarrow> usize \<Rightarrow> usize list \<times> usize list \<Rightarrow> usize list \<times> usize list" where
  "uses_step refs job_id = (\<lambda>(next_uses, next_by_tile).
     (next_uses[job_id := next_by_tile ! c_tile (refs ! job_id)],
      next_by_tile[c_tile (refs ! job_id) := job_id]))"

definition next_tile_uses :: "chunk_ref list \<Rightarrow> usize \<Rightarrow> usize list" where
  "next_tile_uses refs tile_count =
     fst (fold (uses_step refs) (rev [0..<length refs])
            (replicate (length refs) usize_max, replicate tile_count usize_max))"

text \<open>The reference: the first job from \<open>k\<close> on that uses tile \<open>t\<close>.\<close>

definition first_use :: "chunk_ref list \<Rightarrow> usize \<Rightarrow> nat \<Rightarrow> usize" where
  "first_use refs t k =
     (case find (\<lambda>i. c_tile (refs ! i) = t) [k..<length refs] of Some i \<Rightarrow> i | None \<Rightarrow> usize_max)"

lemma first_use_end: "length refs \<le> k \<Longrightarrow> first_use refs t k = usize_max"
  by (simp add: first_use_def)

lemma first_use_step:
  "k < length refs \<Longrightarrow>
     first_use refs t k = (if c_tile (refs ! k) = t then k else first_use refs t (Suc k))"
  by (simp add: first_use_def upt_conv_Cons)

lemma first_use_cases:
  assumes "length refs \<le> usize_max"
  shows "first_use refs t k = usize_max \<and> (\<forall>i. k \<le> i \<longrightarrow> i < length refs \<longrightarrow> c_tile (refs ! i) \<noteq> t) \<or>
         k \<le> first_use refs t k \<and> first_use refs t k < length refs \<and>
           c_tile (refs ! first_use refs t k) = t \<and>
           (\<forall>i. k \<le> i \<longrightarrow> i < first_use refs t k \<longrightarrow> c_tile (refs ! i) \<noteq> t)"
proof (induction "length refs - k" arbitrary: k)
  case 0
  then show ?case by (simp add: first_use_end)
next
  case (Suc n)
  then have k: "k < length refs" by simp
  show ?case
  proof (cases "c_tile (refs ! k) = t")
    case True
    with k show ?thesis by (simp add: first_use_step)
  next
    case False
    have "first_use refs t k = first_use refs t (Suc k)"
      using False k by (simp add: first_use_step)
    moreover have "k \<le> i \<longleftrightarrow> i = k \<or> Suc k \<le> i" for i
      by auto
    moreover have "n = length refs - Suc k" using Suc(2) by simp
    ultimately show ?thesis
      using Suc(1) [of "Suc k"] False by (metis Suc_leD)
  qed
qed

lemma first_use_ge: "length refs \<le> usize_max \<Longrightarrow> k \<le> usize_max \<Longrightarrow> k \<le> first_use refs t k"
  using first_use_cases [of refs t k] by linarith

lemma first_use_same:
  assumes "length refs \<le> usize_max" "k \<le> l" "l \<le> first_use refs t k"
  shows "first_use refs t l = first_use refs t k"
proof -
  have "first_use refs t k = first_use refs t l"
    using assms(2,3)
  proof (induction "l - k" arbitrary: k)
    case (Suc n)
    then have kl: "k < l" "k < first_use refs t k" by simp_all
    have "first_use refs t k = first_use refs t (Suc k)"
    proof (cases "k < length refs")
      case True
      with kl show ?thesis by (simp add: first_use_step split: if_splits)
    qed (simp add: first_use_end)
    with Suc kl show ?case by (metis Suc_diff_Suc Suc_inject Suc_leI)
  qed simp
  then show ?thesis by simp
qed

lemma uses_step_fold:
  assumes "set (map c_tile refs) \<subseteq> {..<tiles}" "k \<le> length refs"
  shows "\<exists>uses byt. fold (uses_step refs) (rev [k..<length refs])
            (replicate (length refs) usize_max, replicate tiles usize_max) = (uses, byt) \<and>
          length uses = length refs \<and> length byt = tiles \<and>
          (\<forall>t<tiles. byt ! t = first_use refs t k) \<and>
          (\<forall>j<length refs. k \<le> j \<longrightarrow> uses ! j = first_use refs (c_tile (refs ! j)) (Suc j))"
  using assms(2)
proof (induction "length refs - k" arbitrary: k)
  case 0
  then show ?case by (simp add: first_use_end)
next
  case (Suc n)
  then have k: "k < length refs" "n = length refs - Suc k" "Suc k \<le> length refs" by simp_all
  from Suc(1) [OF k(2,3)] obtain uses byt where IH:
    "fold (uses_step refs) (rev [Suc k..<length refs])
       (replicate (length refs) usize_max, replicate tiles usize_max) = (uses, byt)"
    "length uses = length refs" "length byt = tiles"
    "\<forall>t<tiles. byt ! t = first_use refs t (Suc k)"
    "\<forall>j<length refs. Suc k \<le> j \<longrightarrow> uses ! j = first_use refs (c_tile (refs ! j)) (Suc j)"
    by blast
  have t: "c_tile (refs ! k) < tiles"
    using assms(1) k(1) by (auto simp: subset_iff)
  have "fold (uses_step refs) (rev [k..<length refs])
       (replicate (length refs) usize_max, replicate tiles usize_max) =
     (uses[k := byt ! c_tile (refs ! k)], byt[c_tile (refs ! k) := k])"
    using k IH(1) by (simp add: upt_conv_Cons uses_step_def)
  with IH k t show ?case
    by (auto simp: nth_list_update first_use_step)
qed

section \<open>The cache\<close>

text \<open>An entry is (tile index, next use, decoder).\<close>

record 'v decoder_cache =
  dc_capacity :: usize
  dc_next_uses :: "usize list"
  dc_entries :: "(usize \<times> usize \<times> 'v) list"

definition cache_new :: "usize \<Rightarrow> usize list \<Rightarrow> 'v decoder_cache" where
  "cache_new capacity next_uses =
     \<lparr>dc_capacity = max capacity 1, dc_next_uses = next_uses, dc_entries = []\<rparr>"

text \<open>\<open>position\<close>: the first entry of the key.\<close>

definition position_key :: "usize \<Rightarrow> (usize \<times> usize \<times> 'v) list \<Rightarrow> nat option" where
  "position_key key es = find (\<lambda>i. fst (es ! i) = key) [0..<length es]"

text \<open>
  \<open>while *next_use <= job_id { *next_use = next_uses[*next_use] }\<close>: the index may be out of
  range and the loop may cycle, so the result is \<open>None\<close> unless it returns.
\<close>

partial_function (option) refresh_use :: "usize list \<Rightarrow> usize \<Rightarrow> usize \<Rightarrow> usize option" where
  "refresh_use uses job_id u =
     (if u \<le> job_id
      then (if u < length uses then refresh_use uses job_id (uses ! u) else None)
      else Some u)"

fun refresh_all :: "usize list \<Rightarrow> usize \<Rightarrow> (usize \<times> usize \<times> 'v) list \<Rightarrow> (usize \<times> usize \<times> 'v) list option" where
  "refresh_all uses job_id [] = Some []"
| "refresh_all uses job_id ((k, u, v) # es) =
     (case refresh_use uses job_id u of
        None \<Rightarrow> None
      | Some u' \<Rightarrow> map_option (Cons (k, u', v)) (refresh_all uses job_id es))"

text \<open>\<open>(0..n).max_by_key(..)\<close> keeps the last of several maxima.\<close>

definition furthest :: "(usize \<times> usize \<times> 'v) list \<Rightarrow> nat" where
  "furthest es =
     foldl (\<lambda>best i. if fst (snd (es ! best)) \<le> fst (snd (es ! i)) then i else best) 0 [1..<length es]"

definition swap_remove :: "'a list \<Rightarrow> nat \<Rightarrow> 'a list" where
  "swap_remove xs i = butlast (xs[i := last xs])"

text \<open>
  \<open>get_or_try_open\<close>. \<open>opened\<close> is what the \<open>open\<close> closure gives if it is called; the result is the
  cache after the call and the decoder at the position found, or the error of \<open>open\<close>. \<open>None\<close>
  is a panic or an endless refresh.
\<close>

definition evict :: "'v decoder_cache \<Rightarrow> usize \<Rightarrow> 'v decoder_cache option" where
  "evict c job_id =
     (if length (dc_entries c) = dc_capacity c
      then (case refresh_all (dc_next_uses c) job_id (dc_entries c) of
              None \<Rightarrow> None
            | Some es \<Rightarrow> (if es = [] then None else Some (c\<lparr>dc_entries := swap_remove es (furthest es)\<rparr>)))
      else Some c)"

definition next_use_of :: "'v decoder_cache \<Rightarrow> usize \<Rightarrow> usize" where
  "next_use_of c job_id =
     (if job_id < length (dc_next_uses c) then dc_next_uses c ! job_id else usize_max)"

definition touch :: "'v decoder_cache \<Rightarrow> usize \<Rightarrow> nat \<Rightarrow> 'v decoder_cache \<times> 'v" where
  "touch c job_id pos =
     (case dc_entries c ! pos of (k, _, v) \<Rightarrow>
        (c\<lparr>dc_entries := (dc_entries c)[pos := (k, next_use_of c job_id, v)]\<rparr>, v))"

definition get_or_try_open ::
  "'v decoder_cache \<Rightarrow> usize \<Rightarrow> usize \<Rightarrow> 'e + 'v \<Rightarrow> ('v decoder_cache \<times> ('e + 'v)) option" where
  "get_or_try_open c key job_id opened =
     (case position_key key (dc_entries c) of
        Some pos \<Rightarrow> (let (c', v) = touch c job_id pos in Some (c', Ok v))
      | None \<Rightarrow>
          (case evict c job_id of
             None \<Rightarrow> None
           | Some c1 \<Rightarrow>
               (case opened of
                  Inl e \<Rightarrow> Some (c1, Err e)
                | Inr dec \<Rightarrow>
                    (let c2 = c1\<lparr>dc_entries := dc_entries c1 @ [(key, 0, dec)]\<rparr>;
                         (c', v) = touch c2 job_id (length (dc_entries c2) - 1)
                     in Some (c', Ok v)))))"

section \<open>Refreshing and evicting\<close>

lemma refresh_use_first_use:
  assumes n: "length refs < usize_max"
    and uses: "uses = map (\<lambda>j. first_use refs (c_tile (refs ! j)) (Suc j)) [0..<length refs]"
    and job: "job < length refs"
  shows "p \<le> Suc job \<Longrightarrow> refresh_use uses job (first_use refs t p) = Some (first_use refs t (Suc job))"
proof (induction "Suc job - p" arbitrary: p rule: less_induct)
  case less
  let ?u = "first_use refs t p"
  have n': "length refs \<le> usize_max" using n by simp
  show ?case
  proof (cases "?u \<le> job")
    case False
    then have "first_use refs t (Suc job) = ?u"
      using first_use_same [OF n'] less.prems by simp
    with False show ?thesis by (simp add: refresh_use.simps)
  next
    case True
    then have u: "?u < length refs" "c_tile (refs ! ?u) = t" "p \<le> ?u"
      using first_use_cases [OF n', of t p] n job by auto
    then have "uses ! ?u = first_use refs t (Suc ?u)"
      by (simp add: uses)
    moreover have "refresh_use uses job (first_use refs t (Suc ?u)) = Some (first_use refs t (Suc job))"
      by (rule less.hyps) (use True u(3) in auto)
    ultimately show ?thesis
      using True u(1) by (subst refresh_use.simps) (simp add: uses)
  qed
qed

lemma furthest_max:
  "es \<noteq> [] \<Longrightarrow> furthest es < length es \<and> (\<forall>i<length es. fst (snd (es ! i)) \<le> fst (snd (es ! furthest es)))"
proof -
  let ?f = "\<lambda>best i. if fst (snd (es ! best)) \<le> fst (snd (es ! i)) then i else best"
  have "foldl ?f 0 [1..<n] < n \<and> (\<forall>i<n. fst (snd (es ! i)) \<le> fst (snd (es ! foldl ?f 0 [1..<n])))"
    if "0 < n" for n
    using that
  proof (induction n)
    case (Suc n)
    show ?case
    proof (cases "n = 0")
      case False
      then have "[1..<Suc n] = [1..<n] @ [n]" by simp
      with Suc.IH False show ?thesis by (auto simp: less_Suc_eq intro: order_trans)
    qed simp
  qed simp
  then show "es \<noteq> [] \<Longrightarrow> ?thesis" by (auto simp: furthest_def)
qed

lemma mset_swap_remove:
  assumes "i < length xs"
  shows "mset (swap_remove xs i) = mset xs - {#xs ! i#}"
proof -
  have ne: "xs \<noteq> []" using assms by auto
  have "mset (xs[i := last xs]) = add_mset (last xs) (mset xs - {#xs ! i#})"
    by (rule mset_update [OF assms])
  moreover have "last (xs[i := last xs]) = last xs"
    using ne assms by (simp add: last_list_update)
  moreover have "mset (xs[i := last xs]) = add_mset (last (xs[i := last xs])) (mset (butlast (xs[i := last xs])))"
    using ne by (metis append_butlast_last_id list_update_nonempty mset.simps(2) mset_append add_mset_add_single mset_single_iff)
  ultimately show ?thesis by (simp add: swap_remove_def)
qed

lemma swap_remove_props:
  assumes "distinct (map fst xs)" "i < length xs"
  shows "distinct (map fst (swap_remove xs i))"
    and "set (swap_remove xs i) = set xs - {xs ! i}"
    and "length (swap_remove xs i) = length xs - 1"
    and "fst ` set (swap_remove xs i) = fst ` set xs - {fst (xs ! i)}"
proof -
  have m: "mset xs = add_mset (xs ! i) (mset (swap_remove xs i))"
    using assms(2) by (simp add: mset_swap_remove)
  then have f: "mset (map fst xs) = add_mset (fst (xs ! i)) (mset (map fst (swap_remove xs i)))"
    by (metis image_mset_add_mset mset_map)
  have "distinct (fst (xs ! i) # map fst (swap_remove xs i))"
    using assms(1) f by (metis mset.simps(2) mset_eq_imp_distinct_iff)
  then show d: "distinct (map fst (swap_remove xs i))" and "set (swap_remove xs i) = set xs - {xs ! i}"
    and "fst ` set (swap_remove xs i) = fst ` set xs - {fst (xs ! i)}"
    using m f by (auto dest!: arg_cong [of _ _ set_mset] simp flip: set_mset_mset)
  show "length (swap_remove xs i) = length xs - 1"
    using assms(2) by (simp add: swap_remove_def)
qed

section \<open>The cache invariant\<close>

definition dc_keys :: "'v decoder_cache \<Rightarrow> usize set" where
  "dc_keys c = fst ` set (dc_entries c)"

text \<open>
  Before job \<open>t\<close> of the job list, the next use stored with an entry is the first use of its
  tile from some job at or before \<open>t\<close> on: it may be stale, because other workers take jobs too.
\<close>

definition cache_ok :: "chunk_ref list \<Rightarrow> 'v decoder_cache \<Rightarrow> nat \<Rightarrow> bool" where
  "cache_ok refs c t \<longleftrightarrow> 0 < dc_capacity c \<and> length (dc_entries c) \<le> dc_capacity c \<and>
     distinct (map fst (dc_entries c)) \<and>
     dc_next_uses c = map (\<lambda>j. first_use refs (c_tile (refs ! j)) (Suc j)) [0..<length refs] \<and>
     (\<forall>e\<in>set (dc_entries c). \<exists>p\<le>t. fst (snd e) = first_use refs (fst e) p)"

lemma cache_ok_mono: "cache_ok refs c t \<Longrightarrow> t \<le> t' \<Longrightarrow> cache_ok refs c t'"
  unfolding cache_ok_def by (meson order_trans)

lemma refresh_all_first_use:
  assumes "length refs < usize_max" "job < length refs"
    and "uses = map (\<lambda>j. first_use refs (c_tile (refs ! j)) (Suc j)) [0..<length refs]"
    and "\<forall>e\<in>set es. \<exists>p\<le>job. fst (snd e) = first_use refs (fst e) p"
  shows "refresh_all uses job es = Some (map (\<lambda>e. (fst e, first_use refs (fst e) (Suc job), snd (snd e))) es)"
  using assms(4)
proof (induction es)
  case (Cons e es)
  obtain k u v where e: "e = (k, u, v)" by (cases e)
  with Cons.prems obtain p where "p \<le> job" "u = first_use refs k p" by auto
  then have "refresh_use uses job u = Some (first_use refs k (Suc job))"
    using refresh_use_first_use [OF assms(1,3,2), of p k] by simp
  with Cons e show ?case by simp
qed simp

lemma evict_spec:
  assumes n: "length refs < usize_max" and job: "job < length refs" and ok: "cache_ok refs c job"
  shows "\<exists>c1. evict c job = Some c1 \<and> cache_ok refs c1 (Suc job) \<and>
           length (dc_entries c1) < dc_capacity c1 \<and> dc_keys c1 \<subseteq> dc_keys c \<and>
           dc_capacity c1 = dc_capacity c \<and>
           (\<forall>k\<in>dc_keys c - dc_keys c1. \<forall>k'\<in>dc_keys c1.
              first_use refs k' (Suc job) \<le> first_use refs k (Suc job))"
proof (cases "length (dc_entries c) = dc_capacity c")
  case False
  then show ?thesis
    using ok cache_ok_mono [OF ok, of "Suc job"] by (simp add: evict_def cache_ok_def)
next
  case full: True
  let ?g = "\<lambda>e. (fst e, first_use refs (fst e) (Suc job), snd (snd e))"
  let ?es = "map ?g (dc_entries c)" and ?f = "furthest (map ?g (dc_entries c))"
  let ?c1 = "c\<lparr>dc_entries := swap_remove ?es ?f\<rparr>"
  have uses: "dc_next_uses c = map (\<lambda>j. first_use refs (c_tile (refs ! j)) (Suc j)) [0..<length refs]"
    and fresh: "\<forall>e\<in>set (dc_entries c). \<exists>p\<le>job. fst (snd e) = first_use refs (fst e) p"
    and dist: "distinct (map fst (dc_entries c))" and cap: "0 < dc_capacity c"
    using ok by (simp_all add: cache_ok_def)
  have ne: "?es \<noteq> []" using full cap by auto
  have fst_es: "map fst ?es = map fst (dc_entries c)" by (simp add: comp_def)
  have use: "fst (snd e) = first_use refs (fst e) (Suc job)" if "e \<in> set ?es" for e
    using that by auto
  note fm = furthest_max [OF ne]
  have d: "distinct (map fst ?es)" by (simp only: fst_es dist)
  note sr = swap_remove_props [OF d conjunct1 [OF fm]]
  have "evict c job = Some ?c1"
    using full ne refresh_all_first_use [OF n job uses fresh] by (simp add: evict_def)
  moreover have "cache_ok refs ?c1 (Suc job)"
    using ok sr(1,3) full use
    by (auto simp: cache_ok_def sr(2) intro!: exI [of _ "Suc job"])
  moreover have "length (dc_entries ?c1) < dc_capacity ?c1"
    using sr(3) full cap by simp
  moreover have keys: "dc_keys ?c1 = dc_keys c - {fst (?es ! ?f)}"
    using sr(4) by (simp add: dc_keys_def image_image case_prod_beta)
  moreover have "first_use refs k' (Suc job) \<le> first_use refs (fst (?es ! ?f)) (Suc job)"
    if "k' \<in> dc_keys c" for k'
  proof -
    from that obtain i where i: "i < length ?es" "fst (?es ! i) = k'"
      by (auto simp: dc_keys_def in_set_conv_nth case_prod_beta)
    then have "first_use refs k' (Suc job) = fst (snd (?es ! i))"
      using use [OF nth_mem [OF i(1)]] by simp
    also have "\<dots> \<le> fst (snd (?es ! ?f))" using fm i(1) by blast
    also have "\<dots> = first_use refs (fst (?es ! ?f)) (Suc job)"
      by (rule use [OF nth_mem]) (use fm in blast)
    finally show ?thesis .
  qed
  ultimately show ?thesis by auto
qed

text \<open>The entry at the position used is renewed; everything else stays.\<close>

lemma touch_spec:
  assumes "cache_ok refs c (Suc job)" "job < length refs" "pos < length (dc_entries c)"
    and "fst (dc_entries c ! pos) = c_tile (refs ! job)"
  shows "cache_ok refs (fst (touch c job pos)) (Suc job)" "dc_keys (fst (touch c job pos)) = dc_keys c"
proof -
  obtain k u v where e: "dc_entries c ! pos = (k, u, v)" by (cases "dc_entries c ! pos")
  let ?es = "(dc_entries c)[pos := (k, next_use_of c job, v)]"
  have nu: "next_use_of c job = first_use refs k (Suc job)"
    using assms e by (simp add: cache_ok_def next_use_of_def)
  have m: "map fst ?es = map fst (dc_entries c)"
    using e assms(3) by (simp add: map_update list_update_same_conv)
  have t: "touch c job pos = (c\<lparr>dc_entries := ?es\<rparr>, v)" by (simp add: touch_def e)
  have "\<forall>e\<in>set ?es. \<exists>p\<le>Suc job. fst (snd e) = first_use refs (fst e) p"
  proof
    fix e assume "e \<in> set ?es"
    then consider "e = (k, next_use_of c job, v)" | "e \<in> set (dc_entries c)"
      using set_update_subset_insert by fastforce
    then show "\<exists>p\<le>Suc job. fst (snd e) = first_use refs (fst e) p"
      using nu assms(1) by cases (auto simp: cache_ok_def)
  qed
  then show "cache_ok refs (fst (touch c job pos)) (Suc job)"
    using assms(1) m by (simp add: t cache_ok_def)
  show "dc_keys (fst (touch c job pos)) = dc_keys c"
    using arg_cong [OF m, of set] by (simp add: t dc_keys_def)
qed

lemma position_key_Some:
  "position_key key es = Some pos \<Longrightarrow> pos < length es \<and> fst (es ! pos) = key"
  by (auto simp: position_key_def find_Some_iff)

lemma position_key_None: "position_key key es = None \<longleftrightarrow> key \<notin> fst ` set es"
proof -
  have "position_key key es = None \<longleftrightarrow> (\<forall>i<length es. key \<noteq> fst (es ! i))"
    by (auto simp: position_key_def find_None_iff)
  also have "\<dots> \<longleftrightarrow> key \<notin> fst ` set es"
    by (metis (no_types, lifting) image_iff in_set_conv_nth)
  finally show ?thesis .
qed

section \<open>Properties\<close>

text \<open>
  C32. \<open>next_tile_uses\<close> gives each job the next job that uses the same tile, and \<open>usize::MAX\<close> at
  a tile's last job.
\<close>

theorem next_tile_uses_correct:
  assumes "set (map c_tile refs) \<subseteq> {..<tiles}"
  shows "next_tile_uses refs tiles = map (\<lambda>j. first_use refs (c_tile (refs ! j)) (Suc j)) [0..<length refs]"
  using uses_step_fold [OF assms, of 0]
  by (auto simp: next_tile_uses_def intro: nth_equalityI)

theorem next_tile_uses_correct_witness:
  "let refs = map (\<lambda>t. \<lparr>c_tile = t, c_chunk = 0, c_north = 0, c_south = 0, c_overlap = False\<rparr>) [0, 1, 0, 2, 1] in
   next_tile_uses refs 3 = [2, 4, usize_max, usize_max, usize_max]"
  using next_tile_uses_correct [of "map (\<lambda>t. \<lparr>c_tile = t, c_chunk = 0, c_north = 0, c_south = 0, c_overlap = False\<rparr>) [0, 1, 0, 2, 1]" 3]
  by (simp add: first_use_def upt_rec)



end
