(* ===== verification/Spec2Isabelle.thy ===== *)
theory Spec2Isabelle
  imports Compaction Partition Predictor Fast_Hex Remap Http_Range Wkb Pmtiles_Writer Mvt_Geometry Ipc Prefetch_Memory Buffer_Pool Decoder_Cache
begin

text \<open>
  A verification development for \<open>raster-h3-core\<close> (\<open>src/crates/raster-h3-core/src\<close>), the library that
  turns GeoTIFF rasters into aggregates on H3 cells and writes them as columns, vector tiles and
  archives. Paths below are relative to that directory.

  \<^bold>\<open>The program.\<close> A mosaic of rasters is a list of chunks, ordered by latitude. Workers read and decode
  the chunks ahead of the consumer (\<open>raster/prefetch.rs\<close>), over byte ranges when a file is remote
  (\<open>raster/http_range.rs\<close>), undo the TIFF predictor and unpack the samples (\<open>raster/predictor.rs\<close>). Samples
  are accumulated per cell (\<open>aggregator\<close>: statistics, quantile sketches, class frequencies, after an
  optional remapping of categories). Active cells live in sharded maps per resolution; cells the scan
  has passed are evicted, memory pressure writes sorted runs of partial states to disk, and complete
  sets of sibling cells become their parent (\<open>aggregator/multi_horizon\<close>). A scan may be split into
  partitions whose partial states are merged later. Finished records go through a bounded buffer to an
  encoder: columnar batches and their stream (\<open>columnar\<close>), Well-Known Binary and hexadecimal text
  (\<open>encoding\<close>), vector tiles in a PMTiles archive (\<open>pmtiles\<close>).

  \<^bold>\<open>Vocabulary.\<close> Theory \<open>Rust_Prelude\<close> has the machine integers (words of their width; \<open>usize\<close> is \<open>nat\<close>, with
  checked and saturating operations where the code depends on the width), results as sums, the crate's
  error type and generic lemmas; \<open>Byte_Codec\<close>, \<open>Varint\<close>, \<open>Utf8\<close> and \<open>Rust_Str\<close> the byte-level encodings and
  strings. \<open>Float64\<close> defines IEEE 754 arithmetic on bit patterns, with rounding to nearest even and Rust's
  comparisons, conversions and \<open>min\<close>/\<open>max\<close>; \<open>Float_Order\<close> reduces the order of floats to that of integer
  keys and shows which operations give numbers. The square root, logarithms and other functions of the
  standard library that IEEE 754 leaves open are parameters or uninterpreted.

  \<^bold>\<open>Prefetching\<close> (\<open>raster/prefetch.rs\<close>). \<open>Ordered_Queue\<close> models \<open>OrderedPrefetchQueue\<close> (claim, deliver, fail, drain),
  \<open>Decode_Budget\<close> the byte budget with its grants in claim order, \<open>Buffer_Pool\<close> the pool of buffers,
  \<open>Decoder_Cache\<close> \<open>next_tile_uses\<close> and the cache of open decoders with its eviction of the tile used last.
  \<open>Prefetch\<close> puts them together as a step relation over any number of workers and a consumer, one step per
  critical section, with panics and failures; \<open>Prefetch_Live\<close> proves accounting, order, completeness,
  freedom from deadlock and termination by a decreasing measure, \<open>Prefetch_Memory\<close> the memory bound.

  \<^bold>\<open>Input.\<close> \<open>Http_Range\<close> models the checks of range responses, retries with a bounded number of attempts, the
  block cache and the reader over it, and shows that reads refine reads of the file. \<open>Predictor\<close> models
  horizontal and floating-point predictors and the unpacking of samples of any bit depth, shows the
  vector code equal to the scalar code, and that they invert the encoders the TIFF specification gives.

  \<^bold>\<open>Accumulators\<close> (\<open>aggregator\<close>). \<open>Accumulator\<close>: Welford statistics (\<open>H3Accumulator\<close>), \<open>Quantile\<close>: the sketch,
  \<open>Categorical\<close>: inline slots that spill to a map, \<open>Remap\<close>: category rules and their dense table. A hash map
  is the list of its entries in an order nothing relies on.

  \<^bold>\<open>Streaming\<close> (\<open>aggregator/multi_horizon\<close>). \<open>Sharded_Map\<close> models the shards with eviction heaps and exact
  memory accounts, \<open>Spill\<close> and \<open>Spill_Runs\<close> the state encoding, sorted runs and the binary-carry levels
  (interface \<open>spillable\<close>, interpreted for statistics and class frequencies), \<open>Lifecycle\<close> the latched state
  and the output buffer, \<open>Compaction\<close> the groups of siblings with lazily invalidated heaps, \<open>Partition\<close> the
  planning of independent partitions.

  \<^bold>\<open>Output.\<close> \<open>Columnar\<close> and \<open>Ipc\<close>: batches, validity, and the binary stream with its incremental reader. \<open>Wkb\<close>,
  \<open>Wkb_Reader\<close>, \<open>Fast_Hex\<close>: the encoders of \<open>encoding\<close> and the polygon reader. \<open>Mvt_Value\<close>, \<open>Mvt_Layer\<close> and
  \<open>Mvt_Geometry\<close>: properties, layers and polygons of vector tiles, against the reference reader of
  \<open>Protobuf\<close>. \<open>Hilbert\<close>, \<open>Pm_Directory\<close>, \<open>Pmtiles_Writer\<close>: tile numbering, directories and the archive builder.

  \<^bold>\<open>What the lemmas show.\<close> For each component an invariant of its state that every operation keeps, what each
  operation returns on every branch including its errors, and the absence of panics (an index out of
  range, a subtraction below zero, a failed expectation is \<open>None\<close>). Encoders are shown invertible by the
  program's reader where it has one and by a reader written from the format's specification elsewhere.
  Optimised routines are shown equal to plain ones. Concurrent parts are step relations with invariants
  over reachable states. The manifest lists the forty properties in order of importance.

  \<^bold>\<open>Loops and fuel.\<close> Loops are structural recursion or have a measure; where a loop's end depends on the
  input, fuel bounds it and a lemma shows that the fuel suffices (the retries of a request, the reader of
  the columnar stream).

  \<^bold>\<open>Parameters.\<close> Code outside the repository is an argument of the definitions that use it: the cell grid of
  \<open>h3o\<close>, coordinate transformations, compression, HTTP transport, the decoder of a TIFF chunk, the
  capacities standard containers choose. What the code relies on is a named hypothesis.

  \<^bold>\<open>Not modelled.\<close> Coordinate transformation and its certified bounds (numeric analysis of trigonometric
  functions), the GeoTIFF and Parquet readers and writers (glue over the \<open>tiff\<close>, \<open>parquet\<close> and \<open>arrow\<close>
  crates), the vector code for floating-point statistics (equal only up to rounding), the walk over pixels
  and the tile pyramid (driven by projections), the Arrow C interface (raw pointers), and the bindings for
  SQL engines, Python and the command line. Failures of the local disk are left out; messages of errors are
  shortened where they only format numbers.
\<close>

end
